(* ===== verification/Prelude.thy ===== *)
theory Prelude
  imports Main "HOL-Library.Word"
begin

text \<open>
  Shared vocabulary of the development: the machine types of the Rust sources, the checked,
  saturating and wrapping operations of Rust's integers, result values, and the generic list
  lemmas that the component theories rely on.

  Bytes are words of width 8.  Lengths, offsets and counters are natural numbers with the width
  of the source type written out wherever the source narrows, wraps, saturates or checks.  The
  sources fix a 64-bit target (they assert the size of a record of one \<open>u32\<close> and two \<open>usize\<close>
  fields to be 24 bytes), so \<open>usize\<close> has the range of \<open>u64\<close>.
\<close>

unbundle bit_operations_syntax

type_synonym byte = "8 word"
type_synonym bytes = "byte list"

abbreviation u32_max :: nat where "u32_max \<equiv> 4294967295"
abbreviation u64_max :: nat where "u64_max \<equiv> 18446744073709551615"
abbreviation usize_max :: nat where "usize_max \<equiv> u64_max"
abbreviation i64_max :: int where "i64_max \<equiv> 9223372036854775807"
abbreviation i64_min :: int where "i64_min \<equiv> - 9223372036854775808"
abbreviation i32_max :: nat where "i32_max \<equiv> 2147483647"

named_theorems limits "bounds that the components' arithmetic proofs use"

section \<open>Integer operations of the source language\<close>

definition as_u32 :: "nat \<Rightarrow> nat" where
  "as_u32 n = n mod (u32_max + 1)"

definition as_u64 :: "int \<Rightarrow> nat" where
  "as_u64 v = nat (v mod (int u64_max + 1))"

definition as_i64 :: "nat \<Rightarrow> int" where
  "as_i64 n = (if int n \<le> i64_max then int n else int n - (int u64_max + 1))"

definition sat_add32 :: "nat \<Rightarrow> nat \<Rightarrow> nat" where
  "sat_add32 a b = min (a + b) u32_max"

definition sat_add64 :: "nat \<Rightarrow> nat \<Rightarrow> nat" where
  "sat_add64 a b = min (a + b) u64_max"

definition checked_add64 :: "nat \<Rightarrow> nat \<Rightarrow> nat option" where
  "checked_add64 a b = (if a + b \<le> u64_max then Some (a + b) else None)"

definition checked_mul64 :: "nat \<Rightarrow> nat \<Rightarrow> nat option" where
  "checked_mul64 a b = (if a * b \<le> u64_max then Some (a * b) else None)"

definition checked_add32 :: "nat \<Rightarrow> nat \<Rightarrow> nat option" where
  "checked_add32 a b = (if a + b \<le> u32_max then Some (a + b) else None)"

definition checked_mul32 :: "nat \<Rightarrow> nat \<Rightarrow> nat option" where
  "checked_mul32 a b = (if a * b \<le> u32_max then Some (a * b) else None)"

definition overflowing_add64 :: "nat \<Rightarrow> nat \<Rightarrow> nat \<times> bool" where
  "overflowing_add64 a b = ((a + b) mod (u64_max + 1), u64_max < a + b)"

definition wrapping_sub64 :: "nat \<Rightarrow> nat \<Rightarrow> nat" where
  "wrapping_sub64 a b = nat ((int a - int b) mod (int u64_max + 1))"

definition wrapping_add64 :: "nat \<Rightarrow> nat \<Rightarrow> nat" where
  "wrapping_add64 a b = (a + b) mod (u64_max + 1)"

definition checked_i64 :: "int \<Rightarrow> int option" where
  "checked_i64 v = (if i64_min \<le> v \<and> v \<le> i64_max then Some v else None)"

lemma as_u32_id [simp]: "n \<le> u32_max \<Longrightarrow> as_u32 n = n"
  by (simp add: as_u32_def)

lemma as_u32_bound [limits]: "as_u32 n \<le> u32_max"
  using mod_less_divisor[of "u32_max + 1" n] by (simp add: as_u32_def)

lemma sat_add32_id [simp]: "a + b \<le> u32_max \<Longrightarrow> sat_add32 a b = a + b"
  by (simp add: sat_add32_def)

lemma sat_add64_id [simp]: "a + b \<le> u64_max \<Longrightarrow> sat_add64 a b = a + b"
  by (simp add: sat_add64_def)

lemma as_u64_bound [limits]: "as_u64 v \<le> u64_max"
  by (simp add: as_u64_def nat_le_iff)

lemma as_i64_as_u64:
  assumes "i64_min \<le> v" and "v \<le> i64_max"
  shows "as_i64 (as_u64 v) = v"
proof (cases "0 \<le> v")
  case True
  with assms have "v mod 18446744073709551616 = v" by (simp add: mod_pos_pos_trivial)
  with True assms show ?thesis by (simp add: as_i64_def as_u64_def)
next
  case False
  with assms have "v mod 18446744073709551616 = v + 18446744073709551616"
    by (intro int_mod_pos_eq [where q = "-1"]) auto
  with False assms show ?thesis by (simp add: as_i64_def as_u64_def)
qed

lemma wrapping_sub64_id: "b \<le> a \<Longrightarrow> a \<le> u64_max \<Longrightarrow> wrapping_sub64 a b = a - b"
  by (simp add: wrapping_sub64_def flip: of_nat_diff)

lemma wrapping_add64_id: "a + b \<le> u64_max \<Longrightarrow> wrapping_add64 a b = a + b"
  by (simp add: wrapping_add64_def)

section \<open>Byte strings\<close>

definition ascii :: "string \<Rightarrow> bytes" where
  "ascii s = map of_char s"

abbreviation CR :: byte where "CR \<equiv> 13"
abbreviation LF :: byte where "LF \<equiv> 10"

text \<open>\<open>slice a b xs\<close> is Rust's \<open>xs.get(a..b)\<close>, which is \<open>None\<close> when the range is not inside.\<close>

definition subslice :: "nat \<Rightarrow> nat \<Rightarrow> 'a list \<Rightarrow> 'a list option" where
  "subslice a b xs = (if a \<le> b \<and> b \<le> length xs then Some (take (b - a) (drop a xs)) else None)"

definition get :: "'a list \<Rightarrow> nat \<Rightarrow> 'a option" where
  "get xs i = (if i < length xs then Some (xs ! i) else None)"

fun position :: "('a \<Rightarrow> bool) \<Rightarrow> 'a list \<Rightarrow> nat option" where
  "position p [] = None"
| "position p (x # xs) = (if p x then Some 0 else map_option Suc (position p xs))"

lemma get_append [simp]: "get (xs @ x # ys) (length xs) = Some x"
  by (simp add: get_def)

lemma get_drop [simp]: "get (drop n xs) i = get xs (n + i)"
  by (auto simp: get_def)

lemma get_Some_less: "get xs i = Some x \<Longrightarrow> i < length xs \<and> x = xs ! i"
  by (auto simp: get_def split: if_splits)

lemma subslice_append [simp]:
  "a = length xs \<Longrightarrow> b = length xs + length ys \<Longrightarrow> subslice a b (xs @ ys @ zs) = Some ys"
  by (simp add: subslice_def)

lemma length_subslice: "subslice a b xs = Some ys \<Longrightarrow> length ys = b - a \<and> a \<le> b \<and> b \<le> length xs"
  by (auto simp: subslice_def split: if_splits)

lemma position_Some:
  "position p xs = Some i \<Longrightarrow> i < length xs \<and> p (xs ! i) \<and> (\<forall>j < i. \<not> p (xs ! j))"
proof (induction xs arbitrary: i)
  case Nil
  then show ?case by simp
next
  case (Cons x xs)
  then show ?case
    by (cases i) (auto split: if_splits simp: less_Suc_eq_0_disj)
qed

lemma position_None: "position p xs = None \<longleftrightarrow> (\<forall>x \<in> set xs. \<not> p x)"
  by (induction xs) auto

lemma position_append:
  "position p (xs @ ys) =
     (case position p xs of Some i \<Rightarrow> Some i | None \<Rightarrow> map_option ((+) (length xs)) (position p ys))"
proof (induction xs)
  case Nil
  show ?case by (cases "position p ys") simp_all
next
  case (Cons x xs)
  then show ?case by (cases "position p ys") (auto split: option.splits)
qed

lemma position_skip [simp]:
  "\<forall>x \<in> set xs. \<not> p x \<Longrightarrow> p y \<Longrightarrow> position p (xs @ y # ys) = Some (length xs)"
  by (induction xs) auto

section \<open>Results\<close>

text \<open>Rust's \<open>?\<close> on a \<open>Result\<close>, whose error is the left summand.\<close>

fun bindr :: "'e + 'a \<Rightarrow> ('a \<Rightarrow> 'e + 'b) \<Rightarrow> 'e + 'b" where
  "bindr (Inl e) f = Inl e"
| "bindr (Inr a) f = f a"

lemma bindr_Inr_iff: "bindr r f = Inr b \<longleftrightarrow> (\<exists>a. r = Inr a \<and> f a = Inr b)"
  by (cases r) auto

lemma bindr_Inl_iff: "bindr r f = Inl e \<longleftrightarrow> r = Inl e \<or> (\<exists>a. r = Inr a \<and> f a = Inl e)"
  by (cases r) auto

lemma bindr_Inr [simp]: "bindr r Inr = r"
  by (cases r) auto

lemma bindr_assoc: "bindr (bindr r f) g = bindr r (\<lambda>a. bindr (f a) g)"
  by (cases r) auto

fun map_err :: "('e \<Rightarrow> 'f) \<Rightarrow> 'e + 'a \<Rightarrow> 'f + 'a" where
  "map_err f (Inl e) = Inl (f e)"
| "map_err f (Inr a) = Inr a"

definition ok_or :: "'a option \<Rightarrow> 'e \<Rightarrow> 'e + 'a" where
  "ok_or r e = (case r of None \<Rightarrow> Inl e | Some a \<Rightarrow> Inr a)"

lemma map_err_Inr_iff: "map_err f r = Inr a \<longleftrightarrow> r = Inr a"
  by (cases r) auto

lemma ok_or_Inr_iff: "ok_or r e = Inr a \<longleftrightarrow> r = Some a"
  by (auto simp: ok_or_def split: option.splits)

lemmas result_simps = bindr_Inr_iff map_err_Inr_iff ok_or_Inr_iff

end
