(* ===== verification/Digits.thy ===== *)
theory Digits
  imports Prelude
begin

text \<open>
  \<open>core/src/lib.rs\<close>: the decimal writer shared by every encoder, and the number of digits that
  the length calculations of \<open>redis/src/request/encode\<close> charge for it.  \<open>decimal\<close> is the
  reference rendering; \<open>undecimal\<close> reads it back.
\<close>

section \<open>Reference rendering\<close>

definition digit_byte :: "nat \<Rightarrow> byte" where
  "digit_byte d = word_of_nat (48 + d)"

text \<open>\<open>digit b\<close> is Rust's \<open>byte.wrapping_sub(b'0')\<close>.\<close>

definition digit :: "byte \<Rightarrow> nat" where
  "digit b = (unat b + 208) mod 256"

fun decimal :: "nat \<Rightarrow> bytes" where
  "decimal n = (if n < 10 then [digit_byte n] else decimal (n div 10) @ [digit_byte (n mod 10)])"

declare decimal.simps [simp del]

definition undecimal :: "bytes \<Rightarrow> nat" where
  "undecimal bs = foldl (\<lambda>a b. a * 10 + digit b) 0 bs"

lemma unat_digit_byte: "d \<le> 9 \<Longrightarrow> unat (digit_byte d) = 48 + d"
  by (simp add: digit_byte_def unat_of_nat take_bit_eq_mod del: of_nat_add)

lemma digit_digit_byte [simp]: "d \<le> 9 \<Longrightarrow> digit (digit_byte d) = d"
  by (simp add: digit_def unat_digit_byte)

lemma digit_le_9_iff: "digit b \<le> 9 \<longleftrightarrow> 48 \<le> unat b \<and> unat b \<le> 57"
proof -
  have "unat b < 256" using unsigned_less[of b] by simp
  then show ?thesis
    by (cases "unat b < 48") (auto simp: digit_def mod_if)
qed

lemma decimal_less10 [simp]: "n < 10 \<Longrightarrow> decimal n = [digit_byte n]"
  by (simp add: decimal.simps)

lemma decimal_ge10: "\<not> n < 10 \<Longrightarrow> decimal n = decimal (n div 10) @ [digit_byte (n mod 10)]"
  by (subst decimal.simps) simp

lemma decimal_not_Nil [simp]: "decimal n \<noteq> []"
  by (subst decimal.simps) simp

lemma decimal_digits: "b \<in> set (decimal n) \<Longrightarrow> 48 \<le> unat b \<and> unat b \<le> 57"
proof (induction n rule: decimal.induct)
  case (1 n)
  have m: "n mod 10 \<le> 9" by presburger
  show ?case
  proof (cases "n < 10")
    case True
    with 1 show ?thesis by (simp add: unat_digit_byte)
  next
    case False
    with 1 m show ?thesis by (auto simp: decimal_ge10 unat_digit_byte)
  qed
qed

lemma decimal_digit_le_9: "b \<in> set (decimal n) \<Longrightarrow> digit b \<le> 9"
  by (simp add: digit_le_9_iff decimal_digits)

lemma undecimal_snoc [simp]: "undecimal (xs @ [b]) = undecimal xs * 10 + digit b"
  by (simp add: undecimal_def)

lemma undecimal_Nil [simp]: "undecimal [] = 0"
  by (simp add: undecimal_def)

lemma undecimal_decimal [simp]: "undecimal (decimal n) = n"
proof (induction n rule: decimal.induct)
  case (1 n)
  show ?case
  proof (cases "n < 10")
    case True
    then show ?thesis by (simp add: undecimal_def)
  next
    case False
    with 1 show ?thesis by (simp add: decimal_ge10)
  qed
qed

lemma decimal_inject [simp]: "decimal m = decimal n \<longleftrightarrow> m = n"
  by (metis undecimal_decimal)

lemma length_decimal_le:
  assumes "n < 10 ^ k" and "0 < k"
  shows "length (decimal n) \<le> k"
  using assms
proof (induction k arbitrary: n)
  case 0
  then show ?case by simp
next
  case (Suc k)
  show ?case
  proof (cases "n < 10")
    case True
    then show ?thesis by simp
  next
    case False
    with Suc.prems have "0 < k" by (cases k) auto
    moreover from Suc.prems have "n div 10 < 10 ^ k" by (simp add: less_mult_imp_div_less)
    ultimately have "length (decimal (n div 10)) \<le> k" by (rule Suc.IH [rotated])
    with False show ?thesis by (simp add: decimal_ge10)
  qed
qed

lemma length_decimal_u64: "n \<le> u64_max \<Longrightarrow> length (decimal n) \<le> 20"
  by (rule length_decimal_le) simp_all

section \<open>\<open>write_digits\<close>\<close>

text \<open>
  One turn of the loop steps the index down, stores a digit there and divides; \<open>None\<close> stands for
  the index underflow of \<open>index -= 1\<close>.
\<close>

fun write_digits_loop :: "bytes \<Rightarrow> nat \<Rightarrow> nat \<Rightarrow> (bytes \<times> nat) option" where
  "write_digits_loop buffer 0 v = None"
| "write_digits_loop buffer (Suc i) v =
     (let buffer = buffer[i := digit_byte (v mod 10)]; v = v div 10
      in if v = 0 then Some (buffer, i) else write_digits_loop buffer i v)"

definition write_digits :: "bytes \<Rightarrow> nat \<Rightarrow> (bytes \<times> nat) option" where
  "write_digits buffer v = write_digits_loop buffer (length buffer) v"

lemma write_digits_loop_eq:
  assumes "v < 10 ^ i" and "0 < i" and "i \<le> length b"
  shows "write_digits_loop b i v =
           Some (take (i - length (decimal v)) b @ decimal v @ drop i b, i - length (decimal v))"
  using assms
proof (induction i arbitrary: b v)
  case 0
  then show ?case by simp
next
  case (Suc i)
  have upd: "b[i := d] = take i b @ d # drop (Suc i) b" for d
    using Suc.prems by (simp add: upd_conv_take_nth_drop)
  show ?case
  proof (cases "v < 10")
    case True
    then have "v div 10 = 0" by simp
    with True show ?thesis by (simp add: upd)
  next
    case False
    then have nz: "v div 10 \<noteq> 0" by auto
    from False Suc.prems have i0: "0 < i" by (cases i) auto
    from Suc.prems have lt: "v div 10 < 10 ^ i" by (simp add: less_mult_imp_div_less)
    let ?L = "length (decimal (v div 10))"
    have L: "?L \<le> i" using lt i0 by (rule length_decimal_le)
    from Suc.prems have "write_digits_loop (b[i := digit_byte (v mod 10)]) i (v div 10) =
      Some (take (i - ?L) (b[i := digit_byte (v mod 10)]) @ decimal (v div 10)
              @ drop i (b[i := digit_byte (v mod 10)]), i - ?L)"
      by (intro Suc.IH [OF lt i0]) simp
    with False nz L Suc.prems show ?thesis
      by (simp add: decimal_ge10 upd min_def)
  qed
qed

lemma write_digits_eq:
  assumes "v \<le> u64_max" and "length b = 20"
  shows "write_digits b v =
           Some (take (20 - length (decimal v)) b @ decimal v, 20 - length (decimal v))"
  using assms by (simp add: write_digits_def write_digits_loop_eq)

section \<open>\<open>checked_ilog10\<close>\<close>

fun ilog10 :: "nat \<Rightarrow> nat" where
  "ilog10 n = (if n < 10 then 0 else Suc (ilog10 (n div 10)))"

declare ilog10.simps [simp del]

definition checked_ilog10 :: "nat \<Rightarrow> nat option" where
  "checked_ilog10 n = (if n = 0 then None else Some (ilog10 n))"

lemma ilog10_length: "Suc (ilog10 n) = length (decimal n)"
proof (induction n rule: ilog10.induct)
  case (1 n)
  then show ?case by (cases "n < 10") (simp_all add: ilog10.simps [of n] decimal_ge10)
qed

end
