(* ===== verification/Resp_Limit.thy ===== *)
theory Resp_Limit
  imports Digits
begin

text \<open>
  \<open>redis/src/protocol/parser/limit.rs\<close>: the limits of one RESP frame.  A \<open>Bound\<close> is a positive
  \<open>u32\<close>; \<open>End\<close> is the position after a marker or a line; \<open>Body\<close> packs the start and the stop of a
  line or a bulk into one 64-bit word; \<open>Line\<close> finds the terminator of a header line.  The phantom
  brands of the source (\<open>Frame\<close>, \<open>Value\<close>) have no run-time content, so the two kinds of bound share
  the type \<open>bound\<close> and their methods carry the brand in their name.
\<close>

section \<open>Bounds and the exact requirement of a rejected one\<close>

type_synonym bound = nat

record exceeded =
  exc_low :: nat
  exc_capacity :: nat
  exc_overflow :: bool

datatype invalid = Zero | Above nat nat

text \<open>\<open>limit_new\<close> is \<open>o3::depot::capacity::Limit::new\<close>, which is outside the repository.\<close>

definition bound_try_new :: "(nat \<Rightarrow> nat option) \<Rightarrow> nat \<Rightarrow> invalid + bound" where
  "bound_try_new limit_new value =
     (case limit_new value of
        None \<Rightarrow> Inl (if value = 0 then Zero else Above value u32_max)
      | Some v \<Rightarrow> Inr v)"

definition bound_consumed :: "bound \<Rightarrow> nat" where
  "bound_consumed b = sat_add64 1 (b - 1)"

definition exceeded_by :: "bound \<Rightarrow> nat \<Rightarrow> bool \<Rightarrow> exceeded" where
  "exceeded_by b low overflow =
     \<lparr>exc_low = low, exc_capacity = b, exc_overflow = overflow\<rparr>"

definition bound_count :: "bound \<Rightarrow> nat \<Rightarrow> nat \<Rightarrow> exceeded + nat" where
  "bound_count b len added =
     (if b < len then
        (case overflowing_add64 len (added - 1) of (low, overflow) \<Rightarrow>
           Inl (exceeded_by b low overflow))
      else
        (let low = len + (added - 1) in
           if b \<le> low then Inl (exceeded_by b low False) else Inr (as_u32 len)))"

text \<open>\<open>required\<close> rebuilds the \<open>u128\<close> requirement from the low word and the carry.\<close>

definition required :: "exceeded \<Rightarrow> nat" where
  "required e =
     min (1 + (exc_low e OR push_bit 64 (if exc_overflow e then 1 else 0)))
         340282366920938463463374607431768211455"

definition bound_ok :: "bound \<Rightarrow> bool" where
  "bound_ok b \<longleftrightarrow> 0 < b \<and> b \<le> u32_max"

lemma or_carry:
  fixes low :: nat
  assumes "low < 2 ^ n"
  shows "low OR push_bit n k = low + k * 2 ^ n"
proof -
  have "low AND push_bit n k = 0"
    using assms by (auto intro!: bit_eqI simp: bit_simps)
      (metis bit_take_bit_iff not_le take_bit_nat_eq_self_iff)
  then have "low OR push_bit n k = low + push_bit n k"
    by (simp add: disjunctive_add_eq_or)
  then show ?thesis by (simp add: push_bit_eq_mult)
qed

lemma bound_count_Inr:
  assumes "bound_ok b" and "0 < added"
  shows "bound_count b len added = Inr n \<longleftrightarrow> n = len \<and> len + added \<le> b"
  using assms by (auto simp: bound_count_def bound_ok_def Let_def split: prod.splits)

lemma required_exceeded_by:
  assumes "low \<le> u64_max"
  shows "required (exceeded_by b low ov) = 1 + low + (if ov then u64_max + 1 else 0)"
  using assms or_carry[of low 64 "if ov then 1 else 0"]
  by (auto simp: required_def exceeded_by_def)

lemma bound_count_Inl:
  assumes "bound_ok b" and "0 < added" and "len \<le> u64_max" and "added \<le> u32_max + 3"
  assumes "bound_count b len added = Inl e"
  shows "required e = len + added \<and> b < len + added \<and> exc_capacity e = b"
proof (cases "b < len")
  case True
  with assms(5) have e: "e = exceeded_by b ((len + (added - 1)) mod (u64_max + 1)) (u64_max < len + (added - 1))"
    by (simp add: bound_count_def overflowing_add64_def)
  have "required e = len + added"
  proof (cases "u64_max < len + (added - 1)")
    case True
    with assms have "(len + (added - 1)) mod (u64_max + 1) = len + (added - 1) - (u64_max + 1)"
      by (subst mod_if) auto
    with True assms show ?thesis by (simp add: e required_exceeded_by)
  next
    case False
    with assms show ?thesis by (simp add: e required_exceeded_by)
  qed
  with True show ?thesis by (simp add: e exceeded_by_def)
next
  case False
  with assms have "e = exceeded_by b (len + (added - 1)) False" and "b \<le> len + (added - 1)"
    by (auto simp: bound_count_def Let_def split: if_splits)
  moreover from False assms have "len + (added - 1) \<le> u64_max"
    unfolding bound_ok_def by linarith
  ultimately show ?thesis using assms(2)
    by (simp add: required_exceeded_by) (simp add: exceeded_by_def)
qed

section \<open>Positions\<close>

text \<open>\<open>End\<close> is a nonzero \<open>u32\<close>; \<open>End::get\<close> and \<open>End::count\<close> only change its type.\<close>

type_synonym end_pos = nat

definition end_consumed :: "end_pos \<Rightarrow> nat" where
  "end_consumed e = sat_add64 1 (e - 1)"

definition frame_check :: "bound \<Rightarrow> nat \<Rightarrow> exceeded + unit" where
  "frame_check b req = (if req \<le> b then Inr () else Inl (exceeded_by b (req - 1) False))"

definition frame_next :: "bound \<Rightarrow> nat \<Rightarrow> exceeded + end_pos" where
  "frame_next b used =
     (if b \<le> used then Inl (exceeded_by b used False) else Inr (sat_add32 1 (as_u32 used)))"

lemma frame_next_Inr:
  "bound_ok b \<Longrightarrow> frame_next b used = Inr e \<longleftrightarrow> used < b \<and> e = Suc used"
  by (auto simp: frame_next_def bound_ok_def)

lemma frame_next_Inl:
  "frame_next b used = Inl e \<longleftrightarrow> b \<le> used \<and> e = exceeded_by b used False"
  by (auto simp: frame_next_def)

lemma end_consumed_id: "0 < e \<Longrightarrow> e \<le> u32_max \<Longrightarrow> end_consumed e = e"
  by (simp add: end_consumed_def)

lemma bound_consumed_id: "bound_ok b \<Longrightarrow> bound_consumed b = b"
  by (simp add: bound_consumed_def bound_ok_def)

section \<open>Packed bodies\<close>

type_synonym body = nat

definition body_new :: "end_pos \<Rightarrow> nat \<Rightarrow> body" where
  "body_new start stop = start OR push_bit 32 stop"

definition body_start :: "body \<Rightarrow> nat" where
  "body_start b = as_u32 b"

definition body_stop :: "body \<Rightarrow> nat" where
  "body_stop b = as_u32 (drop_bit 32 b)"

definition body_get :: "body \<Rightarrow> nat" where
  "body_get b = body_stop b + 2"

definition body_end :: "body \<Rightarrow> end_pos" where
  "body_end b = sat_add32 1 (body_stop b + 1)"

definition body_consumed :: "body \<Rightarrow> nat" where
  "body_consumed b = end_consumed (body_end b)"

lemma body_new_eq: "start \<le> u32_max \<Longrightarrow> body_new start stop = start + stop * 4294967296"
  using or_carry[of start 32 stop] by (simp add: body_new_def)

lemma body_start_new [simp]:
  "start \<le> u32_max \<Longrightarrow> body_start (body_new start stop) = start"
  by (simp add: body_new_eq body_start_def as_u32_def)

lemma body_stop_new [simp]:
  "start \<le> u32_max \<Longrightarrow> stop \<le> u32_max \<Longrightarrow> body_stop (body_new start stop) = stop"
  by (simp add: body_new_eq body_stop_def drop_bit_eq_div)

lemma body_new_bound:
  "start \<le> u32_max \<Longrightarrow> stop \<le> u32_max \<Longrightarrow> body_new start stop \<le> u64_max"
  by (simp add: body_new_eq)

definition frame_body :: "bound \<Rightarrow> end_pos \<Rightarrow> nat \<Rightarrow> exceeded + body" where
  "frame_body b start len =
     (case bound_count b len (start + 2) of
        Inl e \<Rightarrow> Inl e
      | Inr len \<Rightarrow> Inr (body_new start (start + len)))"

lemma frame_body_Inr:
  assumes "bound_ok b"
  shows "frame_body b start len = Inr bd \<longleftrightarrow>
           start + len + 2 \<le> b \<and> bd = body_new start (start + len)"
proof (cases "bound_count b len (start + 2)")
  case (Inl e)
  with bound_count_Inr[OF assms, of "start + 2" len len] show ?thesis
    by (simp add: frame_body_def)
next
  case (Inr n)
  with bound_count_Inr[OF assms, of "start + 2" len n] show ?thesis
    by (auto simp: frame_body_def)
qed

section \<open>Value counts\<close>

text \<open>\<open>Slot\<close> is the nonzero count a node will have once stored; \<open>Count\<close> is a declared length.\<close>

type_synonym slot = nat

definition value_next :: "bound \<Rightarrow> nat \<Rightarrow> exceeded + slot" where
  "value_next b used =
     (let req = used + 1 in
        if b < req then Inl (exceeded_by b (req - 1) False) else Inr (sat_add32 1 used))"

definition value_array :: "bound \<Rightarrow> nat \<Rightarrow> nat \<Rightarrow> exceeded + nat" where
  "value_array b used declared = bound_count b declared (used + 1)"

definition count_nonzero :: "nat \<Rightarrow> nat option" where
  "count_nonzero n = (if n = 0 then None else Some n)"

definition slot_commit :: "slot \<Rightarrow> 'a \<Rightarrow> 'a \<times> nat" where
  "slot_commit s v = (v, s)"

lemma value_next_Inr:
  "bound_ok b \<Longrightarrow> value_next b used = Inr s \<longleftrightarrow> used < b \<and> s = Suc used"
  by (auto simp: value_next_def bound_ok_def Let_def)

lemma value_array_Inr:
  "bound_ok b \<Longrightarrow> value_array b used declared = Inr n \<longleftrightarrow> n = declared \<and> used + declared < b"
  by (auto simp: value_array_def bound_count_Inr)

end
