(* ===== verification/Resp_Line.thy ===== *)
theory Resp_Line
  imports Resp_Limit
begin

text \<open>
  \<open>Line::find\<close> of \<open>redis/src/protocol/parser/limit.rs\<close>: the search for the CR LF of a header line,
  which restarts from the scan position a previous call left behind.  The lemmas show that the
  restart is sound: as long as the bytes before the scan position hold no terminator, the search
  finds what a search from the start of the line finds.
\<close>

datatype line = LStatus | LServer | LInteger | LBulk | LArray

type_synonym found_line = "bytes \<times> end_pos"

definition line_stop :: "found_line \<Rightarrow> nat" where
  "line_stop l = snd l + length (fst l)"

definition windows2 :: "'a list \<Rightarrow> ('a \<times> 'a) list" where
  "windows2 xs = zip xs (tl xs)"

definition line_at :: "bytes \<Rightarrow> end_pos \<Rightarrow> nat \<Rightarrow> found_line option" where
  "line_at bs start stop = map_option (\<lambda>v. (v, start)) (subslice start stop bs)"

fun text_line :: "line \<Rightarrow> bool" where
  "text_line LStatus = True"
| "text_line LServer = True"
| "text_line LInteger = False"
| "text_line LBulk = False"
| "text_line LArray = False"

definition line_find ::
  "bytes \<Rightarrow> end_pos \<Rightarrow> nat \<Rightarrow> line \<Rightarrow> (nat \<times> byte \<times> byte) + found_line option" where
  "line_find bs start scan kind =
     (let scan = max scan start in
      if length bs < scan then Inr None
      else
        let tail = drop scan bs in
        if text_line kind then
          (case position (\<lambda>b. b = CR \<or> b = LF) tail of
             None \<Rightarrow> Inr None
           | Some offset \<Rightarrow>
               if tail ! offset = LF then Inl (scan + offset, CR, LF)
               else
                 (case get tail (offset + 1) of
                    None \<Rightarrow> Inr None
                  | Some actual \<Rightarrow>
                      if actual \<noteq> LF then Inl (scan + offset + 1, LF, actual)
                      else Inr (line_at bs start (scan + offset))))
        else
          (case position (\<lambda>p. p = (CR, LF)) (windows2 tail) of
             None \<Rightarrow> Inr None
           | Some offset \<Rightarrow> Inr (line_at bs start (scan + offset))))"

definition frame_line :: "bound \<Rightarrow> found_line \<Rightarrow> exceeded + end_pos \<times> body" where
  "frame_line b l =
     bindr (frame_next b (line_stop l + 1)) (\<lambda>e. Inr (e, body_new (snd l) (as_u32 (line_stop l))))"

section \<open>Restarting the search\<close>

text \<open>No terminator of a line of this kind begins in the bytes from \<open>start\<close> up to \<open>scan\<close>.\<close>

definition clean :: "line \<Rightarrow> bytes \<Rightarrow> nat \<Rightarrow> nat \<Rightarrow> bool" where
  "clean kind bs start scan \<longleftrightarrow>
     (\<forall>i. start \<le> i \<and> i < scan \<and> i < length bs \<longrightarrow>
        (if text_line kind then bs ! i \<noteq> CR \<and> bs ! i \<noteq> LF
         else \<not> (Suc i < length bs \<and> bs ! i = CR \<and> bs ! Suc i = LF)))"

lemma clean_start [simp]: "clean kind bs start start"
  by (auto simp: clean_def)

lemma position_drop:
  assumes "n \<le> length xs" and "\<forall>x \<in> set (take n xs). \<not> p x"
  shows "position p xs = map_option ((+) n) (position p (drop n xs))"
proof -
  from assms(2) have "position p (take n xs) = None" by (simp add: position_None)
  with assms(1) position_append[of p "take n xs" "drop n xs"] show ?thesis by simp
qed

lemma length_windows2: "length (windows2 xs) = length xs - 1"
  by (simp add: windows2_def)

lemma drop_windows2: "windows2 (drop n xs) = drop n (windows2 xs)"
  by (simp add: windows2_def drop_zip tl_drop)

lemma nth_windows2: "Suc i < length xs \<Longrightarrow> windows2 xs ! i = (xs ! i, xs ! Suc i)"
  by (simp add: windows2_def nth_tl)

lemma position_text_clean:
  assumes "clean kind bs start scan" and "text_line kind" and "start \<le> scan" and "scan \<le> length bs"
  shows "position (\<lambda>b. b = CR \<or> b = LF) (drop start bs) =
           map_option ((+) (scan - start)) (position (\<lambda>b. b = CR \<or> b = LF) (drop scan bs))"
proof -
  have "\<forall>x \<in> set (take (scan - start) (drop start bs)). \<not> (x = CR \<or> x = LF)"
  proof
    fix x assume "x \<in> set (take (scan - start) (drop start bs))"
    then obtain i where "i < scan - start" "i < length bs - start" "x = bs ! (start + i)"
      by (auto simp: in_set_conv_nth)
    with assms show "\<not> (x = CR \<or> x = LF)"
      unfolding clean_def by (auto dest: spec[of _ "start + i"])
  qed
  then have "position (\<lambda>b. b = CR \<or> b = LF) (drop start bs) =
      map_option ((+) (scan - start))
        (position (\<lambda>b. b = CR \<or> b = LF) (drop (scan - start) (drop start bs)))"
    using assms by (intro position_drop) auto
  with assms show ?thesis by simp
qed

lemma position_pair_clean:
  assumes "clean kind bs start scan" and "\<not> text_line kind" and "start \<le> scan" and "scan \<le> length bs"
  shows "position (\<lambda>p. p = (CR, LF)) (windows2 (drop start bs)) =
           map_option ((+) (scan - start)) (position (\<lambda>p. p = (CR, LF)) (windows2 (drop scan bs)))"
proof (cases "scan - start \<le> length (windows2 (drop start bs))")
  case True
  have "\<forall>x \<in> set (take (scan - start) (windows2 (drop start bs))). \<not> (x = (CR, LF))"
  proof
    fix x assume "x \<in> set (take (scan - start) (windows2 (drop start bs)))"
    then obtain i where i: "i < scan - start" "i < length (windows2 (drop start bs))"
        "x = windows2 (drop start bs) ! i"
      by (auto simp: in_set_conv_nth)
    then have "x = (bs ! (start + i), bs ! Suc (start + i))"
      by (subst i(3), subst nth_windows2) (auto simp: length_windows2)
    moreover have "Suc (start + i) < length bs" using i(2) by (simp add: length_windows2)
    ultimately show "\<not> (x = (CR, LF))"
      using assms(1,2) i(1) unfolding clean_def by (auto dest: spec[of _ "start + i"])
  qed
  with True have "position (\<lambda>p. p = (CR, LF)) (windows2 (drop start bs)) =
      map_option ((+) (scan - start))
        (position (\<lambda>p. p = (CR, LF)) (drop (scan - start) (windows2 (drop start bs))))"
    by (intro position_drop) auto
  with assms show ?thesis by (simp flip: drop_windows2)
next
  case False
  with assms have e: "scan = length bs" by (simp add: length_windows2)
  have "position (\<lambda>p. p = (CR, LF)) (windows2 (drop start bs)) = None"
    unfolding position_None
  proof
    fix x assume "x \<in> set (windows2 (drop start bs))"
    then obtain i where i: "i < length (windows2 (drop start bs))"
        "x = windows2 (drop start bs) ! i"
      by (auto simp: in_set_conv_nth)
    then have "x = (bs ! (start + i), bs ! Suc (start + i))"
      by (subst i(2), subst nth_windows2) (auto simp: length_windows2)
    moreover have "Suc (start + i) < length bs" using i(1) by (simp add: length_windows2)
    ultimately show "\<not> (x = (CR, LF))"
      using assms(1,2) e unfolding clean_def by (auto dest: spec[of _ "start + i"])
  qed
  with e show ?thesis by (simp add: windows2_def)
qed

text \<open>The search from a clean scan position is the search from the start of the line.\<close>

lemma line_find_clean:
  assumes "clean kind bs start scan" and "scan \<le> length bs" and "start \<le> length bs"
  shows "line_find bs start scan kind = line_find bs start start kind"
proof (cases "start \<le> scan")
  case False
  then show ?thesis by (simp add: line_find_def max_def)
next
  case True
  note le = True assms(2)
  let ?P = "\<lambda>b. b = CR \<or> b = LF"
  show ?thesis
  proof (cases "text_line kind")
    case True
    note eq = position_text_clean[OF assms(1) True le]
    show ?thesis
    proof (cases "position ?P (drop scan bs)")
      case None
      with eq le assms True show ?thesis by (simp add: line_find_def Let_def)
    next
      case (Some off)
      then have "off < length bs - scan" using position_Some by fastforce
      with Some eq le assms True show ?thesis
        by (simp add: line_find_def Let_def split: option.split)
    qed
  next
    case False
    from position_pair_clean[OF assms(1) False le] le assms False show ?thesis
      by (cases "position (\<lambda>p. p = (CR, LF)) (windows2 (drop scan bs))")
        (simp_all add: line_find_def Let_def)
  qed
qed

end
