(* ===== verification/Resp_Number.thy ===== *)
theory Resp_Number
  imports Resp_Line
begin

text \<open>
  \<open>redis/src/protocol/parser/number.rs\<close>: the decimal numbers of RESP header lines, signed
  (\<open>i64\<close>, integer replies) and unsigned (\<open>u64\<close>, lengths), with the offset of the byte that made a
  line invalid.
\<close>

datatype number_error =
    Empty nat
  | Missing nat
  | Byte nat byte
  | Overflow nat

datatype length_value = LengthNil | LengthCount nat

text \<open>The protocol errors of \<open>redis/src/protocol/mod.rs\<close>.\<close>

datatype truncated =
    TruncatedValue nat nat nat
  | TruncatedLine line nat nat
  | TruncatedBulk nat nat

datatype protocol_error =
    NumberError line number_error
  | LengthError line int
  | MarkerError nat byte
  | DepthError nat nat nat
  | TerminatorError nat byte byte
  | ValuesError nat
  | Unparsed nat
  | Truncated truncated

section \<open>Definitions\<close>

definition number_offset :: "body \<Rightarrow> nat \<Rightarrow> nat" where
  "number_offset b relative = (body_start b + as_u32 relative) mod (u32_max + 1)"

definition signed_next :: "bool \<Rightarrow> int \<Rightarrow> nat \<Rightarrow> int option" where
  "signed_next negative value d =
     (case checked_i64 (value * 10) of
        None \<Rightarrow> None
      | Some v \<Rightarrow> checked_i64 (if negative then v - int d else v + int d))"

fun signed_loop :: "body \<Rightarrow> bool \<Rightarrow> nat \<Rightarrow> int \<Rightarrow> bytes \<Rightarrow> number_error + int" where
  "signed_loop b negative cursor value [] = Inr value"
| "signed_loop b negative cursor value (byte # rest) =
     (if 9 < digit byte then Inl (Byte (number_offset b cursor) byte)
      else
        (case signed_next negative value (digit byte) of
           None \<Rightarrow> Inl (Overflow (number_offset b cursor))
         | Some nxt \<Rightarrow> signed_loop b negative (Suc cursor) nxt rest))"

definition number_signed :: "bytes \<Rightarrow> body \<Rightarrow> number_error + int" where
  "number_signed bs b =
     (case bs of
        [] \<Rightarrow> Inl (Empty (number_offset b 0))
      | first # rest \<Rightarrow>
          (let negative = (first = 45) in
           if negative \<or> first = 43 then
             (if rest = [] then Inl (Missing (number_offset b 1))
              else signed_loop b negative 1 0 rest)
           else signed_loop b negative 0 0 bs))"

definition unsigned_next :: "nat \<Rightarrow> nat \<Rightarrow> nat option" where
  "unsigned_next value d =
     (case checked_mul64 value 10 of None \<Rightarrow> None | Some v \<Rightarrow> checked_add64 v d)"

fun unsigned_loop :: "body \<Rightarrow> nat \<Rightarrow> nat \<Rightarrow> bytes \<Rightarrow> number_error + nat" where
  "unsigned_loop b index value [] = Inr value"
| "unsigned_loop b index value (byte # rest) =
     (if 9 < digit byte then Inl (Byte (number_offset b index) byte)
      else
        (case unsigned_next value (digit byte) of
           None \<Rightarrow> Inl (Overflow (number_offset b index))
         | Some nxt \<Rightarrow> unsigned_loop b (Suc index) nxt rest))"

definition number_unsigned :: "bytes \<Rightarrow> body \<Rightarrow> number_error + nat" where
  "number_unsigned bs b =
     (if bs = [] then Inl (Empty (number_offset b 0)) else unsigned_loop b 0 0 bs)"

definition number_length :: "bytes \<Rightarrow> body \<Rightarrow> line \<Rightarrow> protocol_error + length_value" where
  "number_length bs b line =
     (if get bs 0 \<noteq> Some 45 then
        (case number_unsigned bs b of
           Inr value \<Rightarrow> Inr (LengthCount value)
         | Inl cause \<Rightarrow> Inl (NumberError line cause))
      else
        (case number_signed bs b of
           Inl cause \<Rightarrow> Inl (NumberError line cause)
         | Inr value \<Rightarrow>
             if value = -1 then Inr LengthNil
             else if value < -1 then Inl (LengthError line value)
             else Inr (LengthCount (as_u64 value))))"

section \<open>Exactness of the two loops\<close>

definition all_digits :: "bytes \<Rightarrow> bool" where
  "all_digits bs \<longleftrightarrow> (\<forall>b \<in> set bs. digit b \<le> 9)"

lemma all_digits_simps [simp]:
  "all_digits []" "all_digits (b # bs) \<longleftrightarrow> digit b \<le> 9 \<and> all_digits bs"
  "all_digits (xs @ ys) \<longleftrightarrow> all_digits xs \<and> all_digits ys"
  by (auto simp: all_digits_def)

lemma all_digits_decimal [simp]: "all_digits (decimal n)"
  by (simp add: all_digits_def decimal_digit_le_9)

lemma undecimal_acc:
  "foldl (\<lambda>a b. a * 10 + digit b) v bs = v * 10 ^ length bs + undecimal bs"
proof (induction bs arbitrary: v)
  case Nil
  then show ?case by simp
next
  case (Cons b bs)
  from Cons[of "v * 10 + digit b"] Cons[of "digit b"] show ?case
    by (simp add: undecimal_def algebra_simps)
qed

lemma undecimal_Cons: "undecimal (b # bs) = digit b * 10 ^ length bs + undecimal bs"
  using undecimal_acc[of "digit b" bs] by (simp add: undecimal_def)

lemma unsigned_next_eq:
  "unsigned_next v d = (if v * 10 + d \<le> u64_max then Some (v * 10 + d) else None)"
  by (auto simp: unsigned_next_def checked_mul64_def checked_add64_def)

lemma unsigned_loop_exact:
  assumes "all_digits bs" and "v \<le> u64_max"
  shows "unsigned_loop b i v bs = Inr n \<longleftrightarrow>
           n = v * 10 ^ length bs + undecimal bs \<and> n \<le> u64_max"
  using assms
proof (induction bs arbitrary: i v)
  case Nil
  then show ?case by auto
next
  case (Cons x xs)
  have pow: "v * 10 + digit x \<le> (v * 10 + digit x) * 10 ^ length xs" by simp
  show ?case
  proof (cases "v * 10 + digit x \<le> u64_max")
    case True
    with Cons show ?thesis
      by (simp add: unsigned_next_eq undecimal_Cons algebra_simps)
  next
    case False
    have "u64_max < (v * 10 + digit x) * 10 ^ length xs + undecimal xs"
      using False pow by linarith
    with False Cons.prems show ?thesis
      by (auto simp: unsigned_next_eq undecimal_Cons algebra_simps)
  qed
qed

lemma unsigned_loop_bad_digit:
  "\<not> all_digits bs \<Longrightarrow> unsigned_loop b i v bs \<noteq> Inr n"
  by (induction bs arbitrary: i v) (auto split: option.splits)

lemma number_unsigned_exact:
  "number_unsigned bs b = Inr n \<longleftrightarrow> bs \<noteq> [] \<and> all_digits bs \<and> n = undecimal bs \<and> n \<le> u64_max"
  using unsigned_loop_exact[of bs 0 b 0 n] unsigned_loop_bad_digit[of bs b 0 0 n]
  by (auto simp: number_unsigned_def)

definition sign_apply :: "bool \<Rightarrow> nat \<Rightarrow> int" where
  "sign_apply negative n = (if negative then - int n else int n)"

lemma sign_apply_0 [simp]: "sign_apply neg 0 = 0"
  by (simp add: sign_apply_def)

lemma signed_next_eq:
  "signed_next neg (sign_apply neg v) d =
     (if i64_min \<le> sign_apply neg (v * 10 + d) \<and> sign_apply neg (v * 10 + d) \<le> i64_max
      then Some (sign_apply neg (v * 10 + d)) else None)"
  by (auto simp: signed_next_def checked_i64_def sign_apply_def)

lemma sign_apply_mono:
  assumes "m \<le> n" and "i64_min \<le> sign_apply neg n" and "sign_apply neg n \<le> i64_max"
  shows "i64_min \<le> sign_apply neg m \<and> sign_apply neg m \<le> i64_max"
  using assms by (auto simp: sign_apply_def split: if_splits)

lemma signed_loop_exact:
  assumes "all_digits bs" and "i64_min \<le> sign_apply neg v" and "sign_apply neg v \<le> i64_max"
  shows "signed_loop b neg i (sign_apply neg v) bs = Inr n \<longleftrightarrow>
           n = sign_apply neg (v * 10 ^ length bs + undecimal bs) \<and> i64_min \<le> n \<and> n \<le> i64_max"
  using assms
proof (induction bs arbitrary: i v)
  case Nil
  then show ?case by auto
next
  case (Cons x xs)
  let ?w = "v * 10 + digit x"
  have le: "?w \<le> ?w * 10 ^ length xs + undecimal xs" by (simp add: trans_le_add1)
  have eq: "v * 10 ^ length (x # xs) + undecimal (x # xs) = ?w * 10 ^ length xs + undecimal xs"
    by (simp add: undecimal_Cons algebra_simps)
  show ?case
  proof (cases "i64_min \<le> sign_apply neg ?w \<and> sign_apply neg ?w \<le> i64_max")
    case True
    with Cons show ?thesis unfolding eq by (simp add: signed_next_eq)
  next
    case False
    with sign_apply_mono[OF le, of neg] Cons.prems(1) show ?thesis
      unfolding eq by (auto simp: signed_next_eq)
  qed
qed

lemma signed_loop_bad_digit:
  "\<not> all_digits bs \<Longrightarrow> signed_loop b neg i v bs \<noteq> Inr n"
  by (induction bs arbitrary: i v) (auto split: option.splits)

lemma signed_loop_iff:
  "signed_loop b neg i 0 ds = Inr n \<longleftrightarrow>
     all_digits ds \<and> n = sign_apply neg (undecimal ds) \<and> i64_min \<le> n \<and> n \<le> i64_max"
  using signed_loop_exact[of ds neg 0 b i n] signed_loop_bad_digit[of ds b neg i 0 n]
  by (cases "all_digits ds") simp_all

text \<open>The sign byte, if any, and the digits that follow it.\<close>

definition split_sign :: "bytes \<Rightarrow> bool \<times> bytes" where
  "split_sign bs =
     (case bs of [] \<Rightarrow> (False, []) | b # rest \<Rightarrow>
        if b = 45 then (True, rest) else if b = 43 then (False, rest) else (False, bs))"

lemma number_signed_exact:
  assumes "split_sign bs = (neg, ds)"
  shows "number_signed bs b = Inr n \<longleftrightarrow>
           ds \<noteq> [] \<and> all_digits ds \<and> n = sign_apply neg (undecimal ds) \<and> i64_min \<le> n \<and> n \<le> i64_max"
  using assms
  by (cases bs)
    (auto simp: number_signed_def split_sign_def Let_def signed_loop_iff simp del: signed_loop.simps
      split: if_splits)

end
