(* ===== verification/Resp_Pool.thy ===== *)
theory Resp_Pool
  imports Resp_Number
begin

text \<open>
  \<open>redis/src/protocol/parser/mod.rs\<close>: parsed values, the 16-byte nodes that hold them, and the
  pool that links the nodes of every live tape, and the free nodes, into disjoint rings through
  32-bit keys.  A ring is known by the key of its last node; that node points to the first.

  \<open>pool_inv p own\<close> is the ownership invariant: \<open>own None\<close> lists the free keys and \<open>own (Some i)\<close> the
  keys of tape \<open>i\<close>, in ring order; the rings are disjoint and together hold every key of the
  allocation, so no key is out of range and no node is lost.
\<close>

section \<open>Spans, kinds and values\<close>

type_synonym span = nat

definition span_terminated :: "body \<Rightarrow> span" where
  "span_terminated b = b"

definition span_from_stored :: "nat \<Rightarrow> span" where
  "span_from_stored stored = sat_add64 1 stored"

definition span_stored :: "span \<Rightarrow> nat" where
  "span_stored s = s - 1"

definition span_parts :: "span \<Rightarrow> nat \<times> nat" where
  "span_parts s = (as_u32 s, as_u32 (drop_bit 32 s))"

definition span_bytes :: "bytes \<Rightarrow> span \<Rightarrow> bytes option" where
  "span_bytes frame s = (case span_parts s of (start, stop) \<Rightarrow> subslice start stop frame)"

datatype kind =
    KNil | KOk | KStatus span | KError span | KInteger int | KBulk span | KArray nat

datatype 's rvalue =
    VNil | VOk | VStatus 's | VInteger int | VBulk 's | VArray nat

fun value_map :: "('s \<Rightarrow> 't) \<Rightarrow> 's rvalue \<Rightarrow> 't rvalue" where
  "value_map f VNil = VNil"
| "value_map f VOk = VOk"
| "value_map f (VStatus s) = VStatus (f s)"
| "value_map f (VInteger v) = VInteger v"
| "value_map f (VBulk s) = VBulk (f s)"
| "value_map f (VArray n) = VArray n"

section \<open>Keys and nodes\<close>

type_synonym key = nat

definition key_new :: "nat \<Rightarrow> key" where
  "key_new offset = sat_add32 1 offset"

definition key_offset :: "key \<Rightarrow> nat" where
  "key_offset k = k - 1"

datatype tag = TNil | TOk | TStatus | TError | TInteger | TBulk | TArray

record node =
  node_next :: key
  node_tag :: tag
  node_payload :: nat

definition node_raw :: "key \<Rightarrow> tag \<Rightarrow> nat \<Rightarrow> node" where
  "node_raw next t data = \<lparr>node_next = next, node_tag = t, node_payload = data\<rparr>"

definition node_vacant :: "key \<Rightarrow> node" where
  "node_vacant next = node_raw next TNil 0"

fun node_new :: "key \<Rightarrow> kind \<Rightarrow> node" where
  "node_new next KNil = node_raw next TNil 0"
| "node_new next KOk = node_raw next TOk 0"
| "node_new next (KStatus s) = node_raw next TStatus (span_stored s)"
| "node_new next (KError s) = node_raw next TError (span_stored s)"
| "node_new next (KInteger v) = node_raw next TInteger (as_u64 v)"
| "node_new next (KBulk s) = node_raw next TBulk (span_stored s)"
| "node_new next (KArray n) = node_raw next TArray n"

text \<open>\<open>with_next\<close> and \<open>with_free\<close> differ in the phantom state of the key only.\<close>

definition node_with_next :: "node \<Rightarrow> key \<Rightarrow> node" where
  "node_with_next n k = n\<lparr>node_next := k\<rparr>"

definition node_with_float :: "node \<Rightarrow> nat \<Rightarrow> node" where
  "node_with_float n bits = n\<lparr>node_payload := bits\<rparr>"

definition node_kind :: "node \<Rightarrow> kind" where
  "node_kind n =
     (case node_tag n of
        TNil \<Rightarrow> KNil
      | TOk \<Rightarrow> KOk
      | TStatus \<Rightarrow> KStatus (span_from_stored (node_payload n))
      | TError \<Rightarrow> KError (span_from_stored (node_payload n))
      | TInteger \<Rightarrow> KInteger (as_i64 (node_payload n))
      | TBulk \<Rightarrow> KBulk (span_from_stored (node_payload n))
      | TArray \<Rightarrow> KArray (as_u32 (node_payload n)))"

definition node_try_value :: "node \<Rightarrow> span + span rvalue" where
  "node_try_value n =
     (case node_tag n of
        TError \<Rightarrow> Inl (span_from_stored (node_payload n))
      | TNil \<Rightarrow> Inr VNil
      | TOk \<Rightarrow> Inr VOk
      | TStatus \<Rightarrow> Inr (VStatus (span_from_stored (node_payload n)))
      | TInteger \<Rightarrow> Inr (VInteger (as_i64 (node_payload n)))
      | TBulk \<Rightarrow> Inr (VBulk (span_from_stored (node_payload n)))
      | TArray \<Rightarrow> Inr (VArray (as_u32 (node_payload n))))"

definition node_maybe_span :: "node \<Rightarrow> span option" where
  "node_maybe_span n =
     (case node_tag n of
        TBulk \<Rightarrow> Some (span_from_stored (node_payload n))
      | _ \<Rightarrow> None)"

text \<open>What fits a node: spans are nonzero 64-bit words, integers \<open>i64\<close>, array lengths \<open>u32\<close>.\<close>

definition span_ok :: "span \<Rightarrow> bool" where
  "span_ok s \<longleftrightarrow> 0 < s \<and> s \<le> u64_max"

fun kind_ok :: "kind \<Rightarrow> bool" where
  "kind_ok KNil = True"
| "kind_ok KOk = True"
| "kind_ok (KStatus s) = span_ok s"
| "kind_ok (KError s) = span_ok s"
| "kind_ok (KInteger v) = (i64_min \<le> v \<and> v \<le> i64_max)"
| "kind_ok (KBulk s) = span_ok s"
| "kind_ok (KArray n) = (n \<le> u32_max)"

lemma span_stored_roundtrip: "span_ok s \<Longrightarrow> span_from_stored (span_stored s) = s"
  by (simp add: span_ok_def span_from_stored_def span_stored_def)

lemma node_kind_new [simp]: "kind_ok v \<Longrightarrow> node_kind (node_new k v) = v"
  by (cases v) (simp_all add: node_kind_def node_raw_def span_stored_roundtrip as_i64_as_u64)

lemma node_next_new [simp]: "node_next (node_new k v) = k"
  by (cases v) (simp_all add: node_raw_def)

fun value_of_kind :: "kind \<Rightarrow> span + span rvalue" where
  "value_of_kind KNil = Inr VNil"
| "value_of_kind KOk = Inr VOk"
| "value_of_kind (KStatus s) = Inr (VStatus s)"
| "value_of_kind (KError s) = Inl s"
| "value_of_kind (KInteger v) = Inr (VInteger v)"
| "value_of_kind (KBulk s) = Inr (VBulk s)"
| "value_of_kind (KArray n) = Inr (VArray n)"

lemma node_try_value_kind: "node_try_value n = value_of_kind (node_kind n)"
  by (cases "node_tag n") (simp_all add: node_try_value_def node_kind_def)

lemma node_maybe_span_kind:
  "node_maybe_span n = (case node_kind n of KBulk s \<Rightarrow> Some s | _ \<Rightarrow> None)"
  by (cases "node_tag n") (simp_all add: node_maybe_span_def node_kind_def)

lemma node_with_next_simps [simp]:
  "node_next (node_with_next n k) = k" "node_kind (node_with_next n k) = node_kind n"
  "node_payload (node_with_next n k) = node_payload n" "node_tag (node_with_next n k) = node_tag n"
  by (simp_all add: node_with_next_def node_kind_def split: tag.splits)

section \<open>The pool\<close>

record pool =
  nodes :: "node list"
  free :: "key option"

text \<open>The allocation of the boxed slice can fail; its outcome is a parameter.\<close>

definition pool_try_new :: "'e option \<Rightarrow> nat \<Rightarrow> 'e + pool" where
  "pool_try_new failed capacity =
     (case failed of
        Some e \<Rightarrow> Inl e
      | None \<Rightarrow>
          Inr \<lparr>nodes = map (\<lambda>index. node_vacant (key_new (as_u32
                        (if index + 1 = capacity then 0 else index + 1)))) [0..<capacity],
               free = (if capacity = 0 then None else Some (key_new (as_u32 (capacity - 1))))\<rparr>)"

definition pool_node :: "pool \<Rightarrow> key \<Rightarrow> node" where
  "pool_node p k = nodes p ! key_offset k"

definition pool_set :: "pool \<Rightarrow> key \<Rightarrow> node \<Rightarrow> pool" where
  "pool_set p k n = p\<lparr>nodes := (nodes p)[key_offset k := n]\<rparr>"

definition pool_next :: "pool \<Rightarrow> key \<Rightarrow> key" where
  "pool_next p k = node_next (pool_node p k)"

definition pool_reserve :: "pool \<Rightarrow> key option" where
  "pool_reserve p = free p"

definition pool_release :: "pool \<Rightarrow> key option \<Rightarrow> pool" where
  "pool_release p tail =
     (case tail of
        None \<Rightarrow> p
      | Some tail \<Rightarrow>
          (case free p of
             None \<Rightarrow> p\<lparr>free := Some tail\<rparr>
           | Some fr \<Rightarrow>
               let head = pool_next p tail;
                   first = pool_next p fr;
                   p = pool_set p tail (node_with_next (pool_node p tail) first);
                   p = pool_set p fr (node_with_next (pool_node p fr) head)
               in p\<lparr>free := Some tail\<rparr>))"

definition free_append :: "pool \<Rightarrow> key \<Rightarrow> key option \<Rightarrow> kind \<Rightarrow> pool \<times> key" where
  "free_append p fr tail v =
     (let key = pool_next p fr;
          p = (if key = fr then p\<lparr>free := None\<rparr>
               else pool_set p fr (node_with_next (pool_node p fr) (pool_next p key)))
      in case tail of
           Some tail \<Rightarrow>
             (let p = pool_set p key (node_new (pool_next p tail) v)
              in (pool_set p tail (node_with_next (pool_node p tail) key), key))
         | None \<Rightarrow> (pool_set p key (node_new key v), key))"

section \<open>Rings\<close>

fun linked :: "(key \<Rightarrow> key) \<Rightarrow> key list \<Rightarrow> key \<Rightarrow> bool" where
  "linked f [] z = True"
| "linked f (k # ks) z = (f k = (if ks = [] then z else hd ks) \<and> linked f ks z)"

lemma linked_append [simp]:
  "linked f (xs @ ys) z \<longleftrightarrow> linked f xs (if ys = [] then z else hd ys) \<and> linked f ys z"
  by (induction xs) auto

lemma linked_cong: "(\<And>k. k \<in> set ks \<Longrightarrow> f k = g k) \<Longrightarrow> linked f ks z = linked g ks z"
  by (induction ks) auto

lemma linked_upd_notin [simp]: "k \<notin> set ks \<Longrightarrow> linked (f(k := v)) ks z = linked f ks z"
  by (rule linked_cong) auto

definition key_in :: "pool \<Rightarrow> key \<Rightarrow> bool" where
  "key_in p k \<longleftrightarrow> 1 \<le> k \<and> k \<le> length (nodes p)"

lemma pool_set_nodes [simp]:
  "length (nodes (pool_set p k n)) = length (nodes p)" "free (pool_set p k n) = free p"
  "key_in (pool_set p k n) = key_in p"
  by (simp_all add: pool_set_def key_in_def fun_eq_iff)

lemma pool_node_set:
  "key_in p k \<Longrightarrow> key_in p j \<Longrightarrow> pool_node (pool_set p k n) j = (if j = k then n else pool_node p j)"
  by (auto simp: pool_node_def pool_set_def key_offset_def key_in_def nth_list_update)

lemma pool_next_set:
  "key_in p k \<Longrightarrow> key_in p j \<Longrightarrow> pool_next (pool_set p k n) j = (if j = k then node_next n else pool_next p j)"
  by (simp add: pool_next_def pool_node_set)

lemma pool_free_upd [simp]:
  "pool_node (p\<lparr>free := x\<rparr>) = pool_node p" "pool_next (p\<lparr>free := x\<rparr>) = pool_next p"
  "key_in (p\<lparr>free := x\<rparr>) = key_in p" "nodes (p\<lparr>free := x\<rparr>) = nodes p"
  by (simp_all add: pool_node_def pool_next_def key_in_def fun_eq_iff)

definition ring_tail :: "key list \<Rightarrow> key option" where
  "ring_tail ks = (if ks = [] then None else Some (last ks))"

definition pool_inv :: "pool \<Rightarrow> ('o option \<Rightarrow> key list) \<Rightarrow> bool" where
  "pool_inv p own \<longleftrightarrow>
     length (nodes p) \<le> u32_max \<and>
     free p = ring_tail (own None) \<and>
     (\<forall>i. own i \<noteq> [] \<longrightarrow> linked (pool_next p) (own i) (hd (own i))) \<and>
     (\<forall>i. distinct (own i)) \<and>
     (\<forall>i j. i \<noteq> j \<longrightarrow> set (own i) \<inter> set (own j) = {}) \<and>
     (\<Union>i. set (own i)) = {1..length (nodes p)}"

lemma pool_inv_key_in: "pool_inv p own \<Longrightarrow> k \<in> set (own i) \<Longrightarrow> key_in p k"
  unfolding pool_inv_def key_in_def by (metis UN_I UNIV_I atLeastAtMost_iff)

lemma pool_inv_disjoint: "pool_inv p own \<Longrightarrow> k \<in> set (own i) \<Longrightarrow> k \<in> set (own j) \<Longrightarrow> i = j"
  unfolding pool_inv_def by blast

section \<open>Appending to a tape\<close>

lemma linked_last: "ks \<noteq> [] \<Longrightarrow> linked f ks z \<Longrightarrow> f (last ks) = z"
  by (induction ks) auto

lemma linked_redirect:
  "ks \<noteq> [] \<Longrightarrow> distinct ks \<Longrightarrow> linked f ks z \<Longrightarrow> linked (f(last ks := w)) ks w"
proof (induction ks)
  case (Cons k ks)
  then show ?case by (cases "ks = []") auto
qed simp

lemma Union_option: "(\<Union>i. f i) = f None \<union> (\<Union>a. f (Some a))"
  by (simp add: UNIV_option_conv)

lemma pool_inv_ring:
  "pool_inv p own \<Longrightarrow> own i \<noteq> [] \<Longrightarrow> linked (pool_next p) (own i) (hd (own i))"
  by (simp add: pool_inv_def)

lemma pool_inv_last_next:
  "pool_inv p own \<Longrightarrow> own i \<noteq> [] \<Longrightarrow> pool_next p (last (own i)) = hd (own i)"
  by (rule linked_last) (simp_all add: pool_inv_ring)

definition append_next :: "(key \<Rightarrow> key) \<Rightarrow> key list \<Rightarrow> key list \<Rightarrow> key \<Rightarrow> (key \<Rightarrow> key)" where
  "append_next f fs ks k =
     (let g = (if fs = [] then f else f(last fs := hd fs))
      in if ks = [] then g(k := k) else g(k := hd ks, last ks := k))"

lemma free_append_eq:
  assumes inv: "pool_inv p own" and fs: "own None = k # fs" and fr: "free p = Some fr"
    and tail: "tail = ring_tail (own (Some i))" and eq: "free_append p fr tail v = (p', k')"
  shows "k' = k" and "free p' = ring_tail fs" and "length (nodes p') = length (nodes p)"
    and "\<And>j. key_in p j \<Longrightarrow> pool_next p' j = append_next (pool_next p) fs (own (Some i)) k j"
    and "\<And>j. key_in p j \<Longrightarrow> j \<noteq> k \<Longrightarrow> node_kind (pool_node p' j) = node_kind (pool_node p j)"
    and "kind_ok v \<Longrightarrow> node_kind (pool_node p' k) = v"
proof -
  let ?ks = "own (Some i)"
  have fr_last: "fr = last (k # fs)"
    using inv fr fs by (simp add: pool_inv_def ring_tail_def split: if_splits)
  have k_in: "key_in p k" and fr_in: "key_in p fr"
    using fs fr_last last_in_set[of "k # fs"] pool_inv_key_in[OF inv, of _ None] by simp_all
  have dist: "distinct (k # fs)" using inv fs unfolding pool_inv_def by metis
  have nfr: "pool_next p fr = k"
    using pool_inv_last_next[OF inv, of None] fs fr_last by simp
  have nk: "fs \<noteq> [] \<Longrightarrow> pool_next p k = hd fs"
    using pool_inv_ring[OF inv, of None] fs by simp
  have single: "k = fr \<longleftrightarrow> fs = []"
    using dist fr_last by (cases "fs = []") (auto dest: last_in_set)
  have t_facts: "key_in p (last ?ks)" "last ?ks \<noteq> k" "last ?ks \<noteq> fr"
      "pool_next p (last ?ks) = hd ?ks" if "?ks \<noteq> []"
  proof -
    from that have m: "last ?ks \<in> set ?ks" by simp
    then show "key_in p (last ?ks)" by (rule pool_inv_key_in[OF inv])
    have "last ?ks \<notin> set (own None)" using pool_inv_disjoint[OF inv m, of None] by blast
    moreover have "k \<in> set (own None)" "fr \<in> set (own None)"
      using fs fr_last last_in_set[of "k # fs"] by simp_all
    ultimately show "last ?ks \<noteq> k" and "last ?ks \<noteq> fr" by blast+
    from that show "pool_next p (last ?ks) = hd ?ks" by (rule pool_inv_last_next[OF inv])
  qed
  note facts = fr_in k_in nfr nk single t_facts
  note d = free_append_def append_next_def ring_tail_def Let_def pool_next_set pool_node_set
  show "k' = k" using eq nfr by (auto simp: d split: option.splits)
  show "free p' = ring_tail fs"
    using eq nfr single fr fr_last by (auto simp: d split: option.splits if_splits)
  show "length (nodes p') = length (nodes p)"
    using eq by (auto simp: d split: option.splits if_splits)
  { fix j assume j: "key_in p j"
    show "pool_next p' j = append_next (pool_next p) fs ?ks k j"
      using eq facts j tail fr_last by (cases "?ks = []") (auto simp: d split: if_splits)
    assume jk: "j \<noteq> k"
    show "node_kind (pool_node p' j) = node_kind (pool_node p j)"
      using eq facts j jk tail by (cases "?ks = []") (auto simp: d split: if_splits)
  }
  assume "kind_ok v"
  then show "node_kind (pool_node p' k) = v"
    using eq facts tail by (cases "?ks = []") (auto simp: d split: if_splits)
qed

lemma pool_inv_append:
  assumes inv: "pool_inv p own" and fs: "own None = k # fs" and fr: "free p = Some fr"
    and eq: "free_append p fr (ring_tail (own (Some i))) v = (p', k')"
  shows "pool_inv p' (own(None := fs, Some i := own (Some i) @ [k]))"
proof -
  let ?own = "own(None := fs, Some i := own (Some i) @ [k])" and ?ks = "own (Some i)"
  let ?f = "append_next (pool_next p) fs ?ks k"
  note a = free_append_eq[OF inv fs fr refl eq]
  have dist: "distinct (k # fs)" using inv fs unfolding pool_inv_def by metis
  have disj: "set (own a) \<inter> set (own b) = {}" if "a \<noteq> b" for a b
    using inv that by (simp add: pool_inv_def)
  have dks: "distinct ?ks" using inv by (simp add: pool_inv_def)
  have kn: "k \<notin> set (own (Some a))" "set fs \<inter> set (own (Some a)) = {}"
      "fs \<noteq> [] \<Longrightarrow> last fs \<notin> set (own (Some a))" for a
    using disj[of None "Some a"] fs by (auto dest: last_in_set)
  have all: "(\<Union>j. set (own j)) = {1..length (nodes p)}" using inv by (simp add: pool_inv_def)
  have set_own: "(\<Union>j. set (?own j)) = (\<Union>j. set (own j))"
  proof -
    have "(\<Union>a. set (?own (Some a))) = insert k (\<Union>a. set (own (Some a)))"
      by (auto split: if_splits)
    then show ?thesis
      unfolding Union_option[of "\<lambda>j. set (?own j)"] Union_option[of "\<lambda>j. set (own j)"]
      using fs by simp
  qed
  have same: "pool_next p' j = ?f j" if "j \<in> set (?own b)" for j b
  proof (rule a(4))
    from that have "j \<in> (\<Union>j. set (own j))" unfolding set_own[symmetric] by blast
    then show "key_in p j" unfolding all by (simp add: key_in_def)
  qed
  have lnk: "linked ?f (?own b) (hd (?own b))" if "?own b \<noteq> []" for b
  proof -
    consider "b = None" | "b = Some i" | c where "b = Some c" "c \<noteq> i" by (cases b) auto
    then show ?thesis
    proof cases
      case 1
      with that have ne: "fs \<noteq> []" by simp
      have old: "linked (pool_next p) fs k"
        using pool_inv_ring[OF inv, of None] fs by simp
      from ne dist old have "linked ((pool_next p)(last fs := hd fs)) fs (hd fs)"
        by (intro linked_redirect) auto
      moreover have "linked ?f fs (hd fs) = linked ((pool_next p)(last fs := hd fs)) fs (hd fs)"
      proof (rule linked_cong)
        fix j assume "j \<in> set fs"
        moreover from this have "j \<noteq> k" using dist by auto
        moreover have "?ks \<noteq> [] \<Longrightarrow> j \<noteq> last ?ks" using \<open>j \<in> set fs\<close> kn(2)[of i] by auto
        ultimately show "?f j = ((pool_next p)(last fs := hd fs)) j"
          using ne by (auto simp: append_next_def Let_def)
      qed
      ultimately show ?thesis using 1 by simp
    next
      case 2
      show ?thesis
      proof (cases "?ks = []")
        case True
        with 2 show ?thesis by (simp add: append_next_def Let_def)
      next
        case False
        have old: "linked (pool_next p) ?ks (hd ?ks)" using False by (rule pool_inv_ring[OF inv])
        have "linked ((pool_next p)(last ?ks := k)) ?ks k"
          using False dks old by (rule linked_redirect)
        moreover have "linked ?f ?ks k = linked ((pool_next p)(last ?ks := k)) ?ks k"
        proof (rule linked_cong)
          fix j assume "j \<in> set ?ks"
          then have "j \<noteq> k" "fs \<noteq> [] \<Longrightarrow> j \<noteq> last fs" using kn[of i] by auto
          then show "?f j = ((pool_next p)(last ?ks := k)) j"
            using False by (auto simp: append_next_def Let_def)
        qed
        moreover have "?f k = hd ?ks" using False kn(1)[of i]
          by (auto simp: append_next_def Let_def)
        ultimately show ?thesis using 2 False by simp
      qed
    next
      case 3
      with that have old: "linked (pool_next p) (own b) (hd (own b))"
        by (intro pool_inv_ring[OF inv]) simp
      have "linked ?f (own b) (hd (own b)) = linked (pool_next p) (own b) (hd (own b))"
      proof (rule linked_cong)
        fix j assume j: "j \<in> set (own b)"
        then have "j \<noteq> k" "fs \<noteq> [] \<Longrightarrow> j \<noteq> last fs" using kn[of c] 3 by auto
        moreover have "?ks \<noteq> [] \<Longrightarrow> j \<noteq> last ?ks"
          using disj[of b "Some i"] 3 j by (metis disjoint_iff last_in_set option.inject)
        ultimately show "?f j = pool_next p j" by (auto simp: append_next_def Let_def)
      qed
      with old 3 show ?thesis by simp
    qed
  qed
  show ?thesis
    unfolding pool_inv_def
  proof (intro conjI allI impI)
    show "length (nodes p') \<le> u32_max" using inv a(3) by (simp add: pool_inv_def)
    show "free p' = ring_tail (?own None)" using a(2) by simp
    show "linked (pool_next p') (?own b) (hd (?own b))" if "?own b \<noteq> []" for b
      using lnk[OF that] linked_cong[of "?own b" "pool_next p'" ?f] same by blast
    show "distinct (?own b)" for b
      using inv dist dks kn(1)[of i] by (cases b) (auto simp: pool_inv_def)
    show "set (?own b) \<inter> set (?own c) = {}" if "b \<noteq> c" for b c
      using disj[OF that] disj[of b None] disj[of c None] disj[of b "Some i"] disj[of c "Some i"]
        that dist fs kn[of i]
      by (cases b; cases c) (auto split: if_splits)
    show "(\<Union>b. set (?own b)) = {1..length (nodes p')}" unfolding set_own a(3) by (rule all)
  qed
qed

section \<open>Releasing a tape\<close>

lemma pool_release_eq:
  assumes inv: "pool_inv p own"
  shows "length (nodes (pool_release p (ring_tail (own (Some i))))) = length (nodes p)"
    and "free (pool_release p (ring_tail (own (Some i)))) = ring_tail (own None @ own (Some i))"
    and "\<And>j. key_in p j \<Longrightarrow>
           pool_next (pool_release p (ring_tail (own (Some i)))) j =
             (if own (Some i) = [] \<or> own None = [] then pool_next p j
              else ((pool_next p)(last (own (Some i)) := hd (own None),
                                  last (own None) := hd (own (Some i)))) j)"
    and "\<And>j. key_in p j \<Longrightarrow>
           node_kind (pool_node (pool_release p (ring_tail (own (Some i)))) j) = node_kind (pool_node p j)"
proof -
  let ?ts = "own (Some i)" and ?fs = "own None"
  have free: "free p = ring_tail ?fs" using inv by (simp add: pool_inv_def)
  have t: "key_in p (last ?ts)" "pool_next p (last ?ts) = hd ?ts" if "?ts \<noteq> []"
    using that pool_inv_key_in[OF inv last_in_set] pool_inv_last_next[OF inv] by auto
  have f: "key_in p (last ?fs)" "pool_next p (last ?fs) = hd ?fs" if "?fs \<noteq> []"
    using that pool_inv_key_in[OF inv last_in_set] pool_inv_last_next[OF inv] by auto
  have ne: "last ?ts \<noteq> last ?fs" if "?ts \<noteq> []" "?fs \<noteq> []"
    using that pool_inv_disjoint[OF inv, of "last ?ts" "Some i" None]
    by (metis last_in_set option.distinct(1))
  note d = pool_release_def ring_tail_def Let_def
  show "length (nodes (pool_release p (ring_tail ?ts))) = length (nodes p)"
    by (simp add: d split: option.split)
  show "free (pool_release p (ring_tail ?ts)) = ring_tail (?fs @ ?ts)"
    using free by (auto simp: d split: option.split)
  let ?q = "pool_release p (ring_tail ?ts)"
  have q: "?q = (if ?ts = [] then p else if ?fs = [] then p\<lparr>free := Some (last ?ts)\<rparr>
      else (pool_set (pool_set p (last ?ts) (node_with_next (pool_node p (last ?ts)) (hd ?fs)))
              (last ?fs) (node_with_next (pool_node p (last ?fs)) (hd ?ts)))\<lparr>free := Some (last ?ts)\<rparr>)"
    using t f ne free by (simp add: d pool_node_set) (use ne in auto)
  show "pool_next ?q j =
      (if ?ts = [] \<or> ?fs = [] then pool_next p j
       else ((pool_next p)(last ?ts := hd ?fs, last ?fs := hd ?ts)) j)" if j: "key_in p j" for j
    unfolding q
    by (cases "?ts = []"; cases "?fs = []") (simp_all add: pool_next_set t(1) f(1) j)
  show "node_kind (pool_node ?q j) = node_kind (pool_node p j)" if j: "key_in p j" for j
    unfolding q
    by (cases "?ts = []"; cases "?fs = []") (simp_all add: pool_node_set t(1) f(1) j)
qed

lemma pool_inv_release:
  assumes inv: "pool_inv p own"
  shows "pool_inv (pool_release p (ring_tail (own (Some i))))
           (own(None := own None @ own (Some i), Some i := []))"
proof -
  let ?ts = "own (Some i)" and ?fs = "own None"
  let ?own = "own(None := ?fs @ ?ts, Some i := [])"
  let ?p = "pool_release p (ring_tail ?ts)"
  let ?g = "if ?ts = [] \<or> ?fs = [] then pool_next p
            else (pool_next p)(last ?ts := hd ?fs, last ?fs := hd ?ts)"
  note r = pool_release_eq[OF inv, where i = i]
  have disj: "set (own a) \<inter> set (own b) = {}" if "a \<noteq> b" for a b
    using inv that by (simp add: pool_inv_def)
  have dist: "distinct (own a)" for a using inv by (simp add: pool_inv_def)
  have nl: "?ts \<noteq> [] \<Longrightarrow> last ?ts \<notin> set ?fs" "?fs \<noteq> [] \<Longrightarrow> last ?fs \<notin> set ?ts"
    using disj[of None "Some i"] by (auto dest: last_in_set)
  have ring: "own a \<noteq> [] \<Longrightarrow> linked (pool_next p) (own a) (hd (own a))" for a
    by (rule pool_inv_ring[OF inv])
  have same: "pool_next ?p j = ?g j" if "j \<in> set (own b)" for j b
    using r(3)[OF pool_inv_key_in[OF inv that]] by simp
  have sub: "j \<in> set (?own b) \<Longrightarrow> \<exists>c. j \<in> set (own c)" for j b
    by (auto split: if_splits)
  have free_ring: "linked ?g (?fs @ ?ts) (hd (?fs @ ?ts))"
  proof (cases "?ts = [] \<or> ?fs = []")
    case True
    then show ?thesis using ring[of None] ring[of "Some i"]
      by (cases "?ts = []"; cases "?fs = []") simp_all
  next
    case False
    then have "linked ((pool_next p)(last ?fs := hd ?ts)) ?fs (hd ?ts)"
      and "linked ((pool_next p)(last ?ts := hd ?fs)) ?ts (hd ?fs)"
      using dist ring by (auto intro!: linked_redirect)
    then have "linked ((pool_next p)(last ?fs := hd ?ts, last ?ts := hd ?fs)) ?fs (hd ?ts)"
      and "linked ?g ?ts (hd ?fs)"
      using False nl by auto
    moreover have "(pool_next p)(last ?fs := hd ?ts, last ?ts := hd ?fs) = ?g"
    proof -
      have "last ?fs \<noteq> last ?ts" using False nl(1) by (metis last_in_set)
      then show ?thesis using False by (simp add: fun_upd_twist)
    qed
    ultimately show ?thesis using False by (auto simp: linked_append)
  qed
  show ?thesis
    unfolding pool_inv_def
  proof (intro conjI allI impI)
    show "length (nodes ?p) \<le> u32_max" using inv r(1) by (simp add: pool_inv_def)
    show "free ?p = ring_tail (?own None)" using r(2) by simp
    show "linked (pool_next ?p) (?own b) (hd (?own b))" if ne: "?own b \<noteq> []" for b
    proof -
      have "linked ?g (?own b) (hd (?own b))"
      proof (cases b)
        case None
        then show ?thesis using free_ring by simp
      next
        case (Some c)
        with ne have c: "c \<noteq> i" by (auto split: if_splits)
        have "linked ?g (own b) (hd (own b)) = linked (pool_next p) (own b) (hd (own b))"
        proof (rule linked_cong)
          fix j assume "j \<in> set (own b)"
          then show "?g j = pool_next p j"
            using disj[of b None] disj[of b "Some i"] Some c
            by (auto dest: last_in_set)
        qed
        with Some c ne ring[of b] show ?thesis by simp
      qed
      moreover have "linked (pool_next ?p) (?own b) (hd (?own b)) = linked ?g (?own b) (hd (?own b))"
        by (rule linked_cong) (use same sub in blast)
      ultimately show ?thesis by simp
    qed
    show "distinct (?own b)" for b using dist disj[of None "Some i"] by (cases b) auto
    show "set (?own b) \<inter> set (?own c) = {}" if "b \<noteq> c" for b c
      using disj[OF that] disj[of b None] disj[of c None] disj[of b "Some i"] disj[of c "Some i"] that
      by (cases b; cases c) (auto split: if_splits)
    have "set ?ts \<union> (\<Union>a. set (?own (Some a))) = (\<Union>a. set (own (Some a)))"
    proof (rule set_eqI)
      show "x \<in> set ?ts \<union> (\<Union>a. set (?own (Some a))) \<longleftrightarrow> x \<in> (\<Union>a. set (own (Some a)))" for x
        by (cases "x \<in> set ?ts") auto
    qed
    then have "(\<Union>b. set (?own b)) = (\<Union>b. set (own b))"
      unfolding Union_option[of "\<lambda>j. set (?own j)"] Union_option[of "\<lambda>j. set (own j)"] by auto
    then show "(\<Union>b. set (?own b)) = {1..length (nodes ?p)}"
      using inv r(1) by (simp add: pool_inv_def)
  qed
qed

section \<open>The initial pool\<close>

lemma linked_upt:
  assumes "\<And>j. a \<le> j \<Longrightarrow> Suc j < b \<Longrightarrow> f j = Suc j" and "a < b \<Longrightarrow> f (b - 1) = z"
  shows "linked f [a..<b] z"
  using assms
proof (induction "b - a" arbitrary: a)
  case 0
  then show ?case by simp
next
  case (Suc n)
  then have ab: "a < b" by simp
  with Suc have "linked f [Suc a..<b] z" by (intro Suc.hyps) auto
  with ab Suc.prems show ?case
    by (cases "Suc a < b") (auto simp: upt_conv_Cons not_less le_Suc_eq)
qed

lemma pool_inv_new:
  assumes "pool_try_new failed cap = Inr p" and "cap \<le> u32_max"
  shows "pool_inv p ((\<lambda>_. [])(None := [1..<Suc cap]))"
proof -
  from assms(1) have p: "nodes p = map (\<lambda>index. node_vacant (key_new (as_u32
        (if index + 1 = cap then 0 else index + 1)))) [0..<cap]"
      "free p = (if cap = 0 then None else Some (key_new (as_u32 (cap - 1))))"
    by (auto simp: pool_try_new_def split: option.splits)
  have nx: "pool_next p j = (if j = cap then 1 else Suc j)" if j: "1 \<le> j" "j \<le> cap" for j
  proof -
    obtain i where i: "j = Suc i" using j by (cases j) auto
    with j assms(2) have k: "key_new (as_u32 (if i + 1 = cap then 0 else i + 1)) =
        (if Suc i = cap then 1 else Suc (Suc i))"
      by (simp add: key_new_def)
    have "nodes p ! i = node_vacant (key_new (as_u32 (if i + 1 = cap then 0 else i + 1)))"
      using i j unfolding p by simp
    then show ?thesis
      unfolding pool_next_def pool_node_def key_offset_def i
      by (simp only: k diff_Suc_1 node_vacant_def node_raw_def node.simps)
  qed
  have ring: "linked (pool_next p) [1..<Suc cap] 1"
    by (rule linked_upt) (use nx in auto)
  have len: "length (nodes p) = cap" by (simp add: p)
  show ?thesis
    unfolding pool_inv_def
  proof (intro conjI allI impI)
    show "length (nodes p) \<le> u32_max" using len assms(2) by simp
    show "free p = ring_tail (((\<lambda>_. [])(None := [1..<Suc cap])) None)"
      using assms(2) by (simp add: p(2) ring_tail_def key_new_def)
    show "(\<Union>i. set (((\<lambda>_. [])(None := [1..<Suc cap])) i)) = {1..length (nodes p)}"
      unfolding Union_option len by auto
    show "linked (pool_next p) (((\<lambda>_. [])(None := [1..<Suc cap])) b)
        (hd (((\<lambda>_. [])(None := [1..<Suc cap])) b))" if "((\<lambda>_. [])(None := [1..<Suc cap])) b \<noteq> []" for b
    proof -
      from that have "b = None" and "0 < cap" by (auto split: if_splits)
      then show ?thesis using ring by (simp add: upt_conv_Cons del: upt_Suc)
    qed
  qed auto
qed

end
