(* ===== verification/Fifo.thy ===== *)
theory Fifo
  imports Prelude
begin

text \<open>
  \<open>o3::depot::queue::indexed::shared::Fifo\<close>, the fixed-capacity queue of \<open>o3\<close> whose entries are
  addressed by slot index and which keeps a number of independent lanes, is outside the repository.
  Its operations are a record of functions that the models of its users take as an argument, and
  \<open>fifo_laws\<close> is what those users rely on: an entry reads back what was last pushed on its slot and
  lane, and \<open>next\<close> removes and returns a queued entry unless the lane is empty.
\<close>

record ('w, 't) fifo =
  fifo_fits :: "'w \<Rightarrow> nat \<Rightarrow> bool"
  fifo_get :: "'w \<Rightarrow> nat \<Rightarrow> nat \<Rightarrow> 't option"
  fifo_push :: "'w \<Rightarrow> nat \<Rightarrow> nat \<Rightarrow> 't \<Rightarrow> 'w"
  fifo_clear :: "'w \<Rightarrow> nat \<Rightarrow> nat \<Rightarrow> 'w"
  fifo_next :: "'w \<Rightarrow> nat \<Rightarrow> ('w \<times> nat \<times> 't) option"
  fifo_front :: "'w \<Rightarrow> nat \<Rightarrow> (nat \<times> 't) option"

definition fifo_laws :: "('w, 't) fifo \<Rightarrow> bool" where
  "fifo_laws F \<longleftrightarrow>
     (\<forall>w lane i t. fifo_fits F w i \<longrightarrow>
        (\<forall>l j. fifo_get F (fifo_push F w lane i t) l j =
           (if l = lane \<and> j = i then Some t else fifo_get F w l j)) \<and>
        fifo_fits F (fifo_push F w lane i t) = fifo_fits F w) \<and>
     (\<forall>w lane i.
        (\<forall>l j. fifo_get F (fifo_clear F w lane i) l j =
           (if l = lane \<and> j = i then None else fifo_get F w l j)) \<and>
        fifo_fits F (fifo_clear F w lane i) = fifo_fits F w) \<and>
     (\<forall>w lane. fifo_next F w lane = None \<longrightarrow> (\<forall>j. fifo_get F w lane j = None)) \<and>
     (\<forall>w lane w' i t. fifo_next F w lane = Some (w', i, t) \<longrightarrow>
        fifo_get F w lane i = Some t \<and> fifo_fits F w i \<and>
        (\<forall>l j. fifo_get F w' l j = (if l = lane \<and> j = i then None else fifo_get F w l j)) \<and>
        fifo_fits F w' = fifo_fits F w)"

lemma fifo_push_law:
  "fifo_laws F \<Longrightarrow> fifo_fits F w i \<Longrightarrow>
     fifo_get F (fifo_push F w lane i t) l j =
       (if l = lane \<and> j = i then Some t else fifo_get F w l j)"
  "fifo_laws F \<Longrightarrow> fifo_fits F w i \<Longrightarrow> fifo_fits F (fifo_push F w lane i t) = fifo_fits F w"
  by (simp_all add: fifo_laws_def)

lemma fifo_clear_law:
  "fifo_laws F \<Longrightarrow>
     fifo_get F (fifo_clear F w lane i) l j =
       (if l = lane \<and> j = i then None else fifo_get F w l j)"
  "fifo_laws F \<Longrightarrow> fifo_fits F (fifo_clear F w lane i) = fifo_fits F w"
  by (simp_all add: fifo_laws_def)

lemma fifo_next_None: "fifo_laws F \<Longrightarrow> fifo_next F w lane = None \<Longrightarrow> fifo_get F w lane j = None"
  by (simp add: fifo_laws_def)

lemma fifo_next_Some:
  assumes "fifo_laws F" and "fifo_next F w lane = Some (w', i, t)"
  shows "fifo_get F w lane i = Some t" and "fifo_fits F w i"
    and "fifo_get F w' l j = (if l = lane \<and> j = i then None else fifo_get F w l j)"
    and "fifo_fits F w' = fifo_fits F w"
  using assms by (simp_all add: fifo_laws_def)

section \<open>An instance\<close>

text \<open>
  Association lists per lane with a fixed number of slots satisfy the laws, so the hypothesis
  \<open>fifo_laws\<close> can be met; the witnesses of the properties that assume it use this instance.
\<close>

record 't list_fifo =
  lf_slots :: nat
  lf_lanes :: "nat \<Rightarrow> (nat \<times> 't) list"

definition lf_remove :: "nat \<Rightarrow> (nat \<times> 't) list \<Rightarrow> (nat \<times> 't) list" where
  "lf_remove i q = filter (\<lambda>e. fst e \<noteq> i) q"

definition lf_get :: "'t list_fifo \<Rightarrow> nat \<Rightarrow> nat \<Rightarrow> 't option" where
  "lf_get w lane i = (if i < lf_slots w then map_of (lf_lanes w lane) i else None)"

definition lf_push :: "'t list_fifo \<Rightarrow> nat \<Rightarrow> nat \<Rightarrow> 't \<Rightarrow> 't list_fifo" where
  "lf_push w lane i t =
     w\<lparr>lf_lanes := (lf_lanes w)(lane := lf_remove i (lf_lanes w lane) @ [(i, t)])\<rparr>"

definition lf_clear :: "'t list_fifo \<Rightarrow> nat \<Rightarrow> nat \<Rightarrow> 't list_fifo" where
  "lf_clear w lane i = w\<lparr>lf_lanes := (lf_lanes w)(lane := lf_remove i (lf_lanes w lane))\<rparr>"

definition lf_front :: "'t list_fifo \<Rightarrow> nat \<Rightarrow> (nat \<times> 't) option" where
  "lf_front w lane =
     (case filter (\<lambda>e. fst e < lf_slots w) (lf_lanes w lane) of [] \<Rightarrow> None | e # _ \<Rightarrow> Some e)"

definition lf_next :: "'t list_fifo \<Rightarrow> nat \<Rightarrow> ('t list_fifo \<times> nat \<times> 't) option" where
  "lf_next w lane = map_option (\<lambda>e. (lf_clear w lane (fst e), e)) (lf_front w lane)"

definition list_fifo_ops :: "('t list_fifo, 't) fifo" where
  "list_fifo_ops =
     \<lparr>fifo_fits = (\<lambda>w i. i < lf_slots w), fifo_get = lf_get, fifo_push = lf_push,
      fifo_clear = lf_clear, fifo_next = lf_next, fifo_front = lf_front\<rparr>"

lemma map_of_lf_remove: "map_of (lf_remove i q) j = (if j = i then None else map_of q j)"
  by (induction q) (auto simp: lf_remove_def)

lemma lf_front_Some: "lf_front w lane = Some (i, t) \<Longrightarrow> i < lf_slots w \<and> map_of (lf_lanes w lane) i = Some t"
proof -
  assume "lf_front w lane = Some (i, t)"
  then have "\<exists>r. filter (\<lambda>e. fst e < lf_slots w) (lf_lanes w lane) = (i, t) # r"
    by (auto simp: lf_front_def split: list.splits)
  moreover have "filter (\<lambda>e. fst e < n) q = (i, t) # r \<Longrightarrow> i < n \<and> map_of q i = Some t" for n q r
  proof (induction q)
    case (Cons e q)
    then show ?case by (cases e) (auto split: if_splits)
  qed simp
  ultimately show ?thesis by blast
qed

lemma lf_front_None: "lf_front w lane = None \<Longrightarrow> i < lf_slots w \<Longrightarrow> map_of (lf_lanes w lane) i = None"
  by (auto simp: lf_front_def map_of_eq_None_iff filter_empty_conv split: list.splits)

lemma list_fifo_laws: "fifo_laws list_fifo_ops"
  unfolding fifo_laws_def
proof (intro conjI allI impI)
  fix w :: "'a list_fifo" and lane assume n: "fifo_next list_fifo_ops w lane = None"
  then show "fifo_get list_fifo_ops w lane j = None" for j
    using lf_front_None[of w lane j] by (auto simp: list_fifo_ops_def lf_next_def lf_get_def)
next
  fix w :: "'a list_fifo" and lane w' i t
  assume "fifo_next list_fifo_ops w lane = Some (w', i, t)"
  then have f: "lf_front w lane = Some (i, t)" and w': "w' = lf_clear w lane i"
    by (auto simp: list_fifo_ops_def lf_next_def)
  from lf_front_Some[OF f] show "fifo_get list_fifo_ops w lane i = Some t"
      and "fifo_fits list_fifo_ops w i"
    by (auto simp: list_fifo_ops_def lf_get_def)
  show "fifo_get list_fifo_ops w' l j =
      (if l = lane \<and> j = i then None else fifo_get list_fifo_ops w l j)" for l j
    by (auto simp: w' list_fifo_ops_def lf_get_def lf_clear_def map_of_lf_remove)
  show "fifo_fits list_fifo_ops w' = fifo_fits list_fifo_ops w"
    by (simp add: w' list_fifo_ops_def lf_clear_def)
qed (auto simp: list_fifo_ops_def lf_get_def lf_push_def lf_clear_def map_of_lf_remove map_add_def
    split: option.splits)

end
