(* ===== verification/Resp_Gate.thy ===== *)
theory Resp_Gate
  imports Fifo
begin

text \<open>
  \<open>redis/src/protocol/parser/storage/gate.rs\<close>: the gate that admits a fixed number of parsers (and
  completed frames not yet handed over) to the shared tape pool.  A parser that finds the gate full
  registers its wake target; a released charge is granted to the first waiter instead of being
  refunded, so the grant survives until that waiter runs.
\<close>

section \<open>Definitions\<close>

record ('w, 't) gate =
  gate_active :: nat
  gate_lanes :: nat
  gate_waiters :: 'w
  gate_granted :: "nat \<Rightarrow> 't option"

datatype 't phase = Idle | Held | Waiting nat 't

definition gate_new :: "'w \<Rightarrow> nat \<Rightarrow> ('w, 't) gate" where
  "gate_new w lanes =
     \<lparr>gate_active = 0, gate_lanes = lanes, gate_waiters = w, gate_granted = (\<lambda>_. None)\<rparr>"

text \<open>\<open>Drop for Lane\<close>; the woken target, if any, is the second component.\<close>

definition lane_drop :: "('w, 't) fifo \<Rightarrow> ('w, 't) gate \<Rightarrow> ('w, 't) gate \<times> 't option" where
  "lane_drop F g =
     (case fifo_next F (gate_waiters g) 0 of
        None \<Rightarrow> (g\<lparr>gate_active := wrapping_sub64 (gate_active g) 1\<rparr>, None)
      | Some (w, slot, target) \<Rightarrow>
          (g\<lparr>gate_waiters := w, gate_granted := (gate_granted g)(slot := Some target)\<rparr>, Some target))"

definition gate_resume :: "('w, 't) fifo \<Rightarrow> ('w, 't) gate \<Rightarrow> nat \<Rightarrow> 't \<Rightarrow> ('w, 't) gate \<times> bool" where
  "gate_resume F g slot target =
     (if gate_granted g slot = Some target then
        (g\<lparr>gate_granted := (gate_granted g)(slot := None)\<rparr>, True)
      else if gate_lanes g \<le> gate_active g then (g, False)
      else
        (let g = (if fifo_get F (gate_waiters g) 0 slot = Some target
                  then g\<lparr>gate_waiters := fifo_clear F (gate_waiters g) 0 slot\<rparr> else g)
         in (g\<lparr>gate_active := gate_active g + 1\<rparr>, True)))"

definition gate_cancel :: "('w, 't) fifo \<Rightarrow> ('w, 't) gate \<Rightarrow> nat \<Rightarrow> 't \<Rightarrow> ('w, 't) gate \<times> 't option" where
  "gate_cancel F g slot target =
     (let g = (if fifo_get F (gate_waiters g) 0 slot = Some target
               then g\<lparr>gate_waiters := fifo_clear F (gate_waiters g) 0 slot\<rparr> else g)
      in if gate_granted g slot = Some target
         then lane_drop F (g\<lparr>gate_granted := (gate_granted g)(slot := None)\<rparr>)
         else (g, None))"

text \<open>\<open>Access::acquire\<close>: the third component says whether access was acquired.\<close>

definition access_acquire ::
  "('w, 't) fifo \<Rightarrow> ('w, 't) gate \<Rightarrow> 't phase \<Rightarrow> ('w, 't) gate \<times> 't phase \<times> bool" where
  "access_acquire F g ph =
     (case ph of
        Idle \<Rightarrow>
          if gate_lanes g \<le> gate_active g then (g, ph, False)
          else (g\<lparr>gate_active := gate_active g + 1\<rparr>, Held, True)
      | Waiting slot target \<Rightarrow>
          (case gate_resume F g slot target of
             (g, True) \<Rightarrow> (g, Held, True)
           | (g, False) \<Rightarrow> (g, ph, False))
      | Held \<Rightarrow> (g, Held, True))"

definition access_wait ::
  "('w, 't) fifo \<Rightarrow> ('w, 't) gate \<Rightarrow> 't phase \<Rightarrow> nat \<Rightarrow> 't
     \<Rightarrow> (('w, 't) gate \<times> 't phase \<times> 't option) option" where
  "access_wait F g ph index target =
     (if ph = Held \<or> ph = Waiting index target then Some (g, ph, None)
      else if \<not> fifo_fits F (gate_waiters g) index then None
      else
        (let g = (if fifo_get F (gate_waiters g) 0 index \<noteq> Some target
                  then g\<lparr>gate_waiters := fifo_push F (gate_waiters g) 0 index target\<rparr> else g)
         in case ph of
              Waiting slot old \<Rightarrow>
                (case gate_cancel F g slot old of (g, woken) \<Rightarrow> Some (g, Waiting index target, woken))
            | _ \<Rightarrow> Some (g, Waiting index target, None)))"

definition access_release ::
  "('w, 't) fifo \<Rightarrow> ('w, 't) gate \<Rightarrow> 't phase \<Rightarrow> ('w, 't) gate \<times> 't phase \<times> 't option" where
  "access_release F g ph =
     (case ph of
        Idle \<Rightarrow> (g, Idle, None)
      | Held \<Rightarrow> (case lane_drop F g of (g, woken) \<Rightarrow> (g, Idle, woken))
      | Waiting slot target \<Rightarrow>
          (case gate_cancel F g slot target of (g, woken) \<Rightarrow> (g, Idle, woken)))"

text \<open>\<open>Access::finish\<close> moves the held charge into a \<open>Lane\<close>; the gate itself does not change.\<close>

definition access_finish :: "'t phase \<Rightarrow> 't phase" where
  "access_finish ph = Idle"

section \<open>The system of one gate\<close>

text \<open>
  One parser per connection slot, each with its access phase, and a number of live \<open>Lane\<close> owners
  (completed frames that still carry the charge of their parser).
\<close>

record ('w, 't) gate_system =
  sys_gate :: "('w, 't) gate"
  sys_phase :: "nat \<Rightarrow> 't phase"
  sys_live :: nat

inductive gate_step ::
  "('w, 't) fifo \<Rightarrow> ('w, 't) gate_system \<Rightarrow> ('w, 't) gate_system \<Rightarrow> bool" for F where
  step_acquire: "access_acquire F (sys_gate s) (sys_phase s i) = (g, ph, ok) \<Longrightarrow>
     gate_step F s (s\<lparr>sys_gate := g, sys_phase := (sys_phase s)(i := ph)\<rparr>)"
| step_wait: "access_wait F (sys_gate s) (sys_phase s i) i t = Some (g, ph, woken) \<Longrightarrow>
     gate_step F s (s\<lparr>sys_gate := g, sys_phase := (sys_phase s)(i := ph)\<rparr>)"
| step_release: "access_release F (sys_gate s) (sys_phase s i) = (g, ph, woken) \<Longrightarrow>
     gate_step F s (s\<lparr>sys_gate := g, sys_phase := (sys_phase s)(i := ph)\<rparr>)"
| step_finish: "sys_phase s i = Held \<Longrightarrow>
     gate_step F s (s\<lparr>sys_phase := (sys_phase s)(i := access_finish (sys_phase s i)),
                      sys_live := sys_live s + 1\<rparr>)"
| step_drop: "0 < sys_live s \<Longrightarrow> lane_drop F (sys_gate s) = (g, woken) \<Longrightarrow>
     gate_step F s (s\<lparr>sys_gate := g, sys_live := sys_live s - 1\<rparr>)"

inductive gate_reachable ::
  "('w, 't) fifo \<Rightarrow> ('w, 't) gate_system \<Rightarrow> ('w, 't) gate_system \<Rightarrow> bool" for F s0 where
  gate_start: "gate_reachable F s0 s0"
| gate_next: "gate_reachable F s0 s \<Longrightarrow> gate_step F s s' \<Longrightarrow> gate_reachable F s0 s'"

definition gate_initial :: "('w, 't) fifo \<Rightarrow> 'w \<Rightarrow> nat \<Rightarrow> ('w, 't) gate_system" where
  "gate_initial F w lanes =
     \<lparr>sys_gate = gate_new w lanes, sys_phase = (\<lambda>_. Idle), sys_live = 0\<rparr>"

text \<open>
  Every charge has one owner: a held access, a live \<open>Lane\<close>, a grant, or the operation under way
  (the last argument counts those); every queued or granted target is that of the waiting access of
  its slot, and every waiting access is either queued or granted.
\<close>

definition held_set :: "(nat \<Rightarrow> 't phase) \<Rightarrow> nat set" where
  "held_set ph = {i. ph i = Held}"

definition granted_set :: "('w, 't) gate \<Rightarrow> nat set" where
  "granted_set g = {i. gate_granted g i \<noteq> None}"

definition gate_ok :: "('w, 't) fifo \<Rightarrow> ('w, 't) gate \<Rightarrow> (nat \<Rightarrow> 't phase) \<Rightarrow> nat \<Rightarrow> nat \<Rightarrow> bool" where
  "gate_ok F g ph live k \<longleftrightarrow>
     finite (held_set ph) \<and> finite (granted_set g) \<and>
     gate_active g = card (held_set ph) + live + card (granted_set g) + k \<and>
     gate_active g \<le> gate_lanes g \<and> gate_lanes g \<le> usize_max \<and>
     (\<forall>i t. fifo_get F (gate_waiters g) 0 i = Some t \<longrightarrow> ph i = Waiting i t) \<and>
     (\<forall>i t. gate_granted g i = Some t \<longrightarrow> ph i = Waiting i t) \<and>
     (\<forall>i j t. ph i = Waiting j t \<longrightarrow>
        j = i \<and> (fifo_get F (gate_waiters g) 0 i = Some t) \<noteq> (gate_granted g i = Some t))"

definition gate_inv :: "('w, 't) fifo \<Rightarrow> ('w, 't) gate_system \<Rightarrow> bool" where
  "gate_inv F s \<longleftrightarrow> gate_ok F (sys_gate s) (sys_phase s) (sys_live s) 0"

section \<open>Every operation keeps the invariant\<close>

lemma held_set_upd:
  "held_set (ph(i := p)) = (if p = Held then insert i (held_set ph) else held_set ph - {i})"
  by (auto simp: held_set_def)

lemma granted_set_upd:
  "granted_set (g\<lparr>gate_granted := (gate_granted g)(i := v)\<rparr>) =
     (if v = None then granted_set g - {i} else insert i (granted_set g))"
  by (auto simp: granted_set_def)

lemma granted_set_simps [simp]:
  "granted_set (g\<lparr>gate_active := a\<rparr>) = granted_set g"
  "granted_set (g\<lparr>gate_waiters := w\<rparr>) = granted_set g"
  by (simp_all add: granted_set_def)

lemma gate_okD:
  assumes "gate_ok F g ph live k"
  shows "fifo_get F (gate_waiters g) 0 i = Some t \<Longrightarrow> ph i = Waiting i t"
    and "gate_granted g i = Some t \<Longrightarrow> ph i = Waiting i t"
    and "ph i = Waiting j t \<Longrightarrow> j = i"
    and "ph i = Waiting j t \<Longrightarrow>
           (fifo_get F (gate_waiters g) 0 i = Some t) \<noteq> (gate_granted g i = Some t)"
  using assms unfolding gate_ok_def by blast+

lemma gate_ok_not_waiting:
  assumes "gate_ok F g ph live k" and "\<And>j t. ph i \<noteq> Waiting j t"
  shows "fifo_get F (gate_waiters g) 0 i = None" and "gate_granted g i = None"
  using gate_okD(1,2)[OF assms(1), where i = i] assms(2) by (metis not_None_eq)+

lemma gate_ok_waiting:
  assumes "gate_ok F g ph live k" and "ph i = Waiting i t"
  shows "(fifo_get F (gate_waiters g) 0 i = Some t \<and> gate_granted g i = None) \<or>
         (fifo_get F (gate_waiters g) 0 i = None \<and> gate_granted g i = Some t)"
proof -
  note d = gate_okD[OF assms(1), where i = i]
  have "fifo_get F (gate_waiters g) 0 i = Some u \<Longrightarrow> u = t" for u using d(1)[where t = u] assms(2) by simp
  moreover have "gate_granted g i = Some u \<Longrightarrow> u = t" for u using d(2)[where t = u] assms(2) by simp
  ultimately show ?thesis using d(4)[OF assms(2)]
    by (cases "fifo_get F (gate_waiters g) 0 i"; cases "gate_granted g i") auto
qed

lemma lane_drop_ok:
  assumes F: "fifo_laws F" and ok: "gate_ok F g ph live (Suc k)"
    and eq: "lane_drop F g = (g', woken)"
  shows "gate_ok F g' ph live k"
proof (cases "fifo_next F (gate_waiters g) 0")
  case None
  have "1 \<le> gate_active g" "gate_active g \<le> usize_max" using ok by (auto simp: gate_ok_def)
  with None eq have g': "g' = g\<lparr>gate_active := gate_active g - 1\<rparr>"
    by (auto simp: lane_drop_def wrapping_sub64_id)
  show ?thesis using ok unfolding g' gate_ok_def granted_set_simps by auto
next
  case (Some r)
  obtain w slot t where r: "r = (w, slot, t)" by (cases r)
  note n = fifo_next_Some[OF F Some[unfolded r]]
  from Some r eq have g': "g' = (g\<lparr>gate_waiters := w\<rparr>)
      \<lparr>gate_granted := (gate_granted (g\<lparr>gate_waiters := w\<rparr>))(slot := Some t)\<rparr>"
    by (auto simp: lane_drop_def)
  have ph: "ph slot = Waiting slot t" using gate_okD(1)[OF ok n(1)] .
  with gate_ok_waiting[OF ok ph] n(1) have ng: "gate_granted g slot = None" by auto
  then have card: "card (insert slot (granted_set g)) = Suc (card (granted_set g))"
    using ok by (intro card_insert_disjoint) (auto simp: gate_ok_def granted_set_def)
  have q: "fifo_get F w 0 j = (if j = slot then None else fifo_get F (gate_waiters g) 0 j)" for j
    by (simp add: n(3))
  show ?thesis
    unfolding gate_ok_def g' granted_set_upd
    using ok card ng ph n(1) unfolding gate_ok_def
    by (auto simp: q split: if_splits)
qed

lemma gate_ok_take:
  assumes ok: "gate_ok F g ph live (Suc k)" and n: "\<And>j t. ph i \<noteq> Waiting j t" and h: "ph i \<noteq> Held"
  shows "gate_ok F g (ph(i := Held)) live k"
proof -
  have "card (insert i (held_set ph)) = Suc (card (held_set ph))"
    using ok h by (intro card_insert_disjoint) (auto simp: gate_ok_def held_set_def)
  then show ?thesis
    using ok gate_ok_not_waiting[OF ok n] unfolding gate_ok_def held_set_upd by auto
qed

lemma gate_ok_leave:
  assumes ok: "gate_ok F g ph live k" and h: "ph i = Held"
  shows "gate_ok F g (ph(i := Idle)) live (Suc k)"
proof -
  have "card (held_set ph) = Suc (card (held_set ph - {i}))"
    using ok h by (intro card.remove) (auto simp: gate_ok_def held_set_def)
  moreover have "fifo_get F (gate_waiters g) 0 i = None" "gate_granted g i = None"
    using gate_ok_not_waiting[OF ok, of i] h by auto
  ultimately show ?thesis
    using ok unfolding gate_ok_def held_set_upd by auto
qed

lemma gate_ok_charge:
  "gate_ok F g ph live k \<Longrightarrow> gate_active g < gate_lanes g \<Longrightarrow>
     gate_ok F (g\<lparr>gate_active := gate_active g + 1\<rparr>) ph live (Suc k)"
  by (auto simp: gate_ok_def)

lemma gate_ok_ungrant:
  assumes ok: "gate_ok F g ph live k" and gr: "gate_granted g i = Some t"
  shows "gate_ok F (g\<lparr>gate_granted := (gate_granted g)(i := None)\<rparr>) (ph(i := Idle)) live (Suc k)"
proof -
  have ph: "ph i = Waiting i t" using gate_okD(2)[OF ok gr] .
  have "card (granted_set g) = Suc (card (granted_set g - {i}))"
    using ok gr by (intro card.remove) (auto simp: gate_ok_def granted_set_def)
  moreover have "fifo_get F (gate_waiters g) 0 i = None"
    using gate_ok_waiting[OF ok ph] gr by auto
  moreover have "held_set (ph(i := Idle)) = held_set ph" using ph by (auto simp: held_set_def)
  ultimately show ?thesis
    using ok unfolding gate_ok_def granted_set_upd by auto
qed

lemma gate_ok_unqueue:
  assumes F: "fifo_laws F" and ok: "gate_ok F g ph live k"
    and q: "fifo_get F (gate_waiters g) 0 i = Some t"
  shows "gate_ok F (g\<lparr>gate_waiters := fifo_clear F (gate_waiters g) 0 i\<rparr>) (ph(i := Idle)) live k"
proof -
  have ph: "ph i = Waiting i t" using gate_okD(1)[OF ok q] .
  then have "gate_granted g i = None" using gate_ok_waiting[OF ok ph] q by auto
  moreover have "held_set (ph(i := Idle)) = held_set ph" using ph by (auto simp: held_set_def)
  ultimately show ?thesis
    using ok unfolding gate_ok_def by (auto simp: fifo_clear_law[OF F] split: if_splits)
qed

lemma gate_cancel_ok:
  assumes F: "fifo_laws F" and ok: "gate_ok F g ph live k" and ph: "ph i = Waiting i t"
    and eq: "gate_cancel F g i t = (g', woken)"
  shows "gate_ok F g' (ph(i := Idle)) live k"
proof (cases "fifo_get F (gate_waiters g) 0 i = Some t")
  case True
  with gate_ok_waiting[OF ok ph] eq
  have "g' = g\<lparr>gate_waiters := fifo_clear F (gate_waiters g) 0 i\<rparr>" by (auto simp: gate_cancel_def)
  with gate_ok_unqueue[OF F ok True] show ?thesis by simp
next
  case False
  with gate_ok_waiting[OF ok ph] have gr: "gate_granted g i = Some t"
    "fifo_get F (gate_waiters g) 0 i = None" by auto
  with eq have "lane_drop F (g\<lparr>gate_granted := (gate_granted g)(i := None)\<rparr>) = (g', woken)"
    by (auto simp: gate_cancel_def)
  from lane_drop_ok[OF F gate_ok_ungrant[OF ok gr(1)] this] show ?thesis .
qed

lemma gate_resume_ok:
  assumes F: "fifo_laws F" and ok: "gate_ok F g ph live k" and ph: "ph i = Waiting i t"
    and eq: "gate_resume F g i t = (g', b)"
  shows "if b then gate_ok F g' (ph(i := Idle)) live (Suc k) else g' = g"
proof (cases "gate_granted g i = Some t")
  case True
  with eq gate_ok_ungrant[OF ok True] show ?thesis by (auto simp: gate_resume_def)
next
  case False
  with gate_ok_waiting[OF ok ph] have q: "fifo_get F (gate_waiters g) 0 i = Some t" by auto
  show ?thesis using False q eq gate_ok_charge[OF gate_ok_unqueue[OF F ok q]]
    by (auto simp: gate_resume_def split: if_splits)
qed

lemma access_acquire_ok:
  assumes F: "fifo_laws F" and ok: "gate_ok F g ph live 0"
    and eq: "access_acquire F g (ph i) = (g', p, b)"
  shows "gate_ok F g' (ph(i := p)) live 0"
proof (cases "ph i")
  case Idle
  then show ?thesis using eq ok gate_ok_take[OF gate_ok_charge[OF ok], of i]
    by (auto simp: access_acquire_def fun_upd_idem split: if_splits)
next
  case Held
  then show ?thesis using eq ok by (auto simp: access_acquire_def fun_upd_idem)
next
  case (Waiting j t)
  with ok have ph: "ph i = Waiting i t" by (auto simp: gate_ok_def)
  obtain h c where r: "gate_resume F g i t = (h, c)" by fastforce
  from gate_resume_ok[OF F ok ph r] gate_ok_take[of F h "ph(i := Idle)" live 0 i] eq r ph ok
  show ?thesis by (cases c) (auto simp: access_acquire_def fun_upd_idem)
qed


lemma access_release_ok:
  assumes F: "fifo_laws F" and ok: "gate_ok F g ph live 0"
    and eq: "access_release F g (ph i) = (g', p, woken)"
  shows "gate_ok F g' (ph(i := p)) live 0"
proof (cases "ph i")
  case Idle
  then show ?thesis using eq ok by (auto simp: access_release_def fun_upd_idem)
next
  case Held
  with eq obtain u where "lane_drop F g = (g', u)" "p = Idle"
    by (auto simp: access_release_def split: prod.splits)
  with lane_drop_ok[OF F gate_ok_leave[OF ok Held]] show ?thesis by simp
next
  case (Waiting j t)
  with ok have ph: "ph i = Waiting i t" by (auto simp: gate_ok_def)
  with eq obtain u where "gate_cancel F g i t = (g', u)" "p = Idle"
    by (auto simp: access_release_def split: prod.splits)
  with gate_cancel_ok[OF F ok ph] show ?thesis by simp
qed

lemma gate_ok_enqueue:
  assumes F: "fifo_laws F" and ok: "gate_ok F g ph live k" and ph: "ph i = Idle"
    and fits: "fifo_fits F (gate_waiters g) i"
  shows "gate_ok F (g\<lparr>gate_waiters := fifo_push F (gate_waiters g) 0 i t\<rparr>) (ph(i := Waiting i t)) live k"
proof -
  have "gate_granted g i = None" using gate_ok_not_waiting(2)[OF ok, of i] ph by auto
  moreover have "held_set (ph(i := Waiting i t)) = held_set ph" using ph by (auto simp: held_set_def)
  ultimately show ?thesis
    using ok unfolding gate_ok_def by (auto simp: fifo_push_law[OF F fits] split: if_splits)
qed

lemma gate_ok_requeue:
  assumes F: "fifo_laws F" and ok: "gate_ok F g ph live k"
    and fits: "fifo_fits F (gate_waiters g) i"
    and q: "fifo_get F (gate_waiters g) 0 i = Some old"
  shows "gate_ok F (g\<lparr>gate_waiters := fifo_push F (gate_waiters g) 0 i t\<rparr>) (ph(i := Waiting i t)) live k"
proof -
  have ph: "ph i = Waiting i old" using gate_okD(1)[OF ok q] .
  with gate_ok_waiting[OF ok ph] q have "gate_granted g i = None" by auto
  moreover have "held_set (ph(i := Waiting i t)) = held_set ph" using ph by (auto simp: held_set_def)
  ultimately show ?thesis
    using ok unfolding gate_ok_def by (auto simp: fifo_push_law[OF F fits] split: if_splits)
qed

lemma access_wait_ok:
  assumes F: "fifo_laws F" and ok: "gate_ok F g ph live 0"
    and eq: "access_wait F g (ph i) i t = Some (g', p, woken)"
  shows "gate_ok F g' (ph(i := p)) live 0"
proof (cases "ph i = Held \<or> ph i = Waiting i t")
  case True
  then show ?thesis using eq ok by (auto simp: access_wait_def fun_upd_idem)
next
  case False
  let ?push = "\<lambda>h. h\<lparr>gate_waiters := fifo_push F (gate_waiters g) 0 i t\<rparr>"
  from False eq have fits: "fifo_fits F (gate_waiters g) i"
    by (auto simp: access_wait_def split: if_splits)
  have new: "fifo_get F (gate_waiters g) 0 i \<noteq> Some t" using gate_okD(1)[OF ok] False by blast
  show ?thesis
  proof (cases "ph i")
    case Idle
    with False eq fits new have "g' = ?push g" "p = Waiting i t" by (auto simp: access_wait_def)
    with gate_ok_enqueue[OF F ok Idle fits] show ?thesis by simp
  next
    case (Waiting j old)
    with ok have ph: "ph i = Waiting i old" by (auto simp: gate_ok_def)
    with False eq fits new have can: "gate_cancel F (?push g) i old = (g', woken)"
      and p: "p = Waiting i t" and ne: "old \<noteq> t"
      by (auto simp: access_wait_def split: prod.splits)
    from gate_ok_waiting[OF ok ph] show ?thesis
    proof
      assume a: "fifo_get F (gate_waiters g) 0 i = Some old \<and> gate_granted g i = None"
      with can ne have "g' = ?push g" by (auto simp: gate_cancel_def fifo_push_law[OF F fits])
      with gate_ok_requeue[OF F ok fits, of old t] a p show ?thesis by simp
    next
      assume a: "fifo_get F (gate_waiters g) 0 i = None \<and> gate_granted g i = Some old"
      let ?h = "g\<lparr>gate_granted := (gate_granted g)(i := None)\<rparr>"
      have comm: "(?push g)\<lparr>gate_granted := (gate_granted g)(i := None)\<rparr> = ?push ?h" by simp
      from a can ne have "lane_drop F ((?push g)\<lparr>gate_granted := (gate_granted g)(i := None)\<rparr>) = (g', woken)"
        by (simp add: gate_cancel_def fifo_push_law[OF F fits])
      then have "lane_drop F (?push ?h) = (g', woken)" unfolding comm .
      moreover have "gate_ok F (?push ?h) (ph(i := Waiting i t)) live (Suc 0)"
        using gate_ok_enqueue[OF F gate_ok_ungrant[OF ok, of i old], of i t] a fits by simp
      ultimately show ?thesis using lane_drop_ok[OF F] p by simp
    qed
  qed (use False in auto)
qed

lemma gate_ok_live: "gate_ok F g ph (Suc n) k = gate_ok F g ph n (Suc k)"
  by (simp add: gate_ok_def)

lemma gate_step_inv:
  assumes F: "fifo_laws F" and st: "gate_step F s s'" and inv: "gate_inv F s"
  shows "gate_inv F s'"
  using st inv
proof cases
  case (step_acquire i g ph ok)
  with access_acquire_ok[OF F, of "sys_gate s" "sys_phase s" "sys_live s" i] inv
  show ?thesis by (simp add: gate_inv_def)
next
  case (step_wait i t g ph woken)
  with access_wait_ok[OF F, of "sys_gate s" "sys_phase s" "sys_live s" i] inv
  show ?thesis by (simp add: gate_inv_def)
next
  case (step_release i g ph woken)
  with access_release_ok[OF F, of "sys_gate s" "sys_phase s" "sys_live s" i] inv
  show ?thesis by (simp add: gate_inv_def)
next
  case (step_finish i)
  with gate_ok_leave[of F "sys_gate s" "sys_phase s" "sys_live s" 0 i] inv
  show ?thesis by (simp add: gate_inv_def access_finish_def gate_ok_live)
next
  case (step_drop g woken)
  from step_drop(2) obtain n where n: "sys_live s = Suc n" by (cases "sys_live s") auto
  with inv have "gate_ok F (sys_gate s) (sys_phase s) (sys_live s - 1) (Suc 0)"
    by (simp add: gate_inv_def gate_ok_live)
  from lane_drop_ok[OF F this step_drop(3)] step_drop(1) show ?thesis by (simp add: gate_inv_def)
qed

lemma gate_reachable_inv:
  assumes F: "fifo_laws F" and r: "gate_reachable F s0 s" and inv: "gate_inv F s0"
  shows "gate_inv F s"
  using r inv by induction (auto intro: gate_step_inv[OF F])

lemma gate_initial_inv:
  assumes "\<And>i. fifo_get F w 0 i = None" and "lanes \<le> usize_max"
  shows "gate_inv F (gate_initial F w lanes)"
  using assms by (auto simp: gate_inv_def gate_initial_def gate_ok_def gate_new_def held_set_def granted_set_def)

end
