(* ===== verification/Resp_State.thy ===== *)
theory Resp_State
  imports Resp_Pool Resp_Gate
begin

text \<open>
  \<open>redis/src/protocol/parser/state.rs\<close> and the builder of
  \<open>redis/src/protocol/parser/storage/mod.rs\<close>: the resumable scanner of RESP replies.  One call of
  \<open>scan\<close> runs the loop over the input bytes seen so far; when they end inside a value it returns
  \<open>Pending\<close> and keeps its mode, so that the next call, on the same bytes and more, goes on there.
  Parsed values are appended to the tape of the builder, in preorder.

  The loop body is \<open>scan_step\<close>, one definition per arm; \<open>scan_loop\<close> iterates it.  \<open>left\<close> is the
  stack of the source, its last element first.
\<close>

section \<open>State\<close>

datatype mode =
    MStart
  | MMarker end_pos
  | MLine line end_pos slot
  | MBulk body slot

record scanner =
  sc_scan :: nat
  sc_left :: "nat list"
  sc_mode :: mode

record ('w, 't) storage =
  st_pool :: pool
  st_gate :: "('w, 't) gate"

record 't builder =
  bd_access :: "'t phase"
  bd_tail :: "key option"
  bd_len :: nat

record ('w, 't) machine =
  mc_state :: scanner
  mc_builder :: "'t builder"
  mc_store :: "('w, 't) storage"

text \<open>
  The decode input belongs to \<open>dope\<close>: its bytes, and what \<open>try_consumed\<close> and \<open>try_prefix\<close> return
  (the cause of a refusal, or the consumed end).
\<close>

record 'x source =
  src_bytes :: bytes
  src_consumed :: "nat \<Rightarrow> 'x + nat"
  src_prefix :: "nat \<Rightarrow> nat \<Rightarrow> 'x + (bytes \<times> nat)"

datatype 'x outcome =
    Pending
  | Blocked
  | Complete bytes key nat nat
  | Invalid protocol_error nat
  | FrameCapacity exceeded nat
  | ValueCapacity exceeded nat
  | RetainCapacity
  | Source 'x

datatype write_error = WBlocked slot | WFull slot

datatype restore = RestoreLine line end_pos | RestoreBulk body

datatype completion = Root | Nested

section \<open>Storage and builder\<close>

text \<open>
  The allocations of the pool and of the gate's queue can fail; their outcomes, and the queue itself,
  are parameters.
\<close>

definition storage_try_new ::
  "'e option \<Rightarrow> ('e + 'w) \<Rightarrow> nat \<Rightarrow> nat \<Rightarrow> 'e + ('w, 't) storage" where
  "storage_try_new failed fifo capacity lanes =
     bindr (pool_try_new failed capacity) (\<lambda>p.
     bindr fifo (\<lambda>w. Inr \<lparr>st_pool = p, st_gate = gate_new w lanes\<rparr>))"

definition builder_new :: "'t builder" where
  "builder_new = \<lparr>bd_access = Idle, bd_tail = None, bd_len = 0\<rparr>"

text \<open>\<open>try_push\<close>; what it stores is known by the tail and the length, which the builder then has too.\<close>

definition builder_try_push ::
  "('w, 't) fifo \<Rightarrow> ('w, 't) storage \<Rightarrow> 't builder \<Rightarrow> slot \<Rightarrow> kind
     \<Rightarrow> ('w, 't) storage \<times> 't builder \<times> (write_error + key \<times> nat)" where
  "builder_try_push F st b slot v =
     (case access_acquire F (st_gate st) (bd_access b) of
        (g, ph, acquired) \<Rightarrow>
          let st = st\<lparr>st_gate := g\<rparr>; b = b\<lparr>bd_access := ph\<rparr> in
          if acquired then
            (case pool_reserve (st_pool st) of
               None \<Rightarrow> (st, b, Inl (WFull slot))
             | Some fr \<Rightarrow>
                 (case slot_commit slot v of (v, len) \<Rightarrow>
                  case free_append (st_pool st) fr (bd_tail b) v of (p, tail) \<Rightarrow>
                    (st\<lparr>st_pool := p\<rparr>, b\<lparr>bd_tail := Some tail, bd_len := len\<rparr>, Inr (tail, len))))
          else (st, b, Inl (WBlocked slot)))"

text \<open>\<open>Drop for Builder\<close>, and \<open>reset\<close>, which drops the old builder for a new one.\<close>

definition builder_drop ::
  "('w, 't) fifo \<Rightarrow> ('w, 't) storage \<Rightarrow> 't builder \<Rightarrow> ('w, 't) storage \<times> 't option" where
  "builder_drop F st b =
     (let st = st\<lparr>st_pool := pool_release (st_pool st) (bd_tail b)\<rparr>
      in case access_release F (st_gate st) (bd_access b) of
           (g, ph, woken) \<Rightarrow> (st\<lparr>st_gate := g\<rparr>, woken))"

definition builder_reset ::
  "('w, 't) fifo \<Rightarrow> ('w, 't) storage \<Rightarrow> 't builder \<Rightarrow> ('w, 't) storage \<times> 't builder \<times> 't option" where
  "builder_reset F st b = (case builder_drop F st b of (st, woken) \<Rightarrow> (st, builder_new, woken))"

text \<open>\<open>Stored::finish\<close> hands the tape and the gate's charge over to the completed frame.\<close>

definition stored_finish :: "'t builder \<Rightarrow> 't builder" where
  "stored_finish b = b\<lparr>bd_tail := None, bd_len := 0, bd_access := access_finish (bd_access b)\<rparr>"

section \<open>Small operations of the scanner\<close>

definition scanner_new :: scanner where
  "scanner_new = \<lparr>sc_scan = 0, sc_left = [], sc_mode = MStart\<rparr>"

definition scanner_reset :: "scanner \<Rightarrow> scanner" where
  "scanner_reset s = s\<lparr>sc_scan := 0, sc_left := [], sc_mode := MStart\<rparr>"

fun mode_cursor :: "mode \<Rightarrow> nat" where
  "mode_cursor MStart = 0"
| "mode_cursor (MMarker e) = e"
| "mode_cursor (MLine kind start slot) = start"
| "mode_cursor (MBulk b slot) = body_start b"

fun mode_restore :: "restore \<Rightarrow> slot \<Rightarrow> mode" where
  "mode_restore (RestoreLine kind start) slot = MLine kind start slot"
| "mode_restore (RestoreBulk b) slot = MBulk b slot"

abbreviation set_mode :: "('w, 't) machine \<Rightarrow> mode \<Rightarrow> ('w, 't) machine" where
  "set_mode m md \<equiv> m\<lparr>mc_state := (mc_state m)\<lparr>sc_mode := md\<rparr>\<rparr>"

definition scan_write ::
  "('w, 't) fifo \<Rightarrow> ('w, 't) machine \<Rightarrow> slot \<Rightarrow> kind \<Rightarrow> restore
     \<Rightarrow> ('w, 't) machine \<times> ('x outcome + key \<times> nat)" where
  "scan_write F m slot v restore =
     (case builder_try_push F (mc_store m) (mc_builder m) slot v of
        (st, b, result) \<Rightarrow>
          let m = m\<lparr>mc_store := st, mc_builder := b\<rparr> in
          (case result of
             Inr stored \<Rightarrow> (m, Inr stored)
           | Inl (WBlocked slot) \<Rightarrow> (set_mode m (mode_restore restore slot), Inl Blocked)
           | Inl (WFull slot) \<Rightarrow> (set_mode m (mode_restore restore slot), Inl RetainCapacity)))"

definition consumed :: "'x source \<Rightarrow> nat \<Rightarrow> (nat \<Rightarrow> 'x outcome) \<Rightarrow> 'x outcome" where
  "consumed src amount build =
     (case src_consumed src amount of Inr e \<Rightarrow> build e | Inl cause \<Rightarrow> Source cause)"

fun finish_value :: "scanner \<Rightarrow> nat list \<Rightarrow> end_pos \<Rightarrow> scanner \<times> completion" where
  "finish_value s [] e = (s\<lparr>sc_left := []\<rparr>, Root)"
| "finish_value s (n # ns) e =
     (if n - 1 = 0 then finish_value s ns e
      else (s\<lparr>sc_left := (n - 1) # ns, sc_mode := MMarker e\<rparr>, Nested))"

abbreviation max_depth :: nat where "max_depth \<equiv> 64"

text \<open>\<open>State::finish\<close>: what is missing when the connection ends after \<open>actual\<close> bytes.\<close>

definition scanner_finish :: "scanner \<Rightarrow> end_pos \<Rightarrow> protocol_error" where
  "scanner_finish s actual =
     (case sc_mode s of
        MStart \<Rightarrow> Unparsed actual
      | MMarker e \<Rightarrow>
          (case sc_left s of
             left # parents \<Rightarrow> Truncated (TruncatedValue e (min (1 + length parents mod 256) 255) left)
           | [] \<Rightarrow> Unparsed actual)
      | MLine kind start slot \<Rightarrow> Truncated (TruncatedLine kind start actual)
      | MBulk e slot \<Rightarrow> Truncated (TruncatedBulk actual (body_end e)))"

definition complete ::
  "'x source \<Rightarrow> ('w, 't) machine \<Rightarrow> key \<times> nat \<Rightarrow> nat \<Rightarrow> ('w, 't) machine \<times> 'x outcome" where
  "complete src m stored count =
     (case src_prefix src 0 count of
        Inl cause \<Rightarrow> (m, Source cause)
      | Inr (frame, e) \<Rightarrow>
          (m\<lparr>mc_builder := stored_finish (mc_builder m), mc_state := scanner_reset (mc_state m)\<rparr>,
           Complete frame (fst stored) (snd stored) e))"

text \<open>What every arm does once its value is stored: finish it, and the frame if it was the root.\<close>

definition settle ::
  "'x source \<Rightarrow> ('w, 't) machine \<Rightarrow> key \<times> nat \<Rightarrow> end_pos \<Rightarrow> nat
     \<Rightarrow> ('w, 't) machine \<times> 'x outcome option" where
  "settle src m stored e count =
     (case finish_value (mc_state m) (sc_left (mc_state m)) e of
        (s, Root) \<Rightarrow>
          (case complete src (m\<lparr>mc_state := s\<rparr>) stored count of (m, out) \<Rightarrow> (m, Some out))
      | (s, Nested) \<Rightarrow> (m\<lparr>mc_state := s\<rparr>, None))"

section \<open>The arms of the loop\<close>

fun marker_line :: "byte \<Rightarrow> line option" where
  "marker_line b =
     (if b = 43 then Some LStatus else if b = 45 then Some LServer
      else if b = 58 then Some LInteger else if b = 36 then Some LBulk
      else if b = 42 then Some LArray else None)"

declare marker_line.simps [simp del]

definition scan_marker ::
  "'x source \<Rightarrow> bound \<Rightarrow> bound \<Rightarrow> ('w, 't) machine \<Rightarrow> mode
     \<Rightarrow> ('w, 't) machine \<times> 'x outcome option" where
  "scan_marker src byte_max node_max m md =
     (let m = set_mode m md; cursor = mode_cursor md in
      case get (src_bytes src) cursor of
        None \<Rightarrow> (m, Some Pending)
      | Some marker \<Rightarrow>
          (case frame_next byte_max cursor of
             Inl e \<Rightarrow> (m, Some (consumed src (bound_consumed byte_max) (FrameCapacity e)))
           | Inr e \<Rightarrow>
               (case value_next node_max (bd_len (mc_builder m)) of
                  Inl x \<Rightarrow> (m, Some (consumed src (end_consumed e) (ValueCapacity x)))
                | Inr slot \<Rightarrow>
                    let m = m\<lparr>mc_state := (mc_state m)\<lparr>sc_mode := MMarker e, sc_scan := e\<rparr>\<rparr> in
                    (case marker_line marker of
                       None \<Rightarrow>
                         (m, Some (consumed src (end_consumed e) (Invalid (MarkerError (e - 1) marker))))
                     | Some kind \<Rightarrow> (set_mode m (MLine kind e slot), None)))))"

text \<open>A header line that was not found, or was found to be malformed.\<close>

definition line_missing ::
  "'x source \<Rightarrow> bound \<Rightarrow> ('w, 't) machine \<Rightarrow> line \<Rightarrow> end_pos \<Rightarrow> slot
     \<Rightarrow> ('w, 't) machine \<times> 'x outcome option" where
  "line_missing src byte_max m kind start slot =
     (let len = length (src_bytes src);
          m = m\<lparr>mc_state := (mc_state m)\<lparr>sc_scan := max (len - 1) start,
                                        sc_mode := MLine kind start slot\<rparr>\<rparr>
      in case frame_check byte_max len of
           Inr _ \<Rightarrow> (m, Some Pending)
         | Inl e \<Rightarrow> (m, Some (consumed src (bound_consumed byte_max) (FrameCapacity e))))"

definition line_malformed ::
  "'x source \<Rightarrow> bound \<Rightarrow> nat \<times> byte \<times> byte \<Rightarrow> 'x outcome" where
  "line_malformed src byte_max err =
     (case err of (offset, expected, actual) \<Rightarrow>
        (case frame_next byte_max offset of
           Inr e \<Rightarrow> consumed src (end_consumed e) (Invalid (TerminatorError (e - 1) expected actual))
         | Inl e \<Rightarrow> consumed src (bound_consumed byte_max) (FrameCapacity e)))"

definition scan_array ::
  "('w, 't) fifo \<Rightarrow> 'x source \<Rightarrow> bound \<Rightarrow> ('w, 't) machine \<Rightarrow> end_pos \<Rightarrow> slot \<Rightarrow> end_pos \<Rightarrow> nat
     \<Rightarrow> ('w, 't) machine \<times> 'x outcome option" where
  "scan_array F src node_max m start slot e declared =
     (case value_array node_max (bd_len (mc_builder m)) declared of
        Inl x \<Rightarrow> (set_mode m (MLine LArray start slot), Some (consumed src (end_consumed e) (ValueCapacity x)))
      | Inr count \<Rightarrow>
          if count_nonzero count \<noteq> None \<and> max_depth \<le> length (sc_left (mc_state m)) then
            (set_mode m (MLine LArray start slot),
             Some (consumed src (end_consumed e) (Invalid (DepthError (max_depth + 1) max_depth count))))
          else
            (case scan_write F m slot (KArray count) (RestoreLine LArray start) of
               (m, Inl out) \<Rightarrow> (m, Some out)
             | (m, Inr stored) \<Rightarrow>
                 (case count_nonzero count of
                    None \<Rightarrow> settle src m stored e (end_consumed e)
                  | Some left \<Rightarrow>
                      (m\<lparr>mc_state := (mc_state m)\<lparr>sc_left := left # sc_left (mc_state m),
                                                  sc_mode := MMarker e\<rparr>\<rparr>, None))))"

definition scan_leaf ::
  "('w, 't) fifo \<Rightarrow> 'x source \<Rightarrow> ('w, 't) machine \<Rightarrow> line \<Rightarrow> end_pos \<Rightarrow> slot \<Rightarrow> end_pos \<Rightarrow> kind
     \<Rightarrow> ('w, 't) machine \<times> 'x outcome option" where
  "scan_leaf F src m kind start slot e v =
     (case scan_write F m slot v (RestoreLine kind start) of
        (m, Inl out) \<Rightarrow> (m, Some out)
      | (m, Inr stored) \<Rightarrow> settle src m stored e (end_consumed e))"

definition scan_header ::
  "('w, 't) fifo \<Rightarrow> 'x source \<Rightarrow> bound \<Rightarrow> bound \<Rightarrow> ('w, 't) machine \<Rightarrow> line \<Rightarrow> end_pos \<Rightarrow> slot
     \<Rightarrow> bytes \<Rightarrow> end_pos \<Rightarrow> body \<Rightarrow> ('w, 't) machine \<times> 'x outcome option" where
  "scan_header F src byte_max node_max m kind start slot line e body =
     (let invalid = (\<lambda>err. (set_mode m (MLine kind start slot),
                           Some (consumed src (end_consumed e) (Invalid err))))
      in case kind of
           LStatus \<Rightarrow>
             scan_leaf F src m kind start slot e
               (if line = ascii ''OK'' then KOk else KStatus (span_terminated body))
         | LServer \<Rightarrow> scan_leaf F src m kind start slot e (KError (span_terminated body))
         | LInteger \<Rightarrow>
             (case number_signed line body of
                Inl cause \<Rightarrow> invalid (NumberError LInteger cause)
              | Inr v \<Rightarrow> scan_leaf F src m kind start slot e (KInteger v))
         | LBulk \<Rightarrow>
             (case number_length line body LBulk of
                Inl err \<Rightarrow> invalid err
              | Inr LengthNil \<Rightarrow> scan_leaf F src m kind start slot e KNil
              | Inr (LengthCount len) \<Rightarrow>
                  (case frame_body byte_max e len of
                     Inl x \<Rightarrow> (set_mode m (MLine kind start slot),
                              Some (consumed src (end_consumed e) (FrameCapacity x)))
                   | Inr finish \<Rightarrow> (set_mode m (MBulk finish slot), None)))
         | LArray \<Rightarrow>
             (case number_length line body LArray of
                Inl err \<Rightarrow> invalid err
              | Inr LengthNil \<Rightarrow> scan_leaf F src m kind start slot e KNil
              | Inr (LengthCount count) \<Rightarrow> scan_array F src node_max m start slot e count))"

definition scan_line ::
  "('w, 't) fifo \<Rightarrow> 'x source \<Rightarrow> bound \<Rightarrow> bound \<Rightarrow> ('w, 't) machine \<Rightarrow> line \<Rightarrow> end_pos \<Rightarrow> slot
     \<Rightarrow> ('w, 't) machine \<times> 'x outcome option" where
  "scan_line F src byte_max node_max m kind start slot =
     (case line_find (src_bytes src) start (sc_scan (mc_state m)) kind of
        Inr None \<Rightarrow> line_missing src byte_max m kind start slot
      | Inl err \<Rightarrow> (set_mode m (MLine kind start slot), Some (line_malformed src byte_max err))
      | Inr (Some line) \<Rightarrow>
          (case frame_line byte_max line of
             Inl x \<Rightarrow> (set_mode m (MLine kind start slot),
                      Some (consumed src (bound_consumed byte_max) (FrameCapacity x)))
           | Inr (e, body) \<Rightarrow>
               scan_header F src byte_max node_max m kind start slot (fst line) e body))"

definition scan_bulk ::
  "('w, 't) fifo \<Rightarrow> 'x source \<Rightarrow> ('w, 't) machine \<Rightarrow> body \<Rightarrow> slot
     \<Rightarrow> ('w, 't) machine \<times> 'x outcome option" where
  "scan_bulk F src m e slot =
     (let offset = body_stop e in
      case subslice offset (body_get e) (src_bytes src) of
        Some [cr, lf] \<Rightarrow>
          if cr \<noteq> CR \<or> lf \<noteq> LF then
            (let (offset, expected, actual) = (if cr \<noteq> CR then (offset, CR, cr) else (offset + 1, LF, lf))
             in (set_mode m (MBulk e slot),
                 Some (consumed src (body_consumed e) (Invalid (TerminatorError offset expected actual)))))
          else
            (case scan_write F m slot (KBulk (span_terminated e)) (RestoreBulk e) of
               (m, Inl out) \<Rightarrow> (m, Some out)
             | (m, Inr stored) \<Rightarrow> settle src m stored (body_end e) (body_consumed e))
      | _ \<Rightarrow> (set_mode m (MBulk e slot), Some Pending))"

definition scan_step ::
  "('w, 't) fifo \<Rightarrow> 'x source \<Rightarrow> bound \<Rightarrow> bound \<Rightarrow> ('w, 't) machine
     \<Rightarrow> ('w, 't) machine \<times> 'x outcome option" where
  "scan_step F src byte_max node_max m =
     (let md = sc_mode (mc_state m); m = set_mode m MStart in
      case md of
        MStart \<Rightarrow> scan_marker src byte_max node_max m md
      | MMarker e \<Rightarrow> scan_marker src byte_max node_max m md
      | MLine kind start slot \<Rightarrow> scan_line F src byte_max node_max m kind start slot
      | MBulk e slot \<Rightarrow> scan_bulk F src m e slot)"

section \<open>The loop and its callers\<close>

partial_function (option) scan_loop ::
  "('w, 't) fifo \<Rightarrow> 'x source \<Rightarrow> bound \<Rightarrow> bound \<Rightarrow> ('w, 't) machine
     \<Rightarrow> (('w, 't) machine \<times> 'x outcome) option" where
  "scan_loop F src byte_max node_max m =
     (case scan_step F src byte_max node_max m of
        (m', Some out) \<Rightarrow> Some (m', out)
      | (m', None) \<Rightarrow> scan_loop F src byte_max node_max m')"

definition parser_reset :: "('w, 't) fifo \<Rightarrow> ('w, 't) machine \<Rightarrow> ('w, 't) machine" where
  "parser_reset F m =
     (case builder_reset F (mc_store m) (mc_builder m) of
        (st, b, woken) \<Rightarrow>
          m\<lparr>mc_state := scanner_reset (mc_state m), mc_builder := b, mc_store := st\<rparr>)"

definition parser_scan ::
  "('w, 't) fifo \<Rightarrow> 'x source \<Rightarrow> bound \<Rightarrow> bound \<Rightarrow> ('w, 't) machine
     \<Rightarrow> (('w, 't) machine \<times> 'x outcome) option" where
  "parser_scan F src byte_max node_max m =
     (let len = length (src_bytes src);
          m = (if len < mode_cursor (sc_mode (mc_state m)) \<or> len < sc_scan (mc_state m)
               then parser_reset F m else m)
      in scan_loop F src byte_max node_max m)"

definition parser_new :: "('w, 't) storage \<Rightarrow> ('w, 't) machine" where
  "parser_new st = \<lparr>mc_state = scanner_new, mc_builder = builder_new, mc_store = st\<rparr>"

datatype failure =
    InvalidFailure protocol_error
  | FrameFailure exceeded
  | ValueFailure exceeded

definition parser_finish :: "('w, 't) machine \<Rightarrow> nat \<Rightarrow> bound \<Rightarrow> failure" where
  "parser_finish m actual byte_max =
     (case frame_next byte_max (actual - 1) of
        Inr actual \<Rightarrow> InvalidFailure (scanner_finish (mc_state m) actual)
      | Inl e \<Rightarrow> FrameFailure e)"

end
