(* ===== verification/Resp_Resume.thy ===== *)
theory Resp_Resume
  imports Resp_State
begin

text \<open>
  The scanner over a growing input: every iteration of its loop moves the cursor forward, so the loop
  ends; an iteration that goes on does the same on every longer input; and a call that returned
  \<open>Pending\<close> left a state from which the scan of a longer input finds what a scan from the start
  finds.
\<close>

section \<open>Found lines\<close>

lemma windows2_position:
  assumes "position (\<lambda>p. p = (CR, LF)) (windows2 xs) = Some i"
  shows "Suc i < length xs" and "xs ! i = CR" and "xs ! Suc i = LF"
proof -
  from position_Some[OF assms] have a: "i < length (windows2 xs)" "windows2 xs ! i = (CR, LF)" by auto
  then show l: "Suc i < length xs" by (simp add: length_windows2)
  from nth_windows2[OF l] a show "xs ! i = CR" "xs ! Suc i = LF" by simp_all
qed

lemma line_find_from:
  "line_find bs start scan kind = line_find bs start (max scan start) kind"
  by (simp add: line_find_def)

lemma line_find_SomeE:
  assumes "line_find bs start s kind = Inr (Some l)" and s: "start \<le> s"
  obtains (textual) off where "text_line kind" "s \<le> length bs"
      "position (\<lambda>b. b = CR \<or> b = LF) (drop s bs) = Some off"
      "drop s bs ! off \<noteq> LF" "get (drop s bs) (off + 1) = Some LF" "line_at bs start (s + off) = Some l"
  | (pair) off where "\<not> text_line kind" "s \<le> length bs"
      "position (\<lambda>p. p = (CR, LF)) (windows2 (drop s bs)) = Some off"
      "line_at bs start (s + off) = Some l"
proof (cases "text_line kind")
  case True
  with assms textual show ?thesis
    unfolding line_find_def Let_def max_absorb1[OF s]
    by (auto split: if_splits option.splits simp del: get_drop nth_drop)
next
  case False
  with assms pair show ?thesis
    unfolding line_find_def Let_def max_absorb1[OF s]
    by (auto split: if_splits option.splits)
qed

lemma line_find_Some:
  assumes "line_find bs start scan kind = Inr (Some l)"
  shows "snd l = start \<and> line_stop l + 2 \<le> length bs \<and> fst l = take (line_stop l - start) (drop start bs) \<and>
         max scan start \<le> line_stop l \<and> bs ! line_stop l = CR \<and> bs ! Suc (line_stop l) = LF"
proof -
  define s where "s = max scan start"
  have st: "start \<le> s" by (simp add: s_def)
  from assms have f: "line_find bs start s kind = Inr (Some l)"
    unfolding s_def by (simp flip: line_find_from)
  obtain off where o: "line_at bs start (s + off) = Some l"
    and b: "s \<le> length bs" "Suc off < length (drop s bs)"
      "drop s bs ! off = CR" "drop s bs ! Suc off = LF"
    using f st
  proof (cases rule: line_find_SomeE)
    case (textual off)
    from position_Some[OF textual(3)] textual(4) have "drop s bs ! off = CR" by auto
    with get_Some_less[OF textual(5)] textual that[of off] show ?thesis by simp
  next
    case (pair off)
    from windows2_position[OF pair(3)] pair that[of off] show ?thesis by simp
  qed
  from o b st have l: "l = (take (s + off - start) (drop start bs), start)"
    by (auto simp: line_at_def subslice_def split: if_splits)
  have "line_stop l = s + off" using b st by (simp add: l line_stop_def)
  with l b show ?thesis by (simp add: s_def)
qed

lemma position_prefix: "position p xs = Some i \<Longrightarrow> position p (xs @ ys) = Some i"
  by (simp add: position_append)

lemma windows2_prefix: "\<exists>zs. windows2 (xs @ ys) = windows2 xs @ zs"
proof (induction xs)
  case (Cons x xs)
  then show ?case by (cases xs) (auto simp: windows2_def)
qed (simp add: windows2_def)

lemma line_at_extend: "line_at bs start stop = Some l \<Longrightarrow> line_at (bs @ ext) start stop = Some l"
  by (auto simp: line_at_def subslice_def split: if_splits)

lemma get_prefix: "get xs i = Some v \<Longrightarrow> get (xs @ ys) i = Some v"
  by (auto simp: get_def nth_append split: if_splits)

lemma subslice_prefix: "subslice a b xs = Some v \<Longrightarrow> subslice a b (xs @ ys) = Some v"
  by (auto simp: subslice_def split: if_splits)

lemma line_find_extend:
  assumes "line_find bs start scan kind = Inr (Some l)"
  shows "line_find (bs @ ext) start scan kind = Inr (Some l)"
proof -
  define s where "s = max scan start"
  have st: "start \<le> s" by (simp add: s_def)
  from assms have "line_find bs start s kind = Inr (Some l)"
    unfolding s_def by (simp flip: line_find_from)
  from this st have "line_find (bs @ ext) start s kind = Inr (Some l)"
  proof (cases rule: line_find_SomeE)
    case (textual off)
    have d: "drop s (bs @ ext) = drop s bs @ ext" using textual by simp
    have "off < length (drop s bs)" using position_Some[OF textual(3)] by simp
    with textual show ?thesis
      unfolding line_find_def Let_def max_absorb1[OF st] d
      by (simp add: position_prefix nth_append get_prefix line_at_extend del: nth_drop get_drop)
  next
    case (pair off)
    have d: "drop s (bs @ ext) = drop s bs @ ext" using pair by simp
    obtain zs where z: "windows2 (drop s bs @ ext) = windows2 (drop s bs) @ zs"
      using windows2_prefix by blast
    from pair show ?thesis
      unfolding line_find_def Let_def max_absorb1[OF st] d z
      by (simp add: position_prefix line_at_extend)
  qed
  then show ?thesis unfolding s_def by (simp flip: line_find_from)
qed

section \<open>The state an iteration leaves\<close>

definition state_ok :: "bytes \<Rightarrow> scanner \<Rightarrow> bool" where
  "state_ok bs s \<longleftrightarrow>
     sc_scan s \<le> length bs \<and> mode_cursor (sc_mode s) \<le> length bs \<and>
     (case sc_mode s of
        MLine kind start slot \<Rightarrow>
          sc_scan s \<le> max start (length bs - 1) \<and> clean kind bs start (sc_scan s)
      | MBulk b slot \<Rightarrow> body_start b \<le> body_stop b \<and> body_stop b + 2 \<le> u32_max
      | _ \<Rightarrow> True)"

lemma state_ok_new: "state_ok bs scanner_new" "state_ok bs (scanner_reset s)"
  by (simp_all add: state_ok_def scanner_new_def scanner_reset_def)

lemma clean_extend:
  assumes "clean kind bs start scan" and "scan \<le> max start (length bs - 1)"
  shows "clean kind (bs @ ext) start scan"
  unfolding clean_def
proof (intro allI impI)
  fix i assume i: "start \<le> i \<and> i < scan \<and> i < length (bs @ ext)"
  with assms(2) have "Suc i < length bs" by linarith
  with i assms(1) show "if text_line kind then (bs @ ext) ! i \<noteq> CR \<and> (bs @ ext) ! i \<noteq> LF
      else \<not> (Suc i < length (bs @ ext) \<and> (bs @ ext) ! i = CR \<and> (bs @ ext) ! Suc i = LF)"
    unfolding clean_def by (auto simp: nth_append)
qed

lemma state_ok_extend: "state_ok bs s \<Longrightarrow> state_ok (bs @ ext) s"
  by (auto simp: state_ok_def clean_extend split: mode.splits)

lemma line_find_None_clean:
  assumes n: "line_find bs start scan kind = Inr None"
    and c: "clean kind bs start scan" and le: "scan \<le> length bs" "start \<le> length bs"
  shows "clean kind bs start (max (length bs - 1) start)"
proof -
  from n have f: "line_find bs start start kind = Inr None" using line_find_clean[OF c le] by simp
  show ?thesis
  proof (cases "text_line kind")
    case True
    have "bs ! i \<noteq> CR \<and> bs ! i \<noteq> LF" if i: "start \<le> i" "Suc i < length bs" for i
    proof (cases "position (\<lambda>b. b = CR \<or> b = LF) (drop start bs)")
      case None
      moreover have "bs ! i = drop start bs ! (i - start)" using i by simp
      ultimately show ?thesis using i unfolding position_None
        by (metis diff_less_mono Suc_lessD length_drop nth_mem)
    next
      case (Some off)
      note p = position_Some[OF Some]
      from f True le Some have "length bs \<le> start + off + 1"
        by (auto simp: line_find_def Let_def get_def line_at_def subslice_def split: if_splits)
      with i have "i - start < off" by linarith
      with p have "\<not> (drop start bs ! (i - start) = CR \<or> drop start bs ! (i - start) = LF)" by blast
      then show ?thesis using i by simp
    qed
    with True show ?thesis by (auto simp: clean_def)
  next
    case False
    have none: "position (\<lambda>p. p = (CR, LF)) (windows2 (drop start bs)) = None"
    proof (rule ccontr)
      assume "\<not> ?thesis"
      then obtain off where p: "position (\<lambda>p. p = (CR, LF)) (windows2 (drop start bs)) = Some off" by auto
      from windows2_position(1)[OF p] le have "start + off \<le> length bs" by simp
      with f False le p show False
        by (simp add: line_find_def line_at_def subslice_def)
    qed
    have "\<not> (bs ! i = CR \<and> bs ! Suc i = LF)" if i: "start \<le> i" "Suc i < length bs" for i
    proof -
      have "i - start < length (windows2 (drop start bs))" using i by (simp add: length_windows2)
      then have "windows2 (drop start bs) ! (i - start) \<noteq> (CR, LF)"
        using none unfolding position_None by (metis nth_mem)
      moreover have "windows2 (drop start bs) ! (i - start) = (bs ! i, bs ! Suc i)"
        using i nth_windows2[of "i - start" "drop start bs"] by simp
      ultimately show ?thesis by simp
    qed
    with False show ?thesis by (auto simp: clean_def)
  qed
qed

lemma finish_value_state:
  "finish_value s l e = (s', c) \<Longrightarrow> sc_scan s' = sc_scan s \<and>
     (case c of Root \<Rightarrow> sc_mode s' = sc_mode s | Nested \<Rightarrow> sc_mode s' = MMarker e)"
  by (induction s l e rule: finish_value.induct) (auto split: if_splits)

lemma settle_state:
  assumes "settle src m stored e count = (m', r)"
  shows "if r = None then sc_mode (mc_state m') = MMarker e \<and> sc_scan (mc_state m') = sc_scan (mc_state m)
         else sc_scan (mc_state m') \<le> sc_scan (mc_state m) \<and>
              (sc_mode (mc_state m') = MStart \<or> sc_mode (mc_state m') = sc_mode (mc_state m))"
proof (cases "finish_value (mc_state m) (sc_left (mc_state m)) e")
  case (Pair s c)
  from finish_value_state[OF this] assms Pair show ?thesis
    by (cases c) (auto simp: settle_def complete_def scanner_reset_def split: sum.splits prod.splits)
qed

lemma builder_try_push_slot:
  "builder_try_push F st b slot v = (st', b', Inl x) \<Longrightarrow> x = WBlocked slot \<or> x = WFull slot"
  by (auto simp: builder_try_push_def Let_def split: prod.splits if_splits option.splits)

lemma scan_write_state:
  assumes "scan_write F m slot v restore = (m', x)"
  shows "case x of Inr _ \<Rightarrow> mc_state m' = mc_state m
         | Inl _ \<Rightarrow> mc_state m' = (mc_state m)\<lparr>sc_mode := mode_restore restore slot\<rparr>"
  using assms
  by (auto simp: scan_write_def Let_def split: prod.splits sum.splits write_error.splits
      dest!: builder_try_push_slot)

section \<open>Progress\<close>

text \<open>What one arm, entered with the cursor at \<open>c\<close>, does to the state.\<close>

definition arm_ok :: "bytes \<Rightarrow> nat \<Rightarrow> ('w, 't) machine \<times> 'x outcome option \<Rightarrow> bool" where
  "arm_ok bs c r \<longleftrightarrow>
     state_ok bs (mc_state (fst r)) \<and> (snd r = None \<longrightarrow> c < mode_cursor (sc_mode (mc_state (fst r))))"

lemma state_ok_mode:
  "state_ok bs s \<Longrightarrow> e \<le> length bs \<Longrightarrow> state_ok bs (s\<lparr>sc_mode := MMarker e\<rparr>)"
  "state_ok bs s \<Longrightarrow> state_ok bs (s\<lparr>sc_mode := MStart\<rparr>)"
  "state_ok bs (s\<lparr>sc_left := l\<rparr>) = state_ok bs s"
  by (auto simp: state_ok_def split: mode.split)

lemma settle_arm:
  assumes "state_ok bs (mc_state m)" and "sc_mode (mc_state m) = MStart" and "e \<le> length bs" and "c < e"
  shows "arm_ok bs c (settle src m stored e count)"
proof -
  obtain m' r where r: "settle src m stored e count = (m', r)" by fastforce
  from settle_state[OF r] assms show ?thesis
    by (auto simp: arm_ok_def r state_ok_def split: if_splits)
qed

lemma scan_leaf_arm:
  fixes src :: "'x source"
  assumes "state_ok bs (mc_state m)" and "sc_mode (mc_state m) = MStart"
    and "state_ok bs ((mc_state m)\<lparr>sc_mode := MLine kind start slot\<rparr>)" and "e \<le> length bs" and "c < e"
  shows "arm_ok bs c (scan_leaf F src m kind start slot e v)"
proof -
  obtain m1 x where w: "scan_write F m slot v (RestoreLine kind start) = (m1, x :: 'x outcome + _)"
    by fastforce
  from scan_write_state[OF w] assms show ?thesis
    by (cases x) (auto simp: scan_leaf_def w intro!: settle_arm, auto simp: arm_ok_def)
qed

lemma scan_array_arm:
  fixes src :: "'x source"
  assumes "state_ok bs (mc_state m)" and "sc_mode (mc_state m) = MStart"
    and "state_ok bs ((mc_state m)\<lparr>sc_mode := MLine LArray start slot\<rparr>)" and "e \<le> length bs" and "c < e"
  shows "arm_ok bs c (scan_array F src node_max m start slot e count)"
proof (cases "value_array node_max (bd_len (mc_builder m)) count")
  case (Inl x)
  with assms show ?thesis by (simp add: scan_array_def arm_ok_def)
next
  case (Inr n)
  obtain m1 x where w: "scan_write F m slot (KArray n) (RestoreLine LArray start) = (m1, x :: 'x outcome + _)"
    by fastforce
  show ?thesis
  proof (cases x)
    case (Inl out)
    with scan_write_state[OF w] assms Inr w show ?thesis
      by (simp add: scan_array_def arm_ok_def)
  next
    case (Inr stored)
    with scan_write_state[OF w] have st: "mc_state m1 = mc_state m" by simp
    show ?thesis
    proof (cases "count_nonzero n")
      case None
      with Inr w \<open>value_array _ _ _ = Inr n\<close> st assms settle_arm[of bs m1 e c src stored "end_consumed e"]
      show ?thesis by (simp add: scan_array_def)
    next
      case (Some left)
      with Inr w \<open>value_array _ _ _ = Inr n\<close> st assms show ?thesis
        by (simp add: scan_array_def arm_ok_def state_ok_def)
    qed
  qed
qed

lemma scan_marker_arm:
  assumes b: "bound_ok byte_max" and ok: "state_ok bs ((mc_state m)\<lparr>sc_mode := md\<rparr>)"
    and bs: "bs = src_bytes src"
  shows "arm_ok bs (mode_cursor md) (scan_marker src byte_max node_max m md)"
proof (cases "get bs (mode_cursor md)")
  case None
  with ok bs show ?thesis by (simp add: scan_marker_def arm_ok_def)
next
  case (Some marker)
  then have lt: "mode_cursor md < length bs" by (simp add: get_Some_less)
  show ?thesis
  proof (cases "frame_next byte_max (mode_cursor md)")
    case (Inl e)
    with ok bs Some show ?thesis by (simp add: scan_marker_def arm_ok_def)
  next
    case (Inr e)
    with b have e: "e = Suc (mode_cursor md)" by (simp add: frame_next_Inr)
    show ?thesis
    proof (cases "value_next node_max (bd_len (mc_builder m))")
      case (Inl x)
      with ok bs Some Inr lt \<open>frame_next _ _ = Inr e\<close> show ?thesis by (simp add: scan_marker_def arm_ok_def)
    next
      case (Inr slot)
      with ok bs Some lt \<open>frame_next _ _ = Inr e\<close> show ?thesis unfolding scan_marker_def e
        by (cases "marker_line marker") (simp_all add: arm_ok_def state_ok_def Let_def)
    qed
  qed
qed

lemma line_missing_arm:
  assumes ok: "state_ok bs ((mc_state m)\<lparr>sc_mode := MLine kind start slot\<rparr>)"
    and bs: "bs = src_bytes src" and n: "line_find bs start (sc_scan (mc_state m)) kind = Inr None"
  shows "arm_ok bs c (line_missing src byte_max m kind start slot)"
  using ok line_find_None_clean[OF n] unfolding bs
  by (auto simp: line_missing_def arm_ok_def state_ok_def Let_def split: sum.split)

lemma frame_line_Inr:
  assumes "bound_ok b" and "frame_line b l = Inr (e, bd)"
  shows "e = line_stop l + 2 \<and> line_stop l + 2 \<le> b \<and> bd = body_new (snd l) (line_stop l)"
  using assms by (auto simp: frame_line_def bindr_Inr_iff frame_next_Inr bound_ok_def)

lemma scan_header_arm:
  fixes src :: "'x source"
  assumes b: "bound_ok byte_max" and ok: "state_ok bs (mc_state m)" and md: "sc_mode (mc_state m) = MStart"
    and line: "state_ok bs ((mc_state m)\<lparr>sc_mode := MLine kind start slot\<rparr>)" and e: "e \<le> length bs" "start < e"
    and u: "e \<le> u32_max"
  shows "arm_ok bs start (scan_header F src byte_max node_max m kind start slot line e body)"
proof -
  note leaf = scan_leaf_arm[OF ok md line e, where F = F and src = src]
    and array = scan_array_arm[OF ok md _ e, where F = F and src = src]
  have inv: "arm_ok bs start (set_mode m (MLine kind start slot), Some (out :: 'x outcome))" for out
    using line by (simp add: arm_ok_def)
  have bulk: "arm_ok bs start (set_mode m (MBulk finish slot), None :: 'x outcome option)"
    if "frame_body byte_max e len = Inr finish" for len finish
  proof -
    from that b have "finish = body_new e (e + len)" "e + len + 2 \<le> u32_max"
      by (auto simp: frame_body_Inr bound_ok_def)
    with ok md e u show ?thesis by (simp add: arm_ok_def state_ok_def)
  qed
  show ?thesis
  proof (cases kind)
    case LStatus
    then show ?thesis using leaf by (simp add: scan_header_def)
  next
    case LServer
    then show ?thesis using leaf by (simp add: scan_header_def)
  next
    case LInteger
    then show ?thesis using leaf inv by (simp add: scan_header_def split: sum.split)
  next
    case LBulk
    then show ?thesis using leaf inv bulk by (simp add: scan_header_def split: sum.split length_value.split)
  next
    case LArray
    then show ?thesis using leaf inv array line by (simp add: scan_header_def split: sum.split length_value.split)
  qed
qed

lemma scan_line_arm:
  assumes b: "bound_ok byte_max" and ok: "state_ok bs (mc_state m)" and md: "sc_mode (mc_state m) = MStart"
    and line: "state_ok bs ((mc_state m)\<lparr>sc_mode := MLine kind start slot\<rparr>)" and bs: "bs = src_bytes src"
  shows "arm_ok bs start (scan_line F src byte_max node_max m kind start slot)"
proof (cases "line_find bs start (sc_scan (mc_state m)) kind")
  case (Inl err)
  with line bs show ?thesis by (simp add: scan_line_def arm_ok_def)
next
  case (Inr found)
  show ?thesis
  proof (cases found)
    case None
    with Inr line_missing_arm[OF line bs] bs show ?thesis by (simp add: scan_line_def)
  next
    case (Some l)
    with Inr have f: "line_find bs start (sc_scan (mc_state m)) kind = Inr (Some l)" by simp
    show ?thesis
    proof (cases "frame_line byte_max l")
      case (Inl x)
      with f line bs show ?thesis by (simp add: scan_line_def arm_ok_def)
    next
      case (Inr eb)
      obtain e bd where eb: "eb = (e, bd)" by (cases eb)
      from frame_line_Inr[OF b Inr[unfolded eb]] line_find_Some[OF f] b
      have "e \<le> length bs" "start < e" "e \<le> u32_max" by (auto simp: bound_ok_def)
      from scan_header_arm[OF b ok md line this] f Inr eb bs show ?thesis by (simp add: scan_line_def)
    qed
  qed
qed

lemma body_end_id: "body_stop b + 2 \<le> u32_max \<Longrightarrow> body_end b = body_stop b + 2"
  by (simp add: body_end_def)

lemma scan_bulk_arm:
  fixes src :: "'x source"
  assumes ok: "state_ok bs (mc_state m)" and md: "sc_mode (mc_state m) = MStart"
    and bulk: "state_ok bs ((mc_state m)\<lparr>sc_mode := MBulk b slot\<rparr>)" and bs: "bs = src_bytes src"
  shows "arm_ok bs (body_start b) (scan_bulk F src m b slot)"
proof -
  have wait: "arm_ok bs (body_start b) (set_mode m (MBulk b slot), Some (out :: 'x outcome))" for out
    using bulk by (simp add: arm_ok_def)
  show ?thesis
  proof (cases "\<exists>x y. subslice (body_stop b) (body_get b) bs = Some [x, y]")
    case False
    then have "scan_bulk F src m b slot = (set_mode m (MBulk b slot), Some Pending)"
      unfolding bs by (auto simp: scan_bulk_def Let_def split: option.split list.split)
    with wait show ?thesis by simp
  next
    case True
    then obtain x y where xy: "subslice (body_stop b) (body_get b) bs = Some [x, y]" by auto
    from length_subslice[OF xy] bulk
    have e: "body_end b \<le> length bs" "body_start b < body_end b"
      by (simp_all add: body_get_def state_ok_def body_end_id)
    obtain m1 r where w: "scan_write F m slot (KBulk (span_terminated b)) (RestoreBulk b) =
        (m1, r :: 'x outcome + _)" by fastforce
    show ?thesis
    proof (cases "x = CR \<and> y = LF")
      case False
      with xy bs wait show ?thesis by (auto simp: scan_bulk_def Let_def)
    next
      case True
      from scan_write_state[OF w] ok md bulk True xy w bs
        settle_arm[of bs m1 "body_end b" "body_start b" src _ "body_consumed b"] e
      show ?thesis by (cases r) (auto simp: scan_bulk_def arm_ok_def)
    qed
  qed
qed

theorem scan_step_arm:
  assumes b: "bound_ok byte_max" and ok: "state_ok (src_bytes src) (mc_state m)"
  shows "arm_ok (src_bytes src) (mode_cursor (sc_mode (mc_state m))) (scan_step F src byte_max node_max m)"
proof -
  let ?m = "set_mode m MStart"
  have s: "state_ok (src_bytes src) (mc_state ?m)" "sc_mode (mc_state ?m) = MStart"
    using ok by (simp_all add: state_ok_mode)
  have r: "state_ok (src_bytes src) ((mc_state ?m)\<lparr>sc_mode := sc_mode (mc_state m)\<rparr>)" using ok by simp
  show ?thesis
  proof (cases "sc_mode (mc_state m)")
    case MStart
    from scan_marker_arm[OF b r[unfolded MStart] refl] MStart show ?thesis
      by (simp add: scan_step_def)
  next
    case (MMarker e)
    from scan_marker_arm[OF b r[unfolded MMarker] refl] MMarker show ?thesis
      by (simp add: scan_step_def)
  next
    case (MLine kind start slot)
    from scan_line_arm[OF b s r[unfolded MLine] refl] MLine show ?thesis
      by (simp add: scan_step_def)
  next
    case (MBulk bd slot)
    from scan_bulk_arm[OF s r[unfolded MBulk] refl] MBulk show ?thesis
      by (simp add: scan_step_def)
  qed
qed

section \<open>The loop ends\<close>

lemma scan_loop_unfold:
  "scan_loop F src byte_max node_max m =
     (case scan_step F src byte_max node_max m of
        (m', Some out) \<Rightarrow> Some (m', out)
      | (m', None) \<Rightarrow> scan_loop F src byte_max node_max m')"
  by (rule scan_loop.simps)

text \<open>Induction over the iterations of the loop, from any state that is well formed for the input.\<close>

lemma scan_loop_induct [consumes 2, case_names step]:
  assumes b: "bound_ok byte_max" and ok: "state_ok (src_bytes src) (mc_state m)"
    and step: "\<And>m. state_ok (src_bytes src) (mc_state m) \<Longrightarrow>
      (\<And>m'. scan_step F src byte_max node_max m = (m', None) \<Longrightarrow> P m') \<Longrightarrow> P m"
  shows "P m"
  using ok
proof (induction "length (src_bytes src) - mode_cursor (sc_mode (mc_state m))" arbitrary: m
    rule: less_induct)
  case less
  show ?case
  proof (rule step[OF less.prems])
    fix m' assume st: "scan_step F src byte_max node_max m = (m', None)"
    from scan_step_arm[OF b less.prems, of F node_max] st
    have "state_ok (src_bytes src) (mc_state m')"
      "mode_cursor (sc_mode (mc_state m)) < mode_cursor (sc_mode (mc_state m'))"
      by (simp_all add: arm_ok_def)
    moreover from this(1) have "mode_cursor (sc_mode (mc_state m')) \<le> length (src_bytes src)"
      by (simp add: state_ok_def)
    ultimately show "P m'" by (intro less.hyps) auto
  qed
qed

lemma scan_loop_returns:
  assumes "bound_ok byte_max" and "state_ok (src_bytes src) (mc_state m)"
  shows "\<exists>m' out. scan_loop F src byte_max node_max m = Some (m', out) \<and>
           state_ok (src_bytes src) (mc_state m')"
  using assms
proof (induction m rule: scan_loop_induct[where F = F and node_max = node_max])
  case (step m)
  obtain m' r where st: "scan_step F src byte_max node_max m = (m', r)" by fastforce
  from scan_step_arm[OF assms(1) step(1), of F node_max] st step(2)
  show ?case by (subst (1) scan_loop_unfold) (cases r; simp add: arm_ok_def)
qed

section \<open>Longer inputs\<close>

definition longer :: "'x source \<Rightarrow> 'x source \<Rightarrow> bool" where
  "longer src src' \<longleftrightarrow> (\<exists>ext. src_bytes src' = src_bytes src @ ext)"

lemma settle_None:
  "settle src m stored e count = (m', None) \<Longrightarrow> settle src' m stored e count' = (m', None)"
  by (auto simp: settle_def split: prod.splits completion.splits)

lemma scan_leaf_longer:
  "scan_leaf F src m kind start slot e v = (m', None) \<Longrightarrow>
     scan_leaf F src' m kind start slot e v = (m', None)"
  by (auto simp: scan_leaf_def scan_write_def Let_def intro: settle_None
      split: prod.splits sum.splits write_error.splits)

lemma scan_array_longer:
  "scan_array F src node_max m start slot e v = (m', None) \<Longrightarrow>
     scan_array F src' node_max m start slot e v = (m', None)"
  by (auto simp: scan_array_def scan_write_def Let_def intro: settle_None
      split: prod.splits sum.splits write_error.splits if_splits option.splits)

lemma scan_header_longer:
  "scan_header F src byte_max node_max m kind start slot line e body = (m', None) \<Longrightarrow>
     scan_header F src' byte_max node_max m kind start slot line e body = (m', None)"
  by (cases kind)
    (auto simp: scan_header_def Let_def intro: scan_leaf_longer scan_array_longer
      split: sum.splits length_value.splits)

lemma scan_step_longer:
  assumes "longer src src'" and "scan_step F src byte_max node_max m = (m', None)"
  shows "scan_step F src' byte_max node_max m = (m', None)"
proof -
  from assms(1) obtain ext where ext: "src_bytes src' = src_bytes src @ ext" by (auto simp: longer_def)
  have marker: "scan_marker src byte_max node_max m md = (m', None) \<Longrightarrow>
      scan_marker src' byte_max node_max m md = (m', None)" for m md
    by (auto simp: scan_marker_def Let_def ext get_prefix split: option.splits sum.splits)
  have line: "scan_line F src' byte_max node_max m kind start slot = (m', None)"
    if l: "scan_line F src byte_max node_max m kind start slot = (m', None)" for m kind start slot
  proof -
    from l obtain line where f: "line_find (src_bytes src) start (sc_scan (mc_state m)) kind = Inr (Some line)"
      by (auto simp: scan_line_def line_missing_def Let_def split: sum.splits option.splits)
    with l obtain e body where fl: "frame_line byte_max line = Inr (e, body)"
      by (auto simp: scan_line_def split: sum.splits)
    from l f fl have "scan_header F src byte_max node_max m kind start slot (fst line) e body = (m', None)"
      by (simp add: scan_line_def)
    from scan_header_longer[OF this] line_find_extend[OF f] fl show ?thesis
      by (simp add: scan_line_def ext)
  qed
  have bulk: "scan_bulk F src m e slot = (m', None) \<Longrightarrow> scan_bulk F src' m e slot = (m', None)" for m e slot
    by (auto simp: scan_bulk_def Let_def ext scan_write_def subslice_prefix intro: settle_None
        split: option.splits list.splits if_splits prod.splits sum.splits write_error.splits)
  show ?thesis
    using assms(2) by (auto simp: scan_step_def Let_def intro: marker line bulk split: mode.splits)
qed

section \<open>The scan hint does not matter\<close>

definition rescan :: "nat \<Rightarrow> ('w, 't) machine \<Rightarrow> ('w, 't) machine" where
  "rescan k m = m\<lparr>mc_state := (mc_state m)\<lparr>sc_scan := k\<rparr>\<rparr>"

definition agree ::
  "('w, 't) machine \<times> 'r \<Rightarrow> ('w, 't) machine \<times> 'r \<Rightarrow> bool" where
  "agree a b \<longleftrightarrow> rescan 0 (fst a) = rescan 0 (fst b) \<and> snd a = snd b"

lemma rescan_simps [simp]:
  "rescan j (rescan k m) = rescan j m" "mc_builder (rescan k m) = mc_builder m"
  "mc_store (rescan k m) = mc_store m" "sc_mode (mc_state (rescan k m)) = sc_mode (mc_state m)"
  "sc_left (mc_state (rescan k m)) = sc_left (mc_state m)" "sc_scan (mc_state (rescan k m)) = k"
  "rescan k (set_mode m md) = set_mode (rescan k m) md"
  by (simp_all add: rescan_def)

lemma rescan_eq: "rescan 0 m = rescan 0 n \<longleftrightarrow> n = rescan (sc_scan (mc_state n)) m"
proof
  assume "rescan 0 m = rescan 0 n"
  then have "rescan (sc_scan (mc_state n)) (rescan 0 m) = rescan (sc_scan (mc_state n)) (rescan 0 n)" by simp
  then show "n = rescan (sc_scan (mc_state n)) m" by (simp add: rescan_def)
qed (metis rescan_simps(1))

lemma agree_refl [simp]: "agree a a"
  by (simp add: agree_def)

lemma finish_value_rescan:
  "finish_value (s\<lparr>sc_scan := k\<rparr>) l e =
     (case finish_value s l e of (s', c) \<Rightarrow> (s'\<lparr>sc_scan := k\<rparr>, c))"
  by (induction s l e rule: finish_value.induct) auto

lemma settle_rescan: "agree (settle src m stored e count) (settle src (rescan k m) stored e count)"
  by (auto simp: settle_def agree_def rescan_def finish_value_rescan complete_def scanner_reset_def
      split: prod.split completion.split sum.split)

lemma scan_write_rescan:
  "scan_write F (rescan k m) slot v restore =
     (case scan_write F m slot v restore of (m', x) \<Rightarrow> (rescan k m', x))"
  by (auto simp: scan_write_def rescan_def Let_def split: prod.split sum.split write_error.split)

lemma scan_leaf_rescan:
  "agree (scan_leaf F src m kind start slot e v) (scan_leaf F src (rescan k m) kind start slot e v)"
  by (auto simp: scan_leaf_def scan_write_rescan settle_rescan split: prod.split sum.split)
    (simp_all add: agree_def)

lemma scan_array_rescan:
  "agree (scan_array F src node_max m start slot e v) (scan_array F src node_max (rescan k m) start slot e v)"
proof (cases "value_array node_max (bd_len (mc_builder m)) v")
  case (Inl x)
  then show ?thesis by (simp add: scan_array_def) (simp add: agree_def rescan_def)
next
  case (Inr n)
  then show ?thesis
    by (auto simp: scan_array_def scan_write_rescan settle_rescan split: prod.split sum.split option.split)
      (simp_all add: agree_def rescan_def)
qed

lemma agree_set_mode: "agree (set_mode m md, r) (set_mode (rescan k m) md, r)"
  by (simp add: agree_def)

lemma scan_header_rescan:
  "agree (scan_header F src byte_max node_max m kind start slot line e body)
     (scan_header F src byte_max node_max (rescan k m) kind start slot line e body)"
  by (cases kind)
    (auto simp: scan_header_def Let_def scan_leaf_rescan scan_array_rescan agree_set_mode
      split: sum.split length_value.split)

lemma scan_marker_rescan:
  "agree (scan_marker src byte_max node_max m md) (scan_marker src byte_max node_max (rescan k m) md)"
  by (auto simp: scan_marker_def Let_def agree_def rescan_def split: option.split sum.split)

lemma scan_bulk_rescan:
  "agree (scan_bulk F src m e slot) (scan_bulk F src (rescan k m) e slot)"
proof (cases "\<exists>x y. subslice (body_stop e) (body_get e) (src_bytes src) = Some [x, y]")
  case False
  have "scan_bulk F src n e slot = (set_mode n (MBulk e slot), Some Pending)" for n
    using False by (auto simp: scan_bulk_def Let_def split: option.split list.split)
  then show ?thesis by (simp add: agree_set_mode)
next
  case True
  then show ?thesis
    by (auto simp: scan_bulk_def Let_def scan_write_rescan settle_rescan agree_set_mode
        split: prod.split sum.split) (simp_all add: agree_def)
qed

lemma scan_line_rescan:
  assumes "line_find (src_bytes src) start k kind = line_find (src_bytes src) start (sc_scan (mc_state m)) kind"
  shows "agree (scan_line F src byte_max node_max m kind start slot)
           (scan_line F src byte_max node_max (rescan k m) kind start slot)"
proof (cases "line_find (src_bytes src) start (sc_scan (mc_state m)) kind")
  case (Inl err)
  with assms show ?thesis by (simp add: scan_line_def agree_set_mode)
next
  case (Inr f)
  with assms show ?thesis
    by (cases f)
      (auto simp: scan_line_def line_missing_def agree_set_mode scan_header_rescan Let_def
        split: sum.split, auto simp: agree_def rescan_def)
qed

lemma scan_step_rescan:
  assumes ok: "state_ok (src_bytes src) (mc_state m)" "state_ok (src_bytes src) (mc_state (rescan k m))"
  shows "agree (scan_step F src byte_max node_max m) (scan_step F src byte_max node_max (rescan k m))"
proof (cases "sc_mode (mc_state m)")
  case (MLine kind start slot)
  with ok have "line_find (src_bytes src) start k kind = line_find (src_bytes src) start start kind"
    "line_find (src_bytes src) start (sc_scan (mc_state m)) kind = line_find (src_bytes src) start start kind"
    by (auto simp: state_ok_def intro!: line_find_clean)
  with MLine scan_line_rescan[of src start k kind "set_mode m MStart" F byte_max node_max slot]
  show ?thesis by (simp add: scan_step_def)
qed (use scan_marker_rescan[of src byte_max node_max "set_mode m MStart" _ k]
      scan_bulk_rescan[of F src "set_mode m MStart" _ _ k] in \<open>simp_all add: scan_step_def\<close>)

definition agree_opt ::
  "(('w, 't) machine \<times> 'r) option \<Rightarrow> (('w, 't) machine \<times> 'r) option \<Rightarrow> bool" where
  "agree_opt = rel_option agree"

lemma scan_loop_rescan:
  assumes b: "bound_ok byte_max" and ok: "state_ok (src_bytes src) (mc_state m)"
    and eq: "rescan 0 n = rescan 0 m" and okn: "state_ok (src_bytes src) (mc_state n)"
  shows "agree_opt (scan_loop F src byte_max node_max n) (scan_loop F src byte_max node_max m)"
  using b ok eq okn
proof (induction m arbitrary: n rule: scan_loop_induct[where F = F and node_max = node_max])
  case (step m)
  obtain m' r where st: "scan_step F src byte_max node_max m = (m', r)" by fastforce
  obtain n' q where sn: "scan_step F src byte_max node_max n = (n', q)" by fastforce
  from step.prems(1) have n: "n = rescan (sc_scan (mc_state n)) m"
    using rescan_eq[of m n] by simp
  have "agree (m', r) (n', q)"
    using scan_step_rescan[of src m "sc_scan (mc_state n)" F byte_max node_max] step.prems step(1) st sn n
    by simp
  then have a: "rescan 0 n' = rescan 0 m'" "q = r" by (simp_all add: agree_def)
  show ?case
  proof (cases r)
    case None
    have "state_ok (src_bytes src) (mc_state n')"
      using scan_step_arm[OF b step.prems(2), of F node_max] sn by (simp add: arm_ok_def)
    from step(2)[OF st[unfolded None] a(1) this] show ?thesis
      by (subst (1 2) scan_loop_unfold) (simp add: st sn a(2) None)
  next
    case (Some out)
    then show ?thesis
      by (subst (1 2) scan_loop_unfold) (simp add: st sn a agree_opt_def agree_def)
  qed
qed

section \<open>Resuming after Pending\<close>

lemma consumed_not_pending:
  "(\<And>n. build n \<noteq> Pending) \<Longrightarrow> consumed src amount build \<noteq> Pending"
  by (auto simp: consumed_def split: sum.split)

lemma settle_not_pending: "settle src m stored e count \<noteq> (m', Some Pending)"
  by (auto simp: settle_def complete_def split: prod.split completion.split sum.split)

lemma scan_write_not_pending: "scan_write F m slot v restore \<noteq> (m', Inl Pending)"
  by (auto simp: scan_write_def Let_def split: prod.split sum.split write_error.split)

lemma scan_leaf_not_pending: "scan_leaf F src m kind start slot e v \<noteq> (m', Some Pending)"
  by (auto simp: scan_leaf_def scan_write_not_pending settle_not_pending split: prod.split sum.split)

lemma scan_array_not_pending: "scan_array F src node_max m start slot e v \<noteq> (m', Some Pending)"
  by (auto simp: scan_array_def consumed_def scan_write_not_pending settle_not_pending
      split: prod.split sum.split option.split)

lemma scan_header_not_pending:
  "scan_header F src byte_max node_max m kind start slot line e body \<noteq> (m', Some Pending)"
  by (cases kind)
    (auto simp: scan_header_def Let_def scan_leaf_not_pending scan_array_not_pending consumed_def
      split: sum.split length_value.split)

lemma scan_step_Pending:
  assumes st: "scan_step F src byte_max node_max m = (m', Some Pending)"
  shows "rescan 0 m' = rescan 0 m"
proof -
  let ?m = "set_mode m MStart"
  have marker: "rescan 0 m' = rescan 0 (set_mode n md)"
    if "scan_marker src byte_max node_max n md = (m', Some Pending)" for n md
    using that by (auto simp: scan_marker_def Let_def consumed_def split: option.splits sum.splits)
  have line: "rescan 0 m' = rescan 0 (set_mode n (MLine kind start slot))"
    if "scan_line F src byte_max node_max n kind start slot = (m', Some Pending)" for n kind start slot
    using that
    by (auto simp: scan_header_not_pending scan_line_def line_missing_def line_malformed_def Let_def consumed_def rescan_def
        split: option.splits sum.splits prod.splits)
  have bulk: "rescan 0 m' = rescan 0 (set_mode n (MBulk e slot))"
    if "scan_bulk F src n e slot = (m', Some Pending)" for n e slot
    using that
    by (auto simp: scan_bulk_def Let_def consumed_def scan_write_not_pending settle_not_pending
        split: option.splits list.splits if_splits prod.splits sum.splits)
  have same: "sc_mode (mc_state m) = md \<Longrightarrow> set_mode ?m md = m" for md by simp
  show ?thesis
  proof (cases "sc_mode (mc_state m)")
    case MStart
    then show ?thesis using marker[of ?m MStart] st same[of MStart] by (simp add: scan_step_def)
  next
    case (MMarker e)
    then show ?thesis using marker[of ?m "MMarker e"] st same[of "MMarker e"] by (simp add: scan_step_def)
  next
    case (MLine kind start slot)
    then show ?thesis using line[of ?m] st same[of "MLine kind start slot"] by (simp add: scan_step_def)
  next
    case (MBulk e slot)
    then show ?thesis using bulk[of ?m] st same[of "MBulk e slot"] by (simp add: scan_step_def)
  qed
qed

lemma longer_state_ok: "longer src src' \<Longrightarrow> state_ok (src_bytes src) s \<Longrightarrow> state_ok (src_bytes src') s"
  by (auto simp: longer_def state_ok_extend)

text \<open>A scan that stopped for want of input goes on as if it had had the whole input from the start.\<close>

lemma scan_loop_resume:
  assumes b: "bound_ok byte_max" and ok: "state_ok (src_bytes src) (mc_state m)"
    and p: "scan_loop F src byte_max node_max m = Some (m1, Pending)" and l: "longer src src'"
  shows "agree_opt (scan_loop F src' byte_max node_max m1) (scan_loop F src' byte_max node_max m)"
  using b ok p
proof (induction m rule: scan_loop_induct[where F = F and node_max = node_max])
  case (step m)
  obtain m' r where st: "scan_step F src byte_max node_max m = (m', r)" by fastforce
  show ?case
  proof (cases r)
    case None
    with st step.prems have "scan_loop F src byte_max node_max m' = Some (m1, Pending)"
      by (subst (asm) scan_loop_unfold) simp
    from step(2)[OF st[unfolded None] this]
    show ?thesis
      by (subst (2) scan_loop_unfold) (simp add: scan_step_longer[OF l st[unfolded None]])
  next
    case (Some out)
    with st step.prems have r: "m' = m1" "out = Pending"
      by (subst (asm) scan_loop_unfold, simp)+
    from scan_step_arm[OF b step(1), of F node_max] st r have "state_ok (src_bytes src) (mc_state m1)"
      by (simp add: arm_ok_def)
    then show ?thesis
      using scan_loop_rescan[OF b longer_state_ok[OF l step(1)] scan_step_Pending longer_state_ok[OF l]]
        st Some r by blast
  qed
qed

end
