(* ===== verification/Resp_Source.thy ===== *)
theory Resp_Source
  imports Resp_Resume
begin

text \<open>
  What the scanner asks of its decode input.  \<open>source_ok\<close> is what \<open>dope\<close> documents of
  \<open>try_consumed\<close> and \<open>try_prefix\<close>: they succeed on amounts within the input.  The lemmas show that
  the scanner only ever asks for such amounts, so it never ends with a \<open>Source\<close> error, and that a
  frame or a protocol error found in an input is found in every longer input too.
\<close>

definition source_ok :: "'x source \<Rightarrow> bool" where
  "source_ok src \<longleftrightarrow>
     (\<forall>n. 0 < n \<and> n \<le> length (src_bytes src) \<longrightarrow>
        src_consumed src n = Inr n \<and> src_prefix src 0 n = Inr (take n (src_bytes src), n))"

definition plain_source :: "bytes \<Rightarrow> unit source" where
  "plain_source bs =
     \<lparr>src_bytes = bs,
      src_consumed = (\<lambda>n. if 0 < n \<and> n \<le> length bs then Inr n else Inl ()),
      src_prefix = (\<lambda>skip n. if skip = 0 \<and> 0 < n \<and> n \<le> length bs then Inr (take n bs, n) else Inl ())\<rparr>"

lemma plain_source_ok: "source_ok (plain_source bs)" "src_bytes (plain_source bs) = bs"
  by (simp_all add: source_ok_def plain_source_def)

fun outcome_ok :: "bytes \<Rightarrow> 'x outcome \<Rightarrow> bool" where
  "outcome_ok bs (Complete frame tail len n) = (0 < n \<and> n \<le> length bs \<and> frame = take n bs)"
| "outcome_ok bs (Invalid e n) = (0 < n \<and> n \<le> length bs)"
| "outcome_ok bs (FrameCapacity e n) = (0 < n \<and> n \<le> length bs)"
| "outcome_ok bs (ValueCapacity e n) = (0 < n \<and> n \<le> length bs)"
| "outcome_ok bs (Source x) = False"
| "outcome_ok bs Pending = True"
| "outcome_ok bs Blocked = True"
| "outcome_ok bs RetainCapacity = True"

definition out_ok :: "bytes \<Rightarrow> 'm \<times> 'x outcome option \<Rightarrow> bool" where
  "out_ok bs r \<longleftrightarrow> (case snd r of None \<Rightarrow> True | Some out \<Rightarrow> outcome_ok bs out)"

lemma out_ok_simps [simp]: "out_ok bs (m, None)" "out_ok bs (m, Some out) \<longleftrightarrow> outcome_ok bs out"
  by (simp_all add: out_ok_def)

definition in_range :: "'x source \<Rightarrow> nat \<Rightarrow> bool" where
  "in_range src n \<longleftrightarrow> 0 < n \<and> n \<le> length (src_bytes src) \<and> n \<le> u32_max"

lemma consumed_in_range: "source_ok src \<Longrightarrow> in_range src n \<Longrightarrow> consumed src n build = build n"
  by (simp add: source_ok_def in_range_def consumed_def)

lemma end_consumed_in_range [simp]: "in_range src e \<Longrightarrow> end_consumed e = e"
  by (simp add: in_range_def end_consumed_id)

lemma settle_out:
  assumes "source_ok src" and "in_range src n"
  shows "out_ok (src_bytes src) (settle src m stored e n)"
  using assms
  by (auto simp: settle_def complete_def source_ok_def in_range_def split: prod.split completion.split sum.split)

lemma scan_write_out: "scan_write F m slot v restore = (m', Inl out) \<Longrightarrow> out = Blocked \<or> out = RetainCapacity"
  by (auto simp: scan_write_def Let_def split: prod.splits sum.splits write_error.splits)

lemma scan_leaf_out:
  assumes "source_ok src" and "in_range src e"
  shows "out_ok (src_bytes src) (scan_leaf F src m kind start slot e v)"
  using assms settle_out[OF assms]
  by (auto simp: scan_leaf_def split: prod.split sum.split dest!: scan_write_out)

lemma scan_array_out:
  assumes "source_ok src" and "in_range src e"
  shows "out_ok (src_bytes src) (scan_array F src node_max m start slot e v)"
proof (cases "value_array node_max (bd_len (mc_builder m)) v")
  case (Inl x)
  with assms show ?thesis
    by (simp add: scan_array_def consumed_in_range) (simp add: in_range_def)
next
  case (Inr n)
  have r: "0 < e \<and> e \<le> length (src_bytes src)" using assms(2) by (simp add: in_range_def)
  show ?thesis
  proof (cases "count_nonzero n \<noteq> None \<and> max_depth \<le> length (sc_left (mc_state m))")
    case True
    with Inr assms r show ?thesis by (auto simp: scan_array_def consumed_in_range)
  next
    case False
    show ?thesis
      unfolding scan_array_def Inr sum.case if_not_P[OF False]
      using settle_out[OF assms] assms(2) by (auto split: prod.split sum.split option.split dest!: scan_write_out)
  qed
qed

lemma scan_header_out:
  fixes src :: "'x source"
  assumes "source_ok src" and r: "in_range src e"
  shows "out_ok (src_bytes src) (scan_header F src byte_max node_max m kind start slot line e body)"
proof -
  have l: "0 < e \<and> e \<le> length (src_bytes src)" using assms(2) by (simp add: in_range_def)
  note leaf = scan_leaf_out[OF assms, where F = F] and array = scan_array_out[OF assms, where F = F]
  show ?thesis
    using assms leaf array l
    by (cases kind)
      (simp_all add: scan_header_def consumed_in_range split: sum.split length_value.split)
qed

lemma scan_marker_out:
  assumes b: "bound_ok byte_max" and s: "source_ok src"
  shows "out_ok (src_bytes src) (scan_marker src byte_max node_max m md)"
proof (cases "get (src_bytes src) (mode_cursor md)")
  case None
  then show ?thesis by (simp add: scan_marker_def)
next
  case (Some marker)
  then have lt: "mode_cursor md < length (src_bytes src)" by (simp add: get_Some_less)
  show ?thesis
  proof (cases "frame_next byte_max (mode_cursor md)")
    case (Inl e)
    with lt b have "in_range src (bound_consumed byte_max)"
      by (auto simp: frame_next_Inl in_range_def bound_consumed_id bound_ok_def)
    with Some Inl s lt show ?thesis
      by (simp add: scan_marker_def consumed_in_range) (simp add: in_range_def)
  next
    case (Inr e)
    with b lt have r: "in_range src e" by (auto simp: frame_next_Inr in_range_def bound_ok_def)
    then have "0 < e \<and> e \<le> length (src_bytes src)" by (simp add: in_range_def)
    with Some Inr s r show ?thesis
      by (simp add: scan_marker_def consumed_in_range Let_def split: sum.split option.split)
  qed
qed

lemma line_find_Inl:
  assumes "line_find bs start scan kind = Inl (offset, expected, actual)"
  shows "offset < length bs" and "line_find (bs @ ext) start scan kind = Inl (offset, expected, actual)"
proof -
  define s where "s = max scan start"
  have st: "start \<le> s" by (simp add: s_def)
  from assms have f: "line_find bs start s kind = Inl (offset, expected, actual)"
    unfolding s_def by (simp flip: line_find_from)
  from f have t: "text_line kind" "s \<le> length bs"
    unfolding line_find_def Let_def max_absorb1[OF st] by (auto split: if_splits option.splits)
  from f t obtain off where p: "position (\<lambda>b. b = CR \<or> b = LF) (drop s bs) = Some off"
    and q: "(drop s bs ! off = LF \<and> (offset, expected, actual) = (s + off, CR, LF)) \<or>
      (\<exists>a. drop s bs ! off \<noteq> LF \<and> get (drop s bs) (off + 1) = Some a \<and> a \<noteq> LF \<and>
           (offset, expected, actual) = (s + off + 1, LF, a))"
    unfolding line_find_def Let_def max_absorb1[OF st]
    by (auto split: if_splits option.splits simp del: nth_drop get_drop)
  have lt: "off < length (drop s bs)" using position_Some[OF p] by simp
  with q t show "offset < length bs" by (auto dest!: get_Some_less)
  have d: "drop s (bs @ ext) = drop s bs @ ext" using t by simp
  have "line_find (bs @ ext) start s kind = Inl (offset, expected, actual)"
    using q t position_prefix[OF p, of ext] lt
    unfolding line_find_def Let_def max_absorb1[OF st] d
    by (auto simp: nth_append get_prefix simp del: nth_drop get_drop)
  then show "line_find (bs @ ext) start scan kind = Inl (offset, expected, actual)"
    unfolding s_def by (simp flip: line_find_from)
qed

lemma frame_line_Inl:
  "frame_line b l = Inl e \<Longrightarrow> b \<le> line_stop l + 1"
  by (auto simp: frame_line_def bindr_Inl_iff frame_next_Inl)

lemma scan_line_out:
  assumes b: "bound_ok byte_max" and s: "source_ok src"
  shows "out_ok (src_bytes src) (scan_line F src byte_max node_max m kind start slot)"
proof -
  have br: "in_range src (bound_consumed byte_max)" if "byte_max \<le> length (src_bytes src)"
    using b that by (auto simp: in_range_def bound_consumed_id bound_ok_def)
  have bo: "out_ok (src_bytes src) (n :: ('a, 'b) machine, Some (consumed src (bound_consumed byte_max) (FrameCapacity x)))"
    if "byte_max \<le> length (src_bytes src)" for n x
    using consumed_in_range[OF s br[OF that]] br[OF that] by (simp add: in_range_def)
  show ?thesis
  proof (cases "line_find (src_bytes src) start (sc_scan (mc_state m)) kind")
    case (Inl err)
    obtain offset expected actual where err: "err = (offset, expected, actual)" by (cases err)
    have lt: "offset < length (src_bytes src)" using line_find_Inl(1) Inl err by blast
    show ?thesis
    proof (cases "frame_next byte_max offset")
      case (Inl x)
      with lt have "byte_max \<le> length (src_bytes src)" by (simp add: frame_next_Inl)
      from bo[OF this] show ?thesis using Inl \<open>line_find _ _ _ _ = Inl err\<close> err
        by (simp add: scan_line_def line_malformed_def)
    next
      case (Inr e)
      with b lt have r: "in_range src e" by (auto simp: frame_next_Inr in_range_def bound_ok_def)
      then have "0 < e \<and> e \<le> length (src_bytes src)" by (simp add: in_range_def)
      with r s Inr \<open>line_find _ _ _ _ = Inl err\<close> err show ?thesis
        by (simp add: scan_line_def line_malformed_def consumed_in_range)
    qed
  next
    case (Inr f)
    show ?thesis
    proof (cases f)
      case None
      with Inr bo show ?thesis
        by (auto simp: scan_line_def line_missing_def Let_def frame_check_def)
    next
      case (Some l)
      with Inr have f: "line_find (src_bytes src) start (sc_scan (mc_state m)) kind = Inr (Some l)" by simp
      note lf = line_find_Some[OF f]
      show ?thesis
      proof (cases "frame_line byte_max l")
        case (Inl x)
        with frame_line_Inl[OF Inl] lf bo f show ?thesis by (simp add: scan_line_def)
      next
        case (Inr eb)
        obtain e bd where eb: "eb = (e, bd)" by (cases eb)
        from frame_line_Inr[OF b Inr[unfolded eb]] lf b have "in_range src e"
          by (auto simp: in_range_def bound_ok_def)
        from scan_header_out[OF s this] f Inr eb show ?thesis by (simp add: scan_line_def)
      qed
    qed
  qed
qed

lemma scan_bulk_out:
  assumes s: "source_ok src" and ok: "body_stop b + 2 \<le> u32_max"
  shows "out_ok (src_bytes src) (scan_bulk F src m b slot)"
proof (cases "\<exists>x y. subslice (body_stop b) (body_get b) (src_bytes src) = Some [x, y]")
  case False
  then have "scan_bulk F src m b slot = (set_mode m (MBulk b slot), Some Pending)"
    by (auto simp: scan_bulk_def Let_def split: option.split list.split)
  then show ?thesis by simp
next
  case True
  then obtain x y where xy: "subslice (body_stop b) (body_get b) (src_bytes src) = Some [x, y]" by auto
  from length_subslice[OF xy] ok have r: "in_range src (body_end b)"
    by (simp add: body_get_def body_end_id in_range_def)
  then have l: "0 < body_end b \<and> body_end b \<le> length (src_bytes src)" by (simp add: in_range_def)
  show ?thesis using xy settle_out[OF s r] r l
    by (auto simp: scan_bulk_def Let_def consumed_in_range[OF s] body_consumed_def
        split: prod.split sum.split dest!: scan_write_out)
qed

lemma scan_step_out:
  assumes b: "bound_ok byte_max" and s: "source_ok src" and ok: "state_ok (src_bytes src) (mc_state m)"
  shows "out_ok (src_bytes src) (scan_step F src byte_max node_max m)"
  using scan_marker_out[OF b s] scan_line_out[OF b s] scan_bulk_out[OF s] ok
  by (cases "sc_mode (mc_state m)") (auto simp: scan_step_def state_ok_def)

text \<open>Every scan returns, and what it returns asks for bytes of the input only.\<close>

lemma scan_loop_out:
  assumes b: "bound_ok byte_max" and s: "source_ok src" and ok: "state_ok (src_bytes src) (mc_state m)"
  shows "\<exists>m' out. scan_loop F src byte_max node_max m = Some (m', out) \<and>
           state_ok (src_bytes src) (mc_state m') \<and> outcome_ok (src_bytes src) out"
  using b ok
proof (induction m rule: scan_loop_induct[where F = F and node_max = node_max])
  case (step m)
  obtain m' r where st: "scan_step F src byte_max node_max m = (m', r)" by fastforce
  from scan_step_arm[OF b step(1), of F node_max] scan_step_out[OF b s step(1), of F node_max] st step(2)
  show ?case by (subst (1) scan_loop_unfold) (cases r; simp add: arm_ok_def)
qed

section \<open>Longer inputs\<close>

text \<open>
  Outcomes that a longer input does not change: all but \<open>Pending\<close>, and a \<open>FrameCapacity\<close> that was
  found because the input itself exceeds the bound.
\<close>

fun settled :: "bound \<Rightarrow> nat \<Rightarrow> 'x outcome \<Rightarrow> bool" where
  "settled b len Pending = False"
| "settled b len (FrameCapacity e n) = (len \<le> b)"
| "settled b len (Complete f t l n) = True"
| "settled b len (Invalid e n) = True"
| "settled b len (ValueCapacity e n) = True"
| "settled b len Blocked = True"
| "settled b len RetainCapacity = True"
| "settled b len (Source x) = True"

lemma settled_any: "settled 0 1 out \<Longrightarrow> settled b len out"
  by (cases out) auto

lemma longer_bytes:
  "longer src src' \<Longrightarrow> in_range src n \<Longrightarrow> in_range src' n"
  "longer src src' \<Longrightarrow> in_range src n \<Longrightarrow> take n (src_bytes src') = take n (src_bytes src)"
  by (auto simp: longer_def in_range_def)

lemma consumed_longer:
  assumes "source_ok src" "source_ok src'" "longer src src'" "in_range src n"
  shows "consumed src n build = consumed src' n build"
  using assms longer_bytes(1)[OF assms(3,4)] by (simp add: consumed_in_range)

lemma settle_longer:
  assumes "source_ok src" "source_ok src'" "longer src src'" "in_range src n"
  shows "settle src m stored e n = settle src' m stored e n"
proof -
  have "src_prefix src 0 n = src_prefix src' 0 n"
    using assms longer_bytes[OF assms(3,4)] by (simp add: source_ok_def in_range_def)
  then show ?thesis unfolding settle_def complete_def by simp
qed

lemma scan_header_same:
  assumes "source_ok src" "source_ok src'" "longer src src'" "in_range src e"
  shows "scan_header F src byte_max node_max m kind start slot line e body =
         scan_header F src' byte_max node_max m kind start slot line e body"
proof -
  have leaf: "scan_leaf F src m kind start slot e v = scan_leaf F src' m kind start slot e v" for m kind v
    unfolding scan_leaf_def end_consumed_in_range[OF assms(4)] settle_longer[OF assms] ..
  have array: "scan_array F src node_max m start slot e v = scan_array F src' node_max m start slot e v" for v
    unfolding scan_array_def end_consumed_in_range[OF assms(4)] settle_longer[OF assms] consumed_longer[OF assms] ..
  show ?thesis
    unfolding scan_header_def leaf array end_consumed_in_range[OF assms(4)] consumed_longer[OF assms] ..
qed

lemma scan_step_settled:
  assumes s: "source_ok src" "source_ok src'" "longer src src'" and b: "bound_ok byte_max"
    and ok: "state_ok (src_bytes src) (mc_state m)"
    and st: "scan_step F src byte_max node_max m = (m', Some out)"
    and d: "settled byte_max (length (src_bytes src)) out"
  shows "scan_step F src' byte_max node_max m = (m', Some out)"
proof -
  from s(3) obtain ext where ext: "src_bytes src' = src_bytes src @ ext" by (auto simp: longer_def)
  have marker: "scan_marker src' byte_max node_max n md = (m', Some out)"
    if "scan_marker src byte_max node_max n md = (m', Some out)" for n md
  proof -
    from that d obtain mk where g: "get (src_bytes src) (mode_cursor md) = Some mk"
      by (auto simp: scan_marker_def Let_def split: option.splits)
    then have lt: "mode_cursor md < length (src_bytes src)" by (simp add: get_Some_less)
    have g': "get (src_bytes src') (mode_cursor md) = Some mk" unfolding ext by (rule get_prefix[OF g])
    show ?thesis
    proof (cases "frame_next byte_max (mode_cursor md)")
      case (Inl e)
      with lt b have "in_range src (bound_consumed byte_max)"
        by (auto simp: frame_next_Inl in_range_def bound_consumed_id bound_ok_def)
      with that g g' Inl consumed_longer[OF s] show ?thesis by (simp add: scan_marker_def)
    next
      case (Inr e)
      with b lt have r: "in_range src e" by (auto simp: frame_next_Inr in_range_def bound_ok_def)
      from g g' Inr have "scan_marker src' byte_max node_max n md = scan_marker src byte_max node_max n md"
        by (cases "value_next node_max (bd_len (mc_builder n))"; cases "marker_line mk")
          (simp_all add: scan_marker_def Let_def end_consumed_in_range[OF r] consumed_longer[OF s r])
      with that show ?thesis by simp
    qed
  qed
  have line: "scan_line F src' byte_max node_max n kind start slot = (m', Some out)"
    if l: "scan_line F src byte_max node_max n kind start slot = (m', Some out)" for n kind start slot
  proof (cases "line_find (src_bytes src) start (sc_scan (mc_state n)) kind")
    case (Inl err)
    obtain offset expected actual where err: "err = (offset, expected, actual)" by (cases err)
    note f = line_find_Inl[OF Inl[unfolded err]]
    from l Inl d obtain e where e: "frame_next byte_max offset = Inr e"
      by (auto simp: scan_line_def line_malformed_def err consumed_def split: sum.splits)
        (use s(1) b f(1) in \<open>auto simp: frame_next_Inl source_ok_def bound_ok_def bound_consumed_id\<close>)
    with b f(1) have r: "in_range src e" by (auto simp: frame_next_Inr in_range_def bound_ok_def)
    from l Inl err e f(2)[of ext] consumed_longer[OF s r] r show ?thesis
      by (simp add: scan_line_def line_malformed_def ext)
  next
    case (Inr f)
    show ?thesis
    proof (cases f)
      case None
      have False
        using l Inr None d b s(1)
        by (auto simp: scan_line_def line_missing_def Let_def frame_check_def consumed_def source_ok_def
            bound_ok_def bound_consumed_id split: if_splits sum.splits)
      then show ?thesis ..
    next
      case (Some x)
      with Inr have f: "line_find (src_bytes src) start (sc_scan (mc_state n)) kind = Inr (Some x)" by simp
      note lf = line_find_Some[OF f]
      from l f lf d b s(1) obtain e bd where fl: "frame_line byte_max x = Inr (e, bd)"
        by (cases "frame_line byte_max x")
          (auto simp: scan_line_def consumed_def source_ok_def bound_ok_def bound_consumed_id
            dest!: frame_line_Inl)
      from frame_line_Inr[OF b fl] lf b have "in_range src e" by (auto simp: in_range_def bound_ok_def)
      from scan_header_same[OF s this, where F = F] l f fl line_find_extend[OF f, of ext] show ?thesis
        by (simp add: scan_line_def ext)
    qed
  qed
  have bulk: "scan_bulk F src' n e slot = (m', Some out)"
    if l: "scan_bulk F src n e slot = (m', Some out)" and e: "body_stop e + 2 \<le> u32_max" for n e slot
  proof -
    from l d obtain x y where xy: "subslice (body_stop e) (body_get e) (src_bytes src) = Some [x, y]"
      by (auto simp: scan_bulk_def Let_def split: option.splits list.splits)
    from length_subslice[OF xy] e have "in_range src (body_consumed e)"
      by (simp add: body_get_def body_end_id in_range_def body_consumed_def end_consumed_id)
    note same = settle_longer[OF s this] consumed_longer[OF s this]
    have "subslice (body_stop e) (body_get e) (src_bytes src') = Some [x, y]"
      unfolding ext by (rule subslice_prefix[OF xy])
    then have "scan_bulk F src n e slot = scan_bulk F src' n e slot"
      unfolding scan_bulk_def Let_def same by (simp add: xy)
    with l show ?thesis by simp
  qed
  show ?thesis
    using st ok by (cases "sc_mode (mc_state m)")
      (auto simp: scan_step_def state_ok_def intro: marker line bulk)
qed

lemma scan_loop_settled:
  assumes s: "source_ok src" "source_ok src'" "longer src src'" and b: "bound_ok byte_max"
    and ok: "state_ok (src_bytes src) (mc_state m)"
    and p: "scan_loop F src byte_max node_max m = Some (m1, out)"
    and d: "settled byte_max (length (src_bytes src)) out"
  shows "scan_loop F src' byte_max node_max m = Some (m1, out)"
  using b ok p
proof (induction m rule: scan_loop_induct[where F = F and node_max = node_max])
  case (step m)
  obtain m' r where st: "scan_step F src byte_max node_max m = (m', r)" by fastforce
  show ?case
  proof (cases r)
    case None
    with st step.prems have "scan_loop F src byte_max node_max m' = Some (m1, out)"
      by (subst (asm) scan_loop_unfold) simp
    from step(2)[OF st[unfolded None] this] show ?thesis
      by (subst scan_loop_unfold) (simp add: scan_step_longer[OF s(3) st[unfolded None]])
  next
    case (Some o1)
    with st step.prems have r: "m' = m1" "o1 = out" by (subst (asm) scan_loop_unfold, simp)+
    from scan_step_settled[OF s b step(1) st[unfolded Some r(2)] d] r show ?thesis
      by (subst scan_loop_unfold) simp
  qed
qed

section \<open>Feeding a reply in pieces\<close>

text \<open>
  The decoder calls the scanner on the bytes received so far, again and again, until it returns
  something other than \<open>Pending\<close>.
\<close>

fun parser_feed ::
  "('w, 't) fifo \<Rightarrow> (bytes \<Rightarrow> 'x source) \<Rightarrow> bound \<Rightarrow> bound \<Rightarrow> bytes \<Rightarrow> bytes list \<Rightarrow> ('w, 't) machine
     \<Rightarrow> (('w, 't) machine \<times> 'x outcome) option" where
  "parser_feed F mk byte_max node_max seen [] m = parser_scan F (mk seen) byte_max node_max m"
| "parser_feed F mk byte_max node_max seen (piece # pieces) m =
     (case parser_scan F (mk seen) byte_max node_max m of
        Some (m', Pending) \<Rightarrow> parser_feed F mk byte_max node_max (seen @ piece) pieces m'
      | result \<Rightarrow> result)"

definition makes_sources :: "(bytes \<Rightarrow> 'x source) \<Rightarrow> bool" where
  "makes_sources mk \<longleftrightarrow> (\<forall>bs. source_ok (mk bs) \<and> src_bytes (mk bs) = bs)"

lemma plain_makes_sources: "makes_sources plain_source"
  by (simp add: makes_sources_def plain_source_ok)

lemma parser_scan_ok:
  "state_ok (src_bytes src) (mc_state m) \<Longrightarrow>
     parser_scan F src byte_max node_max m = scan_loop F src byte_max node_max m"
  by (simp add: parser_scan_def state_ok_def)

lemma parser_feed_agrees:
  assumes mk: "makes_sources mk" and b: "bound_ok byte_max" and ok: "state_ok seen (mc_state m)"
    and f: "parser_feed F mk byte_max node_max seen pieces m = Some (m', out)"
    and d: "settled 0 1 out"
  shows "agree_opt (Some (m', out)) (parser_scan F (mk (seen @ concat pieces)) byte_max node_max m)"
  using ok f
proof (induction pieces arbitrary: seen m)
  case Nil
  then show ?case by (simp add: agree_opt_def)
next
  case (Cons piece pieces)
  have src: "src_bytes (mk bs) = bs" "source_ok (mk bs)" for bs using mk by (simp_all add: makes_sources_def)
  have lg: "longer (mk seen) (mk (seen @ ext))" for ext by (simp add: longer_def src)
  have okm: "state_ok (src_bytes (mk seen)) (mc_state m)" using Cons.prems(1) by (simp add: src)
  note sl = parser_scan_ok[OF okm] parser_scan_ok[OF longer_state_ok[OF lg okm]]
  obtain m1 o1 where r: "scan_loop F (mk seen) byte_max node_max m = Some (m1, o1)"
    and ok1: "state_ok seen (mc_state m1)"
    using scan_loop_returns[OF b okm, of F node_max] by (auto simp: src)
  show ?case
  proof (cases "o1 = Pending")
    case True
    have ok2: "state_ok (seen @ piece) (mc_state m1)" using ok1 by (rule state_ok_extend)
    have "parser_feed F mk byte_max node_max (seen @ piece) pieces m1 = Some (m', out)"
      using Cons.prems(2) r True sl by simp
    from Cons.IH[OF ok2 this]
    have a: "agree_opt (Some (m', out)) (parser_scan F (mk (seen @ piece @ concat pieces)) byte_max node_max m1)"
      by simp
    have ok3: "state_ok (src_bytes (mk (seen @ piece @ concat pieces))) (mc_state m1)"
      using state_ok_extend[OF ok1] by (simp add: src)
    from scan_loop_resume[OF b okm r[unfolded True] lg, of "piece @ concat pieces"] a
    show ?thesis
      unfolding sl parser_scan_ok[OF ok3] agree_opt_def
      by (auto simp: option_rel_Some1 agree_def sl)
  next
    case False
    have "m1 = m'" "o1 = out" using Cons.prems(2) r sl False by (cases o1; simp)+
    with scan_loop_settled[OF src(2) src(2) lg b okm r] settled_any[OF d]
    show ?thesis unfolding concat.simps sl by (simp add: agree_opt_def)
  qed
qed

end
