(* ===== verification/Resp_Safe.thy ===== *)
theory Resp_Safe
  imports Resp_Source
begin

text \<open>
  Safety of the scanner on arbitrary input: whatever bytes arrive, it keeps the ownership invariant
  of the shared pool, touches no tape but its own, and the tape it builds is the preorder of one
  reply whose spans lie inside the bytes scanned so far.
\<close>

section \<open>The preorder of a reply\<close>

fun arity :: "kind \<Rightarrow> nat" where
  "arity (KArray n) = n"
| "arity KNil = 0"
| "arity KOk = 0"
| "arity (KStatus s) = 0"
| "arity (KError s) = 0"
| "arity (KInteger v) = 0"
| "arity (KBulk s) = 0"

text \<open>\<open>need ks n\<close>: how many values are missing after \<open>ks\<close> when \<open>n\<close> were; none may be superfluous.\<close>

fun need :: "kind list \<Rightarrow> nat \<Rightarrow> nat option" where
  "need [] n = Some n"
| "need (k # ks) 0 = None"
| "need (k # ks) (Suc n) = need ks (n + arity k)"

lemma need_append: "need (xs @ ys) n = (case need xs n of None \<Rightarrow> None | Some r \<Rightarrow> need ys r)"
  by (induction xs n rule: need.induct) auto

lemma need_mono: "need ks n = Some r \<Longrightarrow> need ks (n + d) = Some (r + d)"
  by (induction ks n rule: need.induct) (auto simp: ac_simps)

text \<open>
  What the stack of counters stands for: the counter of an array under way below the top still
  counts the value it is inside of.
\<close>

fun outstanding :: "nat list \<Rightarrow> nat" where
  "outstanding [] = 0"
| "outstanding (n # ns) = n + sum_list (map (\<lambda>x. x - 1) ns)"

definition shape :: "nat list \<Rightarrow> kind list \<Rightarrow> bool" where
  "shape left ks \<longleftrightarrow>
     need ks 1 = Some (if ks = [] then 1 else outstanding left) \<and>
     (\<forall>x \<in> set left. 0 < x) \<and> (ks = [] \<longleftrightarrow> left = [])"

lemma finish_value_outstanding:
  assumes "finish_value s l e = (s', c)" and "\<forall>x \<in> set l. 0 < x"
  shows "outstanding (sc_left s') = outstanding l - 1 \<and> (\<forall>x \<in> set (sc_left s'). 0 < x) \<and>
         (c = Root \<longleftrightarrow> sc_left s' = []) \<and> (l \<noteq> [] \<longrightarrow> c = Root \<longleftrightarrow> outstanding l = 1)"
  using assms
proof (induction s l e rule: finish_value.induct)
  case (2 s n ns e)
  show ?case
  proof (cases "n = 1")
    case True
    with 2 have "finish_value s ns e = (s', c)" "\<forall>x \<in> set ns. 0 < x" by auto
    from 2(1)[OF _ this] True have ih: "outstanding (sc_left s') = outstanding ns - 1"
      "\<forall>x \<in> set (sc_left s'). 0 < x" "c = Root \<longleftrightarrow> sc_left s' = []"
      "ns \<noteq> [] \<longrightarrow> c = Root \<longleftrightarrow> outstanding ns = 1" by auto
    have "ns = [] \<Longrightarrow> c = Root" using \<open>finish_value s ns e = (s', c)\<close> by auto
    moreover have "outstanding (n # ns) = (if ns = [] then 1 else outstanding ns)"
      using True 2(3) by (cases ns) auto
    ultimately show ?thesis using ih by (cases "ns = []") auto
  next
    case False
    with 2 show ?thesis by auto
  qed
qed auto

lemma shape_leaf:
  assumes "shape left ks" and "arity v = 0" and f: "finish_value s left e = (s', c)"
  shows "(c = Nested \<longrightarrow> shape (sc_left s') (ks @ [v])) \<and> (c = Root \<longrightarrow> need (ks @ [v]) 1 = Some 0)"
proof -
  have pos: "\<forall>x \<in> set left. 0 < x" using assms(1) by (simp add: shape_def)
  note o = finish_value_outstanding[OF f pos]
  show ?thesis
  proof (cases "ks = []")
    case True
    with assms have l: "left = []" by (simp add: shape_def)
    with f have "c = Root" by simp
    with True assms(2) show ?thesis by simp
  next
    case False
    with assms(1) have l: "left \<noteq> []" and n: "need ks 1 = Some (outstanding left)" by (auto simp: shape_def)
    from l pos have "0 < outstanding left" by (cases left) auto
    then obtain d where d: "outstanding left = Suc d" by (cases "outstanding left") auto
    with n assms(2) have nd: "need (ks @ [v]) 1 = Some d" by (simp add: need_append)
    show ?thesis using o l nd d by (cases c) (auto simp: shape_def)
  qed
qed

lemma shape_array:
  assumes "shape left ks" and "0 < n"
  shows "shape (n # left) (ks @ [KArray n])"
proof (cases "ks = []")
  case True
  with assms have "left = []" by (simp add: shape_def)
  with True assms(2) show ?thesis by (simp add: shape_def)
next
  case False
  with assms have l: "left \<noteq> []" "\<forall>x \<in> set left. 0 < x" and nd: "need ks 1 = Some (outstanding left)"
    by (auto simp: shape_def)
  obtain x xs where x: "left = x # xs" using l by (cases left) auto
  with l have "0 < x" by simp
  then obtain y where y: "x = Suc y" by (cases x) auto
  with nd x have "need (ks @ [KArray n]) 1 = Some (y + sum_list (map (\<lambda>x. x - 1) xs) + n)"
    by (simp add: need_append)
  with x y assms(2) l show ?thesis by (auto simp: shape_def)
qed

section \<open>Spans\<close>

definition span_in :: "nat \<Rightarrow> span \<Rightarrow> bool" where
  "span_in c s \<longleftrightarrow> span_ok s \<and> body_start s \<le> body_stop s \<and> body_stop s + 2 \<le> c"

fun kind_in :: "nat \<Rightarrow> kind \<Rightarrow> bool" where
  "kind_in c (KStatus s) = span_in c s"
| "kind_in c (KError s) = span_in c s"
| "kind_in c (KBulk s) = span_in c s"
| "kind_in c k = kind_ok k"

lemma kind_in_ok: "kind_in c k \<Longrightarrow> kind_ok k"
  by (cases k) (auto simp: span_in_def)

lemma kind_in_mono: "kind_in c k \<Longrightarrow> c \<le> d \<Longrightarrow> kind_in d k"
  by (cases k) (auto simp: span_in_def)

lemma span_in_bytes:
  "span_in c s \<Longrightarrow> c \<le> length frame \<Longrightarrow> \<exists>bs. span_bytes frame s = Some bs"
  by (auto simp: span_in_def span_bytes_def span_parts_def subslice_def body_start_def body_stop_def)

lemma span_in_new:
  assumes "0 < start" and "start \<le> stop" and "stop + 2 \<le> c" and "c \<le> u32_max"
  shows "span_in c (span_terminated (body_new start stop))"
proof -
  have "0 < body_new start stop" using assms by (simp add: body_new_eq)
  then show ?thesis
    using assms body_new_bound[of start stop] by (simp add: span_in_def span_terminated_def span_ok_def)
qed

section \<open>The invariant\<close>

definition tape_kinds :: "pool \<Rightarrow> key list \<Rightarrow> kind list" where
  "tape_kinds p ks = map (\<lambda>k. node_kind (pool_node p k)) ks"

definition tape_inv ::
  "('w, 't) storage \<Rightarrow> 't builder \<Rightarrow> ('o option \<Rightarrow> key list) \<Rightarrow> 'o \<Rightarrow> bool" where
  "tape_inv st b own i \<longleftrightarrow>
     pool_inv (st_pool st) own \<and> bd_tail b = ring_tail (own (Some i)) \<and>
     bd_len b = length (own (Some i)) \<and> (own (Some i) \<noteq> [] \<longrightarrow> bd_access b = Held)"

text \<open>\<open>others\<close>: the tapes of the other owners, and what they hold, are the same.\<close>

definition others ::
  "pool \<Rightarrow> ('o option \<Rightarrow> key list) \<Rightarrow> pool \<Rightarrow> ('o option \<Rightarrow> key list) \<Rightarrow> 'o \<Rightarrow> bool" where
  "others p own p' own' i \<longleftrightarrow>
     (\<forall>j. j \<noteq> i \<longrightarrow> own' (Some j) = own (Some j) \<and>
        tape_kinds p' (own (Some j)) = tape_kinds p (own (Some j)))"

lemma others_refl [simp]: "others p own p own i"
  by (simp add: others_def)

lemma others_trans: "others p own q own1 i \<Longrightarrow> others q own1 r own2 i \<Longrightarrow> others p own r own2 i"
  by (simp add: others_def)

lemma builder_try_push_ok:
  assumes inv: "tape_inv st b own i" and v: "kind_ok v"
    and eq: "builder_try_push F st b slot v = (st', b', r)"
  shows "case r of
      Inl x \<Rightarrow> tape_inv st' b' own i \<and> st_pool st' = st_pool st
    | Inr (tail, len) \<Rightarrow> len = slot \<and> (\<exists>k fs. own None = k # fs \<and> tail = k \<and>
        (let own' = own(None := fs, Some i := own (Some i) @ [k]) in
         pool_inv (st_pool st') own' \<and> bd_tail b' = Some k \<and> bd_len b' = slot \<and> bd_access b' = Held \<and>
         tape_kinds (st_pool st') (own' (Some i)) = tape_kinds (st_pool st) (own (Some i)) @ [v] \<and>
         others (st_pool st) own (st_pool st') own' i))"
proof -
  obtain g ph acq where a: "access_acquire F (st_gate st) (bd_access b) = (g, ph, acq)"
    by (cases "access_acquire F (st_gate st) (bd_access b)") auto
  have held: "acq \<Longrightarrow> ph = Held" "bd_access b = Held \<Longrightarrow> ph = Held"
    using a by (auto simp: access_acquire_def split: phase.splits if_splits prod.splits bool.splits)
  note d = builder_try_push_def a Let_def pool_reserve_def slot_commit_def
  show ?thesis
  proof (cases "acq \<and> free (st_pool st) \<noteq> None")
    case False
    with eq inv held show ?thesis
      by (cases acq) (auto simp: d tape_inv_def split: option.splits if_splits)
  next
    case True
    then obtain fr where acq: acq and fr: "free (st_pool st) = Some fr" by auto
    have pinv: "pool_inv (st_pool st) own" and tl: "bd_tail b = ring_tail (own (Some i))"
      using inv by (simp_all add: tape_inv_def)
    from pinv fr obtain k fs where fs: "own None = k # fs"
      by (cases "own None") (auto simp: pool_inv_def ring_tail_def)
    obtain p' k' where ap: "free_append (st_pool st) fr (ring_tail (own (Some i))) v = (p', k')"
      by fastforce
    note f = free_append_eq[OF pinv fs fr refl ap]
    have "k \<notin> set (own (Some j))" for j
    proof
      assume "k \<in> set (own (Some j))"
      with pool_inv_disjoint[OF pinv, of k None "Some j"] fs show False by auto
    qed
    then have same: "tape_kinds p' (own (Some j)) = tape_kinds (st_pool st) (own (Some j))" for j
      unfolding tape_kinds_def using f(5) pool_inv_key_in[OF pinv] by (intro map_cong) auto
    from eq acq fr tl ap f(1) held have "st_pool st' = p'" "r = Inr (k, slot)" "bd_tail b' = Some k"
        "bd_len b' = slot" "bd_access b' = Held"
      by (auto simp: d)
    with pool_inv_append[OF pinv fs fr ap] same f(6)[OF v] fs show ?thesis
      by (auto simp: others_def tape_kinds_def Let_def)
  qed
qed

section \<open>Every iteration keeps the invariant\<close>

text \<open>
  The invariant between iterations: the tape so far is the beginning of a preorder that \<open>left\<close>
  describes, its spans end before the cursor, and the slot kept for the value under way is the next.
\<close>

definition scan_inv :: "('w, 't) machine \<Rightarrow> ('o option \<Rightarrow> key list) \<Rightarrow> 'o \<Rightarrow> bool" where
  "scan_inv m own i \<longleftrightarrow>
     tape_inv (mc_store m) (mc_builder m) own i \<and>
     shape (sc_left (mc_state m)) (tape_kinds (st_pool (mc_store m)) (own (Some i))) \<and>
     length (sc_left (mc_state m)) \<le> max_depth \<and>
     (\<forall>k \<in> set (tape_kinds (st_pool (mc_store m)) (own (Some i))).
        kind_in (mode_cursor (sc_mode (mc_state m))) k) \<and>
     (case sc_mode (mc_state m) of
        MLine kind start slot \<Rightarrow> slot = Suc (bd_len (mc_builder m)) \<and> 0 < start
      | MBulk b slot \<Rightarrow> slot = Suc (bd_len (mc_builder m)) \<and> span_in (body_stop b + 2) b
      | _ \<Rightarrow> True)"

definition finished ::
  "('w, 't) machine \<Rightarrow> ('o option \<Rightarrow> key list) \<Rightarrow> 'o \<Rightarrow> key \<Rightarrow> nat \<Rightarrow> nat \<Rightarrow> bool" where
  "finished m own i tail len n \<longleftrightarrow>
     pool_inv (st_pool (mc_store m)) own \<and> ring_tail (own (Some i)) = Some tail \<and>
     len = length (own (Some i)) \<and>
     need (tape_kinds (st_pool (mc_store m)) (own (Some i))) 1 = Some 0 \<and>
     (\<forall>k \<in> set (tape_kinds (st_pool (mc_store m)) (own (Some i))). kind_in n k) \<and>
     mc_builder m = builder_new"

definition step_safe ::
  "('w, 't) machine \<Rightarrow> ('o option \<Rightarrow> key list) \<Rightarrow> 'o \<Rightarrow> ('w, 't) machine \<times> 'x outcome option \<Rightarrow> bool" where
  "step_safe m own i r \<longleftrightarrow>
     (\<exists>own'. others (st_pool (mc_store m)) own (st_pool (mc_store (fst r))) own' i \<and>
        (case snd r of
           Some (Complete frame tail len n) \<Rightarrow> finished (fst r) own' i tail len n
         | Some (Source x) \<Rightarrow> True
         | _ \<Rightarrow> scan_inv (fst r) own' i))"

lemma step_safe_keep:
  "scan_inv m' own i \<Longrightarrow> mc_store m' = mc_store m \<Longrightarrow> \<forall>f t l n. out \<noteq> Complete f t l n \<Longrightarrow>
     step_safe m own i (m', Some out)"
  unfolding step_safe_def by (rule exI[of _ own]) (cases out; auto)

lemma consumed_not_complete:
  "\<forall>n f t l c. build n \<noteq> Complete f t l c \<Longrightarrow> \<forall>f t l c. consumed src a build \<noteq> Complete f t l c"
  by (auto simp: consumed_def split: sum.split)

text \<open>A stored leaf, and what \<open>settle\<close> makes of it.\<close>

lemma settle_safe:
  assumes sh: "shape (sc_left (mc_state m)) ks" and v: "arity v = 0"
    and kinds: "tape_kinds (st_pool (mc_store m)) (own' (Some i)) = ks @ [v]"
    and inv: "tape_inv (mc_store m) (mc_builder m) own' i" and dep: "length (sc_left (mc_state m)) \<le> max_depth"
    and spans: "\<forall>k \<in> set (ks @ [v]). kind_in e k" and stored: "Some (fst stored) = ring_tail (own' (Some i))"
      "snd stored = length (own' (Some i))"
    and src: "source_ok src" "in_range src n" and n: "n = e"
    and oth: "others (st_pool (mc_store m0)) own (st_pool (mc_store m)) own' i"
  shows "step_safe m0 own i (settle src m stored e n)"
proof -
  obtain s c where f: "finish_value (mc_state m) (sc_left (mc_state m)) e = (s, c)" by fastforce
  note sl = shape_leaf[OF sh v f]
  have len: "length (sc_left s) \<le> length (sc_left (mc_state m))"
  proof -
    have "length (sc_left s) \<le> length l" if "finish_value s0 l e = (s, c)" for s0 l
      using that by (induction s0 l e rule: finish_value.induct) (auto split: if_splits)
    from this[OF f] show ?thesis .
  qed
  show ?thesis
  proof (cases c)
    case Nested
    with finish_value_state[OF f] have md: "sc_mode s = MMarker e" by simp
    have "scan_inv (m\<lparr>mc_state := s\<rparr>) own' i"
      using inv kinds sl Nested md spans len dep by (simp add: scan_inv_def)
    with oth f Nested show ?thesis by (auto simp: step_safe_def settle_def)
  next
    case Root
    from src have p: "src_prefix src 0 n = Inr (take n (src_bytes src), n)"
      by (simp add: source_ok_def in_range_def)
    have "stored_finish (mc_builder m) = builder_new"
      by (simp add: stored_finish_def builder_new_def access_finish_def)
    with inv kinds sl Root spans stored n
    have "finished (m\<lparr>mc_builder := stored_finish (mc_builder m), mc_state := scanner_reset s\<rparr>)
        own' i (fst stored) (snd stored) n"
      by (simp add: finished_def tape_inv_def)
    with oth f Root p show ?thesis
      by (auto simp: step_safe_def settle_def complete_def)
  qed
qed

text \<open>Pushing one value, from the state of an arm whose mode was taken.\<close>

lemma scan_write_safe:
  assumes inv: "tape_inv (mc_store m) (mc_builder m) own i" and v: "kind_ok v"
    and slot: "slot = Suc (bd_len (mc_builder m))"
    and w: "scan_write F m slot v restore = (m', r)"
  shows "case r of
      Inl out \<Rightarrow> (out = Blocked \<or> out = RetainCapacity) \<and> tape_inv (mc_store m') (mc_builder m') own i \<and>
        st_pool (mc_store m') = st_pool (mc_store m) \<and> bd_len (mc_builder m') = bd_len (mc_builder m) \<and>
        mc_state m' = (mc_state m)\<lparr>sc_mode := mode_restore restore slot\<rparr>
    | Inr stored \<Rightarrow> mc_state m' = mc_state m \<and>
        (\<exists>own'. tape_inv (mc_store m') (mc_builder m') own' i \<and>
           tape_kinds (st_pool (mc_store m')) (own' (Some i)) =
             tape_kinds (st_pool (mc_store m)) (own (Some i)) @ [v] \<and>
           Some (fst stored) = ring_tail (own' (Some i)) \<and> snd stored = length (own' (Some i)) \<and>
           others (st_pool (mc_store m)) own (st_pool (mc_store m')) own' i)"
proof -
  obtain st b q where p: "builder_try_push F (mc_store m) (mc_builder m) slot v = (st, b, q)"
    by (cases "builder_try_push F (mc_store m) (mc_builder m) slot v") auto
  note ok = builder_try_push_ok[OF inv v p]
  have len: "bd_len b = bd_len (mc_builder m)" if "q = Inl x" for x
    using p that by (auto simp: builder_try_push_def Let_def split: prod.splits option.splits if_splits)
  show ?thesis
  proof (cases q)
    case (Inl x)
    from builder_try_push_slot[OF p[unfolded Inl]] show ?thesis
      using ok len[OF Inl] w p Inl by (auto simp: scan_write_def Let_def)
  next
    case (Inr stored)
    obtain tl ln where st: "stored = (tl, ln)" by (cases stored)
    from ok Inr st obtain k fs where k: "ln = slot" "own None = k # fs" "tl = k"
      and o: "pool_inv (st_pool st) (own(None := fs, Some i := own (Some i) @ [k]))"
        "bd_tail b = Some k" "bd_len b = slot" "bd_access b = Held"
        "tape_kinds (st_pool st) ((own(None := fs, Some i := own (Some i) @ [k])) (Some i)) =
           tape_kinds (st_pool (mc_store m)) (own (Some i)) @ [v]"
        "others (st_pool (mc_store m)) own (st_pool st) (own(None := fs, Some i := own (Some i) @ [k])) i"
      by (auto simp: Let_def)
    have r: "r = Inr (k, slot)" and m': "m' = m\<lparr>mc_store := st, mc_builder := b\<rparr>"
      using w p Inr st k by (auto simp: scan_write_def Let_def)
    have "slot = length (own (Some i) @ [k])" using slot inv by (simp add: tape_inv_def)
    then show ?thesis
      unfolding r m' using o
      by (auto simp: tape_inv_def ring_tail_def intro!: exI[of _ "own(None := fs, Some i := own (Some i) @ [k])"])
  qed
qed

text \<open>What an arm may rely on: the invariant with the mode taken, the cursor at \<open>c\<close>.\<close>

definition arm_inv :: "nat \<Rightarrow> ('w, 't) machine \<Rightarrow> ('o option \<Rightarrow> key list) \<Rightarrow> 'o \<Rightarrow> bool" where
  "arm_inv c m own i \<longleftrightarrow>
     tape_inv (mc_store m) (mc_builder m) own i \<and>
     shape (sc_left (mc_state m)) (tape_kinds (st_pool (mc_store m)) (own (Some i))) \<and>
     length (sc_left (mc_state m)) \<le> max_depth \<and>
     (\<forall>k \<in> set (tape_kinds (st_pool (mc_store m)) (own (Some i))). kind_in c k)"

lemma scan_inv_arm:
  "scan_inv m own i \<longleftrightarrow>
     arm_inv (mode_cursor (sc_mode (mc_state m))) m own i \<and>
     (case sc_mode (mc_state m) of
        MLine kind start slot \<Rightarrow> slot = Suc (bd_len (mc_builder m)) \<and> 0 < start
      | MBulk b slot \<Rightarrow> slot = Suc (bd_len (mc_builder m)) \<and> span_in (body_stop b + 2) b
      | _ \<Rightarrow> True)"
  by (auto simp: scan_inv_def arm_inv_def)

lemma arm_inv_mode [simp]:
  "arm_inv c (m\<lparr>mc_state := (mc_state m)\<lparr>sc_mode := md\<rparr>\<rparr>) own i = arm_inv c m own i"
  "arm_inv c (m\<lparr>mc_state := (mc_state m)\<lparr>sc_mode := md, sc_scan := k\<rparr>\<rparr>) own i = arm_inv c m own i"
  "arm_inv c (m\<lparr>mc_state := (mc_state m)\<lparr>sc_scan := k\<rparr>\<rparr>) own i = arm_inv c m own i"
  "arm_inv c (m\<lparr>mc_state := (mc_state m)\<lparr>sc_scan := k, sc_mode := md\<rparr>\<rparr>) own i = arm_inv c m own i"
  by (simp_all add: arm_inv_def)

lemma arm_inv_mono: "arm_inv c m own i \<Longrightarrow> c \<le> d \<Longrightarrow> arm_inv d m own i"
  by (auto simp: arm_inv_def intro: kind_in_mono)

lemma arm_inv_restored:
  assumes arm: "arm_inv (mode_cursor (mode_restore restore slot)) m own i"
    and t: "tape_inv (mc_store m') (mc_builder m') own i" "st_pool (mc_store m') = st_pool (mc_store m)"
    and st: "mc_state m' = (mc_state m)\<lparr>sc_mode := mode_restore restore slot\<rparr>"
    and md: "case mode_restore restore slot of
        MLine kind start slot \<Rightarrow> slot = Suc (bd_len (mc_builder m')) \<and> 0 < start
      | MBulk b slot \<Rightarrow> slot = Suc (bd_len (mc_builder m')) \<and> span_in (body_stop b + 2) b
      | _ \<Rightarrow> True"
  shows "scan_inv m' own i"
  using assms by (simp add: scan_inv_def arm_inv_def)

lemma push_settle_safe:
  fixes src :: "'x source"
  assumes arm: "arm_inv (mode_cursor (mode_restore restore slot)) m own i"
    and cur: "mode_cursor (mode_restore restore slot) \<le> e"
    and slot: "slot = Suc (bd_len (mc_builder m))" and v: "kind_in e v" "arity v = 0"
    and src: "source_ok src" "in_range src e"
    and md: "\<And>b :: 't builder. bd_len b = bd_len (mc_builder m) \<Longrightarrow>
      (case mode_restore restore slot of
        MLine kind start slot \<Rightarrow> slot = Suc (bd_len b) \<and> 0 < start
      | MBulk b' slot \<Rightarrow> slot = Suc (bd_len b) \<and> span_in (body_stop b' + 2) b'
      | _ \<Rightarrow> True)"
  shows "step_safe (m :: ('w, 't) machine) own i
    (case scan_write F m slot v restore of
       (m, Inl out) \<Rightarrow> (m, Some (out :: 'x outcome))
     | (m, Inr stored) \<Rightarrow> settle src m stored e e)"
proof -
  obtain m' r where w: "scan_write F m slot v restore = (m', r :: 'x outcome + _)" by fastforce
  have inv: "tape_inv (mc_store m) (mc_builder m) own i" using arm by (simp add: arm_inv_def)
  note ws = scan_write_safe[OF inv kind_in_ok[OF v(1)] slot w]
  show ?thesis
  proof (cases r)
    case (Inl out)
    with ws have o: "out = Blocked \<or> out = RetainCapacity"
      and t: "tape_inv (mc_store m') (mc_builder m') own i" "st_pool (mc_store m') = st_pool (mc_store m)"
      and len: "bd_len (mc_builder m') = bd_len (mc_builder m)"
      and st: "mc_state m' = (mc_state m)\<lparr>sc_mode := mode_restore restore slot\<rparr>" by auto
    have "scan_inv m' own i" by (rule arm_inv_restored[OF arm t st md[OF len]])
    moreover have "others (st_pool (mc_store m)) own (st_pool (mc_store m')) own i"
      using t(2) by simp
    ultimately show ?thesis using o w Inl by (auto simp: step_safe_def)
  next
    case (Inr stored)
    with ws obtain own' where st: "mc_state m' = mc_state m"
      and t: "tape_inv (mc_store m') (mc_builder m') own' i"
        "tape_kinds (st_pool (mc_store m')) (own' (Some i)) = tape_kinds (st_pool (mc_store m)) (own (Some i)) @ [v]"
        "Some (fst stored) = ring_tail (own' (Some i))" "snd stored = length (own' (Some i))"
        "others (st_pool (mc_store m)) own (st_pool (mc_store m')) own' i" by auto
    have a: "shape (sc_left (mc_state m')) (tape_kinds (st_pool (mc_store m)) (own (Some i)))"
        "length (sc_left (mc_state m')) \<le> max_depth"
        "\<forall>k \<in> set (tape_kinds (st_pool (mc_store m)) (own (Some i)) @ [v]). kind_in e k"
      using arm cur v st by (auto simp: arm_inv_def intro: kind_in_mono)
    from settle_safe[OF a(1) v(2) t(2,1) a(2,3) t(3,4) src refl t(5)] w Inr show ?thesis by simp
  qed
qed

lemma scan_leaf_safe:
  assumes "arm_inv start m own i" and "0 < start" and "start \<le> e"
    and "slot = Suc (bd_len (mc_builder m))" and "kind_in e v" and "arity v = 0"
    and "source_ok src" and "in_range src e"
  shows "step_safe m own i (scan_leaf F src m kind start slot e v)"
  unfolding scan_leaf_def end_consumed_in_range[OF assms(8)]
  by (rule push_settle_safe) (use assms in auto)

lemma scan_array_safe:
  fixes src :: "'x source"
  assumes arm: "arm_inv start m own i" and p: "0 < start" "start \<le> e"
    and slot: "slot = Suc (bd_len (mc_builder m))" and b: "bound_ok node_max"
    and src: "source_ok src" "in_range src e"
  shows "step_safe m own i (scan_array F src node_max m start slot e declared)"
proof -
  have keep: "step_safe m own i (set_mode m (MLine LArray start slot), Some (consumed src a bd))"
    if "\<forall>n f t l c. bd n \<noteq> Complete f t l c" for a and bd :: "nat \<Rightarrow> 'x outcome"
    by (rule step_safe_keep)
      (use arm p slot consumed_not_complete[OF that] in \<open>simp_all add: scan_inv_arm\<close>)
  show ?thesis
  proof (cases "value_array node_max (bd_len (mc_builder m)) declared")
    case (Inl x)
    then show ?thesis by (simp add: scan_array_def keep)
  next
    case (Inr n)
    then have n: "n \<le> u32_max" using b by (auto simp: value_array_Inr bound_ok_def)
    show ?thesis
    proof (cases "count_nonzero n \<noteq> None \<and> max_depth \<le> length (sc_left (mc_state m))")
      case True
      with Inr show ?thesis by (simp add: scan_array_def keep)
    next
      case nd: False
      show ?thesis
      proof (cases "n = 0")
        case True
        then have "step_safe m own i
            (case scan_write F m slot (KArray n) (RestoreLine LArray start) of
               (m, Inl out) \<Rightarrow> (m, Some (out :: 'x outcome))
             | (m, Inr stored) \<Rightarrow> settle src m stored e e)"
          by (intro push_settle_safe) (use arm p slot src in auto)
        then show ?thesis
          unfolding scan_array_def Inr sum.case if_not_P[OF nd] end_consumed_in_range[OF src(2)]
          by (simp add: True count_nonzero_def)
      next
        case False
        then have dep: "length (sc_left (mc_state m)) < max_depth" using nd by (simp add: count_nonzero_def)
        obtain m' r where w: "scan_write F m slot (KArray n) (RestoreLine LArray start) = (m', r :: 'x outcome + _)"
          by fastforce
        have inv: "tape_inv (mc_store m) (mc_builder m) own i" using arm by (simp add: arm_inv_def)
        have ok: "kind_ok (KArray n)" using n by simp
        note ws = scan_write_safe[OF inv ok slot w]
        show ?thesis
        proof (cases r)
          case (Inl out)
          with ws have o: "out = Blocked \<or> out = RetainCapacity"
            and t: "tape_inv (mc_store m') (mc_builder m') own i" "st_pool (mc_store m') = st_pool (mc_store m)"
            and len: "bd_len (mc_builder m') = bd_len (mc_builder m)"
            and st: "mc_state m' = (mc_state m)\<lparr>sc_mode := mode_restore (RestoreLine LArray start) slot\<rparr>"
            by auto
          have "scan_inv m' own i" using arm_inv_restored[OF _ t st] arm p slot len by simp
          with o w Inl nd t(2) show ?thesis
            unfolding scan_array_def \<open>value_array _ _ _ = Inr n\<close> sum.case if_not_P[OF nd]
            by (auto simp: step_safe_def intro!: exI[of _ own])
        next
          case (Inr stored)
          with ws obtain own' where st: "mc_state m' = mc_state m"
            and t: "tape_inv (mc_store m') (mc_builder m') own' i"
              "tape_kinds (st_pool (mc_store m')) (own' (Some i)) =
                 tape_kinds (st_pool (mc_store m)) (own (Some i)) @ [KArray n]"
              "others (st_pool (mc_store m)) own (st_pool (mc_store m')) own' i" by auto
          let ?m = "m'\<lparr>mc_state := (mc_state m')\<lparr>sc_left := n # sc_left (mc_state m'), sc_mode := MMarker e\<rparr>\<rparr>"
          have "scan_inv ?m own' i"
            using arm t st False dep n p(2) shape_array[of "sc_left (mc_state m)" _ n]
            by (auto simp: scan_inv_def arm_inv_def intro: kind_in_mono)
          moreover have "scan_array F src node_max m start slot e declared = (?m, None)"
            unfolding scan_array_def \<open>value_array _ _ _ = Inr n\<close> sum.case if_not_P[OF nd] w Inr
            using False by (simp add: count_nonzero_def)
          ultimately show ?thesis using t(3) by (auto simp: step_safe_def)
        qed
      qed
    qed
  qed
qed

lemma number_signed_range: "number_signed bs b = Inr v \<Longrightarrow> i64_min \<le> v \<and> v \<le> i64_max"
  by (cases "split_sign bs") (auto simp: number_signed_exact)

lemma scan_header_safe:
  fixes src :: "'x source"
  assumes arm: "arm_inv start m own i" and p: "0 < start" "start \<le> line_stop l" "e = line_stop l + 2"
    and slot: "slot = Suc (bd_len (mc_builder m))" and b: "bound_ok byte_max" "bound_ok node_max"
    and src: "source_ok src" "in_range src e" and body: "body = body_new start (line_stop l)"
  shows "step_safe m own i (scan_header F src byte_max node_max m kind start slot line e body)"
proof -
  have se: "start \<le> e" using p by simp
  have sp: "span_in e (span_terminated body)"
    using p src(2) unfolding body by (intro span_in_new) (auto simp: in_range_def)
  have leaf: "kind_in e v \<Longrightarrow> arity v = 0 \<Longrightarrow> step_safe m own i (scan_leaf F src m kind start slot e v)" for v
    using scan_leaf_safe[OF arm p(1) se slot _ _ src] by blast
  have invalid: "step_safe m own i (set_mode m (MLine kind start slot), Some (consumed src a bd))"
    if "\<forall>n f t l c. bd n \<noteq> Complete f t l c" for a and bd :: "nat \<Rightarrow> 'x outcome"
    by (rule step_safe_keep)
      (use arm p slot consumed_not_complete[OF that] in \<open>simp_all add: scan_inv_arm\<close>)
  have bulk: "step_safe m own i (set_mode m (MBulk finish slot), None :: 'x outcome option)"
    if "frame_body byte_max e len = Inr finish" for len finish
  proof -
    from that b(1) have fin: "finish = body_new e (e + len)" "e + len + 2 \<le> u32_max"
      by (auto simp: frame_body_Inr bound_ok_def)
    have "span_in (body_stop finish + 2) (span_terminated finish)"
      unfolding fin(1) using fin(2) p(3) by (intro span_in_new) auto
    with fin have "scan_inv (set_mode m (MBulk finish slot)) own i"
      using arm_inv_mono[OF arm se] slot by (simp add: scan_inv_arm span_terminated_def)
    then show ?thesis by (auto simp: step_safe_def intro!: exI[of _ own])
  qed
  show ?thesis
  proof (cases kind)
    case LStatus
    then show ?thesis using leaf sp by (simp add: scan_header_def)
  next
    case LServer
    then show ?thesis using leaf sp by (simp add: scan_header_def)
  next
    case LInteger
    then show ?thesis using leaf invalid number_signed_range
      by (simp add: scan_header_def split: sum.split)
  next
    case LBulk
    then show ?thesis using leaf invalid bulk
      by (simp add: scan_header_def split: sum.split length_value.split)
  next
    case LArray
    then show ?thesis using leaf invalid scan_array_safe[OF arm p(1) se slot b(2) src, of F]
      by (simp add: scan_header_def split: sum.split length_value.split)
  qed
qed

lemma scan_line_safe:
  fixes src :: "'x source"
  assumes arm: "arm_inv start m own i" and p: "0 < start" and slot: "slot = Suc (bd_len (mc_builder m))"
    and b: "bound_ok byte_max" "bound_ok node_max" and src: "source_ok src"
  shows "step_safe m own i (scan_line F src byte_max node_max m kind start slot)"
proof -
  have keep: "step_safe m own i (m', Some out)"
    if "\<forall>f t l c. out \<noteq> Complete f t l c" "mc_store m' = mc_store m" "mc_builder m' = mc_builder m"
      "sc_left (mc_state m') = sc_left (mc_state m)" "sc_mode (mc_state m') = MLine kind start slot"
    for m' and out :: "'x outcome"
    by (rule step_safe_keep) (use arm p slot that in \<open>simp_all add: scan_inv_arm arm_inv_def\<close>)
  show ?thesis
  proof (cases "line_find (src_bytes src) start (sc_scan (mc_state m)) kind")
    case (Inl err)
    have "\<forall>f t l c. line_malformed src byte_max err \<noteq> (Complete f t l c :: 'x outcome)"
      by (auto simp: line_malformed_def consumed_def split: prod.split sum.split)
    with Inl keep show ?thesis by (simp add: scan_line_def)
  next
    case (Inr f)
    show ?thesis
    proof (cases f)
      case None
      with Inr show ?thesis
        by (auto simp: scan_line_def line_missing_def Let_def consumed_def split: sum.split intro!: keep)
    next
      case (Some l)
      with Inr have f: "line_find (src_bytes src) start (sc_scan (mc_state m)) kind = Inr (Some l)" by simp
      note lf = line_find_Some[OF f]
      show ?thesis
      proof (cases "frame_line byte_max l")
        case (Inl x)
        with f show ?thesis by (auto simp: scan_line_def consumed_def split: sum.split intro!: keep)
      next
        case (Inr eb)
        obtain e bd where eb: "eb = (e, bd)" by (cases eb)
        note fl = frame_line_Inr[OF b(1) Inr[unfolded eb]]
        with lf b(1) have r: "in_range src e" by (auto simp: in_range_def bound_ok_def)
        have "step_safe m own i (scan_header F src byte_max node_max m kind start slot (fst l) e bd)"
          by (rule scan_header_safe[where l = l, OF arm p _ _ slot b src r]) (use lf fl in auto)
        with f Inr eb show ?thesis by (simp add: scan_line_def)
      qed
    qed
  qed
qed

lemma scan_marker_safe:
  fixes src :: "'x source"
  assumes arm: "arm_inv (mode_cursor md) m own i" and md: "md = MStart \<or> md = MMarker k"
    and b: "bound_ok byte_max" "bound_ok node_max" and src: "source_ok src"
  shows "step_safe m own i (scan_marker src byte_max node_max m md)"
proof -
  have inv: "scan_inv (set_mode m md) own i" using arm md by (auto simp: scan_inv_arm)
  have keep: "step_safe m own i (set_mode m md, Some out)" if "\<forall>f t l c. out \<noteq> Complete f t l c"
    for out :: "'x outcome"
    by (rule step_safe_keep) (use inv that in auto)
  show ?thesis
  proof (cases "get (src_bytes src) (mode_cursor md)")
    case None
    then show ?thesis using keep by (simp add: scan_marker_def)
  next
    case (Some mk)
    show ?thesis
    proof (cases "frame_next byte_max (mode_cursor md)")
      case (Inl e)
      with Some show ?thesis by (auto simp: scan_marker_def consumed_def split: sum.split intro!: keep)
    next
      case (Inr e)
      with b(1) have e: "e = Suc (mode_cursor md)" by (simp add: frame_next_Inr)
      let ?m = "m\<lparr>mc_state := (mc_state m)\<lparr>sc_mode := MMarker e, sc_scan := e\<rparr>\<rparr>"
      have arm': "arm_inv e m own i" using arm by (rule arm_inv_mono) (simp add: e)
      show ?thesis
      proof (cases "value_next node_max (bd_len (mc_builder m))")
        case (Inl x)
        with Some Inr show ?thesis by (auto simp: scan_marker_def consumed_def split: sum.split intro!: keep)
      next
        case v: (Inr slot)
        with b(2) have slot: "slot = Suc (bd_len (mc_builder m))" by (simp add: value_next_Inr)
        show ?thesis
        proof (cases "marker_line mk")
          case None
          have "scan_inv ?m own i" using arm' by (simp add: scan_inv_arm)
          then have "step_safe m own i (?m, Some (consumed src a (Invalid x)))" for a and x
            by (rule step_safe_keep) (auto simp: consumed_def split: sum.split)
          with None Some Inr v show ?thesis by (simp add: scan_marker_def Let_def)
        next
          case (Some kind)
          have "scan_inv (set_mode ?m (MLine kind e slot)) own i"
            using arm' slot e by (simp add: scan_inv_arm)
          then have "step_safe m own i (set_mode ?m (MLine kind e slot), None :: 'x outcome option)"
            unfolding step_safe_def by (intro exI[of _ own]) simp
          with Some \<open>get _ _ = Some mk\<close> Inr v show ?thesis by (simp add: scan_marker_def Let_def)
        qed
      qed
    qed
  qed
qed

lemma step_safe_trans:
  assumes o: "others (st_pool (mc_store m)) own (st_pool (mc_store m1)) own1 i"
    and s: "step_safe m1 own1 i r"
  shows "step_safe m own i r"
proof -
  from s obtain own2 where "others (st_pool (mc_store m1)) own1 (st_pool (mc_store (fst r))) own2 i"
    and k: "case snd r of
           Some (Complete frame tail len n) \<Rightarrow> finished (fst r) own2 i tail len n
         | Some (Source x) \<Rightarrow> True
         | _ \<Rightarrow> scan_inv (fst r) own2 i"
    unfolding step_safe_def by blast
  from others_trans[OF o this(1)] k show ?thesis unfolding step_safe_def by blast
qed

lemma scan_bulk_safe:
  fixes src :: "'x source"
  assumes arm: "arm_inv (body_start b) m own i" and slot: "slot = Suc (bd_len (mc_builder m))"
    and sp: "span_in (body_stop b + 2) b" and ok: "body_stop b + 2 \<le> u32_max"
    and src: "source_ok src"
  shows "step_safe m own i (scan_bulk F src m b slot)"
proof -
  have keep: "step_safe m own i (set_mode m (MBulk b slot), Some out)"
    if "\<forall>f t l c. out \<noteq> Complete f t l c" for out :: "'x outcome"
    by (rule step_safe_keep) (use arm slot sp that in \<open>simp_all add: scan_inv_arm\<close>)
  show ?thesis
  proof (cases "\<exists>x y. subslice (body_stop b) (body_get b) (src_bytes src) = Some [x, y]")
    case False
    then have "scan_bulk F src m b slot = (set_mode m (MBulk b slot), Some Pending)"
      by (auto simp: scan_bulk_def Let_def split: option.split list.split)
    with keep show ?thesis by simp
  next
    case True
    then obtain x y where xy: "subslice (body_stop b) (body_get b) (src_bytes src) = Some [x, y]" by auto
    from length_subslice[OF xy] ok have r: "in_range src (body_end b)"
      by (simp add: body_get_def body_end_id in_range_def)
    show ?thesis
    proof (cases "x = CR \<and> y = LF")
      case False
      with xy keep show ?thesis
        by (auto simp: scan_bulk_def Let_def consumed_def split: sum.split)
    next
      case True
      have "step_safe m own i
          (case scan_write F m slot (KBulk (span_terminated b)) (RestoreBulk b) of
             (m, Inl out) \<Rightarrow> (m, Some (out :: 'x outcome))
           | (m, Inr stored) \<Rightarrow> settle src m stored (body_end b) (body_end b))"
        by (rule push_settle_safe)
          (use arm sp slot src r ok in \<open>auto simp: body_end_id span_terminated_def span_in_def\<close>)
      with True xy r show ?thesis by (simp add: scan_bulk_def body_consumed_def)
    qed
  qed
qed

lemma scan_step_safe:
  assumes inv: "scan_inv m own i" and ok: "state_ok (src_bytes src) (mc_state m)"
    and b: "bound_ok byte_max" "bound_ok node_max" and src: "source_ok src"
  shows "step_safe m own i (scan_step F src byte_max node_max m)"
proof -
  let ?m = "set_mode m MStart"
  have eq: "step_safe ?m own i r = step_safe m own i r" for r by (simp add: step_safe_def)
  show ?thesis
  proof (cases "sc_mode (mc_state m)")
    case MStart
    with inv scan_marker_safe[where md = MStart and m = ?m and own = own and i = i, OF _ _ b src] show ?thesis
      by (simp add: scan_inv_arm scan_step_def eq)
  next
    case (MMarker e)
    with inv scan_marker_safe[where md = "MMarker e" and m = ?m and own = own and i = i, OF _ _ b src] show ?thesis
      by (simp add: scan_inv_arm scan_step_def eq)
  next
    case (MLine kind start slot)
    with inv scan_line_safe[where m = ?m and start = start and own = own and i = i and F = F, OF _ _ _ b src] show ?thesis
      by (simp add: scan_inv_arm scan_step_def eq)
  next
    case (MBulk bd slot)
    with inv ok scan_bulk_safe[where m = ?m and b = bd and own = own and i = i and F = F, OF _ _ _ _ src] show ?thesis
      by (simp add: scan_inv_arm scan_step_def eq state_ok_def)
  qed
qed

lemma scan_loop_safe:
  assumes b: "bound_ok byte_max" and bn: "bound_ok node_max" and src: "source_ok src"
    and ok: "state_ok (src_bytes src) (mc_state m)" and inv: "scan_inv m own i"
    and p: "scan_loop F src byte_max node_max m = Some (m', out)"
  shows "step_safe m own i (m', Some out)"
  using b ok inv p
proof (induction m arbitrary: own rule: scan_loop_induct[where F = F and node_max = node_max])
  case (step m)
  obtain m1 r where st: "scan_step F src byte_max node_max m = (m1, r)" by fastforce
  note safe = scan_step_safe[OF step.prems(1) step(1) b bn src, of F, unfolded st]
  show ?case
  proof (cases r)
    case None
    with safe obtain own1 where o: "others (st_pool (mc_store m)) own (st_pool (mc_store m1)) own1 i"
      "scan_inv m1 own1 i" by (auto simp: step_safe_def)
    have "scan_loop F src byte_max node_max m1 = Some (m', out)"
      using step.prems(2) st None by (subst (asm) scan_loop_unfold) simp
    from step_safe_trans[OF o(1) step(2)[OF st[unfolded None] o(2) this]] show ?thesis .
  next
    case (Some o1)
    with st step.prems(2) have "m1 = m'" "o1 = out" by (subst (asm) scan_loop_unfold, simp)+
    with safe Some show ?thesis by simp
  qed
qed

section \<open>Resetting a parser\<close>

lemma parser_reset_inv:
  assumes inv: "tape_inv (mc_store m) (mc_builder m) own i"
  shows "scan_inv (parser_reset F m) (own(None := own None @ own (Some i), Some i := [])) i \<and>
         others (st_pool (mc_store m)) own (st_pool (mc_store (parser_reset F m)))
           (own(None := own None @ own (Some i), Some i := [])) i"
proof -
  have pinv: "pool_inv (st_pool (mc_store m)) own" and tl: "bd_tail (mc_builder m) = ring_tail (own (Some i))"
    using inv by (simp_all add: tape_inv_def)
  have st: "st_pool (mc_store (parser_reset F m)) = pool_release (st_pool (mc_store m)) (ring_tail (own (Some i)))"
      "mc_builder (parser_reset F m) = builder_new" "mc_state (parser_reset F m) = scanner_reset (mc_state m)"
    by (simp_all add: parser_reset_def builder_reset_def builder_drop_def tl split: prod.split)
  have "tape_kinds (pool_release (st_pool (mc_store m)) (ring_tail (own (Some i)))) (own (Some j)) =
      tape_kinds (st_pool (mc_store m)) (own (Some j))" for j
    unfolding tape_kinds_def using pool_release_eq(4)[OF pinv] pool_inv_key_in[OF pinv]
    by (intro map_cong) auto
  with pool_inv_release[OF pinv, of i] show ?thesis
    unfolding scan_inv_def tape_inv_def others_def st
    by (simp add: builder_new_def scanner_reset_def ring_tail_def shape_def tape_kinds_def)
qed

lemma parser_new_inv:
  assumes "pool_inv (st_pool st) own" and "own (Some i) = []"
  shows "scan_inv (parser_new st) own i" and "state_ok bs (mc_state (parser_new st))"
  using assms
  by (simp_all add: scan_inv_def parser_new_def tape_inv_def builder_new_def scanner_new_def state_ok_def
      ring_tail_def shape_def tape_kinds_def)

text \<open>The whole call, on any input, from any state the scanner can be in.\<close>

lemma parser_scan_safe:
  assumes b: "bound_ok byte_max" "bound_ok node_max" and src: "source_ok src"
    and inv: "scan_inv m own i"
    and grown: "src_bytes src = seen @ ext" "state_ok seen (mc_state m)"
  shows "\<exists>m' out. parser_scan F src byte_max node_max m = Some (m', out) \<and>
           outcome_ok (src_bytes src) out \<and> state_ok (src_bytes src) (mc_state m') \<and>
           step_safe m own i (m', Some out)"
proof -
  have ok: "state_ok (src_bytes src) (mc_state m)"
    unfolding grown(1) using grown(2) by (rule state_ok_extend)
  from scan_loop_out[OF b(1) src ok, of F node_max] obtain m' out
    where l: "scan_loop F src byte_max node_max m = Some (m', out)"
      "state_ok (src_bytes src) (mc_state m')" "outcome_ok (src_bytes src) out" by auto
  from scan_loop_safe[OF b src ok inv l(1)] l parser_scan_ok[OF ok] show ?thesis by auto
qed

end
