(* ===== verification/Resp_Wire.thy ===== *)
theory Resp_Wire
  imports Resp_Safe
begin

text \<open>
  The abstract specification of the scanner: RESP replies as a datatype, their encoding, and the
  preorder of kinds a reply stands for.  The lemmas show that the scanner accepts the encoding of
  every reply within its limits and stores exactly that preorder.
\<close>

section \<open>Replies, their encoding and their preorder\<close>

datatype resp =
    RNil
  | RNilArray
  | RStatus bytes
  | RError bytes
  | RInteger int
  | RBulk bytes
  | RArray "resp list"

abbreviation crlf :: bytes where "crlf \<equiv> [CR, LF]"

definition signed_text :: "int \<Rightarrow> bytes" where
  "signed_text v = (if v < 0 then 45 # decimal (nat (- v)) else decimal (nat v))"

fun wire :: "resp \<Rightarrow> bytes" where
  "wire RNil = 36 # [45, 49] @ crlf"
| "wire RNilArray = 42 # [45, 49] @ crlf"
| "wire (RStatus s) = 43 # s @ crlf"
| "wire (RError s) = 45 # s @ crlf"
| "wire (RInteger v) = 58 # signed_text v @ crlf"
| "wire (RBulk s) = 36 # decimal (length s) @ crlf @ s @ crlf"
| "wire (RArray vs) = 42 # decimal (length vs) @ crlf @ concat (map wire vs)"

definition span_at :: "nat \<Rightarrow> nat \<Rightarrow> span" where
  "span_at start len = span_terminated (body_new start (start + len))"

fun kinds :: "nat \<Rightarrow> resp \<Rightarrow> kind list"
  and kinds_list :: "nat \<Rightarrow> resp list \<Rightarrow> kind list" where
  "kinds off RNil = [KNil]"
| "kinds off RNilArray = [KNil]"
| "kinds off (RStatus s) = [if s = ascii ''OK'' then KOk else KStatus (span_at (off + 1) (length s))]"
| "kinds off (RError s) = [KError (span_at (off + 1) (length s))]"
| "kinds off (RInteger v) = [KInteger v]"
| "kinds off (RBulk s) = [KBulk (span_at (off + length (decimal (length s)) + 3) (length s))]"
| "kinds off (RArray vs) =
     KArray (length vs) # kinds_list (off + length (decimal (length vs)) + 3) vs"
| "kinds_list off [] = []"
| "kinds_list off (v # vs) = kinds off v @ kinds_list (off + length (wire v)) vs"

fun depth :: "resp \<Rightarrow> nat" where
  "depth (RArray vs) = (if vs = [] then 0 else Suc (Max (set (map depth vs))))"
| "depth RNil = 0"
| "depth RNilArray = 0"
| "depth (RStatus s) = 0"
| "depth (RError s) = 0"
| "depth (RInteger v) = 0"
| "depth (RBulk s) = 0"

definition plain_text :: "bytes \<Rightarrow> bool" where
  "plain_text s \<longleftrightarrow> (\<forall>b \<in> set s. b \<noteq> CR \<and> b \<noteq> LF)"

fun resp_ok :: "resp \<Rightarrow> bool" where
  "resp_ok (RStatus s) = plain_text s"
| "resp_ok (RError s) = plain_text s"
| "resp_ok (RInteger v) = (i64_min \<le> v \<and> v \<le> i64_max)"
| "resp_ok (RArray vs) = (\<forall>v \<in> set vs. resp_ok v)"
| "resp_ok RNil = True"
| "resp_ok RNilArray = True"
| "resp_ok (RBulk s) = True"

lemma depth_array: "v \<in> set vs \<Longrightarrow> Suc (depth v) \<le> depth (RArray vs)"
  by auto

lemma length_kinds_pos: "0 < length (kinds off v)"
  by (cases v) auto

lemma length_kinds_list_ge: "length vs \<le> length (kinds_list off vs)"
proof (induction vs arbitrary: off)
  case (Cons v vs)
  from Cons[of "off + length (wire v)"] length_kinds_pos[of off v] show ?case
    by (cases "kinds off v") auto
qed simp

section \<open>Header lines\<close>

lemma plain_text_simps [simp]:
  "plain_text []" "plain_text (x # xs) \<longleftrightarrow> x \<noteq> CR \<and> x \<noteq> LF \<and> plain_text xs"
  by (auto simp: plain_text_def)

lemma plain_decimal [simp]: "plain_text (decimal n)"
  unfolding plain_text_def using decimal_digits[of _ n] by force

lemma plain_signed [simp]: "plain_text (signed_text v)"
  by (simp add: signed_text_def)

lemma windows2_plain:
  assumes "plain_text ln"
  shows "position (\<lambda>p. p = (CR, LF)) (windows2 (ln @ CR # LF # post)) = Some (length ln)"
  using assms
proof (induction ln)
  case Nil
  then show ?case by (simp add: windows2_def)
next
  case (Cons x xs)
  have w: "windows2 (x # y # ys) = (x, y) # windows2 (y # ys)" for x y :: byte and ys
    by (simp add: windows2_def)
  show ?case
  proof (cases xs)
    case Nil
    with Cons show ?thesis by (simp add: windows2_def)
  next
    case (Cons y ys)
    with Cons.IH Cons.prems show ?thesis by (simp add: w)
  qed
qed

lemma line_find_wire:
  assumes p: "plain_text ln" and bs: "bs = pre @ ln @ CR # LF # post" and st: "start = length pre"
  shows "line_find bs start start kind = Inr (Some (ln, start))"
proof -
  have d: "drop start bs = ln @ CR # LF # post" by (simp add: bs st)
  have at: "line_at bs start (start + length ln) = Some (ln, start)"
    by (simp add: line_at_def subslice_def bs st)
  have le: "\<not> length bs < start" by (simp add: bs st)
  show ?thesis
  proof (cases "text_line kind")
    case True
    have "position (\<lambda>b. b = CR \<or> b = LF) (ln @ CR # LF # post) = Some (length ln)"
      using p by (intro position_skip) (auto simp: plain_text_def)
    moreover have "get (ln @ CR # LF # post) (length ln + 1) = Some LF"
      by (simp add: get_def nth_append)
    ultimately show ?thesis
      unfolding line_find_def Let_def max.idem d using True at le by simp
  next
    case False
    then show ?thesis
      unfolding line_find_def Let_def max.idem d using windows2_plain[OF p] at le by simp
  qed
qed

lemma frame_line_wire:
  assumes "bound_ok b" and "start + length ln + 2 \<le> b"
  shows "frame_line b (ln, start) = Inr (start + length ln + 2, body_new start (start + length ln))"
proof -
  have "frame_next b (start + length ln + 1) = Inr (start + length ln + 2)"
    using assms by (subst frame_next_Inr) auto
  moreover have "as_u32 (start + length ln) = start + length ln"
    using assms by (auto simp: bound_ok_def)
  ultimately show ?thesis by (simp add: frame_line_def line_stop_def)
qed

lemma decimal_first: "get (decimal n) 0 \<noteq> Some 45"
proof
  assume "get (decimal n) 0 = Some 45"
  then have "(45 :: byte) \<in> set (decimal n)" by (metis get_Some_less nth_mem)
  from decimal_digits[OF this] show False by simp
qed

lemma number_length_decimal:
  "n \<le> u64_max \<Longrightarrow> number_length (decimal n) b line = Inr (LengthCount n)"
  using number_unsigned_exact[of "decimal n" b n] decimal_first[of n]
  by (simp add: number_length_def)

lemma number_length_nil: "number_length [45, 49] b line = Inr LengthNil"
  by (simp add: number_length_def number_signed_def get_def digit_def signed_next_def checked_i64_def)

lemma number_signed_text:
  assumes "i64_min \<le> v" and "v \<le> i64_max"
  shows "number_signed (signed_text v) b = Inr v"
proof (cases "v < 0")
  case True
  have "split_sign (signed_text v) = (True, decimal (nat (- v)))"
    using True by (simp add: signed_text_def split_sign_def)
  from number_signed_exact[OF this] True assms show ?thesis by (simp add: sign_apply_def)
next
  case False
  have "split_sign (decimal n) = (False, decimal n)" for n
  proof (cases "decimal n")
    case (Cons x xs)
    then have "48 \<le> unat x" using decimal_digits[of x n] by simp
    then have "x \<noteq> 45" "x \<noteq> 43" by auto
    with Cons show ?thesis by (simp add: split_sign_def)
  qed simp
  with False have "split_sign (signed_text v) = (False, decimal (nat v))"
    by (simp add: signed_text_def)
  from number_signed_exact[OF this] False assms show ?thesis by (simp add: sign_apply_def)
qed

section \<open>Running the scanner\<close>

text \<open>The builder can be given a lane, and every value of the reply a node.\<close>

definition ready :: "('w, 't) gate \<Rightarrow> 't phase \<Rightarrow> bool" where
  "ready g ph \<longleftrightarrow> ph = Held \<or> (ph = Idle \<and> gate_active g < gate_lanes g)"

lemma ready_acquire:
  assumes "ready g ph"
  obtains g' where "access_acquire F g ph = (g', Held, True)"
  using assms by (auto simp: ready_def access_acquire_def)

lemma scan_write_ready:
  assumes inv: "tape_inv (mc_store m) (mc_builder m) own i" and v: "kind_ok v"
    and slot: "slot = Suc (bd_len (mc_builder m))"
    and rdy: "ready (st_gate (mc_store m)) (bd_access (mc_builder m))" and room: "own None \<noteq> []"
  obtains m' own' stored where "scan_write F m slot v restore = (m', Inr stored)"
    "mc_state m' = mc_state m" "tape_inv (mc_store m') (mc_builder m') own' i"
    "tape_kinds (st_pool (mc_store m')) (own' (Some i)) =
       tape_kinds (st_pool (mc_store m)) (own (Some i)) @ [v]"
    "Some (fst stored) = ring_tail (own' (Some i))" "snd stored = length (own' (Some i))"
    "length (own None) = Suc (length (own' None))" "bd_access (mc_builder m') = Held"
    "bd_len (mc_builder m') = slot"
proof -
  obtain st b q where p: "builder_try_push F (mc_store m) (mc_builder m) slot v = (st, b, q)"
    by (cases "builder_try_push F (mc_store m) (mc_builder m) slot v") auto
  obtain g' where a: "access_acquire F (st_gate (mc_store m)) (bd_access (mc_builder m)) = (g', Held, True)"
    using ready_acquire[OF rdy] .
  have "free (st_pool (mc_store m)) \<noteq> None"
    using inv room by (simp add: tape_inv_def pool_inv_def ring_tail_def)
  with p a obtain stored where q: "q = Inr stored"
    by (auto simp: builder_try_push_def Let_def pool_reserve_def slot_commit_def split: prod.splits)
  obtain tl ln where st: "stored = (tl, ln)" by (cases stored)
  note ok = builder_try_push_ok[OF inv v p]
  from ok q st obtain k fs where k: "ln = slot" "own None = k # fs" "tl = k"
    and o: "pool_inv (st_pool st) (own(None := fs, Some i := own (Some i) @ [k]))"
      "bd_tail b = Some k" "bd_len b = slot" "bd_access b = Held"
      "tape_kinds (st_pool st) (own (Some i) @ [k]) =
         tape_kinds (st_pool (mc_store m)) (own (Some i)) @ [v]"
    by (auto simp: Let_def)
  have sl: "slot = length (own (Some i) @ [k])" using slot inv by (simp add: tape_inv_def)
  show thesis
    by (rule that[of "m\<lparr>mc_store := st, mc_builder := b\<rparr>" "(k, slot)"
          "own(None := fs, Some i := own (Some i) @ [k])"])
      (use o k sl p q st in \<open>simp_all add: scan_write_def tape_inv_def ring_tail_def\<close>)
qed

abbreviation scan_runs ::
  "('w, 't) fifo \<Rightarrow> 'x source \<Rightarrow> bound \<Rightarrow> bound \<Rightarrow> ('w, 't) machine \<Rightarrow> ('w, 't) machine \<Rightarrow> bool" where
  "scan_runs F src byte_max node_max \<equiv> (\<lambda>a b. scan_step F src byte_max node_max a = (b, None))\<^sup>*\<^sup>*"

lemma scan_loop_runs:
  "scan_runs F src byte_max node_max m m' \<Longrightarrow>
     scan_loop F src byte_max node_max m = scan_loop F src byte_max node_max m'"
proof (induction rule: converse_rtranclp_induct)
  case (step y z)
  then show ?case by (subst scan_loop_unfold) simp
qed simp

text \<open>The marker of a value.\<close>

lemma scan_marker_wire:
  assumes b: "bound_ok byte_max" "bound_ok node_max"
    and md: "sc_mode (mc_state m) = MMarker off \<or> (sc_mode (mc_state m) = MStart \<and> off = 0)"
    and bs: "src_bytes src = pre @ c # post" "length pre = off" and k: "marker_line c = Some kind"
    and lim: "off < byte_max" "bd_len (mc_builder m) < node_max"
  shows "scan_step F src byte_max node_max m =
    (m\<lparr>mc_state := (mc_state m)\<lparr>sc_scan := off + 1,
        sc_mode := MLine kind (off + 1) (Suc (bd_len (mc_builder m)))\<rparr>\<rparr>, None)"
proof -
  have g: "get (src_bytes src) off = Some c" using bs by (simp add: get_def nth_append)
  have n: "frame_next byte_max off = Inr (Suc off)" using b(1) lim by (simp add: frame_next_Inr)
  have v: "value_next node_max (bd_len (mc_builder m)) = Inr (Suc (bd_len (mc_builder m)))"
    using b(2) lim by (simp add: value_next_Inr)
  show ?thesis
    using md g n v k by (elim disjE conjE) (simp_all add: scan_step_def scan_marker_def Let_def)
qed

text \<open>A header line that is found, from just after its marker.\<close>

lemma scan_line_wire:
  assumes b: "bound_ok byte_max" and st: "sc_mode (mc_state m) = MLine kind (off + 1) slot"
    "sc_scan (mc_state m) = off + 1"
    and bs: "src_bytes src = pre @ c # ln @ CR # LF # post" "length pre = off" and p: "plain_text ln"
    and lim: "off + length ln + 3 \<le> byte_max"
  shows "scan_step F src byte_max node_max m =
    scan_header F src byte_max node_max (set_mode m MStart) kind (off + 1) slot ln (off + length ln + 3)
      (body_new (off + 1) (off + 1 + length ln))"
proof -
  have f: "line_find (src_bytes src) (off + 1) (off + 1) kind = Inr (Some (ln, off + 1))"
    by (rule line_find_wire[where pre = "pre @ [c]" and post = post]) (use p bs in auto)
  have "frame_line byte_max (ln, off + 1) =
      Inr (off + 1 + length ln + 2, body_new (off + 1) (off + 1 + length ln))"
    by (rule frame_line_wire) (use b lim in auto)
  then show ?thesis using f st by (simp add: scan_step_def scan_line_def numeral_3_eq_3)
qed

section \<open>Scanning one reply\<close>

text \<open>
  What holds when a value ending at \<open>e\<close> has just been stored by \<open>m'\<close> and is about to be settled:
  its kinds \<open>ks\<close> were appended to the tape, which took as many nodes from the free list.
\<close>

definition stored_as ::
  "('w, 't) machine \<Rightarrow> ('o option \<Rightarrow> key list) \<Rightarrow> 'o \<Rightarrow> kind list \<Rightarrow>
   ('w, 't) machine \<Rightarrow> ('o option \<Rightarrow> key list) \<Rightarrow> key \<times> nat \<Rightarrow> bool" where
  "stored_as m own i ks m' own' stored \<longleftrightarrow>
     tape_inv (mc_store m') (mc_builder m') own' i \<and>
     tape_kinds (st_pool (mc_store m')) (own' (Some i)) =
       tape_kinds (st_pool (mc_store m)) (own (Some i)) @ ks \<and>
     Some (fst stored) = ring_tail (own' (Some i)) \<and> snd stored = length (own' (Some i)) \<and>
     length (own None) = length (own' None) + length ks \<and>
     bd_access (mc_builder m') = Held \<and>
     bd_len (mc_builder m') = bd_len (mc_builder m) + length ks"

definition runs_to ::
  "('w, 't) fifo \<Rightarrow> 'x source \<Rightarrow> bound \<Rightarrow> bound \<Rightarrow> ('w, 't) machine \<Rightarrow> ('o option \<Rightarrow> key list) \<Rightarrow> 'o
     \<Rightarrow> nat list \<Rightarrow> kind list \<Rightarrow> end_pos \<Rightarrow> bool" where
  "runs_to F src byte_max node_max m own i left ks e \<longleftrightarrow>
     (\<exists>m1 m' own' stored. scan_runs F src byte_max node_max m m1 \<and>
        scan_step F src byte_max node_max m1 = settle src m' stored e e \<and>
        sc_left (mc_state m') = left \<and> stored_as m own i ks m' own' stored)"

definition can_scan ::
  "'x source \<Rightarrow> bound \<Rightarrow> bound \<Rightarrow> ('w, 't) machine \<Rightarrow> ('o option \<Rightarrow> key list) \<Rightarrow> 'o \<Rightarrow> nat \<Rightarrow> bytes \<Rightarrow> nat \<Rightarrow> bool" where
  "can_scan src byte_max node_max m own i off w n \<longleftrightarrow>
     bound_ok byte_max \<and> bound_ok node_max \<and> source_ok src \<and>
     (\<exists>pre post. src_bytes src = pre @ w @ post \<and> length pre = off) \<and>
     off + length w \<le> byte_max \<and> bd_len (mc_builder m) + n \<le> node_max \<and>
     tape_inv (mc_store m) (mc_builder m) own i \<and> n \<le> length (own None) \<and>
     ready (st_gate (mc_store m)) (bd_access (mc_builder m)) \<and>
     (sc_mode (mc_state m) = MMarker off \<or> (sc_mode (mc_state m) = MStart \<and> off = 0))"

lemma can_scan_range:
  "can_scan src byte_max node_max m own i off w n \<Longrightarrow> w \<noteq> [] \<Longrightarrow> in_range src (off + length w)"
  by (auto simp: can_scan_def in_range_def bound_ok_def)

text \<open>A leaf whose header line is its whole encoding.\<close>

lemma scan_leaf_wire:
  fixes src :: "'x source"
  assumes can: "can_scan src byte_max node_max m own i off (c # ln @ crlf) 1"
    and k: "marker_line c = Some kind" and p: "plain_text ln" and v: "kind_ok v"
    and h: "\<And>m1 slot. bd_len (mc_builder m1) = bd_len (mc_builder m) \<Longrightarrow>
      scan_header F src byte_max node_max m1 kind (off + 1) slot ln (off + length ln + 3)
        (body_new (off + 1) (off + 1 + length ln)) =
      scan_leaf F src m1 kind (off + 1) slot (off + length ln + 3) v"
  shows "runs_to F src byte_max node_max m own i (sc_left (mc_state m)) [v] (off + length ln + 3)"
proof -
  let ?slot = "Suc (bd_len (mc_builder m))"
  let ?m1 = "m\<lparr>mc_state := (mc_state m)\<lparr>sc_scan := off + 1, sc_mode := MLine kind (off + 1) ?slot\<rparr>\<rparr>"
  from can obtain pre post where bs: "src_bytes src = pre @ c # ln @ CR # LF # post" "length pre = off"
    by (auto simp: can_scan_def)
  have b: "bound_ok byte_max" "bound_ok node_max"
    and md: "sc_mode (mc_state m) = MMarker off \<or> (sc_mode (mc_state m) = MStart \<and> off = 0)"
    and lim: "off < byte_max" "bd_len (mc_builder m) < node_max" "off + length ln + 3 \<le> byte_max"
    and inv: "tape_inv (mc_store m) (mc_builder m) own i" and room: "own None \<noteq> []"
    and rdy: "ready (st_gate (mc_store m)) (bd_access (mc_builder m))"
    using can by (auto simp: can_scan_def)
  have s1: "scan_step F src byte_max node_max m = (?m1, None)"
    by (rule scan_marker_wire[OF b md bs k lim(1,2)])
  have s2: "scan_step F src byte_max node_max ?m1 =
      scan_leaf F src (set_mode ?m1 MStart) kind (off + 1) ?slot (off + length ln + 3) v"
    using scan_line_wire[where F = F and node_max = node_max and m = ?m1 and kind = kind and slot = ?slot,
        OF b(1) _ _ bs p lim(3)]
    using h[of "set_mode ?m1 MStart" ?slot] by simp
  have r: "in_range src (off + length ln + 3)"
    using can_scan_range[OF can] by (simp add: numeral_3_eq_3)
  obtain m' own' stored where w: "scan_write F (set_mode ?m1 MStart) ?slot v (RestoreLine kind (off + 1)) =
      (m', Inr stored :: 'x outcome + _)" "mc_state m' = mc_state (set_mode ?m1 MStart)"
    "tape_inv (mc_store m') (mc_builder m') own' i"
    "tape_kinds (st_pool (mc_store m')) (own' (Some i)) =
       tape_kinds (st_pool (mc_store m)) (own (Some i)) @ [v]"
    "Some (fst stored) = ring_tail (own' (Some i))" "snd stored = length (own' (Some i))"
    "length (own None) = Suc (length (own' None))" "bd_access (mc_builder m') = Held"
    "bd_len (mc_builder m') = ?slot"
    by (rule scan_write_ready[where m = "set_mode ?m1 MStart" and own = own and i = i and v = v and slot = ?slot
          and F = F and restore = "RestoreLine kind (off + 1)"])
      (use inv v rdy room in auto)
  have "scan_step F src byte_max node_max ?m1 = settle src m' stored (off + length ln + 3) (off + length ln + 3)"
    unfolding s2 scan_leaf_def w(1) end_consumed_in_range[OF r] by simp
  moreover have "stored_as m own i [v] m' own' stored" using w by (simp add: stored_as_def)
  moreover have "sc_left (mc_state m') = sc_left (mc_state m)" using w(2) by simp
  ultimately show ?thesis
    unfolding runs_to_def using s1 by (intro exI conjI) (rule r_into_rtranclp, assumption+)
qed

text \<open>A bulk: its header line, then its bytes.\<close>

lemma subslice_mid:
  "a = length xs \<Longrightarrow> b = a + length ys \<Longrightarrow> subslice a b (xs @ ys @ zs) = Some ys"
  by simp

lemma scan_bulk_wire:
  fixes src :: "'x source"
  assumes can: "can_scan src byte_max node_max m own i off (wire (RBulk s)) 1"
  shows "runs_to F src byte_max node_max m own i (sc_left (mc_state m)) (kinds off (RBulk s))
           (off + length (wire (RBulk s)))"
proof -
  let ?slot = "Suc (bd_len (mc_builder m))" and ?ln = "decimal (length s)"
  let ?m1 = "m\<lparr>mc_state := (mc_state m)\<lparr>sc_scan := off + 1, sc_mode := MLine LBulk (off + 1) ?slot\<rparr>\<rparr>"
  let ?e = "off + length ?ln + 3"
  let ?fin = "body_new ?e (?e + length s)"
  let ?m2 = "set_mode ?m1 (MBulk ?fin ?slot)"
  from can obtain pre post where bs: "src_bytes src = pre @ 36 # ?ln @ CR # LF # s @ CR # LF # post" "length pre = off"
    by (auto simp: can_scan_def)
  have b: "bound_ok byte_max" "bound_ok node_max"
    and md: "sc_mode (mc_state m) = MMarker off \<or> (sc_mode (mc_state m) = MStart \<and> off = 0)"
    and lim: "off < byte_max" "bd_len (mc_builder m) < node_max" "?e \<le> byte_max" "?e + length s + 2 \<le> byte_max"
    and inv: "tape_inv (mc_store m) (mc_builder m) own i" and room: "own None \<noteq> []"
    and rdy: "ready (st_gate (mc_store m)) (bd_access (mc_builder m))"
    using can by (auto simp: can_scan_def)
  have u: "?e + length s + 2 \<le> u32_max" using lim(4) b by (simp add: bound_ok_def)
  have s1: "scan_step F src byte_max node_max m = (?m1, None)"
    by (rule scan_marker_wire[OF b md bs(1,2) _ lim(1,2)]) (simp add: marker_line.simps)
  have fb: "frame_body byte_max ?e (length s) = Inr ?fin"
    using frame_body_Inr[OF b(1), of ?e "length s" ?fin] lim by simp
  have nl: "number_length ?ln body LBulk = Inr (LengthCount (length s))" for body
    using u by (intro number_length_decimal) simp
  have s2: "scan_step F src byte_max node_max ?m1 = (?m2, None)"
    using scan_line_wire[where F = F and node_max = node_max and m = ?m1 and kind = LBulk and slot = ?slot,
        OF b(1) _ _ bs(1,2) plain_decimal lim(3)] fb
    by (simp add: scan_header_def nl)
  have st: "body_stop ?fin = ?e + length s" using u by simp
  have sub: "subslice (body_stop ?fin) (body_get ?fin) (src_bytes src) = Some [CR, LF]"
    using subslice_mid[of "?e + length s" "pre @ 36 # ?ln @ CR # LF # s" "?e + length s + 2" "[CR, LF]" post] bs
    unfolding body_get_def st by simp
  have len: "off + length (wire (RBulk s)) = ?e + length s + 2" by simp
  have be: "body_end ?fin = off + length (wire (RBulk s))"
    using u unfolding len by (subst body_end_id) (simp_all only: st)
  have r: "in_range src (body_end ?fin)" unfolding be by (rule can_scan_range[OF can]) simp
  have sp: "kind_ok (KBulk (span_terminated ?fin))"
  proof -
    have "0 < ?fin" using u by (simp add: body_new_eq)
    then show ?thesis using body_new_bound[of ?e "?e + length s"] u
      by (simp add: span_ok_def span_terminated_def)
  qed
  obtain m' own' stored where w: "scan_write F (set_mode ?m2 MStart) ?slot (KBulk (span_terminated ?fin)) (RestoreBulk ?fin) =
      (m', Inr stored :: 'x outcome + _)" "mc_state m' = mc_state (set_mode ?m2 MStart)"
    "tape_inv (mc_store m') (mc_builder m') own' i"
    "tape_kinds (st_pool (mc_store m')) (own' (Some i)) =
       tape_kinds (st_pool (mc_store m)) (own (Some i)) @ [KBulk (span_terminated ?fin)]"
    "Some (fst stored) = ring_tail (own' (Some i))" "snd stored = length (own' (Some i))"
    "length (own None) = Suc (length (own' None))" "bd_access (mc_builder m') = Held"
    "bd_len (mc_builder m') = ?slot"
    by (rule scan_write_ready[where m = "set_mode ?m2 MStart" and own = own and i = i
          and v = "KBulk (span_terminated ?fin)" and slot = ?slot and F = F and restore = "RestoreBulk ?fin"])
      (use inv sp rdy room in auto)
  have "scan_step F src byte_max node_max ?m2 = settle src m' stored (body_end ?fin) (body_end ?fin)"
    using sub w(1) r by (simp add: scan_step_def scan_bulk_def body_consumed_def)
  moreover have "stored_as m own i (kinds off (RBulk s)) m' own' stored"
    using w by (simp add: stored_as_def span_at_def)
  moreover have "sc_left (mc_state m') = sc_left (mc_state m)" using w(2) by simp
  moreover have "scan_runs F src byte_max node_max m ?m2"
    using s1 s2 by (meson converse_rtranclp_into_rtranclp r_into_rtranclp)
  ultimately show ?thesis unfolding runs_to_def be by blast
qed

text \<open>The header of an array that is not empty.\<close>

lemma scan_array_wire:
  fixes src :: "'x source"
  assumes can: "can_scan src byte_max node_max m own i off (42 # decimal n @ crlf) 1"
    and n: "0 < n" "bd_len (mc_builder m) + Suc n \<le> node_max"
    and dep: "length (sc_left (mc_state m)) < max_depth"
  shows "\<exists>m' own' stored. scan_runs F src byte_max node_max m m' \<and>
      sc_mode (mc_state m') = MMarker (off + length (decimal n) + 3) \<and>
      sc_left (mc_state m') = n # sc_left (mc_state m) \<and> stored_as m own i [KArray n] m' own' stored"
proof -
  let ?slot = "Suc (bd_len (mc_builder m))" and ?ln = "decimal n"
  let ?m1 = "m\<lparr>mc_state := (mc_state m)\<lparr>sc_scan := off + 1, sc_mode := MLine LArray (off + 1) ?slot\<rparr>\<rparr>"
  let ?e = "off + length ?ln + 3"
  from can obtain pre post where bs: "src_bytes src = pre @ 42 # ?ln @ CR # LF # post" "length pre = off"
    by (auto simp: can_scan_def)
  have b: "bound_ok byte_max" "bound_ok node_max"
    and md: "sc_mode (mc_state m) = MMarker off \<or> (sc_mode (mc_state m) = MStart \<and> off = 0)"
    and lim: "off < byte_max" "bd_len (mc_builder m) < node_max" "?e \<le> byte_max"
    and inv: "tape_inv (mc_store m) (mc_builder m) own i" and room: "own None \<noteq> []"
    and rdy: "ready (st_gate (mc_store m)) (bd_access (mc_builder m))"
    using can by (auto simp: can_scan_def)
  have u: "n \<le> u32_max" using n(2) b(2) by (simp add: bound_ok_def)
  have s1: "scan_step F src byte_max node_max m = (?m1, None)"
    by (rule scan_marker_wire[OF b md bs(1,2) _ lim(1,2)]) (simp add: marker_line.simps)
  have nl: "number_length ?ln body LArray = Inr (LengthCount n)" for body
    using u by (intro number_length_decimal) simp
  have va: "value_array node_max (bd_len (mc_builder m)) n = Inr n"
    using value_array_Inr[OF b(2)] n(2) by simp
  have s2: "scan_step F src byte_max node_max ?m1 =
      scan_array F src node_max (set_mode ?m1 MStart) (off + 1) ?slot ?e n"
    using scan_line_wire[where F = F and node_max = node_max and m = ?m1 and kind = LArray and slot = ?slot,
        OF b(1) _ _ bs(1,2) plain_decimal lim(3)]
    by (simp add: scan_header_def nl)
  obtain m' own' stored where w: "scan_write F (set_mode ?m1 MStart) ?slot (KArray n) (RestoreLine LArray (off + 1)) =
      (m', Inr stored :: 'x outcome + _)" "mc_state m' = mc_state (set_mode ?m1 MStart)"
    "tape_inv (mc_store m') (mc_builder m') own' i"
    "tape_kinds (st_pool (mc_store m')) (own' (Some i)) =
       tape_kinds (st_pool (mc_store m)) (own (Some i)) @ [KArray n]"
    "Some (fst stored) = ring_tail (own' (Some i))" "snd stored = length (own' (Some i))"
    "length (own None) = Suc (length (own' None))" "bd_access (mc_builder m') = Held"
    "bd_len (mc_builder m') = ?slot"
    by (rule scan_write_ready[where m = "set_mode ?m1 MStart" and own = own and i = i
          and v = "KArray n" and slot = ?slot and F = F and restore = "RestoreLine LArray (off + 1)"])
      (use inv u rdy room in auto)
  let ?m2 = "m'\<lparr>mc_state := (mc_state m')\<lparr>sc_left := n # sc_left (mc_state m'), sc_mode := MMarker ?e\<rparr>\<rparr>"
  have nd: "\<not> (count_nonzero n \<noteq> None \<and> max_depth \<le> length (sc_left (mc_state (set_mode ?m1 MStart))))"
    using dep by simp
  have va': "value_array node_max (bd_len (mc_builder (set_mode ?m1 MStart))) n = Inr n" using va by simp
  have "scan_step F src byte_max node_max ?m1 = (?m2, None)"
    unfolding s2 scan_array_def va' sum.case if_not_P[OF nd] w(1) using n(1) by (simp add: count_nonzero_def)
  with s1 have "scan_runs F src byte_max node_max m ?m2"
    by (meson converse_rtranclp_into_rtranclp r_into_rtranclp)
  moreover have "stored_as m own i [KArray n] ?m2 own' stored" using w by (simp add: stored_as_def)
  moreover have "sc_left (mc_state ?m2) = n # sc_left (mc_state m)" using w(2) by simp
  ultimately show ?thesis by (intro exI[of _ ?m2] exI[of _ own'] exI[of _ stored]) simp
qed

text \<open>Going on after a stored prefix.\<close>

lemma length_kinds_off:
  "length (kinds off v) = length (kinds off' v)"
  "length (kinds_list off vs) = length (kinds_list off' vs)"
proof (induction off v and off vs arbitrary: off' and off' rule: kinds_kinds_list.induct)
  case (9 off v vs)
  from 9(1)[of off'] 9(2)[of "off' + length (wire v)"] show ?case by simp
qed auto

lemma can_scan_next:
  assumes can: "can_scan src byte_max node_max m own i off (w1 @ w2) n"
    and st: "stored_as m own i ks m1 own1 stored" and n: "length ks + n2 \<le> n"
    and same: "mc_store m2 = mc_store m1" "mc_builder m2 = mc_builder m1"
    and md: "sc_mode (mc_state m2) = MMarker (off + length w1)"
  shows "can_scan src byte_max node_max m2 own1 i (off + length w1) w2 n2"
proof -
  from can obtain pre post where "src_bytes src = (pre @ w1) @ w2 @ post" "length (pre @ w1) = off + length w1"
    by (auto simp: can_scan_def)
  then have "\<exists>pre post. src_bytes src = pre @ w2 @ post \<and> length pre = off + length w1" by blast
  with assms show ?thesis by (auto simp: can_scan_def stored_as_def ready_def)
qed

lemma stored_as_trans:
  assumes "stored_as m own i ks m1 own1 s1" and "stored_as m2 own1 i ks2 m3 own3 s3"
    and "mc_store m2 = mc_store m1" and "mc_builder m2 = mc_builder m1"
  shows "stored_as m own i (ks @ ks2) m3 own3 s3"
  using assms by (simp add: stored_as_def)

lemma can_scan_prefix:
  "can_scan src byte_max node_max m own i off (w1 @ w2) n \<Longrightarrow> n1 \<le> n \<Longrightarrow>
     can_scan src byte_max node_max m own i off w1 n1"
  by (auto simp: can_scan_def)

lemma finish_value_left: "finish_value (s\<lparr>sc_left := x\<rparr>) l e = finish_value s l e"
  by (induction s l e rule: finish_value.induct) auto

lemma settle_one:
  assumes "sc_left (mc_state m) = 1 # l"
  shows "settle src m stored e count =
    settle src (m\<lparr>mc_state := (mc_state m)\<lparr>sc_left := l\<rparr>\<rparr>) stored e count"
  using assms by (simp add: settle_def finish_value_left split: prod.split completion.split)

definition scans_value ::
  "('w, 't) fifo \<Rightarrow> 'x source \<Rightarrow> bound \<Rightarrow> bound \<Rightarrow> 'o \<Rightarrow> resp \<Rightarrow> bool" where
  "scans_value F src byte_max node_max i v \<longleftrightarrow>
     (\<forall>m own off. can_scan src byte_max node_max (m :: ('w, 't) machine) own i off (wire v) (length (kinds off v)) \<longrightarrow>
        resp_ok v \<longrightarrow> length (sc_left (mc_state m)) + depth v \<le> max_depth \<longrightarrow>
        runs_to F src byte_max node_max m own i (sc_left (mc_state m)) (kinds off v) (off + length (wire v)))"

lemma scan_list_wire:
  assumes vs: "vs \<noteq> []" and each: "\<forall>v \<in> set vs. scans_value F src byte_max node_max i v"
    and can: "can_scan src byte_max node_max (m :: ('w, 't) machine) own i off (concat (map wire vs)) (length (kinds_list off vs))"
    and ok: "\<forall>v \<in> set vs. resp_ok v" and left: "sc_left (mc_state m) = length vs # l"
    and dep: "\<forall>v \<in> set vs. Suc (length l) + depth v \<le> max_depth"
  shows "runs_to F src byte_max node_max m own i l (kinds_list off vs) (off + length (concat (map wire vs)))"
  using assms
proof (induction vs arbitrary: m own off)
  case (Cons v vs)
  let ?e = "off + length (wire v)"
  have can1: "can_scan src byte_max node_max m own i off (wire v) (length (kinds off v))"
    by (rule can_scan_prefix[where ?w2.0 = "concat (map wire vs)" and n = "length (kinds_list off (v # vs))"])
      (use Cons.prems(3) in simp_all)
  have "runs_to F src byte_max node_max m own i (sc_left (mc_state m)) (kinds off v) ?e"
  proof -
    have "scans_value F src byte_max node_max i v" using Cons.prems(2) by simp
    note sv = this[unfolded scans_value_def, rule_format, OF can1]
    show ?thesis by (rule sv) (use Cons.prems in auto)
  qed
  then obtain m1 m' own' stored where r: "scan_runs F src byte_max node_max m m1"
    and s: "scan_step F src byte_max node_max m1 = settle src m' stored ?e ?e"
    and lf: "sc_left (mc_state m') = Suc (length vs) # l" and st: "stored_as m own i (kinds off v) m' own' stored"
    using Cons.prems(5) unfolding runs_to_def by auto
  show ?case
  proof (cases "vs = []")
    case True
    let ?m' = "m'\<lparr>mc_state := (mc_state m')\<lparr>sc_left := l\<rparr>\<rparr>"
    have "scan_step F src byte_max node_max m1 = settle src ?m' stored ?e ?e"
      unfolding s by (rule settle_one) (use lf True in simp)
    moreover have "stored_as m own i (kinds off v) ?m' own' stored" using st by (simp add: stored_as_def)
    moreover have "sc_left (mc_state ?m') = l" by simp
    ultimately show ?thesis
      using r unfolding runs_to_def True by (intro exI[of _ m1] exI[of _ ?m'] exI[of _ own'] exI[of _ stored]) simp
  next
    case False
    let ?m2 = "m'\<lparr>mc_state := (mc_state m')\<lparr>sc_left := length vs # l, sc_mode := MMarker ?e\<rparr>\<rparr>"
    have "finish_value (mc_state m') (Suc (length vs) # l) ?e =
        ((mc_state m')\<lparr>sc_left := length vs # l, sc_mode := MMarker ?e\<rparr>, Nested)"
      using False by simp
    then have "settle src m' stored ?e ?e = (?m2, None)" by (simp only: settle_def lf) simp
    with s r have r2: "scan_runs F src byte_max node_max m ?m2" by (simp add: rtranclp.rtrancl_into_rtrancl)
    have can2: "can_scan src byte_max node_max ?m2 own' i ?e (concat (map wire vs)) (length (kinds_list ?e vs))"
      by (rule can_scan_next[OF _ st, where n = "length (kinds_list off (v # vs))"])
        (use Cons.prems(3) in simp_all)
    have "runs_to F src byte_max node_max ?m2 own' i l (kinds_list ?e vs) (?e + length (concat (map wire vs)))"
      by (rule Cons.IH[OF False _ can2]) (use Cons.prems in auto)
    then obtain m3 m4 own4 st4 where q: "scan_runs F src byte_max node_max ?m2 m3"
      "scan_step F src byte_max node_max m3 =
         settle src m4 st4 (?e + length (concat (map wire vs))) (?e + length (concat (map wire vs)))"
      "sc_left (mc_state m4) = l" "stored_as ?m2 own' i (kinds_list ?e vs) m4 own4 st4"
      unfolding runs_to_def by blast
    have "stored_as m own i (kinds off v @ kinds_list ?e vs) m4 own4 st4"
      by (rule stored_as_trans[OF st q(4)]) simp_all
    with q(1,2,3) r2 show ?thesis
      unfolding runs_to_def
      by (intro exI[of _ m3] exI[of _ m4] exI[of _ own4] exI[of _ st4]) (auto simp: add.assoc)
  qed
qed simp

lemma scans_leaf:
  assumes w: "wire v = c # ln @ crlf" and k: "marker_line c = Some kind"
    and p: "resp_ok v \<Longrightarrow> plain_text ln" and kinds: "\<And>off. kinds off v = [kd off]"
    and ok: "\<And>off. resp_ok v \<Longrightarrow> off + length ln + 3 \<le> u32_max \<Longrightarrow> kind_ok (kd off)"
    and h: "\<And>off m1 slot. resp_ok v \<Longrightarrow> scan_header F src byte_max node_max (m1 :: ('w, 't) machine) kind (off + 1) slot ln
        (off + length ln + 3) (body_new (off + 1) (off + 1 + length ln)) =
      scan_leaf F src m1 kind (off + 1) slot (off + length ln + 3) (kd off)"
  shows "scans_value F src byte_max node_max i v"
  unfolding scans_value_def
proof (intro allI impI)
  fix m :: "('w, 't) machine" and own off
  assume can: "can_scan src byte_max node_max m own i off (wire v) (length (kinds off v))" and r: "resp_ok v"
  have can': "can_scan src byte_max node_max m own i off (c # ln @ crlf) 1" using can w kinds by simp
  then have "off + length ln + 3 \<le> u32_max" by (auto simp: can_scan_def bound_ok_def)
  from scan_leaf_wire[OF can' k p[OF r] ok[OF r this] h[OF r]]
  show "runs_to F src byte_max node_max m own i (sc_left (mc_state m)) (kinds off v) (off + length (wire v))"
    using w kinds by (simp add: numeral_3_eq_3)
qed

lemma span_at_ok: "start + len \<le> u32_max \<Longrightarrow> 0 < start \<Longrightarrow> span_ok (span_at start len)"
  using body_new_bound[of start "start + len"]
  by (simp add: span_at_def span_terminated_def span_ok_def body_new_eq)

lemma span_at_fold:
  "span_terminated (body_new (Suc off) (Suc (off + len))) = span_at (Suc off) len"
  by (simp add: span_at_def)

lemma scans_value_all: "scans_value F src byte_max node_max i v"
proof (induction v)
  case (RArray vs)
  show ?case
    unfolding scans_value_def
  proof (intro allI impI)
    fix m :: "('a, 'b) machine" and own off
    let ?v = "RArray vs" and ?n = "length vs"
    let ?e = "off + length (decimal ?n) + 3"
    assume can: "can_scan src byte_max node_max m own i off (wire ?v) (length (kinds off ?v))"
      and ok: "resp_ok ?v" and dep: "length (sc_left (mc_state m)) + depth ?v \<le> max_depth"
    show "runs_to F src byte_max node_max m own i (sc_left (mc_state m)) (kinds off ?v) (off + length (wire ?v))"
    proof (cases "vs = []")
      case True
      have b: "bound_ok node_max" and lim: "bd_len (mc_builder m) < node_max"
        using can by (auto simp: can_scan_def)
      have "runs_to F src byte_max node_max m own i (sc_left (mc_state m)) [KArray 0]
          (off + length (decimal 0) + 3)"
      proof (rule scan_leaf_wire[where c = 42 and kind = LArray])
        show "can_scan src byte_max node_max m own i off (42 # decimal 0 @ crlf) 1"
          using can True by simp
        fix m1 :: "('a, 'b) machine" and slot
        assume "bd_len (mc_builder m1) = bd_len (mc_builder m)"
        then have "value_array node_max (bd_len (mc_builder m1)) 0 = Inr 0"
          using value_array_Inr[OF b] lim by simp
        then show "scan_header F src byte_max node_max m1 LArray (off + 1) slot (decimal 0)
            (off + length (decimal 0) + 3) (body_new (off + 1) (off + 1 + length (decimal 0))) =
          scan_leaf F src m1 LArray (off + 1) slot (off + length (decimal 0) + 3) (KArray 0)"
          using number_length_decimal[of 0]
          by (simp add: scan_header_def scan_array_def scan_leaf_def count_nonzero_def del: decimal_less10)
      qed (simp_all add: marker_line.simps del: decimal_less10)
      with True show ?thesis by (simp add: add.assoc numeral_3_eq_3)
    next
      case False
      have lk: "?n \<le> length (kinds_list ?e vs)" by (rule length_kinds_list_ge)
      have nm: "bd_len (mc_builder m) + Suc ?n \<le> node_max"
        using can lk by (simp add: can_scan_def)
      obtain x where "x \<in> set vs" using False by (cases vs) auto
      then have d1: "length (sc_left (mc_state m)) < max_depth"
        using dep depth_array[of x vs] by linarith
      have canh: "can_scan src byte_max node_max m own i off (42 # decimal ?n @ crlf) 1"
        by (rule can_scan_prefix[where ?w2.0 = "concat (map wire vs)" and n = "length (kinds off ?v)"])
          (use can in simp_all)
      obtain m' own' stored where h: "scan_runs F src byte_max node_max m m'"
          "sc_mode (mc_state m') = MMarker ?e" "sc_left (mc_state m') = ?n # sc_left (mc_state m)"
          "stored_as m own i [KArray ?n] m' own' stored"
        using scan_array_wire[OF canh _ nm d1, of F] False by auto
      have canl: "can_scan src byte_max node_max m' own' i ?e (concat (map wire vs)) (length (kinds_list ?e vs))"
      proof -
        have e: "off + length (42 # decimal ?n @ crlf) = ?e" by simp
        have "can_scan src byte_max node_max m' own' i (off + length (42 # decimal ?n @ crlf))
            (concat (map wire vs)) (length (kinds_list ?e vs))"
          by (rule can_scan_next[OF _ h(4), where n = "length (kinds off ?v)"])
            (use can h(2) in simp_all)
        then show ?thesis unfolding e .
      qed
      have "\<forall>v \<in> set vs. Suc (length (sc_left (mc_state m))) + depth v \<le> max_depth"
        using dep depth_array[of _ vs] by fastforce
      from scan_list_wire[OF False _ canl _ h(3) this] RArray.IH ok
      have "runs_to F src byte_max node_max m' own' i (sc_left (mc_state m)) (kinds_list ?e vs)
          (?e + length (concat (map wire vs)))" by auto
      then obtain m3 m4 own4 st4 where q: "scan_runs F src byte_max node_max m' m3"
        "scan_step F src byte_max node_max m3 =
           settle src m4 st4 (?e + length (concat (map wire vs))) (?e + length (concat (map wire vs)))"
        "sc_left (mc_state m4) = sc_left (mc_state m)" "stored_as m' own' i (kinds_list ?e vs) m4 own4 st4"
        unfolding runs_to_def by blast
      have "stored_as m own i ([KArray ?n] @ kinds_list ?e vs) m4 own4 st4"
        by (rule stored_as_trans[OF h(4) q(4)]) simp_all
      moreover have e: "off + length (wire ?v) = ?e + length (concat (map wire vs))" by simp
      ultimately have "scan_runs F src byte_max node_max m m3 \<and>
          scan_step F src byte_max node_max m3 =
            settle src m4 st4 (off + length (wire ?v)) (off + length (wire ?v)) \<and>
          sc_left (mc_state m4) = sc_left (mc_state m) \<and> stored_as m own i (kinds off ?v) m4 own4 st4"
        unfolding e using q(2,3) rtranclp_trans[OF h(1) q(1)] by simp
      then show ?thesis unfolding runs_to_def by blast
    qed
  qed
next
  case (RBulk s)
  show ?case using scan_bulk_wire[where s = s] by (simp add: scans_value_def del: wire.simps kinds.simps) auto
next
  case RNil
  show ?case
    by (rule scans_leaf[where c = 36 and ln = "[45, 49]" and kind = LBulk and kd = "\<lambda>_. KNil"])
      (simp_all add: marker_line.simps scan_header_def number_length_nil)
next
  case RNilArray
  show ?case
    by (rule scans_leaf[where c = 42 and ln = "[45, 49]" and kind = LArray and kd = "\<lambda>_. KNil"])
      (simp_all add: marker_line.simps scan_header_def number_length_nil)
next
  case (RStatus s)
  show ?case
    by (rule scans_leaf[where c = 43 and ln = s and kind = LStatus and
          kd = "\<lambda>off. if s = ascii ''OK'' then KOk else KStatus (span_at (off + 1) (length s))"])
      (auto simp: marker_line.simps scan_header_def span_at_fold intro: span_at_ok)
next
  case (RError s)
  show ?case
    by (rule scans_leaf[where c = 45 and ln = s and kind = LServer and
          kd = "\<lambda>off. KError (span_at (off + 1) (length s))"])
      (auto simp: marker_line.simps scan_header_def span_at_fold intro: span_at_ok)
next
  case (RInteger v)
  show ?case
    by (rule scans_leaf[where c = 58 and ln = "signed_text v" and kind = LInteger and kd = "\<lambda>_. KInteger v"])
      (simp_all add: marker_line.simps scan_header_def number_signed_text)
qed

lemma linked_unique:
  "linked f ks z \<Longrightarrow> linked f ks' z' \<Longrightarrow> length ks = length ks' \<Longrightarrow> (ks \<noteq> [] \<Longrightarrow> hd ks = hd ks') \<Longrightarrow> ks = ks'"
proof (induction ks arbitrary: ks')
  case (Cons k ks)
  from Cons.prems(3) obtain k' ks2 where k: "ks' = k' # ks2" by (cases ks') simp_all
  have kk: "k' = k" using Cons.prems(4) k by simp
  have len: "length ks = length ks2" using Cons.prems(3) k by simp
  have "ks = ks2"
  proof (rule Cons.IH)
    show "linked f ks z" "linked f ks2 z'" using Cons.prems(1,2) k by simp_all
    assume ne: "ks \<noteq> []"
    with len have "ks2 \<noteq> []" by auto
    with ne Cons.prems(1,2) k kk show "hd ks = hd ks2" by simp
  qed (rule len)
  with k kk show ?case by simp
qed simp

lemma ring_unique:
  assumes "pool_inv p own" and "pool_inv p own'"
    and t: "ring_tail (own j) = ring_tail (own' j')" and l: "length (own j) = length (own' j')"
  shows "own j = own' j'"
proof (cases "own j = []")
  case False
  then have ne: "own' j' \<noteq> []" using l by auto
  with False t have "last (own j) = last (own' j')" by (simp add: ring_tail_def)
  with pool_inv_last_next[OF assms(1) False] pool_inv_last_next[OF assms(2) ne]
  have "hd (own j) = hd (own' j')" by simp
  with linked_unique[OF pool_inv_ring[OF assms(1) False] pool_inv_ring[OF assms(2) ne] l] show ?thesis by simp
qed (use l in simp)

text \<open>A whole reply, from a fresh parser.\<close>

definition fits ::
  "bound \<Rightarrow> bound \<Rightarrow> resp \<Rightarrow> bool" where
  "fits byte_max node_max v \<longleftrightarrow>
     bound_ok byte_max \<and> bound_ok node_max \<and> resp_ok v \<and> depth v \<le> max_depth \<and>
     length (wire v) \<le> byte_max \<and> length (kinds 0 v) \<le> node_max"

definition has_room :: "('w, 't) storage \<Rightarrow> ('o option \<Rightarrow> key list) \<Rightarrow> 'o \<Rightarrow> resp \<Rightarrow> bool" where
  "has_room st own i v \<longleftrightarrow>
     pool_inv (st_pool st) own \<and> own (Some i) = [] \<and> length (kinds 0 v) \<le> length (own None) \<and>
     gate_active (st_gate st) < gate_lanes (st_gate st)"

lemma scan_wire_complete:
  fixes st :: "('w, 't) storage" and src :: "'x source"
  assumes fit: "fits byte_max node_max v" and room: "has_room st own i v"
    and src: "source_ok src" "src_bytes src = wire v @ rest"
  shows "\<exists>m' own' tail. parser_scan F src byte_max node_max (parser_new st) =
      Some (m', Complete (wire v) tail (length (kinds 0 v)) (length (wire v))) \<and>
    finished m' own' i tail (length (kinds 0 v)) (length (wire v)) \<and>
    tape_kinds (st_pool (mc_store m')) (own' (Some i)) = kinds 0 v"
proof -
  let ?m = "parser_new st" and ?e = "length (wire v)"
  note b = fit[unfolded fits_def]
  have rm: "pool_inv (st_pool st) own" "own (Some i) = []" using room by (simp_all add: has_room_def)
  have inv: "scan_inv ?m own i" by (rule parser_new_inv(1)[OF rm])
  have ok: "state_ok (src_bytes src) (mc_state ?m)" by (rule parser_new_inv(2)[OF rm])
  have m: "sc_mode (mc_state ?m) = MStart" "sc_left (mc_state ?m) = []" "bd_len (mc_builder ?m) = 0"
    "bd_access (mc_builder ?m) = Idle" "mc_store ?m = st" "tape_inv (mc_store ?m) (mc_builder ?m) own i"
    using inv by (simp_all add: parser_new_def scanner_new_def builder_new_def scan_inv_def)
  have "can_scan src byte_max node_max ?m own i 0 (wire v) (length (kinds 0 v))"
    unfolding can_scan_def m using b room src m(6)[unfolded m] by (simp add: has_room_def ready_def)
  with scans_value_all[of F src byte_max node_max i v] b m
  have "runs_to F src byte_max node_max ?m own i [] (kinds 0 v) (0 + ?e)"
    unfolding scans_value_def by fastforce
  then obtain m1 m' own' stored where r: "scan_runs F src byte_max node_max ?m m1"
      "scan_step F src byte_max node_max m1 = settle src m' stored ?e ?e"
      "sc_left (mc_state m') = []" "stored_as ?m own i (kinds 0 v) m' own' stored"
    unfolding runs_to_def by auto
  have "0 < ?e" by (cases v) auto
  then have p: "src_prefix src 0 ?e = Inr (wire v, ?e)" using src by (simp add: source_ok_def)
  let ?m2 = "m'\<lparr>mc_builder := stored_finish (mc_builder m'),
      mc_state := scanner_reset ((mc_state m')\<lparr>sc_left := []\<rparr>)\<rparr>"
  have "scan_step F src byte_max node_max m1 =
      (?m2, Some (Complete (wire v) (fst stored) (snd stored) ?e))"
    unfolding r(2) by (simp add: settle_def r(3) complete_def p)
  then have l: "parser_scan F src byte_max node_max ?m =
      Some (?m2, Complete (wire v) (fst stored) (snd stored) ?e)"
    unfolding parser_scan_ok[OF ok] scan_loop_runs[OF r(1)] by (subst scan_loop_unfold) simp
  have own0: "tape_kinds (st_pool (mc_store ?m)) (own (Some i)) = []" using rm by (simp add: tape_kinds_def)
  have n: "snd stored = length (kinds 0 v)"
  proof -
    from r(4) have "snd stored = bd_len (mc_builder m')" by (simp add: stored_as_def tape_inv_def)
    with r(4) m(3) show ?thesis by (simp add: stored_as_def)
  qed
  have "step_safe ?m own i (?m2, Some (Complete (wire v) (fst stored) (snd stored) ?e :: 'x outcome))"
    by (rule scan_loop_safe[OF _ _ src(1) ok inv]) (use b l parser_scan_ok[OF ok] in auto)
  then obtain own2 where f: "finished ?m2 own2 i (fst stored) (snd stored) ?e"
    by (auto simp: step_safe_def)
  have same: "own2 (Some i) = own' (Some i)"
  proof (rule ring_unique)
    show "pool_inv (st_pool (mc_store m')) own2" using f by (simp add: finished_def)
    show "pool_inv (st_pool (mc_store m')) own'" using r(4) by (simp add: stored_as_def tape_inv_def)
    show "ring_tail (own2 (Some i)) = ring_tail (own' (Some i))" "length (own2 (Some i)) = length (own' (Some i))"
      using f r(4) by (simp_all add: finished_def stored_as_def)
  qed
  have "tape_kinds (st_pool (mc_store ?m2)) (own2 (Some i)) = kinds 0 v"
    using r(4) own0 unfolding same by (simp add: stored_as_def)
  with l[unfolded n] f[unfolded n] show ?thesis by blast
qed

section \<open>A reply received in pieces\<close>

text \<open>Before its last byte a reply that fits makes the scanner wait, and change nothing it has promised.\<close>

lemma scan_wire_prefix:
  fixes st :: "('w, 't) storage" and mk :: "bytes \<Rightarrow> 'x source"
  assumes fit: "fits byte_max node_max v" and room: "has_room st own i v" and mk: "makes_sources mk"
    and pre: "wire v = seen @ ext" "ext \<noteq> []"
  shows "\<exists>m. scan_loop F (mk seen) byte_max node_max (parser_new st) = Some (m, Pending)"
proof -
  have src: "src_bytes (mk bs) = bs" "source_ok (mk bs)" for bs using mk by (simp_all add: makes_sources_def)
  have b: "bound_ok byte_max" and len: "length seen \<le> byte_max" using fit pre by (simp_all add: fits_def)
  have rm: "pool_inv (st_pool st) own" "own (Some i) = []" using room by (simp_all add: has_room_def)
  have ok: "state_ok (src_bytes (mk bs)) (mc_state (parser_new st))" for bs
    by (rule parser_new_inv(2)[OF rm])
  obtain m' own' tail where c: "scan_loop F (mk (wire v)) byte_max node_max (parser_new st) =
      Some (m', Complete (wire v) tail (length (kinds 0 v)) (length (wire v)))"
    using scan_wire_complete[OF fit room, of "mk (wire v)" "[]" F] parser_scan_ok[OF ok] src by auto
  obtain m out where r: "scan_loop F (mk seen) byte_max node_max (parser_new st) = Some (m, out)"
    and o: "outcome_ok seen out"
    using scan_loop_out[OF b src(2) ok, where F = F and node_max = node_max] src by fastforce
  have "out = Pending"
  proof (rule ccontr)
    assume "out \<noteq> Pending"
    then have "settled byte_max (length (src_bytes (mk seen))) out"
      using len by (cases out) (simp_all add: src)
    moreover have "longer (mk seen) (mk (wire v))" by (simp add: longer_def src pre)
    ultimately have "scan_loop F (mk (wire v)) byte_max node_max (parser_new st) = Some (m, out)"
      using scan_loop_settled[OF src(2) src(2) _ b ok r] by blast
    with c o pre show False by auto
  qed
  with r show ?thesis by blast
qed

lemma agree_opt_refl: "agree_opt r r"
  by (cases r) (simp_all add: agree_opt_def)

lemma agree_opt_trans: "agree_opt a b \<Longrightarrow> agree_opt b c \<Longrightarrow> agree_opt a c"
  by (cases a; cases b; cases c) (auto simp: agree_opt_def agree_def)

lemma prefix_shorter:
  "xs @ ys = zs @ ws \<Longrightarrow> length xs < length zs \<Longrightarrow> \<exists>e. zs = xs @ e \<and> e \<noteq> []"
  by (auto simp: append_eq_append_conv2)

lemma prefix_longer: "xs @ ys = zs @ ws \<Longrightarrow> \<not> length xs < length zs \<Longrightarrow> \<exists>e. xs = zs @ e"
  by (auto simp: append_eq_append_conv2)

lemma feed_wire:
  fixes st :: "('w, 't) storage" and mk :: "bytes \<Rightarrow> 'x source"
  assumes fit: "fits byte_max node_max v" and room: "has_room st own i v" and mk: "makes_sources mk"
    and cat: "seen @ concat pieces = wire v @ rest" and ok: "state_ok seen (mc_state m)"
    and same: "\<And>ext. agree_opt (scan_loop F (mk (seen @ ext)) byte_max node_max m)
                 (scan_loop F (mk (seen @ ext)) byte_max node_max (parser_new st))"
  shows "\<exists>m' own' tail. parser_feed F mk byte_max node_max seen pieces m =
      Some (m', Complete (wire v) tail (length (kinds 0 v)) (length (wire v))) \<and>
    finished m' own' i tail (length (kinds 0 v)) (length (wire v)) \<and>
    tape_kinds (st_pool (mc_store m')) (own' (Some i)) = kinds 0 v"
  using cat ok same
proof (induction pieces arbitrary: seen m)
  let ?done = "\<lambda>r. \<exists>m' own' tail. r =
      Some (m', Complete (wire v) tail (length (kinds 0 v)) (length (wire v)) :: 'x outcome) \<and>
    finished m' own' i tail (length (kinds 0 v)) (length (wire v)) \<and>
    tape_kinds (st_pool (mc_store m')) (own' (Some i)) = kinds 0 v"
  have src: "src_bytes (mk bs) = bs" "source_ok (mk bs)" for bs using mk by (simp_all add: makes_sources_def)
  have b: "bound_ok byte_max" using fit by (simp add: fits_def)
  have rm: "pool_inv (st_pool st) own" "own (Some i) = []" using room by (simp_all add: has_room_def)
  have okf: "state_ok (src_bytes (mk bs)) (mc_state (parser_new st))" for bs
    by (rule parser_new_inv(2)[OF rm])
  have comp: "?done (scan_loop F (mk (wire v @ more)) byte_max node_max n)"
    if a: "agree_opt (scan_loop F (mk (wire v @ more)) byte_max node_max n)
             (scan_loop F (mk (wire v @ more)) byte_max node_max (parser_new st))" for n more
  proof -
    obtain m' own' tail where r: "scan_loop F (mk (wire v @ more)) byte_max node_max (parser_new st) =
        Some (m', Complete (wire v) tail (length (kinds 0 v)) (length (wire v)))"
      "finished m' own' i tail (length (kinds 0 v)) (length (wire v))"
      "tape_kinds (st_pool (mc_store m')) (own' (Some i)) = kinds 0 v"
      using scan_wire_complete[OF fit room, of "mk (wire v @ more)" more F] parser_scan_ok[OF okf] src by auto
    with a obtain n' where n: "scan_loop F (mk (wire v @ more)) byte_max node_max n =
        Some (n', Complete (wire v) tail (length (kinds 0 v)) (length (wire v)))" "rescan 0 n' = rescan 0 m'"
      by (auto simp: agree_opt_def agree_def option_rel_Some2)
    then have "mc_store n' = mc_store m'" "mc_builder n' = mc_builder m'" by (metis rescan_simps)+
    with r n show ?thesis by (auto simp: finished_def)
  qed
  {
    case Nil
    then have o: "state_ok (src_bytes (mk seen)) (mc_state m)" by (simp add: src)
    show ?case
      unfolding parser_feed.simps parser_scan_ok[OF o] using Nil(1) comp[of rest m] Nil(3)[of "[]"] by simp
  next
    case (Cons piece pieces)
    have o: "state_ok (src_bytes (mk seen)) (mc_state m)" using Cons.prems(2) by (simp add: src)
    show ?case
    proof (cases "length seen < length (wire v)")
      case True
      with Cons.prems(1) obtain ext where pre: "wire v = seen @ ext" "ext \<noteq> []"
        using prefix_shorter by blast
      obtain p where "scan_loop F (mk seen) byte_max node_max (parser_new st) = Some (p, Pending)"
        using scan_wire_prefix[OF fit room mk pre] by blast
      with Cons.prems(3)[of "[]"] obtain m1 where r: "scan_loop F (mk seen) byte_max node_max m = Some (m1, Pending)"
        by (auto simp: agree_opt_def agree_def option_rel_Some2)
      have k: "state_ok (seen @ piece) (mc_state m1)"
        using scan_loop_returns[OF b o, of F node_max] r state_ok_extend by (auto simp: src)
      have "agree_opt (scan_loop F (mk ((seen @ piece) @ ext)) byte_max node_max m1)
          (scan_loop F (mk ((seen @ piece) @ ext)) byte_max node_max (parser_new st))" for ext
        using agree_opt_trans[OF scan_loop_resume[OF b o r, of "mk (seen @ piece @ ext)"]
            Cons.prems(3)[of "piece @ ext"]]
        by (simp add: longer_def src)
      from Cons.IH[OF _ k this] Cons.prems(1) r show ?thesis by (simp add: parser_scan_ok[OF o])
    next
      case False
      with Cons.prems(1) obtain more where m: "seen = wire v @ more"
        using prefix_longer by blast
      from comp[of more m] Cons.prems(3)[of "[]"] show ?thesis
        unfolding m by (auto simp: parser_scan_ok[OF o[unfolded m]])
    qed
  }
qed

section \<open>What the spans select\<close>

text \<open>The text of a value, read from the frame through its span.\<close>

fun kind_text :: "bytes \<Rightarrow> kind \<Rightarrow> bytes option" where
  "kind_text frame (KStatus s) = span_bytes frame s"
| "kind_text frame (KError s) = span_bytes frame s"
| "kind_text frame (KBulk s) = span_bytes frame s"
| "kind_text frame KNil = None"
| "kind_text frame KOk = None"
| "kind_text frame (KInteger v) = None"
| "kind_text frame (KArray n) = None"

fun texts :: "resp \<Rightarrow> bytes option list" where
  "texts RNil = [None]"
| "texts RNilArray = [None]"
| "texts (RStatus s) = [if s = ascii ''OK'' then None else Some s]"
| "texts (RError s) = [Some s]"
| "texts (RInteger v) = [None]"
| "texts (RBulk s) = [Some s]"
| "texts (RArray vs) = None # concat (map texts vs)"

lemma span_bytes_at:
  assumes "start = length pre" and "start + length s \<le> u32_max" and "0 < start"
  shows "span_bytes (pre @ s @ post) (span_at start (length s)) = Some s"
proof -
  have "span_parts (span_at start (length s)) = (start, start + length s)"
    using body_start_new[of start "start + length s"] body_stop_new[of start "start + length s"] assms(2)
    by (simp add: span_parts_def span_at_def span_terminated_def body_start_def body_stop_def)
  then show ?thesis using assms(1) by (simp add: span_bytes_def)
qed

lemma kinds_texts:
  "length pre = off \<Longrightarrow> off + length (wire v) \<le> u32_max \<Longrightarrow>
     map (kind_text (pre @ wire v @ post)) (kinds off v) = texts v"
  "length pre = off \<Longrightarrow> off + length (concat (map wire vs)) \<le> u32_max \<Longrightarrow>
     map (kind_text (pre @ concat (map wire vs) @ post)) (kinds_list off vs) = concat (map texts vs)"
proof (induction off v and off vs arbitrary: pre post and pre post rule: kinds_kinds_list.induct)
  case (3 off s)
  then show ?case using span_bytes_at[of "off + 1" "pre @ [43]" s "crlf @ post"] by simp
next
  case (4 off s)
  then show ?case using span_bytes_at[of "off + 1" "pre @ [45]" s "crlf @ post"] by simp
next
  case (6 off s)
  then show ?case
    using span_bytes_at[of "off + length (decimal (length s)) + 3" "pre @ 36 # decimal (length s) @ crlf" s
        "crlf @ post"] by simp
next
  case (7 off vs)
  have "map (kind_text ((pre @ 42 # decimal (length vs) @ crlf) @ concat (map wire vs) @ post))
      (kinds_list (off + length (decimal (length vs)) + 3) vs) = concat (map texts vs)"
    by (rule 7(1)) (use 7 in simp_all)
  then show ?case by simp
next
  case (9 off v vs)
  have "map (kind_text (pre @ wire v @ concat (map wire vs) @ post)) (kinds off v) = texts v"
    by (rule 9(1)) (use 9 in simp_all)
  moreover have "map (kind_text ((pre @ wire v) @ concat (map wire vs) @ post))
      (kinds_list (off + length (wire v)) vs) = concat (map texts vs)"
    by (rule 9(2)) (use 9 in simp_all)
  ultimately show ?case by simp
qed simp_all

end
