(* ===== verification/Resp_Tape.thy ===== *)
theory Resp_Tape
  imports Resp_Safe
begin

text \<open>
  \<open>redis/src/protocol/parser/storage/cursors.rs\<close>, \<open>tape.rs\<close>, the regions of \<open>storage/mod.rs\<close> and
  the reader of \<open>frame/mod.rs\<close>: reading the values of a completed tape through the next keys of its
  ring.  A cursor is a key and a count of the values left; nothing but that count says where the
  tape ends.  A \<open>Tape\<close> releases its nodes when it is dropped, also on the error paths that consume it.

  The phantom kinds of cursors and regions have no run-time content.  \<open>remaining - N\<close> of
  \<open>Cursor::children\<close> is not checked by its callers that rely on the shape of the tape, so it is
  \<open>None\<close> here when it would underflow; the lemmas show that it does not on a complete preorder.
\<close>

section \<open>Cursors\<close>

record cursor =
  cu_next :: key
  cu_remaining :: nat

record batch =
  ba_next :: key
  ba_left :: nat

record array =
  ar_cursor :: cursor
  ar_len :: nat

definition cursor_children :: "nat \<Rightarrow> cursor \<Rightarrow> batch option" where
  "cursor_children n c =
     (if cu_remaining c < as_u32 n then None
      else Some \<lparr>ba_next = cu_next c, ba_left = sat_add32 1 (cu_remaining c - as_u32 n)\<rparr>)"

definition cursor_batch :: "nat \<Rightarrow> cursor \<Rightarrow> batch option" where
  "cursor_batch n c = (if as_u32 n \<le> cu_remaining c then cursor_children n c else None)"

definition cursor_batch_exact :: "nat \<Rightarrow> cursor \<Rightarrow> nat + batch option" where
  "cursor_batch_exact n c =
     (if cu_remaining c \<noteq> n then Inl (cu_remaining c) else Inr (cursor_children n c))"

definition batch_finish :: "batch \<Rightarrow> key \<Rightarrow> cursor" where
  "batch_finish b next = \<lparr>cu_next = next, cu_remaining = ba_left b - 1\<rparr>"

datatype length_mismatch = LengthMismatch nat nat

definition array_exact :: "nat \<Rightarrow> array \<Rightarrow> length_mismatch + batch option" where
  "array_exact n a =
     (if ar_len a \<noteq> n then Inl (LengthMismatch n (ar_len a)) else Inr (cursor_children n (ar_cursor a)))"

section \<open>Tapes\<close>

record tape =
  tp_tail :: key
  tp_len :: nat

datatype mismatch = MServer span | MValue "span rvalue"

definition tape_cursor :: "pool \<Rightarrow> tape \<Rightarrow> cursor" where
  "tape_cursor p t = \<lparr>cu_next = pool_next p (tp_tail t), cu_remaining = tp_len t\<rparr>"

definition tape_root :: "pool \<Rightarrow> tape \<Rightarrow> batch" where
  "tape_root p t = \<lparr>ba_next = pool_next p (tp_tail t), ba_left = tp_len t\<rparr>"

definition tape_drop :: "pool \<Rightarrow> tape \<Rightarrow> pool" where
  "tape_drop p t = pool_release p (Some (tp_tail t))"

definition tape_event :: "pool \<Rightarrow> cursor \<Rightarrow> (kind \<times> cursor) option" where
  "tape_event p c =
     (case cursor_batch 1 c of
        None \<Rightarrow> None
      | Some b \<Rightarrow>
          (let node = pool_node p (ba_next b)
           in Some (node_kind node, batch_finish b (node_next node))))"

definition tape_take :: "pool \<Rightarrow> batch \<Rightarrow> span + span rvalue \<times> cursor" where
  "tape_take p b =
     (let node = pool_node p (ba_next b) in
      case node_try_value node of
        Inl s \<Rightarrow> Inl s
      | Inr v \<Rightarrow> Inr (v, batch_finish b (node_next node)))"

definition tape_pair :: "pool \<Rightarrow> batch \<Rightarrow> (span + span rvalue) \<times> (span + span rvalue) \<times> cursor" where
  "tape_pair p b =
     (let first = pool_node p (ba_next b); second = pool_node p (node_next first)
      in (node_try_value first, node_try_value second, batch_finish b (node_next second)))"

fun array_of :: "span rvalue \<Rightarrow> cursor \<Rightarrow> mismatch + array" where
  "array_of (VArray n) c = Inr \<lparr>ar_cursor = c, ar_len = n\<rparr>"
| "array_of VNil c = Inr \<lparr>ar_cursor = c, ar_len = 0\<rparr>"
| "array_of v c = Inl (MValue v)"

definition tape_array :: "pool \<Rightarrow> batch \<Rightarrow> mismatch + array" where
  "tape_array p b =
     bindr (map_err MServer (tape_take p b)) (\<lambda>(v, c). array_of v c)"

definition tape_scan :: "pool \<Rightarrow> batch \<Rightarrow> (span + span rvalue) \<times> (mismatch + array)" where
  "tape_scan p b =
     (case tape_pair p b of
        (first, second, c) \<Rightarrow> (first, bindr (map_err MServer second) (\<lambda>v. array_of v c)))"

fun read_bulks :: "pool \<Rightarrow> nat \<Rightarrow> key \<Rightarrow> span list \<times> key" where
  "read_bulks p 0 next = ([], next)"
| "read_bulks p (Suc n) next =
     (let node = pool_node p next;
          (spans, next) = read_bulks p n (node_next node)
      in (span_from_stored (node_payload node) # spans, next))"

definition tape_bulks :: "pool \<Rightarrow> nat \<Rightarrow> batch \<Rightarrow> span list \<times> cursor" where
  "tape_bulks p n b =
     (case read_bulks p n (ba_next b) of (spans, next) \<Rightarrow> (spans, batch_finish b next))"

section \<open>Regions\<close>

record region =
  re_tape :: tape
  re_start :: cursor
  re_len :: nat

definition tape_region :: "tape \<Rightarrow> array \<Rightarrow> region" where
  "tape_region t a =
     \<lparr>re_tape = t, re_start = (ar_cursor a)\<lparr>cu_remaining := ar_len a\<rparr>, re_len = ar_len a\<rparr>"

datatype group_error = GLength nat nat | GMismatch mismatch

text \<open>The loop of \<open>bulks\<close> and \<open>optional\<close>: every value of the region must satisfy a predicate.\<close>

function check_values :: "pool \<Rightarrow> (span rvalue \<Rightarrow> bool) \<Rightarrow> cursor \<Rightarrow> mismatch + unit" where
  "check_values p ok c =
     (case cursor_batch 1 c of
        None \<Rightarrow> Inr ()
      | Some b \<Rightarrow>
          (case tape_take p b of
             Inl s \<Rightarrow> Inl (MServer s)
           | Inr (v, next) \<Rightarrow> if \<not> ok v then Inl (MValue v) else check_values p ok next))"
  by pat_completeness auto

lemma cursor_batch_remaining:
  "cursor_batch 1 c = Some b \<Longrightarrow> 0 < cu_remaining c \<and> cu_remaining (batch_finish b k) < cu_remaining c"
  by (auto simp: cursor_batch_def cursor_children_def batch_finish_def sat_add32_def as_u32_def split: if_splits)

termination check_values
  by (relation "measure (\<lambda>(p, ok, c). cu_remaining c)")
    (auto simp: tape_take_def Let_def cursor_batch_remaining split: sum.splits)

declare check_values.simps [simp del]

fun is_bulk :: "span rvalue \<Rightarrow> bool" where
  "is_bulk (VBulk s) = True"
| "is_bulk v = False"

fun is_maybe :: "span rvalue \<Rightarrow> bool" where
  "is_maybe (VBulk s) = True"
| "is_maybe VNil = True"
| "is_maybe v = False"

text \<open>Consuming operations return the pool too: on an error they drop the tape.\<close>

definition region_bulks :: "nat \<Rightarrow> pool \<Rightarrow> region \<Rightarrow> pool \<times> (group_error + region)" where
  "region_bulks w p r =
     (if re_len r mod w \<noteq> 0 then (tape_drop p (re_tape r), Inl (GLength w (re_len r)))
      else
        (case check_values p is_bulk (re_start r) of
           Inl e \<Rightarrow> (tape_drop p (re_tape r), Inl (GMismatch e))
         | Inr _ \<Rightarrow> (p, Inr (r\<lparr>re_len := as_u32 (re_len r div w)\<rparr>))))"

definition region_optional :: "pool \<Rightarrow> region \<Rightarrow> pool \<times> (mismatch + region)" where
  "region_optional p r =
     (case check_values p is_maybe (re_start r) of
        Inl e \<Rightarrow> (tape_drop p (re_tape r), Inl e)
      | Inr _ \<Rightarrow> (p, Inr r))"

text \<open>
  \<open>scored\<close> parses every second value with the caller's \<open>number\<close>, which returns the bits of an
  \<open>f64\<close>, and stores those bits in the node.
\<close>

datatype 'e score_error = SLength nat nat | SServer span | SMember "span rvalue" | SNumber 'e

function score_loop ::
  "(span rvalue \<Rightarrow> 'e + nat) \<Rightarrow> pool \<Rightarrow> cursor \<Rightarrow> pool \<times> ('e score_error + unit)" where
  "score_loop number p c =
     (case cursor_batch 2 c of
        None \<Rightarrow> (p, Inr ())
      | Some b \<Rightarrow>
          let member = pool_node p (ba_next b) in
          (case node_try_value member of
             Inl s \<Rightarrow> (p, Inl (SServer s))
           | Inr value \<Rightarrow>
               if \<not> is_bulk value then (p, Inl (SMember value))
               else
                 let k = node_next member; score = pool_node p k in
                 (case node_try_value score of
                    Inl s \<Rightarrow> (p, Inl (SServer s))
                  | Inr value \<Rightarrow>
                      (case number value of
                         Inl e \<Rightarrow> (p, Inl (SNumber e))
                       | Inr bits \<Rightarrow>
                           score_loop number (pool_set p k (node_with_float score bits))
                             (batch_finish b (node_next score))))))"
  by pat_completeness auto

lemma cursor_batch2_remaining:
  "cursor_batch 2 c = Some b \<Longrightarrow> 0 < cu_remaining c \<and> cu_remaining (batch_finish b k) < cu_remaining c"
  by (auto simp: cursor_batch_def cursor_children_def batch_finish_def sat_add32_def as_u32_def split: if_splits)

termination score_loop
  by (relation "measure (\<lambda>(number, p, c). cu_remaining c)") (auto simp: cursor_batch2_remaining)

declare score_loop.simps [simp del]

definition region_scored ::
  "(span rvalue \<Rightarrow> 'e + nat) \<Rightarrow> pool \<Rightarrow> region \<Rightarrow> pool \<times> ('e score_error + region)" where
  "region_scored number p r =
     (if re_len r mod 2 \<noteq> 0 then (tape_drop p (re_tape r), Inl (SLength 2 (re_len r)))
      else
        (case score_loop number p (re_start r) of
           (p, Inl e) \<Rightarrow> (tape_drop p (re_tape r), Inl e)
         | (p, Inr _) \<Rightarrow> (p, Inr (r\<lparr>re_len := as_u32 (re_len r div 2)\<rparr>))))"

definition region_try_chunks :: "nat \<Rightarrow> region \<Rightarrow> length_mismatch + region" where
  "region_try_chunks n r =
     (if re_len r mod n \<noteq> 0 then Inl (LengthMismatch n (re_len r))
      else Inr (r\<lparr>re_len := as_u32 (re_len r div n)\<rparr>))"

definition region_try_exact :: "nat \<Rightarrow> region \<Rightarrow> length_mismatch + tape \<times> batch option" where
  "region_try_exact n r =
     (case cursor_batch_exact n (re_start r) of
        Inr b \<Rightarrow> Inr (re_tape r, b)
      | Inl actual \<Rightarrow> Inl (LengthMismatch n actual))"

definition region_into_bulks :: "region \<Rightarrow> region" where
  "region_into_bulks r = r\<lparr>re_len := cu_remaining (re_start r)\<rparr>"

fun read_optionals :: "pool \<Rightarrow> nat \<Rightarrow> key \<Rightarrow> span option list \<times> key" where
  "read_optionals p 0 next = ([], next)"
| "read_optionals p (Suc n) next =
     (let node = pool_node p next;
          (spans, next) = read_optionals p n (node_next node)
      in (node_maybe_span node # spans, next))"

definition region_optionals :: "pool \<Rightarrow> nat \<Rightarrow> batch \<Rightarrow> span option list \<times> cursor" where
  "region_optionals p n b =
     (case read_optionals p n (ba_next b) of (spans, next) \<Rightarrow> (spans, batch_finish b next))"

definition region_read_scored :: "pool \<Rightarrow> batch \<Rightarrow> (span \<times> nat) \<times> cursor" where
  "region_read_scored p b =
     (let member = pool_node p (ba_next b); score = pool_node p (node_next member)
      in ((span_from_stored (node_payload member), node_payload score), batch_finish b (node_next score)))"

section \<open>Coordinates\<close>

text \<open>
  \<open>Tape::coordinates\<close> parses the numbers of every optional pair in place; \<open>None\<close> stands for the
  underflow of \<open>remaining - N\<close>.
\<close>

datatype 'e coord_error = CArray mismatch | CMember mismatch | CLength nat | CNumber 'e

fun coord_numbers ::
  "(span rvalue \<Rightarrow> 'e + nat) \<Rightarrow> pool \<Rightarrow> nat \<Rightarrow> key \<Rightarrow> pool \<times> ('e coord_error + key)" where
  "coord_numbers number p 0 next = (p, Inr next)"
| "coord_numbers number p (Suc n) next =
     (let node = pool_node p next in
      case node_try_value node of
        Inl s \<Rightarrow> (p, Inl (CMember (MServer s)))
      | Inr v \<Rightarrow>
          (case number v of
             Inl e \<Rightarrow> (p, Inl (CNumber e))
           | Inr bits \<Rightarrow>
               coord_numbers number (pool_set p next (node_with_float node bits)) n (node_next node)))"

fun coord_loop ::
  "(span rvalue \<Rightarrow> 'e + nat) \<Rightarrow> pool \<Rightarrow> nat \<Rightarrow> cursor \<Rightarrow> (pool \<times> ('e coord_error + unit)) option" where
  "coord_loop number p 0 c = Some (p, Inr ())"
| "coord_loop number p (Suc n) c =
     (case cursor_children 1 c of
        None \<Rightarrow> None
      | Some b \<Rightarrow>
          (case tape_take p b of
             Inl s \<Rightarrow> Some (p, Inl (CMember (MServer s)))
           | Inr (VNil, c) \<Rightarrow> coord_loop number p n c
           | Inr (VArray len, c) \<Rightarrow>
               if len = 2 then
                 (case cursor_children 2 c of
                    None \<Rightarrow> None
                  | Some b \<Rightarrow>
                      (case coord_numbers number p 2 (ba_next b) of
                         (p, Inl e) \<Rightarrow> Some (p, Inl e)
                       | (p, Inr next) \<Rightarrow> coord_loop number p n (batch_finish b next)))
               else Some (p, Inl (CLength len))
           | Inr (v, c) \<Rightarrow> Some (p, Inl (CMember (MValue v)))))"

definition tape_coordinates ::
  "(span rvalue \<Rightarrow> 'e + nat) \<Rightarrow> pool \<Rightarrow> tape \<Rightarrow> (pool \<times> ('e coord_error + region)) option" where
  "tape_coordinates number p t =
     (case tape_array p (tape_root p t) of
        Inl e \<Rightarrow> Some (tape_drop p t, Inl (CArray e))
      | Inr outer \<Rightarrow>
          (case coord_loop number p (ar_len outer) (ar_cursor outer) of
             None \<Rightarrow> None
           | Some (p, Inl e) \<Rightarrow> Some (tape_drop p t, Inl e)
           | Some (p, Inr _) \<Rightarrow>
               Some (p, Inr \<lparr>re_tape = t,
                            re_start = \<lparr>cu_next = cu_next (ar_cursor outer), cu_remaining = ar_len outer\<rparr>,
                            re_len = ar_len outer\<rparr>)))"

text \<open>\<open>CoordinateIter::next\<close>: longitude and latitude as bits.\<close>

definition coordinate_next :: "pool \<Rightarrow> cursor \<Rightarrow> ((nat \<times> nat) option \<times> cursor) option" where
  "coordinate_next p c =
     (case cursor_batch 1 c of
        None \<Rightarrow> None
      | Some b \<Rightarrow>
          let member = pool_node p (ba_next b) in
          (if node_tag member = TNil then Some (None, batch_finish b (node_next member))
           else
             let lon = pool_node p (node_next member); lat = pool_node p (node_next lon) in
             Some (Some (node_payload lon, node_payload lat), batch_finish b (node_next lat))))"

section \<open>The reader\<close>

datatype event =
    EvNil | EvOk | EvStatus bytes | EvError bytes | EvInteger int | EvBulk bytes | EvArray nat

text \<open>The slice of a span is taken unchecked; \<open>None\<close> stands for a span outside the frame.\<close>

fun event_of :: "bytes \<Rightarrow> kind \<Rightarrow> event option" where
  "event_of frame KNil = Some EvNil"
| "event_of frame KOk = Some EvOk"
| "event_of frame (KStatus s) = map_option EvStatus (span_bytes frame s)"
| "event_of frame (KError s) = map_option EvError (span_bytes frame s)"
| "event_of frame (KInteger v) = Some (EvInteger v)"
| "event_of frame (KBulk s) = map_option EvBulk (span_bytes frame s)"
| "event_of frame (KArray n) = Some (EvArray n)"

definition reader_next :: "bytes \<Rightarrow> pool \<Rightarrow> cursor \<Rightarrow> (event option \<times> cursor) option" where
  "reader_next frame p c =
     (case tape_event p c of
        None \<Rightarrow> None
      | Some (k, c) \<Rightarrow> Some (event_of frame k, c))"

definition reader_finish :: "cursor \<Rightarrow> protocol_error + unit" where
  "reader_finish c = (if cu_remaining c = 0 then Inr () else Inl (ValuesError (cu_remaining c)))"

text \<open>Reading to the end; the count of the cursor bounds the calls.\<close>

fun read_all :: "nat \<Rightarrow> bytes \<Rightarrow> pool \<Rightarrow> cursor \<Rightarrow> event option list \<times> cursor" where
  "read_all 0 frame p c = ([], c)"
| "read_all (Suc n) frame p c =
     (case reader_next frame p c of
        None \<Rightarrow> ([], c)
      | Some (ev, c) \<Rightarrow> (case read_all n frame p c of (evs, c) \<Rightarrow> (ev # evs, c)))"

section \<open>Reading a ring\<close>

text \<open>\<open>reads p c ks\<close>: from the cursor the nodes still to be read are those of the keys \<open>ks\<close>.\<close>

fun chain :: "(key \<Rightarrow> key) \<Rightarrow> key \<Rightarrow> key list \<Rightarrow> bool" where
  "chain f k [] = True"
| "chain f k (x # xs) = (x = k \<and> chain f (f k) xs)"

definition reads :: "pool \<Rightarrow> cursor \<Rightarrow> key list \<Rightarrow> bool" where
  "reads p c ks \<longleftrightarrow>
     cu_remaining c = length ks \<and> length ks \<le> u32_max \<and> chain (pool_next p) (cu_next c) ks"

lemma linked_chain: "linked f (k # ks) z \<Longrightarrow> chain f k (k # ks)"
proof (induction ks arbitrary: k)
  case (Cons x xs)
  then show ?case by (cases xs) auto
qed simp

lemma chain_append:
  "chain f k (xs @ ys) \<longleftrightarrow> chain f k xs \<and> chain f (if xs = [] then k else f (last xs)) ys"
  by (induction xs arbitrary: k) auto

lemma reads_Cons:
  assumes "reads p c (k # ks)"
  shows "cursor_batch 1 c = Some \<lparr>ba_next = k, ba_left = length ks + 1\<rparr>"
    and "cursor_children 1 c = Some \<lparr>ba_next = k, ba_left = length ks + 1\<rparr>"
    and "reads p (batch_finish \<lparr>ba_next = k, ba_left = length ks + 1\<rparr> (pool_next p k)) ks"
  using assms by (auto simp: reads_def cursor_batch_def cursor_children_def batch_finish_def)

lemma reads_Nil: "reads p c [] \<Longrightarrow> cursor_batch 1 c = None"
  by (simp add: reads_def cursor_batch_def)

lemma tape_event_Cons:
  assumes "reads p c (k # ks)"
  shows "\<exists>c'. tape_event p c = Some (node_kind (pool_node p k), c') \<and> reads p c' ks"
  using reads_Cons[OF assms] by (simp add: tape_event_def pool_next_def Let_def)

lemma tape_take_Cons:
  assumes "reads p c (k # ks)"
  shows "\<exists>b c'. cursor_batch 1 c = Some b \<and> cursor_children 1 c = Some b \<and> reads p c' ks \<and>
    tape_take p b = (case value_of_kind (node_kind (pool_node p k)) of Inl s \<Rightarrow> Inl s | Inr v \<Rightarrow> Inr (v, c'))"
  using reads_Cons[OF assms] unfolding tape_take_def node_try_value_kind
  by (auto simp: pool_next_def Let_def split: sum.split)

lemma reads_tape:
  assumes "pool_inv p own" and "ring_tail (own j) = Some (tp_tail t)" and "tp_len t = length (own j)"
  shows "reads p (tape_cursor p t) (own j)"
proof -
  from assms(2) have ne: "own j \<noteq> []" and tl: "tp_tail t = last (own j)"
    by (auto simp: ring_tail_def split: if_splits)
  then obtain k ks where k: "own j = k # ks" by (cases "own j") auto
  have nx: "pool_next p (tp_tail t) = k" using pool_inv_last_next[OF assms(1) ne] tl k by simp
  have "linked (pool_next p) (k # ks) k" using pool_inv_ring[OF assms(1) ne] k by simp
  from linked_chain[OF this] have "chain (pool_next p) k (own j)" using k by simp
  moreover have "length (own j) \<le> u32_max"
  proof -
    have "set (own j) \<subseteq> {1..length (nodes p)}" "distinct (own j)" "length (nodes p) \<le> u32_max"
      using assms(1) unfolding pool_inv_def by blast+
    then have "card (set (own j)) \<le> card {1..length (nodes p)}" by (intro card_mono) auto
    with \<open>distinct (own j)\<close> \<open>length (nodes p) \<le> u32_max\<close> show ?thesis
      by (simp add: distinct_card)
  qed
  ultimately show ?thesis using nx assms(3) by (simp add: reads_def tape_cursor_def)
qed

lemma read_all_reads:
  assumes "reads p c ks"
  shows "\<exists>c'. read_all (length ks) frame p c =
      (map (\<lambda>k. event_of frame (node_kind (pool_node p k))) ks, c') \<and> cu_remaining c' = 0 \<and>
    reader_next frame p c' = None"
  using assms
proof (induction ks arbitrary: c)
  case Nil
  then show ?case using reads_Nil[OF Nil] by (simp add: reads_def reader_next_def tape_event_def)
next
  case (Cons k ks)
  from tape_event_Cons[OF Cons.prems] obtain c' where
    "tape_event p c = Some (node_kind (pool_node p k), c')" "reads p c' ks" by blast
  with Cons.IH[of c'] show ?case by (auto simp: reader_next_def)
qed

section \<open>Regions over a ring\<close>

text \<open>The reference: the first kind that does not qualify.\<close>

fun first_bad :: "(span rvalue \<Rightarrow> bool) \<Rightarrow> kind list \<Rightarrow> mismatch + unit" where
  "first_bad ok [] = Inr ()"
| "first_bad ok (k # ks) =
     (case value_of_kind k of
        Inl s \<Rightarrow> Inl (MServer s)
      | Inr v \<Rightarrow> if ok v then first_bad ok ks else Inl (MValue v))"

lemma check_values_reads:
  assumes "reads p c ks"
  shows "check_values p ok c = first_bad ok (tape_kinds p ks)"
  using assms
proof (induction ks arbitrary: c)
  case Nil
  from reads_Nil[OF this] show ?case by (subst check_values.simps) (simp add: tape_kinds_def)
next
  case (Cons k ks)
  from tape_take_Cons[OF Cons.prems] obtain b c' where b: "cursor_batch 1 c = Some b" "reads p c' ks"
    "tape_take p b = (case value_of_kind (node_kind (pool_node p k)) of Inl s \<Rightarrow> Inl s | Inr v \<Rightarrow> Inr (v, c'))"
    by blast
  with Cons.IH[OF b(2)] show ?case
    by (subst check_values.simps) (simp add: tape_kinds_def split: sum.split)
qed

lemma first_bad_Inr:
  "first_bad ok ks = Inr () \<longleftrightarrow> (\<forall>k \<in> set ks. \<exists>v. value_of_kind k = Inr v \<and> ok v)"
  by (induction ks) (auto split: sum.splits)

lemma value_is_bulk: "(\<exists>v. value_of_kind k = Inr v \<and> is_bulk v) \<longleftrightarrow> (\<exists>s. k = KBulk s)"
  by (cases k) auto

lemma node_bulk_payload: "node_kind n = KBulk s \<Longrightarrow> span_from_stored (node_payload n) = s"
  by (auto simp: node_kind_def split: tag.splits)

lemma read_bulks_chain:
  assumes "chain (pool_next p) k ks" and "tape_kinds p ks = map KBulk spans"
  shows "\<exists>k'. read_bulks p (length ks) k = (spans, k') \<and> (\<forall>xs. chain (pool_next p) k (ks @ xs) \<longrightarrow> chain (pool_next p) k' xs)"
  using assms
proof (induction ks arbitrary: k spans)
  case (Cons x xs)
  then obtain s ss where sp: "spans = s # ss" by (cases spans) (auto simp: tape_kinds_def)
  from Cons.prems have x: "x = k" "chain (pool_next p) (pool_next p k) xs" by auto
  from Cons.prems sp x have "tape_kinds p xs = map KBulk ss" "node_kind (pool_node p k) = KBulk s"
    by (simp_all add: tape_kinds_def)
  from Cons.IH[OF x(2) this(1)] obtain k' where
    "read_bulks p (length xs) (pool_next p k) = (ss, k')"
    "\<forall>ys. chain (pool_next p) (pool_next p k) (xs @ ys) \<longrightarrow> chain (pool_next p) k' ys" by blast
  moreover have "span_from_stored (node_payload (pool_node p k)) = s"
    by (rule node_bulk_payload) fact
  ultimately show ?case by (simp add: sp x(1) Let_def flip: pool_next_def)
qed (simp add: tape_kinds_def)

text \<open>A region of bulks reads in groups of any width, each group the next spans of the array.\<close>

lemma tape_bulks_reads:
  assumes r: "reads p c (ks @ rest)" and k: "tape_kinds p ks = map KBulk spans" and n: "0 < length ks"
  shows "\<exists>b c'. cursor_batch (length ks) c = Some b \<and> tape_bulks p (length ks) b = (spans, c') \<and> reads p c' rest"
proof -
  let ?b = "\<lparr>ba_next = cu_next c, ba_left = length rest + 1\<rparr>"
  from r n have "1 + length rest \<le> u32_max" by (cases ks) (auto simp: reads_def)
  with r have b: "cursor_batch (length ks) c = Some ?b"
    by (auto simp: reads_def cursor_batch_def cursor_children_def)
  from r have ch: "chain (pool_next p) (cu_next c) (ks @ rest)" by (simp add: reads_def)
  then have "chain (pool_next p) (cu_next c) ks" by (simp add: chain_append)
  from read_bulks_chain[OF this k] ch obtain k' where
    "read_bulks p (length ks) (cu_next c) = (spans, k')" "chain (pool_next p) k' rest" by blast
  then have "tape_bulks p (length ks) ?b = (spans, batch_finish ?b k')"
    "reads p (batch_finish ?b k') rest"
    using r by (auto simp: tape_bulks_def reads_def batch_finish_def)
  with b show ?thesis by blast
qed

section \<open>Coordinates over a ring\<close>

text \<open>
  One member of the reply: the key of its node, and the keys of the two numbers when it is a pair.
\<close>

type_synonym member = "key \<times> (key \<times> key) option"

fun member_keys :: "member \<Rightarrow> key list" where
  "member_keys (k, None) = [k]"
| "member_keys (k, Some (x, y)) = [k, x, y]"

fun member_ok :: "(span rvalue \<Rightarrow> 'e + nat) \<Rightarrow> pool \<Rightarrow> member \<Rightarrow> (nat \<times> nat) option \<Rightarrow> bool" where
  "member_ok number p (k, None) out \<longleftrightarrow> node_kind (pool_node p k) = KNil \<and> out = None"
| "member_ok number p (k, Some (x, y)) out \<longleftrightarrow>
     node_kind (pool_node p k) = KArray 2 \<and>
     (\<exists>v w a b. value_of_kind (node_kind (pool_node p x)) = Inr v \<and> number v = Inr a \<and>
        value_of_kind (node_kind (pool_node p y)) = Inr w \<and> number w = Inr b \<and> out = Some (a, b))"

text \<open>The nodes of a pool after the numbers were written: links and tags as before.\<close>

definition same_links :: "pool \<Rightarrow> pool \<Rightarrow> bool" where
  "same_links p q \<longleftrightarrow> length (nodes q) = length (nodes p) \<and>
     (\<forall>k. key_in p k \<longrightarrow> pool_next q k = pool_next p k \<and> node_tag (pool_node q k) = node_tag (pool_node p k))"

definition same_nodes :: "pool \<Rightarrow> pool \<Rightarrow> key set \<Rightarrow> bool" where
  "same_nodes p q K \<longleftrightarrow> (\<forall>k. key_in p k \<longrightarrow> k \<notin> K \<longrightarrow> pool_node q k = pool_node p k)"

fun member_payload :: "pool \<Rightarrow> member \<Rightarrow> (nat \<times> nat) option" where
  "member_payload p (k, None) = None"
| "member_payload p (k, Some (x, y)) = Some (node_payload (pool_node p x), node_payload (pool_node p y))"

lemma same_links_key_in: "same_links p q \<Longrightarrow> key_in q k = key_in p k"
  by (simp add: same_links_def key_in_def)

lemma same_trans:
  "same_links p q \<Longrightarrow> same_links q r \<Longrightarrow> same_links p r"
  "same_links p q \<Longrightarrow> same_nodes p q K \<Longrightarrow> same_nodes q r L \<Longrightarrow> same_nodes p r (K \<union> L)"
  by (auto simp: same_links_def same_nodes_def key_in_def)

lemma write_float:
  assumes "key_in p k"
  shows "same_links p (pool_set p k (node_with_float (pool_node p k) bits))"
    and "same_nodes p (pool_set p k (node_with_float (pool_node p k) bits)) {k}"
    and "node_payload (pool_node (pool_set p k (node_with_float (pool_node p k) bits)) k) = bits"
  using assms by (auto simp: same_links_def same_nodes_def pool_next_set pool_node_set node_with_float_def pool_next_def)

lemma coord_numbers_pair:
  assumes k: "key_in p x" "key_in p y" "x \<noteq> y" and nx: "pool_next p x = y"
    and v: "value_of_kind (node_kind (pool_node p x)) = Inr v" "number v = Inr a"
    and w: "value_of_kind (node_kind (pool_node p y)) = Inr w" "number w = Inr b"
  shows "\<exists>q. coord_numbers number p 2 x = (q, Inr (pool_next p y)) \<and> same_links p q \<and> same_nodes p q {x, y} \<and>
    node_payload (pool_node q x) = a \<and> node_payload (pool_node q y) = b"
proof -
  let ?q1 = "pool_set p x (node_with_float (pool_node p x) a)"
  let ?q2 = "pool_set ?q1 y (node_with_float (pool_node ?q1 y) b)"
  note f1 = write_float[OF k(1), of a]
  have ky: "key_in ?q1 y" using k by simp
  note f2 = write_float[OF ky, of b]
  have y: "pool_node ?q1 y = pool_node p y" using k by (simp add: pool_node_set)
  have "coord_numbers number p 2 x = (?q2, Inr (pool_next p y))"
    using v w nx y by (simp add: numeral_2_eq_2 node_try_value_kind pool_next_def Let_def)
  moreover have "same_links p ?q2" by (rule same_trans(1)[OF f1(1) f2(1)])
  moreover have "same_nodes p ?q2 ({x} \<union> {y})" by (rule same_trans(2)[OF f1(1,2) f2(2)])
  moreover have "node_payload (pool_node ?q2 x) = a" using k f1(3) by (simp add: pool_node_set)
  ultimately show ?thesis using f2(3) by (auto simp: insert_commute)
qed

lemma same_nodes_kinds:
  assumes "same_nodes p q K" and "set (member_keys m) \<inter> K = {}" and "\<forall>k \<in> set (member_keys m). key_in p k"
  shows "member_ok number q m out = member_ok number p m out" and "member_payload q m = member_payload p m"
  using assms by (cases m rule: member_keys.cases; auto simp: same_nodes_def)+

lemma same_links_chain:
  "same_links p q \<Longrightarrow> \<forall>k \<in> set ks. key_in p k \<Longrightarrow> chain (pool_next q) k0 ks = chain (pool_next p) k0 ks"
proof (induction ks arbitrary: k0)
  case (Cons x xs)
  then show ?case by (auto simp: same_links_def)
qed simp

lemma same_links_reads:
  "same_links p q \<Longrightarrow> \<forall>k \<in> set ks. key_in p k \<Longrightarrow> reads q c ks = reads p c ks"
  by (simp add: reads_def same_links_chain)

text \<open>
  Over members that are nil or pairs of numbers the loop succeeds, writes exactly the numbers, and
  changes no link, no tag and no other node.
\<close>

lemma coord_loop_ok:
  assumes "reads p c (concat (map member_keys ms))" and "distinct (concat (map member_keys ms))"
    and "\<forall>k \<in> set (concat (map member_keys ms)). key_in p k" and "list_all2 (member_ok number p) ms outs"
  shows "\<exists>q. coord_loop number p (length ms) c = Some (q, Inr ()) \<and> same_links p q \<and>
    same_nodes p q (set (concat (map member_keys ms))) \<and> map (member_payload q) ms = outs"
  using assms
proof (induction ms arbitrary: p c outs)
  case Nil
  then show ?case by (simp add: same_links_def same_nodes_def)
next
  case (Cons m ms)
  let ?ks = "concat (map member_keys ms)"
  from Cons.prems(4) obtain out outs' where o: "outs = out # outs'" "member_ok number p m out"
      "list_all2 (member_ok number p) ms outs'"
    by (cases outs) auto
  have dis: "set (member_keys m) \<inter> set ?ks = {}" "distinct ?ks"
    using Cons.prems(2) by auto
  have later: "\<forall>x \<in> set ms. set (member_keys x) \<inter> set (member_keys m) = {} \<and> (\<forall>k \<in> set (member_keys x). key_in p k)"
    using dis(1) Cons.prems(3) by auto
  show ?case
  proof (cases m rule: member_keys.cases)
    case (1 k)
    with Cons.prems(1) have r: "reads p c (k # ?ks)" by simp
    from tape_take_Cons[OF r] 1 o obtain b c' where b: "cursor_children 1 c = Some b" "reads p c' ?ks"
      "tape_take p b = Inr (VNil, c')"
      by auto
    from Cons.IH[OF b(2) dis(2) _ o(3)] Cons.prems(3) obtain q where
      q: "coord_loop number p (length ms) c' = Some (q, Inr ())" "same_links p q" "same_nodes p q (set ?ks)"
        "map (member_payload q) ms = outs'" by auto
    have "same_nodes p q (set (concat (map member_keys (m # ms))))" using q(3) by (auto simp: same_nodes_def)
    with q b 1 o show ?thesis by simp
  next
    case (2 k x y)
    with Cons.prems(1) have r: "reads p c (k # x # y # ?ks)" by simp
    from 2 o(2) obtain v w a bb where kk: "node_kind (pool_node p k) = KArray 2"
      and v: "value_of_kind (node_kind (pool_node p x)) = Inr v" "number v = Inr a"
      and w: "value_of_kind (node_kind (pool_node p y)) = Inr w" "number w = Inr bb" and out: "out = Some (a, bb)"
      by auto
    from tape_take_Cons[OF r] kk obtain b c' where b: "cursor_children 1 c = Some b" "reads p c' (x # y # ?ks)"
      "tape_take p b = Inr (VArray 2, c')" by auto
    from b(2) have ch: "pool_next p x = y" "cu_next c' = x" "chain (pool_next p) (pool_next p y) ?ks"
      and rem: "cu_remaining c' = length ?ks + 2" "length ?ks + 2 \<le> u32_max"
      by (auto simp: reads_def)
    have b2: "cursor_children 2 c' = Some \<lparr>ba_next = x, ba_left = length ?ks + 1\<rparr>"
      using ch rem by (simp add: cursor_children_def)
    have ki: "key_in p x" "key_in p y" "x \<noteq> y" using Cons.prems(2,3) 2 by auto
    from coord_numbers_pair[OF ki ch(1) v w] obtain p1 where
      n: "coord_numbers number p 2 x = (p1, Inr (pool_next p y))" "same_links p p1" "same_nodes p p1 {x, y}"
        "node_payload (pool_node p1 x) = a" "node_payload (pool_node p1 y) = bb" by blast
    let ?c = "batch_finish \<lparr>ba_next = x, ba_left = length ?ks + 1\<rparr> (pool_next p y)"
    have kin: "\<forall>k \<in> set ?ks. key_in p k" using Cons.prems(3) by simp
    have "reads p ?c ?ks" using ch(3) rem by (simp add: reads_def batch_finish_def)
    then have r1: "reads p1 ?c ?ks" using same_links_reads[OF n(2) kin] by simp
    have "list_all2 (member_ok number p1) ms outs'"
    proof (rule list.rel_mono_strong[OF o(3)])
      fix mm oo assume "mm \<in> set ms" "member_ok number p mm oo"
      moreover have "set (member_keys mm) \<inter> {x, y} = {}" using later \<open>mm \<in> set ms\<close> 2 by auto
      ultimately show "member_ok number p1 mm oo"
        using same_nodes_kinds(1)[OF n(3), of mm number oo] later by blast
    qed
    from Cons.IH[OF r1 dis(2) _ this] kin same_links_key_in[OF n(2)] obtain q where
      q: "coord_loop number p1 (length ms) ?c = Some (q, Inr ())" "same_links p1 q" "same_nodes p1 q (set ?ks)"
        "map (member_payload q) ms = outs'" by auto
    have "same_nodes p q ({x, y} \<union> set ?ks)" by (rule same_trans(2)[OF n(2,3) q(3)])
    then have sn: "same_nodes p q (set (concat (map member_keys (m # ms))))" using 2 by (auto simp: same_nodes_def)
    have "node_payload (pool_node q x) = a" "node_payload (pool_node q y) = bb"
      using q(3) n(4,5) ki dis(1) 2 same_links_key_in[OF n(2)] by (auto simp: same_nodes_def)
    then have "member_payload q m = out" using 2 out by simp
    with same_trans(1)[OF n(2) q(2)] sn q b b2 n(1) 2 o show ?thesis by simp
  qed
qed

text \<open>Iterating over the members after that reads the numbers back.\<close>

fun coordinates_all :: "nat \<Rightarrow> pool \<Rightarrow> cursor \<Rightarrow> (nat \<times> nat) option list" where
  "coordinates_all 0 p c = []"
| "coordinates_all (Suc n) p c =
     (case coordinate_next p c of None \<Rightarrow> [] | Some (v, c) \<Rightarrow> v # coordinates_all n p c)"

lemma coordinates_all_ok:
  assumes "chain (pool_next p) (cu_next c) (concat (map member_keys ms))" and "cu_remaining c = length ms"
    and "length ms \<le> u32_max"
    and "\<forall>m \<in> set ms. (node_tag (pool_node p (fst m)) = TNil) = (snd m = None)"
  shows "coordinates_all (length ms) p c = map (member_payload p) ms"
  using assms
proof (induction ms arbitrary: c)
  case (Cons m ms)
  have b: "cursor_batch 1 c = Some \<lparr>ba_next = cu_next c, ba_left = length ms + 1\<rparr>"
    using Cons.prems by (simp add: cursor_batch_def cursor_children_def)
  show ?case
  proof (cases m rule: member_keys.cases)
    case (1 k)
    let ?c = "batch_finish \<lparr>ba_next = cu_next c, ba_left = length ms + 1\<rparr> (pool_next p k)"
    have "coordinates_all (length ms) p ?c = map (member_payload p) ms"
      by (rule Cons.IH) (use Cons.prems 1 in \<open>auto simp: batch_finish_def\<close>)
    moreover have "coordinate_next p c = Some (None, ?c)"
      using b Cons.prems(1,4) 1 by (auto simp: coordinate_next_def pool_next_def Let_def)
    ultimately show ?thesis using 1 by simp
  next
    case (2 k x y)
    let ?c = "batch_finish \<lparr>ba_next = cu_next c, ba_left = length ms + 1\<rparr> (pool_next p y)"
    have "coordinates_all (length ms) p ?c = map (member_payload p) ms"
      by (rule Cons.IH) (use Cons.prems 2 in \<open>auto simp: batch_finish_def\<close>)
    moreover have "coordinate_next p c = Some (member_payload p m, ?c)"
      using b Cons.prems(1,4) 2 by (auto simp: coordinate_next_def pool_next_def Let_def)
    ultimately show ?thesis by simp
  qed
qed simp

end
