(* ===== verification/Resp_Read.thy ===== *)
theory Resp_Read
  imports Resp_Wire Resp_Tape
begin

text \<open>
  What a reader makes of a completed reply: the events of the reply in order, whatever path the
  bytes took through scanner, tape and cursor; and what the typed regions make of its arrays.
\<close>

fun events :: "resp \<Rightarrow> event list" where
  "events RNil = [EvNil]"
| "events RNilArray = [EvNil]"
| "events (RStatus s) = [if s = ascii ''OK'' then EvOk else EvStatus s]"
| "events (RError s) = [EvError s]"
| "events (RInteger v) = [EvInteger v]"
| "events (RBulk s) = [EvBulk s]"
| "events (RArray vs) = EvArray (length vs) # concat (map events vs)"

lemma kinds_events:
  "length pre = off \<Longrightarrow> off + length (wire v) \<le> u32_max \<Longrightarrow>
     map (event_of (pre @ wire v @ post)) (kinds off v) = map Some (events v)"
  "length pre = off \<Longrightarrow> off + length (concat (map wire vs)) \<le> u32_max \<Longrightarrow>
     map (event_of (pre @ concat (map wire vs) @ post)) (kinds_list off vs) = map Some (concat (map events vs))"
proof (induction off v and off vs arbitrary: pre post and pre post rule: kinds_kinds_list.induct)
  case (3 off s)
  then show ?case using span_bytes_at[of "off + 1" "pre @ [43]" s "crlf @ post"] by simp
next
  case (4 off s)
  then show ?case using span_bytes_at[of "off + 1" "pre @ [45]" s "crlf @ post"] by simp
next
  case (6 off s)
  then show ?case
    using span_bytes_at[of "off + length (decimal (length s)) + 3" "pre @ 36 # decimal (length s) @ crlf" s
        "crlf @ post"] by simp
next
  case (7 off vs)
  have "map (event_of ((pre @ 42 # decimal (length vs) @ crlf) @ concat (map wire vs) @ post))
      (kinds_list (off + length (decimal (length vs)) + 3) vs) = map Some (concat (map events vs))"
    by (rule 7(1)) (use 7 in simp_all)
  then show ?case by simp
next
  case (9 off v vs)
  have "map (event_of (pre @ wire v @ concat (map wire vs) @ post)) (kinds off v) = map Some (events v)"
    by (rule 9(1)) (use 9 in simp_all)
  moreover have "map (event_of ((pre @ wire v) @ concat (map wire vs) @ post))
      (kinds_list (off + length (wire v)) vs) = map Some (concat (map events vs))"
    by (rule 9(2)) (use 9 in simp_all)
  ultimately show ?case by simp
qed simp_all

text \<open>Reading a finished tape of a reply to its end.\<close>

lemma finished_reads:
  assumes "finished m own i tail len n"
  shows "reads (st_pool (mc_store m)) (tape_cursor (st_pool (mc_store m)) \<lparr>tp_tail = tail, tp_len = len\<rparr>)
    (own (Some i))"
  using assms by (intro reads_tape[where own = own and j = "Some i"]) (simp_all add: finished_def)

lemma read_finished:
  assumes f: "finished m own i tail len n" and k: "tape_kinds (st_pool (mc_store m)) (own (Some i)) = kinds 0 v"
    and l: "length (wire v) \<le> u32_max"
  shows "\<exists>c. read_all len (wire v) (st_pool (mc_store m))
      (tape_cursor (st_pool (mc_store m)) \<lparr>tp_tail = tail, tp_len = len\<rparr>) = (map Some (events v), c) \<and>
    reader_finish c = Inr () \<and> reader_next (wire v) (st_pool (mc_store m)) c = None"
proof -
  let ?p = "st_pool (mc_store m)"
  have len: "len = length (own (Some i))" using f by (simp add: finished_def)
  have "map (\<lambda>k. event_of (wire v) (node_kind (pool_node ?p k))) (own (Some i)) =
      map (event_of (wire v)) (tape_kinds ?p (own (Some i)))" by (simp add: tape_kinds_def)
  also have "\<dots> = map Some (events v)" using kinds_events(1)[of "[]" 0 v "[]"] l by (simp add: k)
  finally show ?thesis
    using read_all_reads[OF finished_reads[OF f], of "wire v"] by (auto simp: reader_finish_def len)
qed

lemma feed_new:
  assumes "fits byte_max node_max v" and "has_room st own i v" and "makes_sources mk"
    and "concat pieces = wire v @ rest"
  shows "\<exists>m' own' tail.
    parser_feed F mk byte_max node_max [] pieces (parser_new st) =
      Some (m', Complete (wire v) tail (length (kinds 0 v)) (length (wire v))) \<and>
    finished m' own' i tail (length (kinds 0 v)) (length (wire v)) \<and>
    tape_kinds (st_pool (mc_store m')) (own' (Some i)) = kinds 0 v"
proof -
  have "pool_inv (st_pool st) own" "own (Some i) = []" using assms(2) by (simp_all add: has_room_def)
  note new = parser_new_inv(2)[OF this]
  show ?thesis
    by (rule feed_wire[OF assms(1-3) _ new]) (use assms(4) in \<open>simp_all add: agree_opt_refl\<close>)
qed

lemma feed_read:
  assumes "fits byte_max node_max v" and "has_room st own i v" and "makes_sources mk"
    and "concat pieces = wire v @ rest"
  shows "\<exists>m' tail len c.
    parser_feed F mk byte_max node_max [] pieces (parser_new st) =
      Some (m', Complete (wire v) tail len (length (wire v))) \<and>
    read_all len (wire v) (st_pool (mc_store m'))
      (tape_cursor (st_pool (mc_store m')) \<lparr>tp_tail = tail, tp_len = len\<rparr>) = (map Some (events v), c) \<and>
    reader_finish c = Inr ()"
proof -
  from feed_new[OF assms, of F] obtain m' own' tail where f:
    "parser_feed F mk byte_max node_max [] pieces (parser_new st) =
      Some (m', Complete (wire v) tail (length (kinds 0 v)) (length (wire v)))"
    "finished m' own' i tail (length (kinds 0 v)) (length (wire v))"
    "tape_kinds (st_pool (mc_store m')) (own' (Some i)) = kinds 0 v" by (elim exE conjE)
  have "length (wire v) \<le> u32_max" using assms(1) by (simp add: fits_def bound_ok_def)
  from read_finished[OF f(2,3) this] obtain c where c:
    "read_all (length (kinds 0 v)) (wire v) (st_pool (mc_store m'))
       (tape_cursor (st_pool (mc_store m')) \<lparr>tp_tail = tail, tp_len = length (kinds 0 v)\<rparr>) = (map Some (events v), c)"
    "reader_finish c = Inr ()" by (elim exE conjE)
  show ?thesis by (intro exI conjI; rule f(1) c)
qed

text \<open>Dropping the tape gives its nodes back and leaves every other ring.\<close>

lemma finished_drop:
  assumes "finished m own i tail len n"
  shows "pool_inv (tape_drop (st_pool (mc_store m)) \<lparr>tp_tail = tail, tp_len = len\<rparr>)
    (own(None := own None @ own (Some i), Some i := []))"
  using pool_inv_release[of "st_pool (mc_store m)" own i] assms by (simp add: tape_drop_def finished_def)

section \<open>Regions\<close>

text \<open>
  The region over the first \<open>n\<close> values of a cursor's ring: \<open>bulks\<close> answers exactly the first of the
  checks that fails, in the order of the code, and a failing check drops the tape.
\<close>

definition bulks_spec :: "nat \<Rightarrow> nat \<Rightarrow> kind list \<Rightarrow> group_error + nat" where
  "bulks_spec w n ks =
     (if n mod w \<noteq> 0 then Inl (GLength w n)
      else case first_bad is_bulk ks of Inl e \<Rightarrow> Inl (GMismatch e) | Inr _ \<Rightarrow> Inr (n div w))"

lemma region_bulks_exact:
  assumes "reads p (re_start r) ks" and "re_len r = length ks"
  shows "map_sum id re_len (snd (region_bulks w p r)) = bulks_spec w (length ks) (tape_kinds p ks) \<and>
    (\<forall>e. snd (region_bulks w p r) = Inl e \<longrightarrow> fst (region_bulks w p r) = tape_drop p (re_tape r)) \<and>
    (\<forall>g. snd (region_bulks w p r) = Inr g \<longrightarrow> fst (region_bulks w p r) = p \<and> re_start g = re_start r \<and> re_tape g = re_tape r)"
proof -
  have "length ks div w \<le> u32_max" using assms(1) div_le_dividend[of "length ks" w]
    unfolding reads_def by (meson le_trans)
  then show ?thesis
    using check_values_reads[OF assms(1), of is_bulk] assms(2)
    by (simp add: region_bulks_def bulks_spec_def split: sum.split)
qed

lemma region_optional_exact:
  assumes "reads p (re_start r) ks"
  shows "region_optional p r =
    (case first_bad is_maybe (tape_kinds p ks) of
       Inl e \<Rightarrow> (tape_drop p (re_tape r), Inl e)
     | Inr _ \<Rightarrow> (p, Inr r))"
  using check_values_reads[OF assms, of is_maybe] by (simp add: region_optional_def split: sum.split)

text \<open>The array of a reply of bulks, read in groups of \<open>w\<close>.\<close>

fun read_groups :: "pool \<Rightarrow> nat \<Rightarrow> nat \<Rightarrow> cursor \<Rightarrow> span list list" where
  "read_groups p w 0 c = []"
| "read_groups p w (Suc n) c =
     (case cursor_batch w c of
        None \<Rightarrow> []
      | Some b \<Rightarrow> (case tape_bulks p w b of (spans, c) \<Rightarrow> spans # read_groups p w n c))"

lemma read_groups_all:
  assumes "reads p c ks" and "tape_kinds p ks = map KBulk spans" and "length ks = n * w" and "0 < w"
  shows "concat (read_groups p w n c) = spans \<and> length (read_groups p w n c) = n \<and>
    (\<forall>g \<in> set (read_groups p w n c). length g = w)"
  using assms
proof (induction n arbitrary: c ks spans)
  case 0
  then show ?case by (simp add: tape_kinds_def)
next
  case (Suc n)
  let ?a = "take w ks" and ?b = "drop w ks"
  have l: "length ?a = w" "length ?b = n * w" using Suc.prems(3) by simp_all
  have k: "tape_kinds p ?a = map KBulk (take w spans)" "tape_kinds p ?b = map KBulk (drop w spans)"
    using Suc.prems(2) by (simp_all add: tape_kinds_def flip: take_map drop_map)
  have "length spans = length ks" using arg_cong[OF Suc.prems(2), of length] by (simp add: tape_kinds_def)
  then have lw: "length (take w spans) = w" using Suc.prems(3) by simp
  have "reads p c (?a @ ?b)" "0 < length ?a" using Suc.prems(1,4) l by simp_all
  from tape_bulks_reads[OF this(1) k(1) this(2), unfolded l] obtain b c' where
    b: "cursor_batch w c = Some b" "tape_bulks p w b = (take w spans, c')" "reads p c' ?b" by blast
  from Suc.IH[OF b(3) k(2) l(2) Suc.prems(4)] b lw show ?case by simp
qed

end
