(* ===== verification/Req_Encode.thy ===== *)
theory Req_Encode
  imports Resp_Wire
begin

text \<open>
  \<open>redis/src/request/mod.rs\<close> and \<open>redis/src/request/encode/\<close>: the encoder of Redis requests.  A
  request is measured first, a frame of exactly that size is reserved, and the frame is then written
  through a writer that refuses more bytes than reserved and reports any that are missing.

  The bounded writer (\<open>o3\<close>'s \<open>pool::Limit\<close>) and the egress frame (\<open>dope\<close>'s \<open>egress::NonEmpty\<close>) are
  not part of the repository.  They are parameters: \<open>limit_laws\<close> states what a bounded writer does,
  \<open>alloc\<close> is the outcome of reserving a frame and \<open>egress\<close> that of handing the bytes on.
\<close>

datatype sensitivity = Plain | Secret

definition sensitivity_clear :: "sensitivity \<Rightarrow> bytes \<Rightarrow> bytes" where
  "sensitivity_clear kind bs = (if kind = Secret then map (\<lambda>_. 0) bs else bs)"

record frame_buffer =
  fb_data :: bytes
  fb_kind :: sensitivity

definition buffer_new :: "bytes \<Rightarrow> sensitivity \<Rightarrow> frame_buffer" where
  "buffer_new data kind = \<lparr>fb_data = data, fb_kind = kind\<rparr>"

text \<open>What is left in the pool slice after a buffer is dropped.\<close>

definition buffer_drop :: "frame_buffer \<Rightarrow> bytes" where
  "buffer_drop b = sensitivity_clear (fb_kind b) (fb_data b)"

text \<open>\<open>'x\<close> are the errors of those external parts.  \<open>RqPanic\<close> stands for the index panic of \<open>write_digits\<close>; \<open>format_header_eq\<close> shows it absent.\<close>

datatype 'x request_error =
    RqLength nat nat
  | RqAdd nat nat
  | RqMul nat nat
  | RqCapacity 'x
  | RqWrite 'x
  | RqEntries nat
  | RqBulkLength nat nat
  | RqItems nat nat
  | RqIncomplete nat
  | RqEgress 'x
  | RqPanic

record ('w, 'x) limit_ops =
  lim_extend :: "'w \<Rightarrow> bytes \<Rightarrow> 'x + 'w"
  lim_remaining :: "'w \<Rightarrow> nat"
  lim_content :: "'w \<Rightarrow> bytes"

definition limit_laws :: "('w, 'x) limit_ops \<Rightarrow> bool" where
  "limit_laws W \<longleftrightarrow> (\<forall>w bs.
     if length bs \<le> lim_remaining W w then
       \<exists>w'. lim_extend W w bs = Inr w' \<and> lim_remaining W w' = lim_remaining W w - length bs \<and>
         lim_content W w' = lim_content W w @ bs
     else \<exists>e. lim_extend W w bs = Inl e)"

text \<open>A granted reservation is an empty writer with room for exactly the bytes asked for.\<close>

definition fresh_alloc :: "('w, 'x) limit_ops \<Rightarrow> (nat \<Rightarrow> 'x + 'w) \<Rightarrow> bool" where
  "fresh_alloc W alloc \<longleftrightarrow>
     (\<forall>n w. alloc n = Inr w \<longrightarrow> lim_remaining W w = n \<and> lim_content W w = [])"

section \<open>Lengths\<close>

definition request_number :: "nat \<Rightarrow> 'x request_error + nat" where
  "request_number v = (if nat i64_max < v then Inl (RqLength v (nat i64_max)) else Inr v)"

definition number_digits :: "nat \<Rightarrow> nat" where
  "number_digits v = (case checked_ilog10 v of None \<Rightarrow> 0 | Some k \<Rightarrow> k) + 1"

definition length_add :: "nat \<Rightarrow> nat \<Rightarrow> 'x request_error + nat" where
  "length_add l amount = ok_or (checked_add64 l amount) (RqAdd l amount)"

definition length_array :: "nat \<Rightarrow> 'x request_error + nat" where
  "length_array count = bindr (request_number count) (\<lambda>n. Inr (sat_add64 1 (2 + number_digits n)))"

definition length_bulk :: "nat \<Rightarrow> nat \<Rightarrow> 'x request_error + nat" where
  "length_bulk l len =
     bindr (request_number len) (\<lambda>n.
     bindr (length_add l 5) (\<lambda>l.
     bindr (length_add l (number_digits n)) (\<lambda>l.
     length_add l len)))"

definition add_count :: "nat \<Rightarrow> nat \<Rightarrow> 'x request_error + nat" where
  "add_count base len = ok_or (checked_add64 base len) (RqAdd base len)"

definition add_group_count :: "nat \<Rightarrow> nat \<Rightarrow> nat \<Rightarrow> 'x request_error + nat" where
  "add_group_count base len width =
     bindr (ok_or (checked_mul64 len width) (RqMul len width)) (\<lambda>count. add_count base count)"

definition next_item :: "nat \<Rightarrow> nat \<Rightarrow> 'x request_error + nat" where
  "next_item declared actual =
     bindr (add_count actual 1) (\<lambda>actual.
       if declared < actual then Inl (RqItems declared actual) else Inr actual)"

definition check_items :: "nat \<Rightarrow> nat \<Rightarrow> 'x request_error + unit" where
  "check_items declared actual = (if actual \<noteq> declared then Inl (RqItems declared actual) else Inr ())"

text \<open>A fold that stops at the first error, as the \<open>for\<close> loops with \<open>?\<close> do.\<close>

fun foldr_err :: "('s \<Rightarrow> 'a \<Rightarrow> 'e + 's) \<Rightarrow> 's \<Rightarrow> 'a list \<Rightarrow> 'e + 's" where
  "foldr_err f s [] = Inr s"
| "foldr_err f s (x # xs) = bindr (f s x) (\<lambda>s. foldr_err f s xs)"

lemma foldr_err_append: "foldr_err f s (xs @ ys) = bindr (foldr_err f s xs) (\<lambda>s. foldr_err f s ys)"
  by (induction xs arbitrary: s) (simp_all add: bindr_assoc)

section \<open>The writer\<close>

text \<open>A payload: the length it declares and the chunks it visits.\<close>

record payload =
  pl_len :: nat
  pl_chunks :: "bytes list"

text \<open>The blanket implementation for byte slices.\<close>

definition slice_payload :: "bytes \<Rightarrow> payload" where
  "slice_payload bs = \<lparr>pl_len = length bs, pl_chunks = [bs]\<rparr>"

definition format_header :: "byte \<Rightarrow> nat \<Rightarrow> bytes option" where
  "format_header marker v =
     (case write_digits (replicate 20 0) v of
        None \<Rightarrow> None
      | Some (digits, start) \<Rightarrow>
          (let buffer = [0] @ digits @ [CR, LF] in Some (drop start (buffer[start := marker]))))"

definition writer_extend :: "('w, 'x) limit_ops \<Rightarrow> 'w \<Rightarrow> bytes \<Rightarrow> 'x request_error + 'w" where
  "writer_extend W w bs = map_err RqWrite (lim_extend W w bs)"

definition writer_header :: "('w, 'x) limit_ops \<Rightarrow> byte \<Rightarrow> nat \<Rightarrow> 'w \<Rightarrow> 'x request_error + 'w" where
  "writer_header W marker v w =
     bindr (ok_or (format_header marker v) RqPanic) (\<lambda>header. writer_extend W w header)"

definition writer_array :: "('w, 'x) limit_ops \<Rightarrow> nat \<Rightarrow> 'w \<Rightarrow> 'x request_error + 'w" where
  "writer_array W count w = writer_header W 42 count w"

definition visit_chunk ::
  "('w, 'x) limit_ops \<Rightarrow> nat \<Rightarrow> nat \<times> 'w \<Rightarrow> bytes \<Rightarrow> 'x request_error + nat \<times> 'w" where
  "visit_chunk W declared = (\<lambda>(current, w) chunk.
     case checked_add64 current (length chunk) of
       None \<Rightarrow> Inl (RqAdd current (length chunk))
     | Some actual \<Rightarrow>
         if declared < actual then Inl (RqBulkLength declared actual)
         else bindr (writer_extend W w chunk) (\<lambda>w. Inr (actual, w)))"

definition writer_bulk :: "('w, 'x) limit_ops \<Rightarrow> 'w \<Rightarrow> payload \<Rightarrow> 'x request_error + 'w" where
  "writer_bulk W w payload =
     (let declared = pl_len payload in
      bindr (writer_header W 36 declared w) (\<lambda>w.
      bindr (foldr_err (visit_chunk W declared) (0, w) (pl_chunks payload)) (\<lambda>(actual, w).
        if actual \<noteq> declared then Inl (RqBulkLength declared actual)
        else writer_extend W w [CR, LF])))"

section \<open>Complete frames\<close>

type_synonym ('x, 'b) complete = "'x request_error + 'b"

definition complete_encode ::
  "('w, 'x) limit_ops \<Rightarrow> (frame_buffer \<Rightarrow> 'x + 'b) \<Rightarrow> sensitivity \<Rightarrow> 'w \<Rightarrow>
     ('w \<Rightarrow> 'x request_error + 'w) \<Rightarrow> ('x, 'b) complete" where
  "complete_encode W egress kind out encode =
     bindr (encode out) (\<lambda>out.
       if lim_remaining W out \<noteq> 0 then Inl (RqIncomplete (lim_remaining W out))
       else map_err RqEgress (egress (buffer_new (lim_content W out) kind)))"

definition admit_with ::
  "('w, 'x) limit_ops \<Rightarrow> (nat \<Rightarrow> 'x + 'w) \<Rightarrow> (frame_buffer \<Rightarrow> 'x + 'b) \<Rightarrow> nat \<Rightarrow> sensitivity \<Rightarrow>
     ('w \<Rightarrow> 'x request_error + 'w) \<Rightarrow> ('x, 'b) complete" where
  "admit_with W alloc egress len kind encode =
     bindr (map_err RqCapacity (alloc len)) (\<lambda>out. complete_encode W egress kind out encode)"

section \<open>Commands\<close>

definition measure_slices :: "bytes list \<times> bytes list \<Rightarrow> 'x request_error + nat" where
  "measure_slices = (\<lambda>(prefix, tail).
     bindr (add_count (length prefix) (length tail)) (\<lambda>count.
     bindr (length_array count) (\<lambda>l.
     foldr_err (\<lambda>l a. length_bulk l (length a)) l (prefix @ tail))))"

definition write_slices ::
  "('w, 'x) limit_ops \<Rightarrow> bytes list \<times> bytes list \<Rightarrow> 'w \<Rightarrow> 'x request_error + 'w" where
  "write_slices W = (\<lambda>(prefix, tail) out.
     bindr (add_count (length prefix) (length tail)) (\<lambda>count.
     bindr (writer_array W count out) (\<lambda>out.
     foldr_err (\<lambda>out a. writer_bulk W out (slice_payload a)) out (prefix @ tail))))"

definition encoder_encode ::
  "('w, 'x) limit_ops \<Rightarrow> (nat \<Rightarrow> 'x + 'w) \<Rightarrow> (frame_buffer \<Rightarrow> 'x + 'b) \<Rightarrow>
     bytes list \<Rightarrow> bytes list \<Rightarrow> sensitivity \<Rightarrow> ('x, 'b) complete" where
  "encoder_encode W alloc egress prefix tail kind =
     bindr (measure_slices (prefix, tail)) (\<lambda>len.
       admit_with W alloc egress len kind (write_slices W (prefix, tail)))"

section \<open>Sequences\<close>

text \<open>
  Items of the types \<open>[K; 1]\<close> and \<open>(K, V)\<close>; the width is a constant of the type.  The iterator is
  cloned for the measuring pass, so both passes see the same items.
\<close>

datatype arguments = One bytes | Two bytes bytes

fun argument_values :: "arguments \<Rightarrow> bytes list" where
  "argument_values (One k) = [k]"
| "argument_values (Two k v) = [k, v]"

fun argument_width :: "arguments \<Rightarrow> nat" where
  "argument_width (One k) = 1"
| "argument_width (Two k v) = sat_add64 1 1"

record sequence =
  sq_prefix :: "bytes list"
  sq_declared :: nat
  sq_width :: nat
  sq_items :: "arguments list"

definition measure_sequence :: "sequence \<Rightarrow> 'x request_error + nat" where
  "measure_sequence s =
     bindr (add_group_count (length (sq_prefix s)) (sq_declared s) (sq_width s)) (\<lambda>count.
     bindr (length_array count) (\<lambda>l.
     bindr (foldr_err (\<lambda>l v. length_bulk l (length v)) l (sq_prefix s)) (\<lambda>l.
     bindr (foldr_err (\<lambda>(actual, l) item.
              bindr (next_item (sq_declared s) actual) (\<lambda>actual.
              bindr (foldr_err (\<lambda>l v. length_bulk l (length v)) l (argument_values item)) (\<lambda>l.
              Inr (actual, l)))) (0, l) (sq_items s)) (\<lambda>(actual, l).
     bindr (check_items (sq_declared s) actual) (\<lambda>_. Inr l)))))"

definition write_sequence ::
  "('w, 'x) limit_ops \<Rightarrow> sequence \<Rightarrow> 'w \<Rightarrow> 'x request_error + 'w" where
  "write_sequence W s out =
     bindr (add_group_count (length (sq_prefix s)) (sq_declared s) (sq_width s)) (\<lambda>count.
     bindr (writer_array W count out) (\<lambda>out.
     bindr (foldr_err (\<lambda>out v. writer_bulk W out (slice_payload v)) out (sq_prefix s)) (\<lambda>out.
     bindr (foldr_err (\<lambda>(actual, out) item.
              bindr (next_item (sq_declared s) actual) (\<lambda>actual.
              bindr (foldr_err (\<lambda>out v. writer_bulk W out (slice_payload v)) out (argument_values item)) (\<lambda>out.
              Inr (actual, out)))) (0, out) (sq_items s)) (\<lambda>(actual, out).
     bindr (check_items (sq_declared s) actual) (\<lambda>_. Inr out)))))"

definition encoder_sequence ::
  "('w, 'x) limit_ops \<Rightarrow> (nat \<Rightarrow> 'x + 'w) \<Rightarrow> (frame_buffer \<Rightarrow> 'x + 'b) \<Rightarrow> sequence \<Rightarrow> ('x, 'b) complete" where
  "encoder_sequence W alloc egress s =
     bindr (measure_sequence s) (\<lambda>len. admit_with W alloc egress len Plain (write_sequence W s))"

section \<open>Scripts\<close>

record invocation =
  in_script :: bytes
  in_keys :: "bytes list"
  in_args :: "payload list"

definition script_count :: "nat \<Rightarrow> nat \<Rightarrow> 'x request_error + nat" where
  "script_count keys args = bindr (add_count keys args) (\<lambda>variable. add_count 3 variable)"

definition script_start :: "bytes \<Rightarrow> nat \<Rightarrow> nat \<Rightarrow> 'x request_error + nat" where
  "script_start script keys args =
     bindr (script_count keys args) (\<lambda>count.
     bindr (length_array count) (\<lambda>l.
     bindr (length_bulk l (length (ascii ''EVAL''))) (\<lambda>l.
     bindr (length_bulk l (length script)) (\<lambda>l.
     length_bulk l (number_digits keys)))))"

definition script_lengths :: "nat \<Rightarrow> nat \<Rightarrow> nat list \<Rightarrow> 'x request_error + nat" where
  "script_lengths l declared sizes =
     bindr (foldr_err (\<lambda>(actual, l) size.
              bindr (next_item declared actual) (\<lambda>actual.
              bindr (length_bulk l size) (\<lambda>l. Inr (actual, l)))) (0, l) sizes) (\<lambda>(actual, l).
     bindr (check_items declared actual) (\<lambda>_. Inr l))"

definition script_wire_len ::
  "bytes \<Rightarrow> nat \<Rightarrow> nat list \<Rightarrow> nat \<Rightarrow> nat list \<Rightarrow> 'x request_error + nat" where
  "script_wire_len script key_count key_lengths argument_count argument_lengths =
     bindr (script_start script key_count argument_count) (\<lambda>l.
     bindr (script_lengths l key_count key_lengths) (\<lambda>l.
     script_lengths l argument_count argument_lengths))"

definition script_length :: "invocation \<Rightarrow> 'x request_error + nat" where
  "script_length c =
     bindr (script_start (in_script c) (length (in_keys c)) (length (in_args c))) (\<lambda>l.
     bindr (foldr_err (\<lambda>l k. length_bulk l (length k)) l (in_keys c)) (\<lambda>l.
     foldr_err (\<lambda>l a. length_bulk l (pl_len a)) l (in_args c)))"

definition script_eval ::
  "('w, 'x) limit_ops \<Rightarrow> invocation \<Rightarrow> 'w \<Rightarrow> 'x request_error + 'w" where
  "script_eval W c out =
     bindr (script_count (length (in_keys c)) (length (in_args c))) (\<lambda>count.
     let arity = decimal (length (in_keys c)) in
     bindr (writer_array W count out) (\<lambda>out.
     bindr (writer_bulk W out (slice_payload (ascii ''EVAL''))) (\<lambda>out.
     bindr (writer_bulk W out (slice_payload (in_script c))) (\<lambda>out.
     bindr (writer_bulk W out (slice_payload arity)) (\<lambda>out.
     bindr (foldr_err (\<lambda>out k. writer_bulk W out (slice_payload k)) out (in_keys c)) (\<lambda>out.
     foldr_err (\<lambda>out a. writer_bulk W out a) out (in_args c)))))))"

definition eval_prepared ::
  "('w, 'x) limit_ops \<Rightarrow> (nat \<Rightarrow> 'x + 'w) \<Rightarrow> (frame_buffer \<Rightarrow> 'x + 'b) \<Rightarrow> invocation \<Rightarrow> ('x, 'b) complete" where
  "eval_prepared W alloc egress c =
     bindr (script_length c) (\<lambda>len. admit_with W alloc egress len Plain (script_eval W c))"

section \<open>Single commands\<close>

text \<open>An \<open>f64\<close> is its 64 bits; the shortest finite rendering of \<open>ryu\<close> is a parameter.\<close>

definition f64_infinite :: nat where "f64_infinite = 9218868437227405312"

definition format_float :: "(nat \<Rightarrow> bytes) \<Rightarrow> nat \<Rightarrow> bytes" where
  "format_float ryu bits =
     (let magnitude = bits mod 2 ^ 63 in
      if magnitude = 0 then ascii ''0''
      else if f64_infinite < magnitude then ascii ''nan''
      else if magnitude = f64_infinite then (if bits < 2 ^ 63 then ascii ''inf'' else ascii ''-inf'')
      else ryu bits)"

datatype command =
    Auth bytes
  | AuthUser bytes bytes
  | Select nat
  | SetName bytes
  | SetTtl bytes bytes bytes nat
  | Range bytes "bytes list" bytes int int
  | ScanKeys "bytes list" nat "bytes option" "nat option"
  | Float bool bytes bytes nat bytes

text \<open>The slices each method of the encoder passes on, and the sensitivity it asks for.\<close>

fun command_slices :: "(nat \<Rightarrow> bytes) \<Rightarrow> command \<Rightarrow> bytes list \<times> bytes list \<times> sensitivity" where
  "command_slices ryu (Auth password) = ([ascii ''AUTH'', password], [], Secret)"
| "command_slices ryu (AuthUser username password) = ([ascii ''AUTH'', username, password], [], Secret)"
| "command_slices ryu (Select database) = ([ascii ''SELECT'', decimal database], [], Plain)"
| "command_slices ryu (SetName name) = ([ascii ''CLIENT'', ascii ''SETNAME'', name], [], Plain)"
| "command_slices ryu (SetTtl key v unit ttl) = ([ascii ''SET'', key, v, unit, decimal ttl], [], Plain)"
| "command_slices ryu (Range verb suffix key start stop) =
     ([verb, key, signed_text start, signed_text stop], suffix, Plain)"
| "command_slices ryu (ScanKeys prefix cursor None None) = (prefix, [decimal cursor], Plain)"
| "command_slices ryu (ScanKeys prefix cursor (Some pattern) None) =
     (prefix, [decimal cursor, ascii ''MATCH'', pattern], Plain)"
| "command_slices ryu (ScanKeys prefix cursor None (Some count)) =
     (prefix, [decimal cursor, ascii ''COUNT'', decimal count], Plain)"
| "command_slices ryu (ScanKeys prefix cursor (Some pattern) (Some count)) =
     (prefix, [decimal cursor, ascii ''MATCH'', pattern, ascii ''COUNT'', decimal count], Plain)"
| "command_slices ryu (Float True verb key v member) =
     ([verb, key, ascii ''XX'', format_float ryu v, member], [], Plain)"
| "command_slices ryu (Float False verb key v member) = ([verb, key, format_float ryu v, member], [], Plain)"

definition encode_command ::
  "('w, 'x) limit_ops \<Rightarrow> (nat \<Rightarrow> 'x + 'w) \<Rightarrow> (frame_buffer \<Rightarrow> 'x + 'b) \<Rightarrow> (nat \<Rightarrow> bytes) \<Rightarrow> command \<Rightarrow>
     ('x, 'b) complete" where
  "encode_command W alloc egress ryu c =
     (case command_slices ryu c of (prefix, tail, kind) \<Rightarrow> encoder_encode W alloc egress prefix tail kind)"

end
