(* ===== verification/Req_Frame.thy ===== *)
theory Req_Frame
  imports Req_Encode
begin

text \<open>
  The encoder's contract.  \<open>costs\<close> and \<open>emits\<close> are the two passes over a request: how much a
  measuring step adds, and which bytes a writing step appends when they fit.  The locale
  \<open>exact_frame\<close> is what \<open>admit_with\<close> needs of a request: that both passes agree.  It is interpreted
  on slices, sequences and scripts, so that no request of the client is ever rejected as incomplete
  or overfull by its own writer.
\<close>

section \<open>Measuring\<close>

definition costs :: "(nat \<Rightarrow> 'e + nat) \<Rightarrow> nat \<Rightarrow> bool" where
  "costs f n \<longleftrightarrow> (\<forall>l l'. f l = Inr l' \<longrightarrow> l' = l + n)"

lemma number_digits_length [simp]: "number_digits n = length (decimal n)"
proof (cases "n = 0")
  case False
  then show ?thesis using ilog10_length[of n] by (simp add: number_digits_def checked_ilog10_def)
qed (simp add: number_digits_def checked_ilog10_def)

lemma length_add_Inr: "length_add l n = Inr l' \<longleftrightarrow> l' = l + n \<and> l + n \<le> usize_max"
  by (auto simp: length_add_def ok_or_Inr_iff checked_add64_def)

lemma request_number_Inr: "request_number n = Inr m \<longleftrightarrow> m = n \<and> n \<le> nat i64_max"
  by (auto simp: request_number_def)

lemma length_bulk_Inr:
  "length_bulk l n = Inr l' \<longleftrightarrow> n \<le> nat i64_max \<and> l' = l + (5 + length (decimal n) + n) \<and> l' \<le> usize_max"
  by (auto simp: length_bulk_def bindr_Inr_iff length_add_Inr request_number_Inr)

lemma length_array_Inr:
  "length_array n = Inr l \<longleftrightarrow> n \<le> nat i64_max \<and> l = 3 + length (decimal n)"
  using length_decimal_u64[of n]
  by (auto simp: length_array_def bindr_Inr_iff request_number_Inr)

lemma costs_bind: "costs f m \<Longrightarrow> costs g n \<Longrightarrow> costs (\<lambda>l. bindr (f l) g) (m + n)"
  by (fastforce simp: costs_def bindr_Inr_iff)

lemma costs_bulk: "costs (\<lambda>l. length_bulk l n) (5 + length (decimal n) + n)"
  by (simp add: costs_def length_bulk_Inr)

lemma costs_fold:
  assumes "\<And>x. costs (\<lambda>l. f l x) (n x)"
  shows "costs (\<lambda>l. foldr_err f l xs) (sum_list (map n xs))"
proof -
  have "foldr_err f l xs = Inr l' \<Longrightarrow> l' = l + sum_list (map n xs)" for l l'
  proof (induction xs arbitrary: l)
    case (Cons x xs)
    then obtain k where k: "f l x = Inr k" "foldr_err f k xs = Inr l'" by (auto simp: bindr_Inr_iff)
    with assms have "k = l + n x" by (simp add: costs_def)
    with Cons.IH[OF k(2)] show ?case by simp
  qed simp
  then show ?thesis by (simp add: costs_def)
qed

section \<open>Writing\<close>

definition emits :: "('w, 'x) limit_ops \<Rightarrow> ('w \<Rightarrow> 'e + 'w) \<Rightarrow> bytes \<Rightarrow> bool" where
  "emits W f bs \<longleftrightarrow> (\<forall>w. length bs \<le> lim_remaining W w \<longrightarrow>
     (\<exists>w'. f w = Inr w' \<and> lim_remaining W w' = lim_remaining W w - length bs \<and>
        lim_content W w' = lim_content W w @ bs))"

lemma emits_extend: "limit_laws W \<Longrightarrow> emits W (\<lambda>w. writer_extend W w bs) bs"
  unfolding limit_laws_def emits_def writer_extend_def by (metis map_err.simps(2))

lemma emits_skip: "emits W Inr []"
  by (simp add: emits_def)

lemma emits_bind:
  assumes f: "emits W f as" and g: "emits W g bs"
  shows "emits W (\<lambda>w. bindr (f w) g) (as @ bs)"
  unfolding emits_def
proof (intro allI impI)
  fix w assume l: "length (as @ bs) \<le> lim_remaining W w"
  then have "length as \<le> lim_remaining W w" by simp
  with f obtain w1 where w1: "f w = Inr w1" "lim_remaining W w1 = lim_remaining W w - length as"
    "lim_content W w1 = lim_content W w @ as" unfolding emits_def by blast
  with l have "length bs \<le> lim_remaining W w1" by simp
  with g obtain w2 where "g w1 = Inr w2" "lim_remaining W w2 = lim_remaining W w1 - length bs"
    "lim_content W w2 = lim_content W w1 @ bs" unfolding emits_def by blast
  with w1 show "\<exists>w'. bindr (f w) g = Inr w' \<and>
      lim_remaining W w' = lim_remaining W w - length (as @ bs) \<and> lim_content W w' = lim_content W w @ as @ bs"
    by simp
qed

lemma emits_fold:
  assumes "\<And>x. x \<in> set xs \<Longrightarrow> emits W (\<lambda>w. f w x) (t x)"
  shows "emits W (\<lambda>w. foldr_err f w xs) (concat (map t xs))"
  using assms
proof (induction xs)
  case Nil
  then show ?case using emits_skip by (simp add: emits_def)
next
  case (Cons x xs)
  then have "emits W (\<lambda>w. foldr_err f w xs) (concat (map t xs))" by simp
  from emits_bind[OF Cons.prems[of x] this] show ?case by simp
qed

lemma format_header_eq:
  assumes "n \<le> u64_max"
  shows "format_header marker n = Some (marker # decimal n @ crlf)"
proof -
  let ?k = "20 - length (decimal n)"
  have k: "?k < 20" "length (decimal n) = 20 - ?k"
    using length_decimal_u64[OF assms] by (cases "decimal n"; simp)+
  have "drop k (([0] @ replicate k 0 @ t)[k := marker]) = marker # t" for k and t :: bytes
  proof -
    have "[0] @ replicate k 0 @ t = replicate k 0 @ 0 # t" by (simp add: replicate_app_Cons_same)
    then show ?thesis by (simp only: list_update_append) simp
  qed
  note fill = this[of ?k "decimal n @ crlf"]
  have w: "write_digits (replicate 20 0) n = Some (replicate ?k 0 @ decimal n, ?k)"
    using write_digits_eq[OF assms, of "replicate 20 0"] k by simp
  show ?thesis unfolding format_header_def w by (simp only: option.case prod.case Let_def append_assoc fill)
qed

lemma emits_header:
  "limit_laws W \<Longrightarrow> n \<le> u64_max \<Longrightarrow> emits W (writer_header W marker n) (marker # decimal n @ crlf)"
  using emits_extend[of W "marker # decimal n @ crlf"]
  by (simp add: emits_def writer_header_def format_header_eq ok_or_def)

definition payload_text :: "payload \<Rightarrow> bytes" where
  "payload_text p = concat (pl_chunks p)"

text \<open>The contract of \<open>Bulk\<close>: the chunks make up the declared length.\<close>

definition payload_ok :: "payload \<Rightarrow> bool" where
  "payload_ok p \<longleftrightarrow> length (payload_text p) = pl_len p"

lemma slice_payload_simps [simp]:
  "payload_ok (slice_payload bs)" "payload_text (slice_payload bs) = bs" "pl_len (slice_payload bs) = length bs"
  by (simp_all add: slice_payload_def payload_ok_def payload_text_def)

lemma visit_chunks:
  fixes W :: "('w, 'x) limit_ops"
  assumes "limit_laws W" and "k + length (concat cs) \<le> declared" and "declared \<le> usize_max"
    and "length (concat cs) \<le> lim_remaining W w"
  shows "\<exists>w'. (foldr_err (visit_chunk W declared) (k, w) cs :: 'x request_error + nat \<times> 'w) =
      Inr (k + length (concat cs), w') \<and>
    lim_remaining W w' = lim_remaining W w - length (concat cs) \<and> lim_content W w' = lim_content W w @ concat cs"
  using assms(2-)
proof (induction cs arbitrary: k w)
  case (Cons c cs)
  from Cons.prems(3) have "length c \<le> lim_remaining W w" by simp
  with emits_extend[OF assms(1), of c] obtain w1 where
    w1: "(writer_extend W w c :: 'x request_error + 'w) = Inr w1"
    "lim_remaining W w1 = lim_remaining W w - length c" "lim_content W w1 = lim_content W w @ c"
    unfolding emits_def by blast
  have "k + length c + length (concat cs) \<le> declared" "length (concat cs) \<le> lim_remaining W w1"
    using Cons.prems w1(2) by simp_all
  from Cons.IH[OF this(1) Cons.prems(2) this(2)] obtain w' where
    "(foldr_err (visit_chunk W declared) (k + length c, w1) cs :: 'x request_error + nat \<times> 'w) =
       Inr (k + length c + length (concat cs), w')"
    "lim_remaining W w' = lim_remaining W w1 - length (concat cs)"
    "lim_content W w' = lim_content W w1 @ concat cs" by blast
  with w1 Cons.prems show ?case by (simp add: visit_chunk_def checked_add64_def add.assoc)
qed simp

lemma emits_bulk:
  fixes W :: "('w, 'x) limit_ops"
  assumes W: "limit_laws W" and p: "payload_ok p" and l: "pl_len p \<le> usize_max"
  shows "emits W (\<lambda>w. writer_bulk W w p :: 'x request_error + 'w) (wire (RBulk (payload_text p)))"
proof -
  have t: "length (payload_text p) = pl_len p" using p by (simp add: payload_ok_def)
  let ?body = "\<lambda>w. bindr (foldr_err (visit_chunk W (pl_len p)) (0, w) (pl_chunks p))
      (\<lambda>(actual, w). if actual \<noteq> pl_len p then Inl (RqBulkLength (pl_len p) actual)
                     else writer_extend W w [CR, LF] :: 'x request_error + 'w)"
  have "emits W ?body (payload_text p @ [CR, LF])"
    unfolding emits_def
  proof (intro allI impI)
    fix w assume r: "length (payload_text p @ [CR, LF]) \<le> lim_remaining W w"
    with visit_chunks[OF W, of 0 "pl_chunks p" "pl_len p" w] t l obtain w1 where
      w1: "(foldr_err (visit_chunk W (pl_len p)) (0, w) (pl_chunks p) :: 'x request_error + nat \<times> 'w) =
        Inr (pl_len p, w1)"
        "lim_remaining W w1 = lim_remaining W w - pl_len p" "lim_content W w1 = lim_content W w @ payload_text p"
      by (auto simp: payload_text_def)
    have "length [CR, LF] \<le> lim_remaining W w1" using r w1 t by simp
    with emits_extend[OF W, of "[CR, LF]"] obtain w2 where
      "(writer_extend W w1 [CR, LF] :: 'x request_error + 'w) = Inr w2"
      "lim_remaining W w2 = lim_remaining W w1 - length [CR, LF]" "lim_content W w2 = lim_content W w1 @ [CR, LF]"
      unfolding emits_def by blast
    with w1 t show "\<exists>w'. ?body w = Inr w' \<and>
        lim_remaining W w' = lim_remaining W w - length (payload_text p @ [CR, LF]) \<and>
        lim_content W w' = lim_content W w @ payload_text p @ [CR, LF]" by simp
  qed
  from emits_bind[OF emits_header[OF W l, of 36] this] show ?thesis
    by (simp add: writer_bulk_def t Let_def)
qed

text \<open>A payload that visits more or fewer bytes than it declares is never accepted.\<close>

lemma visit_chunks_total:
  fixes W :: "('w, 'x) limit_ops"
  shows "(foldr_err (visit_chunk W declared) (k, w) cs :: 'x request_error + nat \<times> 'w) = Inr (n, w') \<Longrightarrow>
    n = k + length (concat cs)"
proof (induction cs arbitrary: k w)
  case (Cons c cs)
  from Cons.prems obtain s where
    s: "(visit_chunk W declared (k, w) c :: 'x request_error + nat \<times> 'w) = Inr s"
    "(foldr_err (visit_chunk W declared) s cs :: 'x request_error + nat \<times> 'w) = Inr (n, w')"
    by (auto simp: bindr_Inr_iff)
  from s(1) have "fst s = k + length c"
    by (auto simp: visit_chunk_def checked_add64_def bindr_Inr_iff split: if_splits)
  with Cons.IH[of "fst s" "snd s"] s(2) show ?case by (cases s) simp
qed simp

lemma writer_bulk_contract: "writer_bulk W w p = Inr w' \<Longrightarrow> payload_ok p"
  by (auto simp: writer_bulk_def Let_def bindr_Inr_iff payload_ok_def payload_text_def
      dest!: visit_chunks_total split: if_splits)

section \<open>The contract of a request\<close>

text \<open>
  The client of \<open>admit_with\<close> supplies two passes over the same request.  What it promises: a size
  that was measured is the length of one fixed rendering, and the writing pass emits that rendering.
\<close>

locale exact_frame =
  fixes measure :: "'a \<Rightarrow> 'x request_error + nat"
    and emit :: "('w, 'x) limit_ops \<Rightarrow> 'a \<Rightarrow> 'w \<Rightarrow> 'x request_error + 'w"
    and render :: "'a \<Rightarrow> bytes"
    and valid :: "'a \<Rightarrow> bool"
  assumes measured: "valid a \<Longrightarrow> measure a = Inr n \<Longrightarrow> n = length (render a)"
    and emitted: "limit_laws W \<Longrightarrow> valid a \<Longrightarrow> measure a = Inr n \<Longrightarrow> emits W (emit W a) (render a)"
begin

lemma admitted:
  assumes W: "limit_laws W" and v: "valid a" and m: "measure a = Inr n"
    and al: "alloc n = Inr w" and fresh: "lim_remaining W w = n" "lim_content W w = []"
  shows "admit_with W alloc egress n kind (emit W a) = map_err RqEgress (egress (buffer_new (render a) kind))"
proof -
  have n: "n = length (render a)" by (rule measured[OF v m])
  obtain w' where "emit W a w = Inr w'" "lim_remaining W w' = 0" "lim_content W w' = render a"
    using emitted[OF W v m] n fresh unfolding emits_def by force
  with al show ?thesis by (simp add: admit_with_def complete_encode_def)
qed

text \<open>So the only outcomes are errors of measuring, of reserving and of egress, or the exact frame.\<close>

lemma outcome:
  assumes W: "limit_laws W" and v: "valid a" and fresh: "fresh_alloc W alloc"
  shows "bindr (measure a) (\<lambda>n. admit_with W alloc egress n kind (emit W a)) =
    (case measure a of
       Inl e \<Rightarrow> Inl e
     | Inr n \<Rightarrow>
         (case alloc n of
            Inl c \<Rightarrow> Inl (RqCapacity c)
          | Inr w \<Rightarrow> map_err RqEgress (egress (buffer_new (render a) kind))))"
proof (cases "measure a")
  case (Inr n)
  show ?thesis
  proof (cases "alloc n")
    case (Inr w)
    with \<open>measure a = Inr n\<close> fresh[unfolded fresh_alloc_def] admitted[OF W v \<open>measure a = Inr n\<close>, where alloc = alloc and w = w] show ?thesis by simp
  qed (simp add: Inr admit_with_def)
qed simp

end

section \<open>Slices\<close>

definition args_text :: "bytes list \<Rightarrow> bytes" where
  "args_text args = wire (RArray (map RBulk args))"

lemma args_text_eq:
  "args_text args = 42 # decimal (length args) @ crlf @ concat (map (\<lambda>a. wire (RBulk a)) args)"
  by (simp add: args_text_def comp_def)

lemma length_args_text:
  "length (args_text args) =
     3 + length (decimal (length args)) + (\<Sum>a\<leftarrow>args. 5 + length (decimal (length a)) + length a)"
proof -
  have "(\<lambda>a. length (wire (RBulk a))) = (\<lambda>a. 5 + length (decimal (length a)) + length a)"
    by (rule ext) simp
  then show ?thesis by (simp add: args_text_eq length_concat comp_def del: wire.simps)
qed

lemma costs_bulks: "costs (\<lambda>l. foldr_err (\<lambda>l a. length_bulk l (length a)) l xs)
    (\<Sum>a\<leftarrow>xs. 5 + length (decimal (length a)) + length a)"
  by (rule costs_fold[OF costs_bulk])

lemma emits_array: "limit_laws W \<Longrightarrow> n \<le> nat i64_max \<Longrightarrow> emits W (writer_array W n) (42 # decimal n @ crlf)"
  using emits_header[of W n 42] by (simp add: writer_array_def [abs_def])

lemma length_bulks_small:
  "foldr_err (\<lambda>l a. length_bulk l (f a)) l xs = (Inr l' :: 'x request_error + nat) \<Longrightarrow>
     \<forall>a \<in> set xs. f a \<le> nat i64_max"
proof (induction xs arbitrary: l)
  case (Cons x xs)
  then obtain k where "length_bulk l (f x) = (Inr k :: 'x request_error + nat)"
    "foldr_err (\<lambda>l a. length_bulk l (f a)) k xs = (Inr l' :: 'x request_error + nat)"
    by (auto simp: bindr_Inr_iff)
  with Cons.IH[of k] show ?case by (simp add: length_bulk_Inr)
qed simp

lemma emits_bulks:
  assumes "limit_laws W" and "\<forall>a \<in> set xs. length a \<le> nat i64_max"
  shows "emits W (\<lambda>w. foldr_err (\<lambda>w a. writer_bulk W w (slice_payload a)) w xs) (concat (map (\<lambda>a. wire (RBulk a)) xs))"
proof (rule emits_fold)
  fix x assume "x \<in> set xs"
  with assms(2) have "length x \<le> nat i64_max" by simp
  then have "pl_len (slice_payload x) \<le> usize_max" by simp
  from emits_bulk[OF assms(1) _ this] show "emits W (\<lambda>w. writer_bulk W w (slice_payload x)) (wire (RBulk x))"
    by simp
qed

lemma add_count_Inr: "add_count a b = Inr n \<longleftrightarrow> n = a + b \<and> a + b \<le> usize_max"
  by (auto simp: add_count_def ok_or_Inr_iff checked_add64_def)

lemma measure_slices_Inr:
  assumes "measure_slices (prefix, tail) = (Inr n :: 'x request_error + nat)"
  shows "n = length (args_text (prefix @ tail))" and "length (prefix @ tail) \<le> nat i64_max"
    and "\<forall>a \<in> set (prefix @ tail). length a \<le> nat i64_max"
proof -
  from assms obtain l where c: "length (prefix @ tail) \<le> nat i64_max" "l = 3 + length (decimal (length (prefix @ tail)))"
    and f: "foldr_err (\<lambda>l a. length_bulk l (length a)) l (prefix @ tail) = (Inr n :: 'x request_error + nat)"
    by (auto simp: measure_slices_def bindr_Inr_iff add_count_Inr length_array_Inr)
  show "n = length (args_text (prefix @ tail))"
    using costs_bulks[of "prefix @ tail", unfolded costs_def] f c(2) by (simp only: length_args_text) blast
  show "length (prefix @ tail) \<le> nat i64_max" by (rule c(1))
  show "\<forall>a \<in> set (prefix @ tail). length a \<le> nat i64_max" by (rule length_bulks_small[OF f])
qed

lemma slices_frame:
  "exact_frame (measure_slices :: bytes list \<times> bytes list \<Rightarrow> 'x request_error + nat)
     (write_slices :: ('w, 'x) limit_ops \<Rightarrow> _) (\<lambda>(prefix, tail). args_text (prefix @ tail)) (\<lambda>_. True)"
proof
  fix a :: "bytes list \<times> bytes list" and n
  assume m: "measure_slices a = (Inr n :: 'x request_error + nat)"
  obtain prefix tail where a: "a = (prefix, tail)" by (cases a)
  note k = measure_slices_Inr[OF m[unfolded a]]
  show "n = length (case a of (prefix, tail) \<Rightarrow> args_text (prefix @ tail))" using k(1) a by simp
next
  fix W :: "('w, 'x) limit_ops" and a :: "bytes list \<times> bytes list" and n
  assume W: "limit_laws W" and m: "measure_slices a = (Inr n :: 'x request_error + nat)"
  obtain prefix tail where a: "a = (prefix, tail)" by (cases a)
  note k = measure_slices_Inr[OF m[unfolded a]]
  have c: "add_count (length prefix) (length tail) = (Inr (length (prefix @ tail)) :: 'x request_error + nat)"
    using k(2) by (simp add: add_count_Inr)
  from emits_bind[OF emits_array[OF W k(2)] emits_bulks[OF W k(3)]]
  show "emits W (write_slices W a) (case a of (prefix, tail) \<Rightarrow> args_text (prefix @ tail))"
    by (simp add: a write_slices_def c args_text_eq)
qed

interpretation slices: exact_frame measure_slices write_slices "\<lambda>(prefix, tail). args_text (prefix @ tail)" "\<lambda>_. True"
  by (rule slices_frame)

end
