(* ===== verification/Req_Calls.thy ===== *)
theory Req_Calls
  imports Req_Frame
begin

text \<open>
  The remaining requests of the encoder under the contract of \<open>exact_frame\<close>: sequences of keys or
  pairs with a declared count, and scripts; the single commands; and the exactness of measuring.
\<close>

section \<open>Counted items\<close>

text \<open>
  The loops that count their items against the declared number: they succeed only on exactly that
  many, and then do what the plain loop over the items does.
\<close>

definition counted :: "('s \<Rightarrow> 'a \<Rightarrow> 'x request_error + 's) \<Rightarrow> nat \<Rightarrow> nat \<times> 's \<Rightarrow> 'a \<Rightarrow> 'x request_error + nat \<times> 's" where
  "counted f declared = (\<lambda>(actual, s) item.
     bindr (next_item declared actual) (\<lambda>actual. bindr (f s item) (\<lambda>s. Inr (actual, s))))"

lemma next_item_Inr: "next_item d a = Inr n \<longleftrightarrow> n = a + 1 \<and> a + 1 \<le> usize_max \<and> a + 1 \<le> d"
  by (auto simp: next_item_def bindr_Inr_iff add_count_Inr)

lemma check_items_Inr: "check_items d a = Inr u \<longleftrightarrow> a = d"
  by (auto simp: check_items_def)

lemma counted_Inr:
  "foldr_err (counted f d) (a, s) items = Inr (a', s') \<Longrightarrow>
     a' = a + length items \<and> foldr_err f s items = Inr s' \<and> (items \<noteq> [] \<longrightarrow> a' \<le> d)"
proof (induction items arbitrary: a s)
  case (Cons x xs)
  from Cons.prems obtain t where t: "f s x = Inr t" "foldr_err (counted f d) (a + 1, t) xs = Inr (a', s')" "a + 1 \<le> d"
    by (auto simp: counted_def bindr_Inr_iff next_item_Inr)
  from Cons.IH[OF t(2)] t show ?case by (cases xs) auto
qed simp

lemma counted_enough:
  fixes f :: "'s \<Rightarrow> 'a \<Rightarrow> 'x request_error + 's"
  shows "a + length items \<le> d \<Longrightarrow> d \<le> usize_max \<Longrightarrow>
     foldr_err (counted f d) (a, s) items = bindr (foldr_err f s items) (\<lambda>s. Inr (a + length items, s))"
proof (induction items arbitrary: a s)
  case (Cons x xs)
  then have "(next_item d a :: 'x request_error + nat) = Inr (a + 1)" by (simp add: next_item_Inr)
  with Cons show ?case by (cases "f s x") (simp_all add: counted_def)
qed simp

section \<open>Sequences\<close>

lemma sequence_counted:
  "measure_sequence s =
     bindr (add_group_count (length (sq_prefix s)) (sq_declared s) (sq_width s)) (\<lambda>count.
     bindr (length_array count) (\<lambda>l.
     bindr (foldr_err (\<lambda>l v. length_bulk l (length v)) l (sq_prefix s)) (\<lambda>l.
     bindr (foldr_err (counted (\<lambda>l item. foldr_err (\<lambda>l v. length_bulk l (length v)) l (argument_values item))
              (sq_declared s)) (0, l) (sq_items s)) (\<lambda>(actual, l).
     bindr (check_items (sq_declared s) actual) (\<lambda>_. Inr l)))))"
  "write_sequence W s out =
     bindr (add_group_count (length (sq_prefix s)) (sq_declared s) (sq_width s)) (\<lambda>count.
     bindr (writer_array W count out) (\<lambda>out.
     bindr (foldr_err (\<lambda>out v. writer_bulk W out (slice_payload v)) out (sq_prefix s)) (\<lambda>out.
     bindr (foldr_err (counted (\<lambda>out item. foldr_err (\<lambda>out v. writer_bulk W out (slice_payload v)) out (argument_values item))
              (sq_declared s)) (0, out) (sq_items s)) (\<lambda>(actual, out).
     bindr (check_items (sq_declared s) actual) (\<lambda>_. Inr out)))))"
  by (simp_all add: measure_sequence_def write_sequence_def counted_def)

definition sequence_args :: "sequence \<Rightarrow> bytes list" where
  "sequence_args s = sq_prefix s @ concat (map argument_values (sq_items s))"

text \<open>The width is the one of the items' type.\<close>

definition sequence_ok :: "sequence \<Rightarrow> bool" where
  "sequence_ok s \<longleftrightarrow> (\<forall>item \<in> set (sq_items s). argument_width item = sq_width s)"

lemma argument_width [simp]: "argument_width item = length (argument_values item)"
  by (cases item) simp_all

lemma length_sequence_args:
  "sequence_ok s \<Longrightarrow> length (sequence_args s) = length (sq_prefix s) + length (sq_items s) * sq_width s"
proof -
  assume ok: "sequence_ok s"
  have "(\<forall>item \<in> set items. argument_width item = w) \<Longrightarrow> length (concat (map argument_values items)) = length items * w"
    for items w by (induction items) auto
  from this[of "sq_items s" "sq_width s"] ok show ?thesis by (simp add: sequence_args_def sequence_ok_def)
qed

lemma add_group_count_Inr:
  "add_group_count b n w = Inr c \<longleftrightarrow> c = b + n * w \<and> n * w \<le> usize_max \<and> c \<le> usize_max"
  by (auto simp: add_group_count_def bindr_Inr_iff ok_or_Inr_iff checked_mul64_def add_count_Inr)

lemma fold_concat: "foldr_err (\<lambda>s item. foldr_err f s (g item)) s items = foldr_err f s (concat (map g items))"
proof (induction items arbitrary: s)
  case (Cons x xs)
  show ?case by (simp add: foldr_err_append Cons.IH[abs_def])
qed simp

lemma measure_sequence_Inr:
  assumes "measure_sequence s = (Inr n :: 'x request_error + nat)" and ok: "sequence_ok s"
  shows "sq_declared s = length (sq_items s)" and "n = length (args_text (sequence_args s))"
    and "length (sequence_args s) \<le> nat i64_max" and "\<forall>a \<in> set (sequence_args s). length a \<le> nat i64_max"
    and "\<exists>l. foldr_err (\<lambda>l v. length_bulk l (length v)) l (sequence_args s) = (Inr n :: 'x request_error + nat)"
proof -
  let ?f = "\<lambda>l v. length_bulk l (length v) :: 'x request_error + nat"
  from assms(1) obtain l l1 l2 a where
    c: "length (sq_prefix s) + sq_declared s * sq_width s \<le> nat i64_max"
      "l = 3 + length (decimal (length (sq_prefix s) + sq_declared s * sq_width s))"
    and p: "foldr_err ?f l (sq_prefix s) = Inr l1"
    and it: "foldr_err (counted (\<lambda>l item. foldr_err ?f l (argument_values item)) (sq_declared s)) (0, l1) (sq_items s) =
      Inr (a, l2)" and e: "a = sq_declared s" "n = l2"
    by (auto simp: sequence_counted bindr_Inr_iff add_group_count_Inr length_array_Inr check_items_Inr)
  note i = counted_Inr[OF it]
  show d: "sq_declared s = length (sq_items s)" using i e by simp
  have f: "foldr_err ?f l (sequence_args s) = Inr n"
    using p i e by (simp add: sequence_args_def foldr_err_append fold_concat)
  then show "\<exists>l. foldr_err ?f l (sequence_args s) = Inr n" by blast
  note len = length_sequence_args[OF ok]
  show "length (sequence_args s) \<le> nat i64_max" using c(1) len d by simp
  show "n = length (args_text (sequence_args s))"
    using costs_bulks[of "sequence_args s", unfolded costs_def] f c(2) len d
    by (simp only: length_args_text) blast
  show "\<forall>a \<in> set (sequence_args s). length a \<le> nat i64_max" by (rule length_bulks_small[OF f])
qed

lemma sequence_frame:
  "exact_frame (measure_sequence :: sequence \<Rightarrow> 'x request_error + nat)
     (write_sequence :: ('w, 'x) limit_ops \<Rightarrow> _) (\<lambda>s. args_text (sequence_args s)) sequence_ok"
proof
  fix s and n
  assume ok: "sequence_ok s" and m: "measure_sequence s = (Inr n :: 'x request_error + nat)"
  note k = measure_sequence_Inr[OF m ok]
  show "n = length (args_text (sequence_args s))" by (rule k(2))
next
  fix W :: "('w, 'x) limit_ops" and s and n
  assume W: "limit_laws W" and ok: "sequence_ok s" and m: "measure_sequence s = (Inr n :: 'x request_error + nat)"
  note k = measure_sequence_Inr[OF m ok] and len = length_sequence_args[OF ok]
  let ?b = "\<lambda>out v. writer_bulk W out (slice_payload v)"
  have "length (sq_items s) * sq_width s \<le> nat i64_max" "length (sq_prefix s) + length (sq_items s) * sq_width s \<le> nat i64_max"
    using k(3) len by simp_all
  then have c: "add_group_count (length (sq_prefix s)) (sq_declared s) (sq_width s) =
      (Inr (length (sequence_args s)) :: 'x request_error + nat)"
    using len k(1) by (simp add: add_group_count_Inr)
  have d: "sq_declared s \<le> usize_max"
  proof (cases "sq_items s")
    case (Cons x xs)
    with ok have "0 < sq_width s" by (cases x) (auto simp: sequence_ok_def)
    then have "sq_declared s \<le> length (sequence_args s)" using len k(1) by (simp add: trans_le_add2)
    with k(3) show ?thesis by simp
  qed (simp add: k(1))
  have w: "write_sequence W s = (\<lambda>out. bindr (writer_array W (length (sequence_args s)) out)
      (\<lambda>out. foldr_err ?b out (sequence_args s)))"
  proof
    fix out
    have "foldr_err (counted (\<lambda>out item. foldr_err ?b out (argument_values item)) (sq_declared s)) (0, o1) (sq_items s) =
        bindr (foldr_err ?b o1 (concat (map argument_values (sq_items s)))) (\<lambda>o2. Inr (sq_declared s, o2))" for o1
      using counted_enough[of 0 "sq_items s" "sq_declared s" "\<lambda>out item. foldr_err ?b out (argument_values item)" o1] d
      by (simp add: k(1) fold_concat)
    then show "write_sequence W s out = bindr (writer_array W (length (sequence_args s)) out)
        (\<lambda>out. foldr_err ?b out (sequence_args s))"
      by (simp add: sequence_counted c sequence_args_def foldr_err_append bindr_assoc check_items_def)
  qed
  from emits_bind[OF emits_array[OF W k(3)] emits_bulks[OF W k(4)]]
  show "emits W (write_sequence W s) (args_text (sequence_args s))"
    by (simp add: w args_text_eq)
qed

interpretation sequence: exact_frame measure_sequence write_sequence "\<lambda>s. args_text (sequence_args s)" sequence_ok
  by (rule sequence_frame)

section \<open>Scripts\<close>

definition script_args :: "invocation \<Rightarrow> bytes list" where
  "script_args c =
     [ascii ''EVAL'', in_script c, decimal (length (in_keys c))] @ in_keys c @ map payload_text (in_args c)"

definition script_ok :: "invocation \<Rightarrow> bool" where
  "script_ok c \<longleftrightarrow> (\<forall>p \<in> set (in_args c). payload_ok p)"

lemma foldr_err_map: "foldr_err f s (map g xs) = foldr_err (\<lambda>s x. f s (g x)) s xs"
  by (induction xs arbitrary: s) simp_all

lemma foldr_err_cong: "(\<And>s x. x \<in> set xs \<Longrightarrow> f s x = g s x) \<Longrightarrow> foldr_err f s xs = foldr_err g s xs"
proof (induction xs arbitrary: s)
  case (Cons x xs)
  then have "foldr_err f s' xs = foldr_err g s' xs" for s' by simp
  with Cons.prems[of x s] show ?case by simp
qed simp

lemma fold_payloads:
  fixes l :: nat
  assumes "script_ok c"
  shows "foldr_err (\<lambda>l a. length_bulk l (pl_len a)) l (in_args c) =
    foldr_err (\<lambda>l a. length_bulk l (length a)) l (map payload_text (in_args c))"
  using assms by (auto simp: foldr_err_map script_ok_def payload_ok_def intro!: foldr_err_cong)

lemma script_count_Inr: "script_count k a = Inr n \<longleftrightarrow> n = 3 + (k + a) \<and> n \<le> usize_max"
  by (auto simp: script_count_def bindr_Inr_iff add_count_Inr)

lemma script_length_slices:
  assumes "script_ok c"
  shows "script_length c =
    bindr (script_count (length (in_keys c)) (length (in_args c))) (\<lambda>count.
    bindr (length_array count) (\<lambda>l. foldr_err (\<lambda>l a. length_bulk l (length a)) l (script_args c)))"
  by (simp add: script_length_def script_start_def script_args_def foldr_err_append bindr_assoc fold_payloads[OF assms])

lemma length_script_args [simp]: "length (script_args c) = 3 + (length (in_keys c) + length (in_args c))"
  by (simp add: script_args_def)

lemma script_length_Inr:
  assumes "script_length c = (Inr n :: 'x request_error + nat)" and ok: "script_ok c"
  shows "n = length (args_text (script_args c))" and "length (script_args c) \<le> nat i64_max"
    and "\<forall>a \<in> set (script_args c). length a \<le> nat i64_max"
proof -
  from assms obtain l where c: "length (script_args c) \<le> nat i64_max" "l = 3 + length (decimal (length (script_args c)))"
    and f: "foldr_err (\<lambda>l a. length_bulk l (length a)) l (script_args c) = (Inr n :: 'x request_error + nat)"
    by (auto simp: script_length_slices[OF ok] bindr_Inr_iff script_count_Inr length_array_Inr)
  show "n = length (args_text (script_args c))"
    using costs_bulks[of "script_args c", unfolded costs_def] f c(2) by (simp only: length_args_text) blast
  show "length (script_args c) \<le> nat i64_max" by (rule c(1))
  show "\<forall>a \<in> set (script_args c). length a \<le> nat i64_max" by (rule length_bulks_small[OF f])
qed

lemma emits_payloads:
  assumes W: "limit_laws W" and ok: "\<forall>p \<in> set ps. payload_ok p \<and> pl_len p \<le> usize_max"
  shows "emits W (\<lambda>w. foldr_err (\<lambda>w a. writer_bulk W w a) w ps) (concat (map (\<lambda>a. wire (RBulk (payload_text a))) ps))"
  by (rule emits_fold, rule emits_bulk[OF W]) (use ok in auto)

lemma script_frame:
  "exact_frame (script_length :: invocation \<Rightarrow> 'x request_error + nat)
     (script_eval :: ('w, 'x) limit_ops \<Rightarrow> _) (\<lambda>c. args_text (script_args c)) script_ok"
proof
  fix c and n
  assume ok: "script_ok c" and m: "script_length c = (Inr n :: 'x request_error + nat)"
  show "n = length (args_text (script_args c))" by (rule script_length_Inr(1)[OF m ok])
next
  fix W :: "('w, 'x) limit_ops" and c and n
  assume W: "limit_laws W" and ok: "script_ok c" and m: "script_length c = (Inr n :: 'x request_error + nat)"
  note k = script_length_Inr[OF m ok]
  have cnt: "script_count (length (in_keys c)) (length (in_args c)) = (Inr (length (script_args c)) :: 'x request_error + nat)"
    using k(2) by (simp add: script_count_Inr)
  let ?pre = "[ascii ''EVAL'', in_script c, decimal (length (in_keys c))] @ in_keys c"
  have w: "script_eval W c = (\<lambda>out. bindr (writer_array W (length (script_args c)) out) (\<lambda>out.
      bindr (foldr_err (\<lambda>out a. writer_bulk W out (slice_payload a)) out ?pre) (\<lambda>out.
      foldr_err (\<lambda>out a. writer_bulk W out a) out (in_args c))))"
    by (rule ext) (simp add: script_eval_def cnt Let_def bindr_assoc)
  have small: "\<forall>a \<in> set ?pre. length a \<le> nat i64_max" using k(3) by (auto simp: script_args_def)
  have sized: "\<forall>p \<in> set (in_args c). payload_ok p \<and> pl_len p \<le> usize_max"
  proof
    fix p assume p: "p \<in> set (in_args c)"
    with ok have "payload_ok p" by (simp add: script_ok_def)
    moreover have "length (payload_text p) \<le> nat i64_max" using k(3) p by (auto simp: script_args_def)
    ultimately show "payload_ok p \<and> pl_len p \<le> usize_max" by (simp add: payload_ok_def)
  qed
  from emits_bind[OF emits_array[OF W k(2)] emits_bind[OF emits_bulks[OF W small] emits_payloads[OF W sized]]]
  show "emits W (script_eval W c) (args_text (script_args c))"
    by (simp add: w args_text_eq script_args_def comp_def)
qed

interpretation script: exact_frame script_length script_eval "\<lambda>c. args_text (script_args c)" script_ok
  by (rule script_frame)

text \<open>Measuring from the lengths alone gives what measuring the invocation gives.\<close>

lemma script_lengths_exact:
  assumes "n \<le> usize_max"
  shows "length sizes = n \<Longrightarrow> script_lengths l n sizes = (foldr_err length_bulk l sizes :: 'x request_error + nat)"
proof -
  assume "length sizes = n"
  then show ?thesis
    using counted_enough[of 0 sizes n "length_bulk :: nat \<Rightarrow> nat \<Rightarrow> 'x request_error + nat" l] assms
    by (simp add: script_lengths_def check_items_def bindr_assoc flip: counted_def)
qed

lemma script_wire_len_eq:
  assumes "length (in_keys c) \<le> usize_max" and "length (in_args c) \<le> usize_max"
  shows "script_wire_len (in_script c) (length (in_keys c)) (map length (in_keys c))
      (length (in_args c)) (map pl_len (in_args c)) = script_length c"
  by (simp add: script_wire_len_def script_length_def script_lengths_exact assms foldr_err_map)

lemma script_wire_len_counts:
  assumes "script_wire_len script k ks a as = (Inr n :: 'x request_error + nat)"
  shows "length ks = k" and "length as = a"
proof -
  have *: "script_lengths l d sizes = (Inr l' :: 'x request_error + nat) \<Longrightarrow> length sizes = d" for l d sizes l'
    using counted_Inr[of length_bulk d 0 l sizes]
    by (fastforce simp: script_lengths_def bindr_Inr_iff check_items_Inr simp flip: counted_def)
  from assms * show "length ks = k" "length as = a" by (auto simp: script_wire_len_def bindr_Inr_iff)
qed

section \<open>Exactness\<close>

lemma fold_bulks_exact:
  "foldr_err (\<lambda>l a. length_bulk l (length a)) l xs = (Inr n :: 'x request_error + nat) \<longleftrightarrow>
     (\<forall>a \<in> set xs. length a \<le> nat i64_max) \<and>
     n = l + (\<Sum>a\<leftarrow>xs. 5 + length (decimal (length a)) + length a) \<and> (xs = [] \<or> n \<le> usize_max)"
proof (induction xs arbitrary: l)
  case (Cons x xs)
  show ?case unfolding foldr_err.simps bindr_Inr_iff Cons.IH length_bulk_Inr by (cases xs) auto
qed auto

lemma measure_slices_exact:
  "measure_slices (prefix, tail) = (Inr n :: 'x request_error + nat) \<longleftrightarrow>
     n = length (args_text (prefix @ tail)) \<and> n \<le> usize_max \<and> length (prefix @ tail) \<le> nat i64_max \<and>
     (\<forall>a \<in> set (prefix @ tail). length a \<le> nat i64_max)"
proof -
  let ?c = "length (prefix @ tail)"
  have "measure_slices (prefix, tail) = (Inr n :: 'x request_error + nat) \<longleftrightarrow>
      ?c \<le> nat i64_max \<and>
      foldr_err (\<lambda>l a. length_bulk l (length a)) (3 + length (decimal ?c)) (prefix @ tail) = (Inr n :: 'x request_error + nat)"
    by (auto simp: measure_slices_def bindr_Inr_iff add_count_Inr length_array_Inr)
  then show ?thesis
    using length_decimal_u64[of ?c]
    unfolding fold_bulks_exact length_args_text by (cases "prefix @ tail") auto
qed

lemma encoder_encode_outcome:
  assumes "limit_laws W" and "fresh_alloc W alloc"
  shows "encoder_encode W alloc egress prefix tail kind =
    (case measure_slices (prefix, tail) of
       Inl e \<Rightarrow> Inl e
     | Inr n \<Rightarrow>
         (case alloc n of
            Inl c \<Rightarrow> Inl (RqCapacity c)
          | Inr w \<Rightarrow> map_err RqEgress (egress (buffer_new (args_text (prefix @ tail)) kind))))"
  using slices.outcome[OF assms(1) TrueI assms(2)] unfolding encoder_encode_def by auto

text \<open>What can be sent at all: the lengths fit the signed width of the protocol and the frame a \<open>usize\<close>.\<close>

definition sendable :: "bytes list \<Rightarrow> bool" where
  "sendable args \<longleftrightarrow> length (args_text args) \<le> usize_max \<and> length args \<le> nat i64_max \<and>
     (\<forall>a \<in> set args. length a \<le> nat i64_max)"

lemma measure_slices_cases:
  "if sendable (prefix @ tail)
   then measure_slices (prefix, tail) = (Inr (length (args_text (prefix @ tail))) :: 'x request_error + nat)
   else \<exists>e. measure_slices (prefix, tail) = (Inl e :: 'x request_error + nat)"
proof (cases "measure_slices (prefix, tail) :: 'x request_error + nat")
  case (Inl e)
  with measure_slices_exact[of prefix tail "length (args_text (prefix @ tail))", where 'x = 'x]
  show ?thesis by (auto simp: sendable_def)
next
  case (Inr n)
  with measure_slices_exact[of prefix tail n, where 'x = 'x] show ?thesis by (auto simp: sendable_def)
qed

lemma encoder_encode_exact:
  fixes W :: "('w, 'x) limit_ops"
  assumes "limit_laws W" and "fresh_alloc W alloc"
  shows "encoder_encode W alloc egress prefix tail kind = Inr b \<longleftrightarrow>
      sendable (prefix @ tail) \<and> (\<exists>w. alloc (length (args_text (prefix @ tail))) = Inr w) \<and>
      egress (buffer_new (args_text (prefix @ tail)) kind) = Inr b"
    and "sendable (prefix @ tail) \<Longrightarrow> alloc (length (args_text (prefix @ tail))) = Inl x \<Longrightarrow>
      encoder_encode W alloc egress prefix tail kind = Inl (RqCapacity x)"
  using measure_slices_cases[of prefix tail, where 'x = 'x]
  unfolding encoder_encode_outcome[OF assms]
  by (auto simp: map_err_Inr_iff split: if_splits sum.splits)

text \<open>The same for the other two kinds of request.\<close>

lemma fold_bulks_sendable:
  assumes "sendable args"
  shows "foldr_err (\<lambda>l a. length_bulk l (length a)) (3 + length (decimal (length args))) args =
    Inr (length (args_text args))"
  using assms length_decimal_u64[of "length args"]
  unfolding fold_bulks_exact length_args_text sendable_def by auto

lemma length_array_sendable: "sendable args \<Longrightarrow> length_array (length args) = Inr (3 + length (decimal (length args)))"
  by (simp add: sendable_def length_array_Inr)

lemma declared_bound:
  assumes "sequence_ok s" and "sq_declared s = length (sq_items s)" and "length (sequence_args s) \<le> n"
  shows "sq_declared s \<le> n"
proof (cases "sq_items s")
  case (Cons x xs)
  with assms(1) have "0 < sq_width s" by (cases x) (auto simp: sequence_ok_def)
  then have "sq_declared s \<le> length (sequence_args s)"
    using length_sequence_args[OF assms(1)] assms(2) by (simp add: trans_le_add2)
  with assms(3) show ?thesis by simp
qed (simp add: assms(2))

lemma measure_sequence_exact:
  fixes n :: nat
  assumes ok: "sequence_ok s"
  shows "measure_sequence s = (Inr n :: 'x request_error + nat) \<longleftrightarrow>
    sq_declared s = length (sq_items s) \<and> sendable (sequence_args s) \<and> n = length (args_text (sequence_args s))"
    (is "?l \<longleftrightarrow> ?r")
proof
  assume ?l
  note k = measure_sequence_Inr[OF this ok]
  have "length (args_text (sequence_args s)) \<le> usize_max"
  proof (cases "sequence_args s")
    case Nil
    then show ?thesis by (simp add: args_text_def)
  next
    case (Cons a as)
    from k(5) obtain l where
      "foldr_err (\<lambda>l v. length_bulk l (length v)) l (sequence_args s) = (Inr n :: 'x request_error + nat)" ..
    with k(2) Cons show ?thesis unfolding fold_bulks_exact by auto
  qed
  with k show ?r by (simp add: sendable_def)
next
  assume r: ?r
  then have snd: "sendable (sequence_args s)" and d: "sq_declared s = length (sq_items s)" by auto
  note len = length_sequence_args[OF ok] and all = fold_bulks_sendable[OF snd, where 'a = 'x]
  have i: "length (sequence_args s) \<le> nat i64_max" using snd by (simp add: sendable_def)
  then have "length (sequence_args s) \<le> usize_max" by simp
  from declared_bound[OF ok d this] have b: "sq_declared s \<le> usize_max" .
  have c: "add_group_count (length (sq_prefix s)) (sq_declared s) (sq_width s) =
      (Inr (length (sequence_args s)) :: 'x request_error + nat)"
    using len d i by (simp add: add_group_count_Inr)
  have "foldr_err (counted (\<lambda>l item. foldr_err (\<lambda>l v. length_bulk l (length v)) l (argument_values item)) (sq_declared s))
      (0, l1) (sq_items s) =
    bindr (foldr_err (\<lambda>l v. length_bulk l (length v)) l1 (concat (map argument_values (sq_items s))))
      (\<lambda>l2. Inr (sq_declared s, l2) :: 'x request_error + nat \<times> nat)" for l1
    using counted_enough[of 0 "sq_items s" "sq_declared s"
        "\<lambda>l item. foldr_err (\<lambda>l v. length_bulk l (length v)) l (argument_values item) :: 'x request_error + nat" l1] b d
    by (simp add: fold_concat)
  then have "measure_sequence s = bindr (add_group_count (length (sq_prefix s)) (sq_declared s) (sq_width s)) (\<lambda>count.
      bindr (length_array count) (\<lambda>l. foldr_err (\<lambda>l v. length_bulk l (length v) :: 'x request_error + nat) l (sequence_args s)))"
    by (simp add: sequence_counted sequence_args_def foldr_err_append bindr_assoc check_items_def)
  with all r show ?l by (simp add: c[unfolded d] length_array_sendable[OF snd])
qed

lemma script_length_exact:
  assumes ok: "script_ok c"
  shows "script_length c = (Inr n :: 'x request_error + nat) \<longleftrightarrow>
    sendable (script_args c) \<and> n = length (args_text (script_args c))" (is "?l \<longleftrightarrow> ?r")
proof
  assume l: ?l
  note k = script_length_Inr[OF this ok]
  from l obtain m where "foldr_err (\<lambda>l a. length_bulk l (length a)) m (script_args c) = (Inr n :: 'x request_error + nat)"
    by (auto simp: script_length_slices[OF ok] bindr_Inr_iff)
  then have "n \<le> usize_max" unfolding fold_bulks_exact by (auto simp: script_args_def)
  with k show ?r by (simp add: sendable_def)
next
  assume r: ?r
  then have snd: "sendable (script_args c)" by simp
  then have "script_count (length (in_keys c)) (length (in_args c)) = (Inr (length (script_args c)) :: 'x request_error + nat)"
    by (simp add: script_count_Inr sendable_def)
  with r show ?l
    by (simp add: script_length_slices[OF ok] length_array_sendable[OF snd] fold_bulks_sendable[OF snd]
        del: length_script_args)
qed

lemma encoder_sequence_exact:
  fixes W :: "('w, 'x) limit_ops"
  assumes "limit_laws W" and "fresh_alloc W alloc"
    and ok: "sequence_ok s"
  shows "encoder_sequence W alloc egress s = Inr b \<longleftrightarrow>
    sq_declared s = length (sq_items s) \<and> sendable (sequence_args s) \<and>
    (\<exists>w. alloc (length (args_text (sequence_args s))) = Inr w) \<and>
    egress (buffer_new (args_text (sequence_args s)) Plain) = Inr b"
proof -
  have o: "encoder_sequence W alloc egress s = (case measure_sequence s of
       Inl e \<Rightarrow> Inl e
     | Inr n \<Rightarrow>
         (case alloc n of
            Inl c \<Rightarrow> Inl (RqCapacity c)
          | Inr w \<Rightarrow> map_err RqEgress (egress (buffer_new (args_text (sequence_args s)) Plain))))"
    unfolding encoder_sequence_def by (rule sequence.outcome[OF assms(1) ok assms(2)])
  show ?thesis
  proof (cases "measure_sequence s :: 'x request_error + nat")
    case (Inl e)
    with o measure_sequence_exact[OF ok, where 'x = 'x] show ?thesis by auto
  next
    case (Inr n)
    with o measure_sequence_exact[OF ok, of n, where 'x = 'x] show ?thesis
      by (auto simp: map_err_Inr_iff split: sum.splits)
  qed
qed

lemma script_outcome:
  fixes W :: "('w, 'x) limit_ops"
  assumes "limit_laws W" and "fresh_alloc W alloc"
    and ok: "script_ok c"
  shows "eval_prepared W alloc egress c = Inr b \<longleftrightarrow>
    sendable (script_args c) \<and> (\<exists>w. alloc (length (args_text (script_args c))) = Inr w) \<and>
    egress (buffer_new (args_text (script_args c)) Plain) = Inr b"
proof -
  have o: "eval_prepared W alloc egress c = (case script_length c of
       Inl e \<Rightarrow> Inl e
     | Inr n \<Rightarrow>
         (case alloc n of
            Inl c \<Rightarrow> Inl (RqCapacity c)
          | Inr w \<Rightarrow> map_err RqEgress (egress (buffer_new (args_text (script_args c)) Plain))))"
    unfolding eval_prepared_def by (rule script.outcome[OF assms(1) ok assms(2)])
  show ?thesis
  proof (cases "script_length c :: 'x request_error + nat")
    case (Inl e)
    with o script_length_exact[OF ok, where 'x = 'x] show ?thesis by auto
  next
    case (Inr n)
    with o script_length_exact[OF ok, of n, where 'x = 'x] show ?thesis
      by (auto simp: map_err_Inr_iff split: sum.splits)
  qed
qed

text \<open>A payload that lies about its length makes no frame.\<close>

lemma foldr_err_all:
  "foldr_err f s xs = Inr s' \<Longrightarrow> x \<in> set xs \<Longrightarrow> \<exists>t t'. f t x = Inr t'"
  by (induction xs arbitrary: s) (auto simp: bindr_Inr_iff)

lemma script_eval_ok: "script_eval W c out = Inr out' \<Longrightarrow> script_ok c"
  unfolding script_ok_def script_eval_def Let_def
  by (auto simp: bindr_Inr_iff dest!: foldr_err_all dest: writer_bulk_contract)

lemma eval_prepared_ok:
  assumes "eval_prepared W alloc egress c = Inr b"
  shows "script_ok c"
  using assms by (auto simp: eval_prepared_def admit_with_def complete_encode_def bindr_Inr_iff dest: script_eval_ok)

section \<open>A concrete writer\<close>

definition list_limit :: "(bytes \<times> nat, nat) limit_ops" where
  "list_limit = \<lparr>
     lim_extend = (\<lambda>(content, room) bs.
       if length bs \<le> room then Inr (content @ bs, room - length bs) else Inl (length bs)),
     lim_remaining = snd,
     lim_content = fst\<rparr>"

definition list_alloc :: "nat \<Rightarrow> nat \<Rightarrow> nat + bytes \<times> nat" where
  "list_alloc capacity n = (if n \<le> capacity then Inr ([], n) else Inl n)"

lemma list_limit_laws: "limit_laws list_limit"
  by (simp add: limit_laws_def list_limit_def split: prod.split)

lemma list_alloc_fresh: "fresh_alloc list_limit (list_alloc capacity)"
  by (auto simp: fresh_alloc_def list_alloc_def list_limit_def)

end
