(* ===== verification/Redis_Claims.thy ===== *)
theory Redis_Claims
  imports Resp_Read Req_Calls
begin

text \<open>
  The properties of the RESP scanner, its gate, the reader and the request encoder, each with a witness
  over the list instances of the external parts.
\<close>

section \<open>Concrete inputs\<close>

definition demo_pool :: "nat \<Rightarrow> pool" where
  "demo_pool n = (case pool_try_new (None :: unit option) n of Inr p \<Rightarrow> p | Inl e \<Rightarrow> undefined)"

definition demo_queue :: "nat list_fifo" where
  "demo_queue = \<lparr>lf_slots = 4, lf_lanes = (\<lambda>_. [])\<rparr>"

definition demo_store :: "(nat list_fifo, nat) storage" where
  "demo_store = \<lparr>st_pool = demo_pool 8, st_gate = gate_new demo_queue 2\<rparr>"

definition demo_own :: "nat option \<Rightarrow> key list" where
  "demo_own = (\<lambda>_. [])(None := [1..<9])"

definition demo_reply :: resp where
  "demo_reply = RArray [RInteger (- 5), RBulk [104, 105]]"

lemma demo_pool_new: "pool_try_new (None :: unit option) n = Inr (demo_pool n)"
  by (simp add: demo_pool_def pool_try_new_def)

lemma demo_pool_inv: "pool_inv (st_pool demo_store) demo_own"
  using pool_inv_new[OF demo_pool_new[of 8], where 'b = nat] by (simp add: demo_store_def demo_own_def)

lemma demo_room: "has_room demo_store demo_own 0 demo_reply"
  using demo_pool_inv
  by (simp add: has_room_def demo_own_def demo_reply_def demo_store_def gate_new_def)

lemma demo_fits: "fits 64 8 demo_reply"
  by (simp add: fits_def demo_reply_def bound_ok_def signed_text_def)

lemma demo_events: "events demo_reply = [EvArray 2, EvInteger (- 5), EvBulk [104, 105]]"
  by (simp add: demo_reply_def)

section \<open>RESP replies\<close>

text \<open>C1: a reply that fits the limits, received in any pieces, is completed by the scanner exactly
  at its last byte, and the tape it hands over is the preorder of the reply.\<close>

theorem reply_in_pieces:
  assumes "fits byte_max node_max v" and "has_room st own i v" and "makes_sources mk"
    and "concat pieces = wire v @ rest"
  shows "\<exists>m' own' tail.
    parser_feed F mk byte_max node_max [] pieces (parser_new st) =
      Some (m', Complete (wire v) tail (length (kinds 0 v)) (length (wire v))) \<and>
    finished m' own' i tail (length (kinds 0 v)) (length (wire v)) \<and>
    tape_kinds (st_pool (mc_store m')) (own' (Some i)) = kinds 0 v"
  by (rule feed_new[OF assms])

theorem reply_in_pieces_witness:
  "\<exists>m' own' tail.
    parser_feed list_fifo_ops plain_source 64 8 [] [[42, 50, 13, 10, 58], [45, 53, 13, 10, 36], [50, 13, 10, 104, 105, 13, 10, 43]]
      (parser_new demo_store) =
      Some (m', Complete (wire demo_reply) tail (length (kinds 0 demo_reply)) (length (wire demo_reply))) \<and>
    finished m' own' (0 :: nat) tail (length (kinds 0 demo_reply)) (length (wire demo_reply)) \<and>
    tape_kinds (st_pool (mc_store m')) (own' (Some 0)) = kinds 0 demo_reply"
  by (rule reply_in_pieces[OF demo_fits demo_room plain_makes_sources, where rest = "[43]"])
    (simp add: demo_reply_def signed_text_def digit_byte_def)

text \<open>C2: the reader of a reply received in any pieces yields exactly the events of the reply, every
  text sliced from the frame, and then reports that nothing is left.\<close>

theorem reply_reads_back:
  assumes "fits byte_max node_max v" and "has_room st own i v" and "makes_sources mk"
    and "concat pieces = wire v @ rest"
  shows "\<exists>m' tail len c.
    parser_feed F mk byte_max node_max [] pieces (parser_new st) =
      Some (m', Complete (wire v) tail len (length (wire v))) \<and>
    read_all len (wire v) (st_pool (mc_store m'))
      (tape_cursor (st_pool (mc_store m')) \<lparr>tp_tail = tail, tp_len = len\<rparr>) = (map Some (events v), c) \<and>
    reader_finish c = Inr ()"
  by (rule feed_read[OF assms])

theorem reply_reads_back_witness:
  "\<exists>m' tail len c.
    parser_feed list_fifo_ops plain_source 64 8 [] [[42, 50, 13, 10, 58], [45, 53, 13, 10, 36], [50, 13, 10, 104, 105, 13, 10, 43]]
      (parser_new demo_store) = Some (m', Complete (wire demo_reply) tail len (length (wire demo_reply))) \<and>
    read_all len (wire demo_reply) (st_pool (mc_store m'))
      (tape_cursor (st_pool (mc_store m')) \<lparr>tp_tail = tail, tp_len = len\<rparr>) =
      (map Some [EvArray 2, EvInteger (- 5), EvBulk [104, 105]], c) \<and>
    reader_finish c = Inr ()"
  unfolding demo_events [symmetric]
  by (rule reply_reads_back[OF demo_fits demo_room plain_makes_sources, where rest = "[43]"])
    (simp add: demo_reply_def signed_text_def digit_byte_def)

text \<open>C3: whatever bytes arrive, a scan returns, asks only for bytes of its input, keeps the rings of
  the pool intact and the tapes of the other parsers unchanged, and hands over only complete
  preorders whose spans lie inside the frame.\<close>

theorem scan_any_input:
  assumes "bound_ok byte_max" and "bound_ok node_max" and "source_ok src" and "scan_inv m own i"
    and "src_bytes src = seen @ ext" and "state_ok seen (mc_state m)"
  shows "\<exists>m' out. parser_scan F src byte_max node_max m = Some (m', out) \<and>
    outcome_ok (src_bytes src) out \<and> state_ok (src_bytes src) (mc_state m') \<and>
    step_safe m own i (m', Some out)"
  by (rule parser_scan_safe[OF assms(1-4) assms(5,6)])

theorem scan_any_input_witness:
  "\<exists>m' out. parser_scan list_fifo_ops (plain_source [42, 51, 13, 10, 36, 57]) 64 8 (parser_new demo_store) = Some (m', out) \<and>
    outcome_ok [42, 51, 13, 10, 36, 57] out \<and> state_ok [42, 51, 13, 10, 36, 57] (mc_state m') \<and>
    step_safe (parser_new demo_store) demo_own 0 (m', Some out)"
proof -
  have "pool_inv (st_pool demo_store) demo_own" "demo_own (Some 0) = []"
    using demo_pool_inv by (simp_all add: demo_own_def)
  note new = parser_new_inv[OF this]
  show ?thesis
    using scan_any_input[of 64 8 "plain_source [42, 51, 13, 10, 36, 57]" "parser_new demo_store" demo_own 0
        "[]" "[42, 51, 13, 10, 36, 57]" list_fifo_ops, OF _ _ plain_source_ok(1) new(1) _ new(2)]
    by (simp add: plain_source_ok bound_ok_def)
qed

text \<open>C4: a scan that stopped for want of bytes goes on, on a longer input, exactly as a scan of that
  longer input from the earlier state: same outcome, same tape, same state up to the search hint.\<close>

theorem scan_resumes:
  assumes "bound_ok byte_max" and "state_ok (src_bytes src) (mc_state m)"
    and "parser_scan F src byte_max node_max m = Some (m1, Pending)" and "longer src src'"
  shows "agree_opt (parser_scan F src' byte_max node_max m1) (parser_scan F src' byte_max node_max m)"
proof -
  from assms(3) have l: "scan_loop F src byte_max node_max m = Some (m1, Pending)"
    by (simp add: parser_scan_ok[OF assms(2)])
  have "state_ok (src_bytes src) (mc_state m1)"
    using scan_loop_returns[OF assms(1,2), of F node_max] l by auto
  note ok = parser_scan_ok[OF longer_state_ok[OF assms(4) this]]
    parser_scan_ok[OF longer_state_ok[OF assms(4) assms(2)]]
  show ?thesis unfolding ok by (rule scan_loop_resume[OF assms(1,2) l assms(4)])
qed

theorem scan_resumes_witness:
  "\<exists>m1. parser_scan list_fifo_ops (plain_source []) 64 8 (parser_new demo_store) = Some (m1, Pending) \<and>
     agree_opt (parser_scan list_fifo_ops (plain_source [43, 79, 75, 13, 10]) 64 8 m1)
       (parser_scan list_fifo_ops (plain_source [43, 79, 75, 13, 10]) 64 8 (parser_new demo_store))"
proof -
  have s: "state_ok (src_bytes (plain_source [])) (mc_state (parser_new demo_store))"
    by (simp add: parser_new_def state_ok_new)
  have r: "parser_scan list_fifo_ops (plain_source []) 64 8 (parser_new demo_store) =
      Some (parser_new demo_store, Pending)"
    unfolding parser_scan_ok[OF s]
    by (subst scan_loop_unfold)
      (simp add: scan_step_def scan_marker_def parser_new_def scanner_new_def plain_source_def get_def)
  from scan_resumes[OF _ s r, of "plain_source [43, 79, 75, 13, 10]"] r show ?thesis
    by (simp add: bound_ok_def longer_def plain_source_ok)
qed

text \<open>C5: in every reachable state of the gate no more charges are out than there are lanes, every
  charge has one owner, and every waiting parser is either queued or already granted its lane, so no
  wake-up is lost.\<close>

theorem gate_safe:
  assumes "fifo_laws F" and "\<And>i. fifo_get F w 0 i = None" and "lanes \<le> usize_max"
    and "gate_reachable F (gate_initial F w lanes) s"
  shows "gate_active (sys_gate s) \<le> gate_lanes (sys_gate s) \<and>
    gate_active (sys_gate s) =
      card (held_set (sys_phase s)) + sys_live s + card (granted_set (sys_gate s)) \<and>
    (\<forall>i j t. sys_phase s i = Waiting j t \<longrightarrow>
       j = i \<and> (fifo_get F (gate_waiters (sys_gate s)) 0 i = Some t) \<noteq> (gate_granted (sys_gate s) i = Some t))"
  using gate_reachable_inv[OF assms(1) assms(4) gate_initial_inv[OF assms(2,3)]]
  by (simp add: gate_inv_def gate_ok_def)

theorem gate_safe_witness:
  "gate_active (sys_gate (gate_initial list_fifo_ops demo_queue 2)) \<le> 2"
  using gate_safe[OF list_fifo_laws _ _ gate_start, of demo_queue 2]
  by (simp add: demo_queue_def list_fifo_ops_def lf_get_def gate_initial_def gate_new_def)

section \<open>Requests\<close>

text \<open>C6: a command yields a frame exactly when its lengths are representable, the reservation is
  granted and egress accepts it, and the frame is then the wire form of its slices, byte for byte,
  under the command's sensitivity.\<close>

theorem command_exact:
  assumes "limit_laws W" and "fresh_alloc W alloc"
    and "command_slices ryu c = (prefix, tail, kind)"
  shows "encode_command W alloc egress ryu c = Inr b \<longleftrightarrow>
    sendable (prefix @ tail) \<and> (\<exists>w. alloc (length (args_text (prefix @ tail))) = Inr w) \<and>
    egress (buffer_new (args_text (prefix @ tail)) kind) = Inr b"
  using encoder_encode_exact(1)[OF assms(1,2)] by (simp add: encode_command_def assms(3))

theorem command_exact_witness:
  "encode_command list_limit (list_alloc 64) Inr (\<lambda>_. []) (Auth [112, 119]) =
     Inr (buffer_new (args_text [ascii ''AUTH'', [112, 119]]) Secret)"
proof -
  have w: "args_text [ascii ''AUTH'', [112, 119]] =
      [42, 50, 13, 10, 36, 52, 13, 10, 65, 85, 84, 72, 13, 10, 36, 50, 13, 10, 112, 119, 13, 10]"
    by (simp add: args_text_def ascii_def digit_byte_def)
  have s: "sendable [ascii ''AUTH'', [112, 119]]" unfolding sendable_def w by (simp add: ascii_def)
  have f: "command_slices (\<lambda>_. []) (Auth [112, 119]) = ([ascii ''AUTH'', [112, 119]], [], Secret)" by simp
  show ?thesis
    using command_exact[OF list_limit_laws list_alloc_fresh f,
        of 64 Inr "buffer_new (args_text [ascii ''AUTH'', [112, 119]]) Secret"] s
    by (simp add: w list_alloc_def)
qed

text \<open>C7: a request built from counted items yields a frame exactly when as many items came as were
  declared (and the lengths are representable, the reservation is granted and egress accepts it);
  the frame then lists prefix and items in order.\<close>

theorem sequence_exact:
  assumes "limit_laws W" and "fresh_alloc W alloc"
    and "sequence_ok s" and "args = sq_prefix s @ concat (map argument_values (sq_items s))"
  shows "encoder_sequence W alloc egress s = Inr b \<longleftrightarrow>
    sq_declared s = length (sq_items s) \<and> sendable args \<and> (\<exists>w. alloc (length (args_text args)) = Inr w) \<and>
    egress (buffer_new (wire (RArray (map RBulk args))) Plain) = Inr b"
  using encoder_sequence_exact[OF assms(1-3)] by (simp add: assms(4) sequence_args_def args_text_def)

definition demo_sequence :: sequence where
  "demo_sequence = \<lparr>sq_prefix = [[72]], sq_declared = 2, sq_width = 2, sq_items = [Two [97] [98], Two [99] []]\<rparr>"

theorem sequence_exact_witness:
  "\<exists>b. encoder_sequence list_limit (list_alloc 64) Inr demo_sequence = Inr b \<and> length (fb_data b) = 38"
proof -
  let ?args = "[[72], [97], [98], [99], []] :: bytes list"
  have w: "length (args_text ?args) = 38" by (simp add: args_text_def)
  have "encoder_sequence list_limit (list_alloc 64) Inr demo_sequence = Inr (buffer_new (wire (RArray (map RBulk ?args))) Plain)"
    using sequence_exact[OF list_limit_laws list_alloc_fresh, of demo_sequence ?args 64 Inr] w
    by (auto simp: demo_sequence_def sequence_ok_def sendable_def list_alloc_def)
  with w show ?thesis by (simp add: buffer_new_def args_text_def del: wire.simps)
qed

text \<open>C8: a script invocation yields a frame exactly when every payload visits as many bytes as it
  declared; a payload that lies about its length never reaches the wire.\<close>

theorem script_exact:
  assumes "limit_laws W" and "fresh_alloc W alloc"
    and "args = [ascii ''EVAL'', in_script c, decimal (length (in_keys c))] @ in_keys c @
      map (\<lambda>p. concat (pl_chunks p)) (in_args c)"
  shows "eval_prepared W alloc egress c = Inr b \<longleftrightarrow>
    (\<forall>p \<in> set (in_args c). length (concat (pl_chunks p)) = pl_len p) \<and> sendable args \<and>
    (\<exists>w. alloc (length (args_text args)) = Inr w) \<and>
    egress (buffer_new (wire (RArray (map RBulk args))) Plain) = Inr b"
proof -
  have a: "args = script_args c" by (simp add: assms(3) script_args_def payload_text_def [abs_def])
  have ok: "script_ok c \<longleftrightarrow> (\<forall>p \<in> set (in_args c). length (concat (pl_chunks p)) = pl_len p)"
    by (simp add: script_ok_def payload_ok_def payload_text_def)
  show ?thesis
  proof (cases "script_ok c")
    case True
    from script_outcome[OF assms(1,2) this] True ok show ?thesis
      by (simp add: a args_text_def)
  next
    case False
    with eval_prepared_ok[of W alloc egress c b] ok show ?thesis by blast
  qed
qed

definition demo_invocation :: invocation where
  "demo_invocation = \<lparr>in_script = [114], in_keys = [[107]],
     in_args = [\<lparr>pl_len = 3, pl_chunks = [[97], [98, 99]]\<rparr>, slice_payload [120]]\<rparr>"

theorem script_exact_witness:
  "\<exists>b. eval_prepared list_limit (list_alloc 64) Inr demo_invocation = Inr b \<and> length (fb_data b) = 51"
proof -
  let ?args = "[ascii ''EVAL'', [114], [digit_byte 1], [107], [97, 98, 99], [120]]"
  have w: "length (args_text ?args) = 51" by (simp add: args_text_def ascii_def)
  have "eval_prepared list_limit (list_alloc 64) Inr demo_invocation = Inr (buffer_new (wire (RArray (map RBulk ?args))) Plain)"
    using script_exact[OF list_limit_laws list_alloc_fresh, of ?args demo_invocation 64 Inr] w
    by (auto simp: demo_invocation_def slice_payload_def sendable_def list_alloc_def ascii_def)
  with w show ?thesis by (simp add: buffer_new_def args_text_def del: wire.simps)
qed

text \<open>C9: the length computed for a script from the lengths alone is the one computed from the
  invocation, and it refuses counts that do not match the lengths given.\<close>

theorem script_wire_len_exact:
  assumes "length (in_keys c) \<le> usize_max" and "length (in_args c) \<le> usize_max"
  shows "script_wire_len (in_script c) (length (in_keys c)) (map length (in_keys c))
      (length (in_args c)) (map pl_len (in_args c)) = (script_length c :: 'x request_error + nat) \<and>
    (\<forall>k a n. script_wire_len (in_script c) k (map length (in_keys c)) a (map pl_len (in_args c)) =
        (Inr n :: 'x request_error + nat) \<longrightarrow>
      k = length (in_keys c) \<and> a = length (in_args c))"
  using script_wire_len_eq[OF assms, where 'a = 'x] script_wire_len_counts[of "in_script c", where 'x = 'x] by fastforce

theorem script_wire_len_exact_witness:
  "script_wire_len [114] 1 [1] (Suc 1) [3, 1] = (script_length demo_invocation :: nat request_error + nat)"
  using script_wire_len_exact[of demo_invocation, where 'x = nat] by (simp add: demo_invocation_def slice_payload_def)

end
