(* ===== verification/Pg_Wire.thy ===== *)
theory Pg_Wire
  imports Digits
begin

text \<open>
  \<open>pg/src/protocol/mod.rs\<close>, \<open>wire.rs\<close>, \<open>messages.rs\<close> and \<open>scram/error.rs\<close>: the errors of the
  PostgreSQL protocol that the modelled components raise, message tags, big-endian integers, and the
  splitting of admitted wire bytes.  An \<open>Offset\<close> or \<open>Length\<close> of the source is a \<open>u32\<close>; here it is a
  natural number, and the extent of a wire, at most \<open>u32_max\<close>, bounds every one that is computed.
\<close>

section \<open>Errors\<close>

datatype utf8 = UIncomplete | UOne | UTwo | UThree | UOther

datatype pg_number =
    NEmpty
  | NZero
  | NLeadingZero nat
  | NInvalid nat byte
  | NOverflow nat byte

text \<open>The reasons of protocol errors, the arguments in the order of the source's fields.  For the sake of
  the checking time the source's one enumeration is split into four: column values, rows and arrays;
  asynchronous messages and diagnostics; the session; and the rest, which injects the others.\<close>

datatype (plugins only: code) value_reason =
    PgBool nat byte
  | ColumnBytes nat nat nat
  | ColumnCount nat nat
  | ColumnLength nat nat
  | ColumnNull nat
  | ColumnWidth nat nat nat
  | JsonTruncated nat nat
  | JsonUtf8 nat nat utf8
  | JsonVersion nat byte
  | NegativeArrayDimension nat int
  | NegativeColumnCount int
  | NegativeColumnLength nat int
  | RowDecoderColumns nat
  | RowEmpty
  | RowTrailing nat
  | RowTruncated nat
  | RowUnread nat
  | RowUnknown
  | TextUtf8 nat nat utf8
  | ArrayDimensions nat int
  | ArrayHeader nat nat nat
  | ArrayNulls nat int
  | ArrayOid nat nat nat
  | ArrayPayload nat nat nat
  | ArrayTextOid nat nat
  | ArrayBytes nat nat
  | ArrayI32Width nat
  | ArrayI64Width nat
  | ArrayLength nat
  | NegativeArrayLength int
  | ArrayNull
  | ArrayTextUtf8 nat utf8
  | ArrayTrailing nat

datatype (plugins only: code) message_reason =
    BackendKeyBeforeAuth
  | BackendKeyStale
  | BackendKeyWidth nat
  | DiagnosticMessage
  | DiagnosticPosition byte pg_number
  | DiagnosticResponseTerminator nat
  | DiagnosticSeverity
  | DiagnosticSqlstateByte nat nat byte
  | DiagnosticSqlstateLength nat
  | DiagnosticTerminator byte nat nat
  | DiagnosticTrailing nat nat
  | DiagnosticUtf8 byte nat utf8
  | DuplicateBackendKey
  | DuplicateDiagnostic byte
  | NotificationChannelRange nat nat nat
  | NotificationPayloadRange nat nat nat
  | NotificationTerminator byte nat
  | NotificationTrailing nat
  | NotificationTruncated nat
  | NotificationUtf8 byte nat utf8
  | ParameterNameEmpty
  | ParameterNameTerminator nat
  | ParameterTrailing nat nat
  | ParameterValueTerminator nat nat

datatype (plugins only: code) session_reason =
    RequiredLength nat
  | AuthTruncated nat
  | AuthTrailing nat
  | ControlPayload byte nat
  | CopyFormat nat
  | CommandData
  | CommandEmpty
  | CommandUnknown
  | CommitTag
  | GroupReply
  | LtreeMissing
  | NoDataMismatch
  | PrepareReady
  | PrepareReplies
  | PrepareRetained
  | ReadyBeforeDescription
  | ReadyUnknown
  | ResponseUnknown
  | SaslContinue
  | SaslMechanismTerminator nat
  | SaslMechanismUtf8 nat utf8
  | SaslState
  | SaslTerminator nat
  | SaslTrailing nat
  | TransactionLane
  | TransactionLease
  | TransactionOpen

datatype (plugins only: code) reason =
    WireLength nat
  | AttributeEquals nat byte
  | AttributeName nat byte
  | AttributeOrder byte byte
  | AttributeTruncated nat nat
  | AuthBeforeFinal
  | DuplicateAttribute byte nat
  | DuplicateServerFirst
  | EmptyAttribute byte nat
  | Extension nat
  | ExtensionValue byte nat byte
  | FinalAttribute byte
  | FinalState
  | FinalValue nat byte
  | FrameCapacity nat nat
  | FrameLength nat nat
  | FrameTruncated nat nat
  | Iteration pg_number
  | MissingAttribute byte
  | MissingResult
  | NoSasl
  | NonceByte nat byte byte
  | NonceChar nat byte
  | NonceLength nat nat
  | SaslPlus
  | SaltPadding nat
  | SignatureLength nat nat
  | SignatureMismatch
  | StandardExtension byte nat
  | TrailingComma nat
  | ReasonValue value_reason
  | ReasonMessage message_reason
  | ReasonSession session_reason

datatype base64_error =
    InvalidByte nat byte
  | InvalidLength nat
  | InvalidLastSymbol nat byte byte
  | InvalidPadding
  | OutputSliceTooSmall

datatype scram_error =
    InvalidEncoding
  | ExtensionsNotSupported
  | InvalidProof
  | ChannelBindingsDontMatch
  | ServerDoesSupportChannelBinding
  | ChannelBindingNotSupported
  | UnsupportedChannelBindingType
  | UnknownUser
  | InvalidUsernameEncoding
  | NoResources
  | Other

datatype pg_error =
    PgAuth reason
  | PgServerFirst reason
  | PgServerFirstBase64 base64_error
  | PgServerFinal reason
  | PgServerFinalBase64 base64_error
  | PgScramIterations nat nat nat
  | PgScram scram_error
  | PgProtocol reason
  | PgUnsupportedAuthMethod nat
  | PgRandom
  | PgDescriptionLtreeOidZero
  | PgDescriptionRowCountTruncated nat
  | PgDescriptionRowCountNegative int
  | PgDescriptionColumnCount nat nat
  | PgDescriptionDecoderOverflow nat nat
  | PgDescriptionFieldName nat
  | PgDescriptionFieldMetadata nat
  | PgDescriptionFieldFormat int
  | PgDescriptionOid nat nat
  | PgDescriptionStringOid nat
  | PgDescriptionStringArrayOid nat
  | PgDescriptionLtreeOid nat nat
  | PgDescriptionUnvalidated nat nat
  | PgDescriptionRowTrailing nat
  | PgDescriptionParameterCountTruncated nat
  | PgDescriptionParameterCountNegative int
  | PgDescriptionParameterCount nat nat
  | PgDescriptionParameterOidTruncated nat nat
  | PgDescriptionParameterOid nat nat nat
  | PgDescriptionParameterTrailing nat
  | PgDescriptionUnexpectedRows
  | PgQueryMetadata
  | PgUnexpectedStartupMessage byte
  | PgUnexpectedSaslMessage byte
  | PgUnexpectedEagerPrepareMessage byte
  | PgUnexpectedReadyMessage byte
  | PgNotFound
  | PgScramSlot
  | PgStorage
  | PgUnreachable

section \<open>Wire bytes\<close>

definition wire_try_new :: "bytes \<Rightarrow> pg_error + bytes" where
  "wire_try_new bs = (if u32_max < length bs then Inl (PgProtocol (WireLength (length bs))) else Inr bs)"

definition length_try_new :: "nat \<Rightarrow> pg_error + nat" where
  "length_try_new n = (if u32_max < n then Inl (PgProtocol (WireLength n)) else Inr n)"

fun split_first :: "bytes \<Rightarrow> (byte \<times> bytes) option" where
  "split_first [] = None"
| "split_first (b # bs) = Some (b, bs)"

definition split_array :: "nat \<Rightarrow> bytes \<Rightarrow> (bytes \<times> bytes) option" where
  "split_array n bs = (if n \<le> length bs then Some (take n bs, drop n bs) else None)"

definition wire_split_at :: "nat \<Rightarrow> bytes \<Rightarrow> (bytes \<times> bytes) option" where
  "wire_split_at mid bs = (if mid \<le> length bs then Some (take mid bs, drop mid bs) else None)"

definition split_byte :: "byte \<Rightarrow> bytes \<Rightarrow> (bytes \<times> bytes) option" where
  "split_byte b bs = map_option (\<lambda>at. (take at bs, drop (at + 1) bs)) (position (\<lambda>x. x = b) bs)"

lemma split_byte_Some:
  "split_byte b bs = Some (u, v) \<longleftrightarrow> bs = u @ b # v \<and> b \<notin> set u"
proof
  assume "split_byte b bs = Some (u, v)"
  then obtain i where p: "position (\<lambda>x. x = b) bs = Some i" and u: "u = take i bs" and v: "v = drop (i + 1) bs"
    by (auto simp: split_byte_def)
  note f = position_Some[OF p]
  then have "bs = u @ b # v" using id_take_nth_drop[of i bs] u v by simp
  moreover have "b \<notin> set u" using f u by (auto simp: in_set_conv_nth)
  ultimately show "bs = u @ b # v \<and> b \<notin> set u" ..
next
  assume a: "bs = u @ b # v \<and> b \<notin> set u"
  then have "position (\<lambda>x. x = b) bs = Some (length u)" by (auto intro: position_skip)
  with a show "split_byte b bs = Some (u, v)" by (simp add: split_byte_def)
qed

lemma split_byte_None: "split_byte b bs = None \<longleftrightarrow> b \<notin> set bs"
  by (auto simp: split_byte_def position_None)

section \<open>Big-endian integers\<close>

fun be_bytes :: "nat \<Rightarrow> nat \<Rightarrow> bytes" where
  "be_bytes 0 v = []"
| "be_bytes (Suc k) v = be_bytes k (v div 256) @ [word_of_nat (v mod 256)]"

definition from_be :: "bytes \<Rightarrow> nat" where
  "from_be bs = foldl (\<lambda>a b. a * 256 + unat b) 0 bs"

abbreviation be16 :: "nat \<Rightarrow> bytes" where "be16 \<equiv> be_bytes 2"
abbreviation be32 :: "nat \<Rightarrow> bytes" where "be32 \<equiv> be_bytes 4"
abbreviation be64 :: "nat \<Rightarrow> bytes" where "be64 \<equiv> be_bytes 8"

lemma be32_bytes:
  "be32 v = [word_of_nat (v div 16777216 mod 256), word_of_nat (v div 65536 mod 256),
     word_of_nat (v div 256 mod 256), word_of_nat (v mod 256)]"
proof -
  have "4 = Suc (Suc (Suc (Suc 0)))" by simp
  then have "be32 v = [word_of_nat (v div 256 div 256 div 256 mod 256), word_of_nat (v div 256 div 256 mod 256),
     word_of_nat (v div 256 mod 256), word_of_nat (v mod 256)]"
    by (simp only: be_bytes.simps append_Nil append_Cons)
  then show ?thesis by (simp flip: div_mult2_eq)
qed

lemma length_be_bytes [simp]: "length (be_bytes k v) = k"
  by (induction k arbitrary: v) simp_all

lemma unat_byte [simp]: "n < 256 \<Longrightarrow> unat (word_of_nat n :: byte) = n"
  by (simp add: unat_of_nat take_bit_eq_mod)

lemma from_be_snoc [simp]: "from_be (bs @ [b]) = from_be bs * 256 + unat b"
  by (simp add: from_be_def)

lemma from_be_Nil [simp]: "from_be [] = 0"
  by (simp add: from_be_def)

lemma from_be_bytes: "from_be (be_bytes k v) = v mod 256 ^ k"
proof (induction k arbitrary: v)
  case (Suc k)
  have "v mod 256 ^ Suc k = 256 * (v div 256 mod 256 ^ k) + v mod 256"
    by (simp add: mod_mult2_eq mult.commute)
  with Suc show ?case by (simp add: mult.commute)
qed simp

lemma from_be_bytes_id [simp]: "v < 256 ^ k \<Longrightarrow> from_be (be_bytes k v) = v"
  by (simp add: from_be_bytes)

lemma from_be_bound: "from_be bs < 256 ^ length bs"
proof (induction bs rule: rev_induct)
  case (snoc b bs)
  have "unat b < 256" using unsigned_less[of b] by simp
  with snoc show ?case by (simp add: less_iff_succ_less_eq)
qed simp

lemma be_bytes_from_be [simp]: "length bs = k \<Longrightarrow> be_bytes k (from_be bs) = bs"
proof (induction bs arbitrary: k rule: rev_induct)
  case (snoc b bs)
  have "unat b < 256" using unsigned_less[of b] by simp
  then have "(from_be bs * 256 + unat b) div 256 = from_be bs" "(from_be bs * 256 + unat b) mod 256 = unat b"
    by simp_all
  with snoc show ?case by auto
qed simp

lemma be_bytes_mod: "be_bytes k (v mod 256 ^ k) = be_bytes k v"
proof -
  have "be_bytes k (from_be (be_bytes k v)) = be_bytes k v" by simp
  then show ?thesis by (simp only: from_be_bytes)
qed

section \<open>Message tags\<close>

definition fe_parse :: byte where "fe_parse = 80"
definition fe_bind :: byte where "fe_bind = 66"
definition fe_execute :: byte where "fe_execute = 69"
definition fe_sync :: byte where "fe_sync = 83"
definition fe_password :: byte where "fe_password = 112"
definition fe_copy_data :: byte where "fe_copy_data = 100"
definition fe_copy_done :: byte where "fe_copy_done = 99"
definition startup_protocol :: nat where "startup_protocol = 196608"
definition cancel_request :: nat where "cancel_request = 80877102"

end
