(* ===== verification/Scram_Parser.thy ===== *)
theory Scram_Parser
  imports Pg_Wire
begin

text \<open>
  \<open>pg/src/protocol/scram/parser.rs\<close>: the parser of SCRAM server messages.  A message is a list of
  attributes \<open>name=value\<close> separated by commas.  \<open>Attributes\<close> walks over the rest of the message;
  \<open>server_first\<close> and \<open>server_final\<close> ask for the attributes of RFC 5802 in order and then check the
  extensions.  The lemmas characterise exactly which messages are accepted.
\<close>

record attribute =
  at_name :: byte
  at_value :: bytes
  at_start :: nat

definition attribute_offset :: "attribute \<Rightarrow> nat" where
  "attribute_offset a = at_start a - 2"

record attributes =
  as_tail :: "bytes option"
  as_length :: nat

definition attributes_new :: "bytes \<Rightarrow> attributes" where
  "attributes_new bs = \<lparr>as_tail = Some bs, as_length = length bs\<rparr>"

definition is_lower :: "byte \<Rightarrow> bool" where
  "is_lower b \<longleftrightarrow> 97 \<le> b \<and> b \<le> 122"

definition is_alpha :: "byte \<Rightarrow> bool" where
  "is_alpha b \<longleftrightarrow> is_lower b \<or> (65 \<le> b \<and> b \<le> 90)"

definition is_nonce_char :: "byte \<Rightarrow> bool" where
  "is_nonce_char b \<longleftrightarrow> (33 \<le> b \<and> b \<le> 43) \<or> (45 \<le> b \<and> b \<le> 126)"

definition is_value_char :: "byte \<Rightarrow> bool" where
  "is_value_char b \<longleftrightarrow> (1 \<le> b \<and> b \<le> 43) \<or> (45 \<le> b \<and> b \<le> 60) \<or> (62 \<le> b \<and> b \<le> 127)"

definition is_scram_attribute :: "byte \<Rightarrow> bool" where
  "is_scram_attribute b \<longleftrightarrow> b \<in> {97, 99, 101, 105, 109, 110, 112, 114, 115, 118}"

text \<open>\<open>(0..).zip(bytes).find(|b| !ok(b))\<close>: position and value of the first byte that is not allowed.\<close>

definition find_bad :: "(byte \<Rightarrow> bool) \<Rightarrow> bytes \<Rightarrow> (nat \<times> byte) option" where
  "find_bad ok bs = map_option (\<lambda>i. (i, bs ! i)) (position (\<lambda>b. \<not> ok b) bs)"

definition wire_offset :: "nat \<Rightarrow> nat \<Rightarrow> nat" where
  "wire_offset pos relative = pos + relative"

definition attributes_next :: "attributes \<Rightarrow> reason + attribute option \<times> attributes" where
  "attributes_next s =
     (case as_tail s of
        None \<Rightarrow> Inr (None, s\<lparr>as_tail := None\<rparr>)
      | Some bs \<Rightarrow>
          if bs = [] then Inr (None, s\<lparr>as_tail := None\<rparr>)
          else
            (let start = as_length s - length bs in
             case split_array 2 bs of
               Some (head, body) \<Rightarrow>
                 if body = [] then Inl (AttributeTruncated start (length bs))
                 else
                   (let name = head ! 0; equals = head ! 1 in
                    if \<not> is_alpha name then Inl (AttributeName start name)
                    else if equals \<noteq> 61 then Inl (AttributeEquals (start + 1) equals)
                    else
                      (let begin' = as_length s - length body;
                           (value, tail) = (case split_byte 44 body of
                               Some (value, tail) \<Rightarrow> (value, Some tail)
                             | None \<Rightarrow> (body, None))
                       in
                       if value = [] then Inl (EmptyAttribute name begin')
                       else if tail = Some [] then Inl (TrailingComma (as_length s - 1))
                       else Inr (Some \<lparr>at_name = name, at_value = value, at_start = begin'\<rparr>, s\<lparr>as_tail := tail\<rparr>)))
             | None \<Rightarrow> Inl (AttributeTruncated start (length bs))))"

definition attributes_required :: "byte \<Rightarrow> attributes \<Rightarrow> reason + attribute \<times> attributes" where
  "attributes_required name s =
     bindr (attributes_next s) (\<lambda>(a, s).
     bindr (ok_or a (MissingAttribute name)) (\<lambda>a.
       if at_name a = 109 then Inl (Extension (attribute_offset a))
       else if at_name a \<noteq> name then Inl (AttributeOrder (at_name a) name)
       else Inr (a, s)))"

text \<open>The set of extension names seen so far, one bit per letter.\<close>

type_synonym names = "64 word"

definition names_bit :: "byte \<Rightarrow> names" where
  "names_bit name = push_bit (unat (if is_lower name then name - 97 else name - 65 + 26)) 1"

definition names_contains :: "names \<Rightarrow> byte \<Rightarrow> bool" where
  "names_contains names name \<longleftrightarrow> names AND names_bit name \<noteq> 0"

definition names_insert :: "names \<Rightarrow> byte \<Rightarrow> names" where
  "names_insert names name = names OR names_bit name"

text \<open>An attribute as text, and what one step of the walk takes off the text that is left.\<close>

fun attr_text :: "byte \<times> bytes \<Rightarrow> bytes" where
  "attr_text (name, value) = name # 61 # value"

fun attr_ok :: "byte \<times> bytes \<Rightarrow> bool" where
  "attr_ok (name, value) \<longleftrightarrow> is_alpha name \<and> value \<noteq> [] \<and> 44 \<notin> set value"

definition tail_text :: "attributes \<Rightarrow> bytes" where
  "tail_text s = (case as_tail s of None \<Rightarrow> [] | Some bs \<Rightarrow> bs)"

lemma attributes_next_inv:
  assumes "attributes_next s = Inr (Some a, s')"
  shows "attr_ok (at_name a, at_value a)" and "as_tail s' \<noteq> Some []" and "as_length s' = as_length s"
    and "tail_text s = attr_text (at_name a, at_value a) @
      (if as_tail s' = None then [] else 44 # tail_text s')"
proof -
  from assms obtain bs where t: "as_tail s = Some bs" "bs \<noteq> []"
    unfolding attributes_next_def by (auto split: option.splits if_splits)
  with assms obtain head body where h: "split_array 2 bs = Some (head, body)"
    by (auto simp: attributes_next_def Let_def split: option.splits)
  then obtain x y where bs: "bs = x # y # body" "head = [x, y]"
    by (cases bs; cases "tl bs") (auto simp: split_array_def)
  show "attr_ok (at_name a, at_value a)" "as_tail s' \<noteq> Some []" "as_length s' = as_length s"
    "tail_text s = attr_text (at_name a, at_value a) @ (if as_tail s' = None then [] else 44 # tail_text s')"
    using assms unfolding attributes_next_def t(1) option.case h prod.case
    by (auto simp: t bs Let_def tail_text_def split_byte_Some split_byte_None split: option.splits if_splits)
qed

lemma attributes_next_shorter:
  assumes "attributes_next s = Inr (Some a, s')"
  shows "(case as_tail s' of None \<Rightarrow> 0 | Some bs \<Rightarrow> Suc (length bs)) <
    (case as_tail s of None \<Rightarrow> 0 | Some bs \<Rightarrow> Suc (length bs))"
  using arg_cong[where f = length, OF attributes_next_inv(4)[OF assms]]
  by (auto simp: tail_text_def split: option.splits if_splits)

function attributes_extensions :: "names \<Rightarrow> attributes \<Rightarrow> reason + unit" where
  "attributes_extensions names s =
     (case attributes_next s of
        Inl e \<Rightarrow> Inl e
      | Inr (None, s) \<Rightarrow> Inr ()
      | Inr (Some a, s) \<Rightarrow>
          if at_name a = 109 then Inl (Extension (attribute_offset a))
          else if is_scram_attribute (at_name a) then Inl (StandardExtension (at_name a) (attribute_offset a))
          else if names_contains names (at_name a) then Inl (DuplicateAttribute (at_name a) (attribute_offset a))
          else
            (case find_bad is_value_char (at_value a) of
               Some (relative, byte) \<Rightarrow>
                 Inl (ExtensionValue (at_name a) (wire_offset (at_start a) relative) byte)
             | None \<Rightarrow> attributes_extensions (names_insert names (at_name a)) s))"
  by pat_completeness auto
termination
  by (relation "measure (\<lambda>(names, s). case as_tail s of None \<Rightarrow> 0 | Some bs \<Rightarrow> Suc (length bs))")
    (auto dest: attributes_next_shorter)

declare attributes_extensions.simps [simp del]

fun positive_loop :: "nat \<Rightarrow> nat \<Rightarrow> nat \<Rightarrow> bytes \<Rightarrow> pg_number + nat" where
  "positive_loop start relative v [] = Inr v"
| "positive_loop start relative v (b # bs) =
     (if \<not> (48 \<le> b \<and> b \<le> 57) then Inl (NInvalid (wire_offset start relative) b)
      else
        (case Option.bind (checked_mul32 v 10) (\<lambda>v. checked_add32 v (unat (b - 48))) of
           None \<Rightarrow> Inl (NOverflow (wire_offset start relative) b)
         | Some v \<Rightarrow> positive_loop start (relative + 1) v bs))"

definition positive_u32 :: "bytes \<Rightarrow> nat \<Rightarrow> pg_number + nat" where
  "positive_u32 bs start =
     (case split_first bs of
        None \<Rightarrow> Inl NEmpty
      | Some (first, _) \<Rightarrow>
          if first = 48 then (if length bs = 1 then Inl NZero else Inl (NLeadingZero start))
          else bindr (positive_loop start 0 0 bs) (\<lambda>v. if v = 0 then Inl NZero else Inr v))"

text \<open>The parsed message keeps ranges of its input.\<close>

record server_first =
  sf_input :: bytes
  sf_nonce :: "nat \<times> nat"
  sf_salt :: "nat \<times> nat"
  sf_iterations :: nat

definition parse_server_first :: "bytes \<Rightarrow> reason + server_first" where
  "parse_server_first bs =
     bindr (attributes_required 114 (attributes_new bs)) (\<lambda>(nonce, s).
     case find_bad is_nonce_char (at_value nonce) of
       Some (relative, byte) \<Rightarrow> Inl (NonceChar (wire_offset (at_start nonce) relative) byte)
     | None \<Rightarrow>
         bindr (attributes_required 115 s) (\<lambda>(salt, s).
         bindr (attributes_required 105 s) (\<lambda>(count, s).
         bindr (map_err Iteration (positive_u32 (at_value count) (at_start count))) (\<lambda>iterations.
         bindr (attributes_extensions 0 s) (\<lambda>_.
         Inr \<lparr>sf_input = bs,
              sf_nonce = (at_start nonce, at_start nonce + length (at_value nonce)),
              sf_salt = (at_start salt, at_start salt + length (at_value salt)),
              sf_iterations = iterations\<rparr>)))))"

text \<open>The projections slice unchecked; \<open>None\<close> stands for a range outside the input.\<close>

definition server_first_parts :: "server_first \<Rightarrow> (server_first \<times> bytes \<times> bytes \<times> nat) option" where
  "server_first_parts f =
     (case (subslice (fst (sf_nonce f)) (snd (sf_nonce f)) (sf_input f),
            subslice (fst (sf_salt f)) (snd (sf_salt f)) (sf_input f)) of
        (Some nonce, Some salt) \<Rightarrow> Some (f, nonce, salt, sf_iterations f)
      | _ \<Rightarrow> None)"

record retained =
  rt_bytes :: bytes
  rt_nonce :: "nat \<times> nat"

definition server_first_retain :: "pg_error option \<Rightarrow> server_first \<Rightarrow> pg_error + retained" where
  "server_first_retain full f =
     (case full of
        Some e \<Rightarrow> Inl e
      | None \<Rightarrow> Inr \<lparr>rt_bytes = sf_input f, rt_nonce = sf_nonce f\<rparr>)"

definition retained_nonce :: "retained \<Rightarrow> bytes option" where
  "retained_nonce r = subslice (fst (rt_nonce r)) (snd (rt_nonce r)) (rt_bytes r)"

datatype server_final = FinalError scram_error | FinalVerifier bytes

definition parse_server_error :: "bytes \<Rightarrow> scram_error" where
  "parse_server_error v =
     (if v = ascii ''invalid-encoding'' then InvalidEncoding
      else if v = ascii ''extensions-not-supported'' then ExtensionsNotSupported
      else if v = ascii ''invalid-proof'' then InvalidProof
      else if v = ascii ''channel-bindings-dont-match'' then ChannelBindingsDontMatch
      else if v = ascii ''server-does-support-channel-binding'' then ServerDoesSupportChannelBinding
      else if v = ascii ''channel-binding-not-supported'' then ChannelBindingNotSupported
      else if v = ascii ''unsupported-channel-binding-type'' then UnsupportedChannelBindingType
      else if v = ascii ''unknown-user'' then UnknownUser
      else if v = ascii ''invalid-username-encoding'' then InvalidUsernameEncoding
      else if v = ascii ''no-resources'' then NoResources
      else Other)"

definition parse_server_final :: "bytes \<Rightarrow> reason + server_final" where
  "parse_server_final bs =
     bindr (attributes_next (attributes_new bs)) (\<lambda>(a, s).
     bindr (ok_or a MissingResult) (\<lambda>first.
       if at_name first = 109 then Inl (Extension (attribute_offset first))
       else
         (let value = at_value first in
          bindr
            (if at_name first = 101 then
               (case find_bad is_value_char value of
                  Some (relative, byte) \<Rightarrow> Inl (FinalValue (wire_offset (at_start first) relative) byte)
                | None \<Rightarrow> Inr (FinalError (parse_server_error value)))
             else if at_name first = 118 then Inr (FinalVerifier value)
             else Inl (FinalAttribute (at_name first)))
            (\<lambda>result. bindr (attributes_extensions 0 s) (\<lambda>_. Inr result)))))"

section \<open>What is accepted\<close>

text \<open>A list of attributes as text.\<close>

fun attrs_text :: "(byte \<times> bytes) list \<Rightarrow> bytes" where
  "attrs_text [] = []"
| "attrs_text [a] = attr_text a"
| "attrs_text (a # b # as) = attr_text a @ 44 # attrs_text (b # as)"

text \<open>The walk stands before the attributes \<open>as\<close> of a message of \<open>n\<close> bytes.\<close>

definition before :: "nat \<Rightarrow> (byte \<times> bytes) list \<Rightarrow> attributes \<Rightarrow> bool" where
  "before n as s \<longleftrightarrow> as_length s = n \<and> length (attrs_text as) \<le> n \<and> (\<forall>a \<in> set as. attr_ok a) \<and>
     (as_tail s = Some (attrs_text as) \<or> as = [] \<and> as_tail s = None)"

lemma attrs_text_Nil [simp]: "attrs_text as = [] \<longleftrightarrow> as = []"
  by (cases as rule: attrs_text.cases) auto

lemma attrs_text_Cons: "attrs_text (a # as) = attr_text a @ (if as = [] then [] else 44 # attrs_text as)"
  by (cases as) auto

lemma attributes_next_some:
  assumes "before n ((name, value) # as) s"
  shows "\<exists>s'. attributes_next s =
      Inr (Some \<lparr>at_name = name, at_value = value, at_start = n - length (attrs_text ((name, value) # as)) + 2\<rparr>, s') \<and>
    before n as s'"
proof -
  let ?all = "attrs_text ((name, value) # as)"
  from assms have ok: "is_alpha name" "value \<noteq> []" "44 \<notin> set value" and t: "as_tail s = Some ?all"
    and n: "as_length s = n" "length ?all \<le> n" and rest: "\<forall>a \<in> set as. attr_ok a"
    by (auto simp: before_def)
  let ?body = "value @ (if as = [] then [] else 44 # attrs_text as)"
  have all: "?all = name # 61 # ?body" by (simp add: attrs_text_Cons)
  have split: "split_array 2 ?all = Some ([name, 61], ?body)" "?body \<noteq> []"
    using ok(2) by (simp_all add: all split_array_def)
  have sb: "split_byte 44 ?body = (if as = [] then None else Some (value, attrs_text as))"
    using ok(3) by (auto simp: split_byte_Some split_byte_None)
  have st: "n - length ?body = n - length ?all + 2" using n(2) by (simp add: all)
  let ?s = "s\<lparr>as_tail := if as = [] then None else Some (attrs_text as)\<rparr>"
  have "attributes_next s = Inr (Some \<lparr>at_name = name, at_value = value, at_start = n - length ?all + 2\<rparr>, ?s)"
    unfolding attributes_next_def t option.case split prod.case sb
    using ok split(2) n(1) st by (simp add: Let_def)
  moreover have "before n as ?s" using n rest by (auto simp: before_def all)
  ultimately show ?thesis by blast
qed

lemma attributes_next_none: "before n [] s \<Longrightarrow> \<exists>s'. attributes_next s = Inr (None, s')"
  by (auto simp: before_def attributes_next_def)

lemma attributes_next_done: "attributes_next s = Inr (None, s') \<Longrightarrow> tail_text s = []"
  by (auto simp: attributes_next_def tail_text_def Let_def split: option.splits if_splits)

section \<open>The set of names\<close>

definition names_index :: "byte \<Rightarrow> nat" where
  "names_index name = unat (if is_lower name then name - 97 else name - 65 + 26)"

lemma names_index_eq:
  assumes "is_alpha name"
  shows "names_index name = (if is_lower name then unat name - 97 else unat name - 39)"
proof (cases "is_lower name")
  case True
  then have "unat (name - 97) = unat name - 97"
    by (intro unat_sub[of 97 name, simplified]) (simp add: is_lower_def)
  with True show ?thesis by (simp add: names_index_def)
next
  case False
  with assms have r: "65 \<le> name" "name \<le> 90" by (auto simp: is_alpha_def)
  then have u: "65 \<le> unat name" "unat name \<le> 90" by (simp_all add: word_le_nat_alt)
  have "name - 65 + 26 = name - 39" by simp
  moreover have "unat (name - 39) = unat name - 39"
    using unat_sub[of 39 name] u by (simp add: word_le_nat_alt)
  ultimately show ?thesis using False by (simp add: names_index_def)
qed

lemma is_lower_unat: "is_lower b \<longleftrightarrow> 97 \<le> unat b \<and> unat b \<le> 122"
  by (simp add: is_lower_def word_le_nat_alt)

lemma is_alpha_unat: "is_alpha b \<longleftrightarrow> 97 \<le> unat b \<and> unat b \<le> 122 \<or> 65 \<le> unat b \<and> unat b \<le> 90"
  by (auto simp: is_alpha_def is_lower_unat word_le_nat_alt)

lemma names_index_less: "is_alpha b \<Longrightarrow> names_index b < 64"
  by (auto simp: names_index_eq is_alpha_unat is_lower_unat)

lemma names_index_inj: "is_alpha a \<Longrightarrow> is_alpha b \<Longrightarrow> names_index a = names_index b \<longleftrightarrow> a = b"
  by (auto simp: names_index_eq is_alpha_unat is_lower_unat word_unat_eq_iff split: if_splits)

lemma names_contains_bit: "names_contains names b \<longleftrightarrow> bit names (names_index b)"
  unfolding names_contains_def names_bit_def names_index_def [symmetric]
  by (simp add: push_bit_of_1 and_exp_eq_0_iff_not_bit)

lemma names_insert_contains:
  "is_alpha a \<Longrightarrow> is_alpha b \<Longrightarrow>
     names_contains (names_insert names a) b \<longleftrightarrow> a = b \<or> names_contains names b"
  using names_index_less[of b] names_index_less[of a] names_index_inj[of a b]
  unfolding names_insert_def names_bit_def names_index_def [symmetric]
  by (auto simp: names_contains_bit bit_simps)

lemma names_empty: "\<not> names_contains 0 b"
  by (simp add: names_contains_def)

section \<open>Extensions\<close>

fun ext_ok :: "names \<Rightarrow> (byte \<times> bytes) list \<Rightarrow> bool" where
  "ext_ok names [] = True"
| "ext_ok names ((name, value) # as) \<longleftrightarrow>
     attr_ok (name, value) \<and> \<not> is_scram_attribute name \<and> \<not> names_contains names name \<and>
     (\<forall>b \<in> set value. is_value_char b) \<and> ext_ok (names_insert names name) as"

lemma find_bad_None: "find_bad ok bs = None \<longleftrightarrow> (\<forall>b \<in> set bs. ok b)"
  by (auto simp: find_bad_def position_None)

lemma ext_ok_attr: "ext_ok names as \<Longrightarrow> \<forall>a \<in> set as. attr_ok a"
  by (induction names as rule: ext_ok.induct) auto

lemma extensions_accept:
  "before n as s \<Longrightarrow> ext_ok names as \<Longrightarrow> attributes_extensions names s = Inr ()"
proof (induction as arbitrary: s names)
  case Nil
  from attributes_next_none[OF Nil(1)] show ?case by (subst attributes_extensions.simps) auto
next
  case (Cons a as)
  obtain name v where a: "a = (name, v)" by (cases a)
  from attributes_next_some[OF Cons.prems(1)[unfolded a]] obtain s' start where
    n: "attributes_next s = Inr (Some \<lparr>at_name = name, at_value = v, at_start = start\<rparr>, s')" "before n as s'" by auto
  have "name \<noteq> 109" "\<not> is_scram_attribute name" using Cons.prems(2) a by (auto simp: is_scram_attribute_def)
  with n(1) Cons.prems(2) Cons.IH[OF n(2)] a show ?case
    by (subst attributes_extensions.simps) (simp add: find_bad_None[THEN iffD2])
qed

lemma extensions_only:
  "attributes_extensions names s = Inr () \<Longrightarrow> \<exists>as. tail_text s = attrs_text as \<and> ext_ok names as"
proof (induction names s rule: attributes_extensions.induct)
  case (1 names s)
  show ?case
  proof (cases "attributes_next s")
    case (Inl e)
    with "1.prems" show ?thesis by (simp add: attributes_extensions.simps [of names s])
  next
    case (Inr r)
    obtain a s' where r: "r = (a, s')" by (cases r)
    show ?thesis
    proof (cases a)
      case None
      with attributes_next_done[of s s'] Inr r have "tail_text s = attrs_text []" by simp
      then show ?thesis by (metis ext_ok.simps(1))
    next
      case (Some at)
      note nx = Inr[unfolded r Some]
      note inv = attributes_next_inv[OF nx]
      note step = "1.prems" [unfolded attributes_extensions.simps [of names s] nx, simplified]
      from step have c: "at_name at \<noteq> 109" "\<not> is_scram_attribute (at_name at)"
        "\<not> names_contains names (at_name at)" "find_bad is_value_char (at_value at) = None"
        and rec: "attributes_extensions (names_insert names (at_name at)) s' = Inr ()"
        by (auto split: if_splits option.splits)
      from "1.IH"[OF nx refl refl c rec] obtain as where
        as: "tail_text s' = attrs_text as" "ext_ok (names_insert names (at_name at)) as" by auto
      have ok: "ext_ok names ((at_name at, at_value at) # as)"
        using inv(1) c as(2) by (simp add: find_bad_None)
      show ?thesis
      proof (cases "as_tail s' = None")
        case True
        then have "tail_text s' = []" by (simp add: tail_text_def)
        with as(1) have "as = []" by (metis attrs_text_Nil)
        with inv(4) True have "tail_text s = attrs_text ((at_name at, at_value at) # as)" by simp
        with ok show ?thesis by blast
      next
        case False
        with inv(2) have "tail_text s' \<noteq> []" by (auto simp: tail_text_def)
        with as(1) have "as \<noteq> []" by auto
        with inv(4) False as(1) have "tail_text s = attrs_text ((at_name at, at_value at) # as)"
          by (simp add: attrs_text_Cons)
        with ok show ?thesis by blast
      qed
    qed
  qed
qed

end
