(* ===== verification/Scram_Accept.thy ===== *)
theory Scram_Accept
  imports Scram_Parser
begin

text \<open>
  Which server messages the SCRAM parser accepts: exactly the attribute lists of RFC 5802 with a
  positive iteration count written without leading zeros, and extensions with fresh letters that the
  standard does not use.
\<close>

section \<open>Positive numbers\<close>

lemma digit_word: "48 \<le> b \<Longrightarrow> b \<le> 57 \<Longrightarrow> unat (b - 48) = digit b" for b :: byte
proof -
  assume b: "48 \<le> b" "b \<le> 57"
  then have "unat (b - 48) = unat b - 48" by (simp add: unat_sub)
  with b show ?thesis by (simp add: digit_def word_le_nat_alt mod_if)
qed

lemma digit_bytes: "48 \<le> b \<and> b \<le> 57 \<longleftrightarrow> digit b \<le> 9" for b :: byte
  by (simp add: digit_le_9_iff word_le_nat_alt)

lemma positive_loop_Inr:
  "positive_loop start r v bs = Inr n \<longleftrightarrow>
     (\<forall>b \<in> set bs. digit b \<le> 9) \<and> n = foldl (\<lambda>a b. a * 10 + digit b) v bs \<and> (bs = [] \<or> n \<le> u32_max)"
proof (induction bs arbitrary: r v)
  case (Cons b bs)
  have ge: "v' \<le> foldl (\<lambda>a b. a * 10 + digit b) v' bs" for v'
  proof (induction bs arbitrary: v')
    case (Cons a as)
    have "v' \<le> v' * 10 + digit a" by simp
    also note Cons[of "v' * 10 + digit a"]
    finally show ?case by simp
  qed simp
  show ?case
  proof (cases "digit b \<le> 9")
    case True
    then have b: "48 \<le> b" "b \<le> 57" using digit_bytes[of b] by blast+
    have st: "Option.bind (checked_mul32 v 10) (\<lambda>v. checked_add32 v (unat (b - 48))) =
        (if v * 10 + digit b \<le> u32_max then Some (v * 10 + digit b) else None)"
      using digit_word[OF b] by (simp add: checked_mul32_def checked_add32_def)
    show ?thesis
    proof (cases "v * 10 + digit b \<le> u32_max")
      case True
      then have p: "positive_loop start r v (b # bs) = positive_loop start (r + 1) (v * 10 + digit b) bs"
        using st b by simp
      show ?thesis unfolding p Cons.IH using True \<open>digit b \<le> 9\<close> by auto
    next
      case False
      with ge[of "v * 10 + digit b"] st b show ?thesis by auto
    qed
  next
    case False
    then have "\<not> (48 \<le> b \<and> b \<le> 57)" by (simp add: digit_bytes)
    with False show ?thesis by auto
  qed
qed auto

lemma decimal_undecimal:
  "\<forall>b \<in> set bs. digit b \<le> 9 \<Longrightarrow> bs \<noteq> [] \<Longrightarrow> hd bs \<noteq> 48 \<Longrightarrow> decimal (undecimal bs) = bs"
proof (induction bs rule: rev_induct)
  case (snoc b bs)
  have db: "digit_byte (digit b) = b"
  proof -
    have u: "unat b = 48 + digit b" using snoc.prems(1) digit_le_9_iff[of b] by (auto simp: digit_def mod_if)
    then show ?thesis by (simp add: digit_byte_def flip: u)
  qed
  have d: "digit b \<le> 9" using snoc.prems(1) by simp
  show ?case
  proof (cases "bs = []")
    case True
    with d db show ?thesis by (simp add: undecimal_def)
  next
    case False
    with snoc have IH: "decimal (undecimal bs) = bs" by simp
    have "0 < undecimal bs"
    proof (rule ccontr)
      assume "\<not> 0 < undecimal bs"
      with IH have "bs = [48]" by (simp add: digit_byte_def)
      with snoc.prems(3) show False by simp
    qed
    then have "\<not> undecimal bs * 10 + digit b < 10" by simp
    from decimal_ge10[OF this] d db IH show ?thesis by simp
  qed
qed simp

lemma hd_decimal: "0 < n \<Longrightarrow> hd (decimal n) \<noteq> 48"
proof (induction n rule: decimal.induct)
  case (1 n)
  show ?case
  proof (cases "n < 10")
    case True
    have "unat (digit_byte n) = 48 + n" using True by (simp add: unat_digit_byte)
    with 1(2) have "digit_byte n \<noteq> 48" by auto
    with True show ?thesis by simp
  next
    case False
    then have "hd (decimal (n div 10)) \<noteq> 48" using 1(1) by simp
    with False show ?thesis by (simp add: decimal_ge10)
  qed
qed

lemma positive_u32_Inr: "positive_u32 bs start = Inr n \<longleftrightarrow> bs = decimal n \<and> 0 < n \<and> n \<le> u32_max"
proof
  assume l: "positive_u32 bs start = Inr n"
  then obtain b r where bs: "bs = b # r" "b \<noteq> 48" by (cases bs) (auto simp: positive_u32_def split: if_splits)
  with l have p: "positive_loop start 0 0 bs = Inr n" "0 < n"
    by (auto simp: positive_u32_def bindr_Inr_iff split: if_splits)
  then have "\<forall>b \<in> set bs. digit b \<le> 9" "n = undecimal bs" "n \<le> u32_max"
    using bs(1) unfolding positive_loop_Inr undecimal_def by auto
  with bs decimal_undecimal[of bs] p(2) show "bs = decimal n \<and> 0 < n \<and> n \<le> u32_max" by simp
next
  assume r: "bs = decimal n \<and> 0 < n \<and> n \<le> u32_max"
  then have "positive_loop start 0 0 bs = Inr n"
    unfolding positive_loop_Inr using decimal_digit_le_9 undecimal_decimal[of n] by (auto simp: undecimal_def)
  moreover obtain b r' where d: "decimal n = b # r'" by (cases "decimal n") auto
  moreover have "b \<noteq> 48" using hd_decimal[of n] r d by simp
  ultimately show "positive_u32 bs start = Inr n" using r by (simp add: positive_u32_def)
qed

section \<open>Server messages\<close>

lemma required_accept:
  assumes "before n ((name, value) # as) s" and "name \<noteq> 109"
  shows "\<exists>s'. attributes_required name s =
      Inr (\<lparr>at_name = name, at_value = value, at_start = n - length (attrs_text ((name, value) # as)) + 2\<rparr>, s') \<and>
    before n as s'"
  using attributes_next_some[OF assms(1)] assms(2) by (auto simp: attributes_required_def ok_or_def)

lemma required_only:
  assumes "attributes_required name s = Inr (a, s')"
  shows "at_name a = name" and "name \<noteq> 109" and "attributes_next s = Inr (Some a, s')"
  using assms by (auto simp: attributes_required_def bindr_Inr_iff ok_or_Inr_iff split: if_splits)

lemma before_new: "\<forall>a \<in> set as. attr_ok a \<Longrightarrow> before (length (attrs_text as)) as (attributes_new (attrs_text as))"
  by (simp add: before_def attributes_new_def)

lemma tail_text_new [simp]: "tail_text (attributes_new bs) = bs"
  by (simp add: tail_text_def attributes_new_def)

lemma tail_join:
  "as_tail s \<noteq> Some [] \<Longrightarrow> tail_text s = attrs_text as \<Longrightarrow>
     attr_text a @ (if as_tail s = None then [] else 44 # tail_text s) = attrs_text (a # as)"
  by (cases "as_tail s") (auto simp: tail_text_def attrs_text_Cons dest: sym[of "[]"])

definition first_ok :: "bytes \<Rightarrow> bytes \<Rightarrow> nat \<Rightarrow> (byte \<times> bytes) list \<Rightarrow> bool" where
  "first_ok nonce salt n exts \<longleftrightarrow>
     nonce \<noteq> [] \<and> (\<forall>b \<in> set nonce. is_nonce_char b) \<and> salt \<noteq> [] \<and> 44 \<notin> set salt \<and>
     0 < n \<and> n \<le> u32_max \<and> ext_ok 0 exts"

definition first_text :: "bytes \<Rightarrow> bytes \<Rightarrow> nat \<Rightarrow> (byte \<times> bytes) list \<Rightarrow> bytes" where
  "first_text nonce salt n exts = attrs_text ((114, nonce) # (115, salt) # (105, decimal n) # exts)"

lemma nonce_no_comma: "\<forall>b \<in> set nonce. is_nonce_char b \<Longrightarrow> 44 \<notin> set nonce"
  by (auto simp: is_nonce_char_def)

lemma decimal_no_comma: "44 \<notin> set (decimal n)"
  using decimal_digits[of 44 n] by auto

lemma server_first_accept:
  assumes "first_ok nonce salt n exts"
  shows "parse_server_first (first_text nonce salt n exts) =
    Inr \<lparr>sf_input = first_text nonce salt n exts, sf_nonce = (2, 2 + length nonce),
         sf_salt = (5 + length nonce, 5 + length nonce + length salt), sf_iterations = n\<rparr>"
proof -
  let ?t = "first_text nonce salt n exts"
  let ?as = "(114, nonce) # (115, salt) # (105, decimal n) # exts"
  have ok: "\<forall>a \<in> set ?as. attr_ok a"
    using assms ext_ok_attr[of 0 exts] nonce_no_comma[of nonce] decimal_no_comma[of n]
    by (auto simp: first_ok_def is_alpha_def is_lower_def)
  note b0 = before_new[OF ok, folded first_text_def]
  from required_accept[OF b0] obtain s1 where s1: "attributes_required 114 (attributes_new ?t) =
      Inr (\<lparr>at_name = 114, at_value = nonce, at_start = 2\<rparr>, s1)" "before (length ?t) ((115, salt) # (105, decimal n) # exts) s1"
    by (auto simp: first_text_def)
  from required_accept[OF s1(2)] obtain s2 where s2: "attributes_required 115 s1 =
      Inr (\<lparr>at_name = 115, at_value = salt, at_start = 5 + length nonce\<rparr>, s2)" "before (length ?t) ((105, decimal n) # exts) s2"
    by (auto simp: first_text_def attrs_text_Cons)
  from required_accept[OF s2(2)] obtain s3 st where s3: "attributes_required 105 s2 =
      Inr (\<lparr>at_name = 105, at_value = decimal n, at_start = st\<rparr>, s3)" "before (length ?t) exts s3"
    by auto
  have "find_bad is_nonce_char nonce = None" "ext_ok 0 exts" "positive_u32 (decimal n) st = Inr n"
    using assms by (auto simp: first_ok_def find_bad_None positive_u32_Inr)
  with extensions_accept[OF s3(2)] s1 s2 s3 show ?thesis by (simp add: parse_server_first_def)
qed

lemma server_first_only:
  assumes "parse_server_first bs = Inr f"
  shows "\<exists>nonce salt n exts. bs = first_text nonce salt n exts \<and> first_ok nonce salt n exts"
proof -
  from assms obtain a s1 b s2 c s3 n where
    r: "attributes_required 114 (attributes_new bs) = Inr (a, s1)" "attributes_required 115 s1 = Inr (b, s2)"
      "attributes_required 105 s2 = Inr (c, s3)"
    and p: "positive_u32 (at_value c) (at_start c) = Inr n"
    and e: "attributes_extensions 0 s3 = Inr ()"
    by (auto simp: parse_server_first_def bindr_Inr_iff map_err_Inr_iff split: option.splits)
  have nc: "find_bad is_nonce_char (at_value a) = None"
    using assms r(1) by (cases "find_bad is_nonce_char (at_value a)") (auto simp: parse_server_first_def)
  note na = required_only[OF r(1)] and nb = required_only[OF r(2)] and nc' = required_only[OF r(3)]
  note ia = attributes_next_inv[OF na(3)] and ib = attributes_next_inv[OF nb(3)] and ic = attributes_next_inv[OF nc'(3)]
  from extensions_only[OF e] obtain exts where x: "tail_text s3 = attrs_text exts" "ext_ok 0 exts" by auto
  have t2: "tail_text s2 = attrs_text ((105, at_value c) # exts)"
    using tail_join[OF ic(2) x(1), of "(105, at_value c)"] ic(4) nc'(1) by simp
  have t1: "tail_text s1 = attrs_text ((115, at_value b) # (105, at_value c) # exts)"
    using tail_join[OF ib(2) t2, of "(115, at_value b)"] ib(4) nb(1) by simp
  have "bs = attrs_text ((114, at_value a) # (115, at_value b) # (105, at_value c) # exts)"
    using tail_join[OF ia(2) t1, of "(114, at_value a)"] ia(4) na(1) by simp
  then have "bs = first_text (at_value a) (at_value b) n exts"
    using p by (simp add: first_text_def positive_u32_Inr)
  moreover have "first_ok (at_value a) (at_value b) n exts"
    using nc p x(2) ia(1) ib(1) by (simp add: first_ok_def find_bad_None positive_u32_Inr)
  ultimately show ?thesis by blast
qed

lemma server_first_projections:
  assumes "first_ok nonce salt n exts" and "parse_server_first (first_text nonce salt n exts) = Inr f"
  shows "server_first_parts f = Some (f, nonce, salt, n)"
proof -
  let ?t = "first_text nonce salt n exts"
  have "?t = [114, 61] @ nonce @ 44 # attrs_text ((115, salt) # (105, decimal n) # exts)"
    by (simp add: first_text_def)
  then have n: "subslice 2 (2 + length nonce) ?t = Some nonce" by (simp only: subslice_append list.size)
  have e: "?t = ([114, 61] @ nonce @ [44, 115, 61]) @ salt @ 44 # attrs_text ((105, decimal n) # exts)"
    by (simp add: first_text_def)
  have s: "subslice (5 + length nonce) (5 + length nonce + length salt) ?t = Some salt"
    unfolding e by (rule subslice_append) simp_all
  from server_first_accept[OF assms(1)] assms(2) n s show ?thesis by (auto simp: server_first_parts_def)
qed

text \<open>The final message: a verifier or an error, then extensions.\<close>

lemma server_final_verifier:
  "parse_server_final bs = Inr (FinalVerifier v) \<longleftrightarrow>
     (\<exists>exts. bs = attrs_text ((118, v) # exts) \<and> v \<noteq> [] \<and> 44 \<notin> set v \<and> ext_ok 0 exts)"
proof
  assume "parse_server_final bs = Inr (FinalVerifier v)"
  then obtain a s where n: "attributes_next (attributes_new bs) = Inr (Some a, s)" "at_name a = 118" "at_value a = v"
    and e: "attributes_extensions 0 s = Inr ()"
    by (auto simp: parse_server_final_def bindr_Inr_iff ok_or_Inr_iff Let_def split: if_splits option.splits)
  note i = attributes_next_inv[OF n(1)]
  from extensions_only[OF e] obtain exts where x: "tail_text s = attrs_text exts" "ext_ok 0 exts" by auto
  with tail_join[OF i(2) x(1), of "(118, v)"] i(1,4) n(2,3)
  show "\<exists>exts. bs = attrs_text ((118, v) # exts) \<and> v \<noteq> [] \<and> 44 \<notin> set v \<and> ext_ok 0 exts" by auto
next
  assume "\<exists>exts. bs = attrs_text ((118, v) # exts) \<and> v \<noteq> [] \<and> 44 \<notin> set v \<and> ext_ok 0 exts"
  then obtain exts where x: "bs = attrs_text ((118, v) # exts)" "v \<noteq> []" "44 \<notin> set v" "ext_ok 0 exts" by blast
  then have "\<forall>a \<in> set ((118, v) # exts). attr_ok a"
    using ext_ok_attr[of 0 exts] by (auto simp: is_alpha_def is_lower_def)
  from attributes_next_some[OF before_new[OF this]] extensions_accept[of _ exts _ 0] x
  show "parse_server_final bs = Inr (FinalVerifier v)"
    by (auto simp: parse_server_final_def ok_or_def)
qed

end
