(* ===== verification/Scram_Hash.thy ===== *)
theory Scram_Hash
  imports Pg_Wire
begin

text \<open>
  The hash functions of \<open>pg/src/protocol/scram/mod.rs\<close>: SHA-256 as a stream over 64-byte blocks, HMAC
  with its two keyed states, and the functions built on them.  The compression function is \<open>sha2\<close>'s
  \<open>compress256\<close>, outside the repository: it is the parameter \<open>cf\<close>, from a state of eight words and a
  block to the next state.  The lemmas show that the streams compute the textbook functions over
  whole messages (\<open>sha_ref\<close>, \<open>hmac_ref\<close>), whatever \<open>cf\<close> is.
\<close>

type_synonym words = "32 word list"
type_synonym compress = "words \<Rightarrow> bytes \<Rightarrow> words"

definition sha_iv :: words where
  "sha_iv = [0x6a09e667, 0xbb67ae85, 0x3c6ef372, 0xa54ff53a, 0x510e527f, 0x9b05688c, 0x1f83d9ab, 0x5be0cd19]"

record sha =
  sh_state :: words
  sh_block :: bytes
  sh_len :: nat

definition sha_new :: "nat \<Rightarrow> sha" where
  "sha_new len = \<lparr>sh_state = sha_iv, sh_block = replicate 64 0, sh_len = len\<rparr>"

text \<open>\<open>dst[pos..pos + src.len()].copy_from_slice(src)\<close>\<close>

definition copy_at :: "nat \<Rightarrow> bytes \<Rightarrow> bytes \<Rightarrow> bytes" where
  "copy_at pos src dst = take pos dst @ src @ drop (pos + length src) dst"

text \<open>\<open>as_chunks::<64>\<close>: whole blocks and the rest.\<close>

function chunks64 :: "bytes \<Rightarrow> bytes list \<times> bytes" where
  "chunks64 bs =
     (if length bs < 64 then ([], bs)
      else case chunks64 (drop 64 bs) of (blocks, tail) \<Rightarrow> (take 64 bs # blocks, tail))"
  by pat_completeness auto
termination by (relation "measure length") auto

declare chunks64.simps [simp del]

definition sha_update :: "compress \<Rightarrow> sha \<Rightarrow> bytes \<Rightarrow> sha" where
  "sha_update cf h input =
     (let pos = sh_len h mod 64;
          h = h\<lparr>sh_len := wrapping_add64 (sh_len h) (length input)\<rparr>;
          rest = (\<lambda>h input. case chunks64 input of (blocks, tail) \<Rightarrow>
             h\<lparr>sh_state := foldl cf (sh_state h) blocks, sh_block := copy_at 0 tail (sh_block h)\<rparr>)
      in if pos \<noteq> 0 then
           (let n = min (64 - pos) (length input);
                h = h\<lparr>sh_block := copy_at pos (take n input) (sh_block h)\<rparr>
            in if pos + n \<noteq> 64 then h
               else rest (h\<lparr>sh_state := cf (sh_state h) (sh_block h)\<rparr>) (drop n input))
         else rest h input)"

definition sha_pad :: "compress \<Rightarrow> words \<Rightarrow> bytes \<Rightarrow> nat \<Rightarrow> words \<times> bytes" where
  "sha_pad cf state block len =
     (let pos = len mod 64;
          block = take pos block @ 128 # replicate (63 - pos) 0;
          (state, block) = (if 56 \<le> pos then (cf state block, replicate 64 0) else (state, block))
      in (state, copy_at 56 (be64 (len * 8 mod 2 ^ 64)) block))"

definition write_state :: "words \<Rightarrow> bytes" where
  "write_state state = concat (map (\<lambda>w. be32 (unat w)) state)"

definition sha_finalize :: "compress \<Rightarrow> sha \<Rightarrow> sha" where
  "sha_finalize cf h =
     (case sha_pad cf (sh_state h) (sh_block h) (sh_len h) of
        (state, block) \<Rightarrow> h\<lparr>sh_state := cf state block, sh_block := block\<rparr>)"

definition sha_hmac :: "compress \<Rightarrow> sha \<Rightarrow> words \<Rightarrow> sha \<times> bytes" where
  "sha_hmac cf h outer =
     (let h = sha_finalize cf h;
          h = sha_finalize cf (h\<lparr>sh_block := copy_at 0 (write_state (sh_state h)) (sh_block h),
                                 sh_state := outer, sh_len := 96\<rparr>)
      in (h, write_state (sh_state h)))"

definition hmac_block :: "compress \<Rightarrow> bytes \<Rightarrow> bytes" where
  "hmac_block cf key =
     (if 64 < length key then
        copy_at 0 (write_state (sh_state (sha_finalize cf (sha_update cf (sha_new 0) key)))) (replicate 64 0)
      else copy_at 0 key (replicate 64 0))"

definition hmac_states :: "compress \<Rightarrow> bytes \<Rightarrow> words \<Rightarrow> words \<Rightarrow> words \<times> words" where
  "hmac_states cf key inner outer =
     (let block = map (\<lambda>b. b XOR 0x36) (hmac_block cf key);
          inner = cf inner block;
          block = map (\<lambda>b. b XOR (0x36 XOR 0x5c)) block
      in (inner, cf outer block))"

definition hmac_auth_message :: "compress \<Rightarrow> bytes \<Rightarrow> bytes \<Rightarrow> bytes \<Rightarrow> bytes \<Rightarrow> bytes" where
  "hmac_auth_message cf key client first server =
     (let mac = sha_new 64;
          (inner, outer) = hmac_states cf key (sh_state mac) sha_iv;
          mac = foldl (sha_update cf) (mac\<lparr>sh_state := inner\<rparr>)
            [ascii ''n=,r='', client, ascii '','', first, ascii '',c=biws,r='', server]
      in snd (sha_hmac cf mac outer))"

record keys =
  ks_client :: bytes
  ks_stored :: bytes
  ks_server :: bytes

definition keys_write :: "compress \<Rightarrow> words \<Rightarrow> words \<Rightarrow> keys" where
  "keys_write cf inner outer =
     (let hash = (sha_new 64)\<lparr>sh_state := inner\<rparr>;
          (hash, client) = sha_hmac cf (sha_update cf hash (ascii ''Client Key'')) outer;
          hash = hash\<lparr>sh_state := inner, sh_len := 64\<rparr>;
          (hash, server) = sha_hmac cf (sha_update cf hash (ascii ''Server Key'')) outer;
          hash = hash\<lparr>sh_state := sha_iv, sh_len := 0\<rparr>;
          hash = sha_finalize cf (sha_update cf hash client)
      in \<lparr>ks_client = client, ks_stored = write_state (sh_state hash), ks_server = server\<rparr>)"

section \<open>Reference functions\<close>

definition sha_padding :: "nat \<Rightarrow> bytes" where
  "sha_padding n = 128 # replicate ((119 - n mod 64) mod 64) 0 @ be64 (n * 8 mod 2 ^ 64)"

definition sha_ref :: "compress \<Rightarrow> bytes \<Rightarrow> bytes" where
  "sha_ref cf m = write_state (foldl cf sha_iv (fst (chunks64 (m @ sha_padding (length m)))))"

definition key_block :: "compress \<Rightarrow> bytes \<Rightarrow> bytes" where
  "key_block cf key =
     (let k = (if 64 < length key then sha_ref cf key else key) in k @ replicate (64 - length k) 0)"

definition hmac_ref :: "compress \<Rightarrow> bytes \<Rightarrow> bytes \<Rightarrow> bytes" where
  "hmac_ref cf key m =
     sha_ref cf (map (\<lambda>b. b XOR 0x5c) (key_block cf key) @
       sha_ref cf (map (\<lambda>b. b XOR 0x36) (key_block cf key) @ m))"

section \<open>Blocks\<close>

lemma chunks64_short [simp]: "length bs < 64 \<Longrightarrow> chunks64 bs = ([], bs)"
  by (simp add: chunks64.simps)

lemma chunks64_block [simp]:
  "length b = 64 \<Longrightarrow> chunks64 (b @ bs) = (b # fst (chunks64 bs), snd (chunks64 bs))"
  by (subst chunks64.simps) (simp add: case_prod_beta)

lemma chunks64_tail: "length (snd (chunks64 bs)) = length bs mod 64"
proof (induction bs rule: chunks64.induct)
  case (1 bs)
  show ?case
  proof (cases "length bs < 64")
    case False
    with 1 have "length (snd (chunks64 (drop 64 bs))) = (length bs - 64) mod 64" by simp
    with False show ?thesis by (subst chunks64.simps) (simp add: case_prod_beta le_mod_geq)
  qed simp
qed

lemma chunks64_append:
  "chunks64 (m @ x) =
     (fst (chunks64 m) @ fst (chunks64 (snd (chunks64 m) @ x)), snd (chunks64 (snd (chunks64 m) @ x)))"
proof (induction m rule: chunks64.induct)
  case (1 m)
  show ?case
  proof (cases "length m < 64")
    case False
    have "m @ x = take 64 m @ drop 64 m @ x" "length (take 64 m) = 64" using False by simp_all
    then have "chunks64 (m @ x) = (take 64 m # fst (chunks64 (drop 64 m @ x)), snd (chunks64 (drop 64 m @ x)))"
      by (metis chunks64_block)
    moreover have "chunks64 m = (take 64 m # fst (chunks64 (drop 64 m)), snd (chunks64 (drop 64 m)))"
      using False by (subst chunks64.simps) (simp add: case_prod_beta)
    ultimately show ?thesis using 1[OF False] by simp
  qed simp
qed

section \<open>The stream\<close>

text \<open>The hash \<open>h\<close> has absorbed the message \<open>m\<close>.\<close>

definition absorbed :: "compress \<Rightarrow> sha \<Rightarrow> bytes \<Rightarrow> bool" where
  "absorbed cf h m \<longleftrightarrow>
     sh_state h = foldl cf sha_iv (fst (chunks64 m)) \<and> length (sh_block h) = 64 \<and>
     take (length m mod 64) (sh_block h) = snd (chunks64 m) \<and> sh_len h = length m mod 2 ^ 64"

lemma length_copy_at [simp]: "pos + length src \<le> length dst \<Longrightarrow> length (copy_at pos src dst) = length dst"
  by (simp add: copy_at_def)

lemma take_copy_at [simp]: "pos \<le> length dst \<Longrightarrow> take (pos + length src) (copy_at pos src dst) = take pos dst @ src"
  by (simp add: copy_at_def)

lemma copy_at_end: "pos = length a \<Longrightarrow> length src = length b \<Longrightarrow> copy_at pos src (a @ b) = a @ src"
  by (simp add: copy_at_def)

lemma sha_update_aligned:
  "sh_len h mod 64 = 0 \<Longrightarrow> sha_update cf h x =
     h\<lparr>sh_len := wrapping_add64 (sh_len h) (length x), sh_state := foldl cf (sh_state h) (fst (chunks64 x)),
       sh_block := copy_at 0 (snd (chunks64 x)) (sh_block h)\<rparr>"
  by (simp add: sha_update_def Let_def case_prod_beta)

lemma sha_update_short:
  assumes "sh_len h mod 64 \<noteq> 0" and "sh_len h mod 64 + length x < 64"
  shows "sha_update cf h x = h\<lparr>sh_len := wrapping_add64 (sh_len h) (length x),
    sh_block := copy_at (sh_len h mod 64) x (sh_block h)\<rparr>"
proof -
  have "min (64 - sh_len h mod 64) (length x) = length x" using assms(2) by simp
  then show ?thesis using assms by (simp add: sha_update_def Let_def)
qed

lemma sha_update_fill:
  assumes "sh_len h mod 64 \<noteq> 0" and "64 \<le> sh_len h mod 64 + length x"
  shows "sha_update cf h x =
    (let n = 64 - sh_len h mod 64; b = copy_at (sh_len h mod 64) (take n x) (sh_block h); y = drop n x
     in h\<lparr>sh_len := wrapping_add64 (sh_len h) (length x), sh_state := foldl cf (cf (sh_state h) b) (fst (chunks64 y)),
       sh_block := copy_at 0 (snd (chunks64 y)) b\<rparr>)"
proof -
  have "min (64 - sh_len h mod 64) (length x) = 64 - sh_len h mod 64" using assms(2) by simp
  moreover have "sh_len h mod 64 + (64 - sh_len h mod 64) = 64" by (simp add: mod_less_divisor less_imp_le)
  ultimately show ?thesis using assms by (simp add: sha_update_def Let_def case_prod_beta)
qed

lemma absorbed_new: "absorbed cf (sha_new 0) []"
  by (simp add: absorbed_def sha_new_def)

lemma mod_64_64: "n mod 18446744073709551616 mod 64 = n mod (64 :: nat)"
  by (rule mod_mod_cancel) simp

lemma absorbed_update:
  assumes "absorbed cf h m"
  shows "absorbed cf (sha_update cf h x) (m @ x)"
proof -
  let ?t = "snd (chunks64 m)" and ?pos = "length m mod 64"
  from assms have st: "sh_state h = foldl cf sha_iv (fst (chunks64 m))" and bl: "length (sh_block h) = 64"
    and tk: "take ?pos (sh_block h) = ?t" and ln: "sh_len h = length m mod 2 ^ 64"
    by (auto simp: absorbed_def)
  have lt: "length ?t = ?pos" "?pos < 64" by (simp_all add: chunks64_tail)
  have pos: "sh_len h mod 64 = ?pos" by (simp add: ln mod_64_64)
  have len: "wrapping_add64 (sh_len h) (length x) = length (m @ x) mod 2 ^ 64"
    by (simp add: ln wrapping_add64_def mod_add_left_eq)
  have rest: "absorbed cf (h'\<lparr>sh_len := length (m @ x) mod 2 ^ 64, sh_state := foldl cf (sh_state h') (fst (chunks64 y)),
        sh_block := copy_at 0 (snd (chunks64 y)) (sh_block h')\<rparr>) (m @ x)"
    if "chunks64 (m @ x) = (bs @ fst (chunks64 y), snd (chunks64 y))" and "sh_state h' = foldl cf sha_iv bs"
      and "length (sh_block h') = 64" for h' y bs
  proof -
    have "length (snd (chunks64 y)) = length (m @ x) mod 64"
      using chunks64_tail[of "m @ x"] that(1) by simp
    then show ?thesis
      using that take_copy_at[of 0 "sh_block h'" "snd (chunks64 y)"] mod_less_divisor[of 64 "length (m @ x)"]
      by (simp add: absorbed_def)
  qed
  note app = chunks64_append[of m x]
  show ?thesis
  proof (cases "?pos = 0")
    case True
    then have "?t = []" using lt by simp
    with app have "chunks64 (m @ x) = (fst (chunks64 m) @ fst (chunks64 x), snd (chunks64 x))" by simp
    from rest[OF this st bl] True show ?thesis
      by (simp add: sha_update_aligned pos len)
  next
    case False
    show ?thesis
    proof (cases "?pos + length x < 64")
      case True
      have c: "chunks64 (m @ x) = (fst (chunks64 m), ?t @ x)" using app True lt by simp
      have md: "(length m + length x) mod 64 = ?pos + length x"
        using mod_add_left_eq[of "length m" 64 "length x"] mod_less[OF True] by metis
      have u: "sha_update cf h x = h\<lparr>sh_len := length (m @ x) mod 2 ^ 64, sh_block := copy_at ?pos x (sh_block h)\<rparr>"
        using sha_update_short[of h x cf] False True by (simp add: pos len)
      have "take (?pos + length x) (copy_at ?pos x (sh_block h)) = ?t @ x"
        using take_copy_at[of ?pos "sh_block h" x] tk bl lt(2) by simp
      moreover have "length (copy_at ?pos x (sh_block h)) = 64" using True bl by simp
      moreover obtain p where p: "?pos = p" by blast
      ultimately show ?thesis unfolding u absorbed_def length_append c md unfolding p by (simp add: st)
    next
      case ge: False
      let ?n = "64 - ?pos"
      let ?b = "?t @ take ?n x"
      have lb: "length ?b = 64" using ge lt by simp
      have cp: "copy_at ?pos (take ?n x) (sh_block h) = ?b"
        using ge lt bl tk by (simp add: copy_at_def)
      have "?t @ x = ?b @ drop ?n x" by simp
      then have "chunks64 (?t @ x) = (?b # fst (chunks64 (drop ?n x)), snd (chunks64 (drop ?n x)))"
        using chunks64_block[OF lb] by metis
      with app have e: "chunks64 (m @ x) =
          ((fst (chunks64 m) @ [?b]) @ fst (chunks64 (drop ?n x)), snd (chunks64 (drop ?n x)))" by simp
      let ?h = "h\<lparr>sh_block := ?b, sh_state := cf (sh_state h) ?b\<rparr>"
      have "sh_state ?h = foldl cf sha_iv (fst (chunks64 m) @ [?b])" "length (sh_block ?h) = 64"
        using st lb by simp_all
      note r = rest[OF e this]
      have "sha_update cf h x = h\<lparr>sh_len := length (m @ x) mod 2 ^ 64,
          sh_state := foldl cf (cf (sh_state h) ?b) (fst (chunks64 (drop ?n x))),
          sh_block := copy_at 0 (snd (chunks64 (drop ?n x))) ?b\<rparr>"
        using sha_update_fill[of h x cf] False ge unfolding pos len Let_def cp by simp
      with r show ?thesis by simp
    qed
  qed
qed

lemma absorbed_updates: "absorbed cf h m \<Longrightarrow> absorbed cf (foldl (sha_update cf) h xs) (m @ concat xs)"
proof (induction xs arbitrary: h m)
  case (Cons x xs)
  from Cons.IH[OF absorbed_update[OF Cons.prems, of x]] show ?case by simp
qed simp

section \<open>Finalization\<close>

definition words_ok :: "compress \<Rightarrow> bool" where
  "words_ok cf \<longleftrightarrow> (\<forall>st b. length (cf st b) = 8)"

lemma length_write_state: "length st = 8 \<Longrightarrow> length (write_state st) = 32"
  by (simp add: write_state_def length_concat comp_def sum_list_triv)

lemma foldl_words: "words_ok cf \<Longrightarrow> length st = 8 \<Longrightarrow> length (foldl cf st bs) = 8"
  by (induction bs arbitrary: st) (auto simp: words_ok_def)

lemma length_sha_ref: "words_ok cf \<Longrightarrow> length (sha_ref cf m) = 32"
  unfolding sha_ref_def by (intro length_write_state foldl_words) (simp_all add: sha_iv_def)

lemma length_hmac_ref: "words_ok cf \<Longrightarrow> length (hmac_ref cf k m) = 32"
  by (simp add: hmac_ref_def length_sha_ref)

lemma length_key_block: "words_ok cf \<Longrightarrow> length (key_block cf key) = 64"
  by (simp add: key_block_def length_sha_ref Let_def)

lemma bits_mod: "n mod 18446744073709551616 * 8 mod 18446744073709551616 = n * 8 mod (18446744073709551616 :: nat)"
  by (simp add: mod_mult_left_eq)

lemma finalize_ref:
  assumes "absorbed cf h m"
  shows "write_state (sh_state (sha_finalize cf h)) = sha_ref cf m"
    and "length (sh_block (sha_finalize cf h)) = 64"
proof -
  let ?t = "snd (chunks64 m)" and ?pos = "length m mod 64" and ?e = "be64 (length m * 8 mod 2 ^ 64)"
  from assms have st: "sh_state h = foldl cf sha_iv (fst (chunks64 m))" and bl: "length (sh_block h) = 64"
    and tk: "take ?pos (sh_block h) = ?t" and ln: "sh_len h = length m mod 2 ^ 64"
    by (auto simp: absorbed_def)
  have lt: "length ?t = ?pos" "?pos < 64" by (simp_all add: chunks64_tail)
  have pos: "sh_len h mod 64 = ?pos" by (simp add: ln mod_64_64)
  have bits: "sh_len h * 8 mod 2 ^ 64 = length m * 8 mod 2 ^ 64" by (simp add: ln bits_mod)
  have app: "fst (chunks64 (m @ sha_padding (length m))) = fst (chunks64 m) @ fst (chunks64 (?t @ sha_padding (length m)))"
    by (simp add: chunks64_append[of m])
  have "write_state (sh_state (sha_finalize cf h)) = sha_ref cf m \<and> length (sh_block (sha_finalize cf h)) = 64"
  proof (cases "56 \<le> ?pos")
    case False
    then have k: "(119 - ?pos) mod 64 = 55 - ?pos"
      using mod_less[of "55 - ?pos" 64] by (simp add: le_mod_geq)
    let ?b = "?t @ 128 # replicate (55 - ?pos) 0 @ ?e"
    have lb: "length ?b = 64" using False lt(1) by simp
    have "fst (chunks64 (?b @ [])) = [?b]" unfolding chunks64_block[OF lb] by simp
    then have c: "fst (chunks64 (?t @ sha_padding (length m))) = [?b]" by (simp add: sha_padding_def k)
    have "replicate (63 - ?pos) (0 :: byte) = replicate (55 - ?pos) 0 @ replicate 8 0"
      using False by (simp flip: replicate_add)
    moreover have "56 = length (?t @ 128 # replicate (55 - ?pos) 0)" using False lt(1) by simp
    ultimately have "copy_at 56 ?e (?t @ 128 # replicate (63 - ?pos) 0) = ?b"
      using copy_at_end[of 56 "?t @ 128 # replicate (55 - ?pos) 0" ?e "replicate 8 0"] by simp
    with False show ?thesis
      using lb by (simp_all add: sha_finalize_def sha_pad_def pos bits[simplified] tk Let_def sha_ref_def app c st)
  next
    case True
    then have k: "(119 - ?pos) mod 64 = (63 - ?pos) + 56" using lt(2) by simp
    let ?b = "?t @ 128 # replicate (63 - ?pos) 0" and ?z = "replicate 56 0 @ ?e"
    have lb: "length ?b = 64" "length ?z = 64" using True lt by simp_all
    have e: "?t @ sha_padding (length m) = ?b @ ?z @ []" by (simp only: sha_padding_def k replicate_add append.assoc append_Cons append_Nil2)
    have c: "fst (chunks64 (?t @ sha_padding (length m))) = [?b, ?z]"
      unfolding e chunks64_block[OF lb(1)] chunks64_block[OF lb(2)] by simp
    have "copy_at 56 ?e (replicate 64 0) = ?z" by (simp add: copy_at_def)
    with True show ?thesis
      using lb by (simp_all add: sha_finalize_def sha_pad_def pos bits[simplified] tk Let_def sha_ref_def app c st)
  qed
  then show "write_state (sh_state (sha_finalize cf h)) = sha_ref cf m" "length (sh_block (sha_finalize cf h)) = 64" by blast+
qed

lemma sha_one_shot: "write_state (sh_state (sha_finalize cf (sha_update cf (sha_new 0) m))) = sha_ref cf m"
  using finalize_ref(1)[OF absorbed_update[OF absorbed_new]] by simp

section \<open>HMAC\<close>

lemma hmac_block_eq: "words_ok cf \<Longrightarrow> hmac_block cf key = key_block cf key"
  by (simp add: hmac_block_def key_block_def copy_at_def sha_one_shot length_sha_ref Let_def)

abbreviation ipad :: "compress \<Rightarrow> bytes \<Rightarrow> bytes" where
  "ipad cf key \<equiv> map (\<lambda>b. b XOR 0x36) (key_block cf key)"

abbreviation opad :: "compress \<Rightarrow> bytes \<Rightarrow> bytes" where
  "opad cf key \<equiv> map (\<lambda>b. b XOR 0x5c) (key_block cf key)"

lemma hmac_states_eq:
  "words_ok cf \<Longrightarrow> hmac_states cf key sha_iv sha_iv = (cf sha_iv (ipad cf key), cf sha_iv (opad cf key))"
  by (simp add: hmac_states_def hmac_block_eq Let_def comp_def xor.assoc)

text \<open>A stream that starts from a keyed state has absorbed the padded key.\<close>

lemma absorbed_keyed:
  assumes "length k = 64" and "length (sh_block h) = 64"
  shows "absorbed cf (h\<lparr>sh_state := cf sha_iv k, sh_len := 64\<rparr>) k"
  using chunks64_block[OF assms(1), of "[]"] assms by (simp add: absorbed_def)

lemma sha_hmac_ref:
  assumes W: "words_ok cf" and h: "absorbed cf h (ipad cf key @ m)"
  shows "snd (sha_hmac cf h (cf sha_iv (opad cf key))) = hmac_ref cf key m"
    and "length (sh_block (fst (sha_hmac cf h (cf sha_iv (opad cf key))))) = 64"
proof -
  let ?h = "sha_finalize cf h"
  let ?d = "sha_ref cf (ipad cf key @ m)"
  let ?g = "?h\<lparr>sh_block := copy_at 0 (write_state (sh_state ?h)) (sh_block ?h), sh_state := cf sha_iv (opad cf key), sh_len := 96\<rparr>"
  note f = finalize_ref[OF h]
  have ld: "length ?d = 32" by (rule length_sha_ref[OF W])
  have lo: "length (opad cf key) = 64" by (simp add: length_key_block[OF W])
  have "absorbed cf ?g (opad cf key @ ?d)"
    using chunks64_block[OF lo, of ?d] ld lo f take_copy_at[of 0 "sh_block ?h" ?d] by (simp add: absorbed_def)
  note g = finalize_ref[OF this]
  show "snd (sha_hmac cf h (cf sha_iv (opad cf key))) = hmac_ref cf key m"
    using g(1) by (simp add: sha_hmac_def Let_def hmac_ref_def)
  show "length (sh_block (fst (sha_hmac cf h (cf sha_iv (opad cf key))))) = 64"
    using g(2) by (simp add: sha_hmac_def Let_def)
qed

lemma hmac_auth_message_ref:
  assumes "words_ok cf"
  shows "hmac_auth_message cf key client first server =
    hmac_ref cf key (ascii ''n=,r='' @ client @ ascii '','' @ first @ ascii '',c=biws,r='' @ server)"
proof -
  let ?parts = "[ascii ''n=,r='', client, ascii '','', first, ascii '',c=biws,r='', server]"
  have k: "absorbed cf ((sha_new 64)\<lparr>sh_state := cf sha_iv (ipad cf key)\<rparr>) (ipad cf key)"
    using absorbed_keyed[of "ipad cf key" "sha_new 64" cf] by (simp add: sha_new_def length_key_block assms)
  from sha_hmac_ref(1)[OF assms absorbed_updates[OF k, of ?parts]] show ?thesis
    by (simp add: hmac_auth_message_def hmac_states_eq[OF assms] Let_def sha_new_def)
qed

text \<open>The three keys of RFC 5802 from the salted password.\<close>

lemma keys_write_ref:
  assumes W: "words_ok cf"
  shows "keys_write cf (cf sha_iv (ipad cf salted)) (cf sha_iv (opad cf salted)) =
    \<lparr>ks_client = hmac_ref cf salted (ascii ''Client Key''),
     ks_stored = sha_ref cf (hmac_ref cf salted (ascii ''Client Key'')),
     ks_server = hmac_ref cf salted (ascii ''Server Key'')\<rparr>"
proof -
  have lk: "length (ipad cf salted) = 64" by (simp add: length_key_block W)
  let ?i = "cf sha_iv (ipad cf salted)" and ?o = "cf sha_iv (opad cf salted)"
  let ?h0 = "sha_update cf ((sha_new 64)\<lparr>sh_state := ?i\<rparr>) (ascii ''Client Key'')"
  let ?h1 = "fst (sha_hmac cf ?h0 ?o)"
  let ?h2 = "sha_update cf (?h1\<lparr>sh_state := ?i, sh_len := 64\<rparr>) (ascii ''Server Key'')"
  let ?h3 = "fst (sha_hmac cf ?h2 ?o)"
  have "absorbed cf ((sha_new 64)\<lparr>sh_state := ?i\<rparr>) (ipad cf salted)"
    using absorbed_keyed[OF lk, of "sha_new 64" cf] by (simp add: sha_new_def)
  note r1 = sha_hmac_ref[OF W absorbed_update[OF this]]
  note r2 = sha_hmac_ref[OF W absorbed_update[OF absorbed_keyed[OF lk r1(2)]]]
  have "absorbed cf (?h3\<lparr>sh_state := sha_iv, sh_len := 0\<rparr>) []"
    using r2(2) by (simp add: absorbed_def)
  note r3 = finalize_ref(1)[OF absorbed_update[OF this]]
  show ?thesis using r1(1) r2(1) r3 by (simp add: keys_write_def Let_def case_prod_beta)
qed

end
