(* ===== verification/Scram_Kdf.thy ===== *)
theory Scram_Kdf
  imports Scram_Hash
begin

text \<open>
  The key derivation of \<open>pg/src/protocol/scram/kdf.rs\<close>, first part: one job, which runs at most 256
  rounds of PBKDF2 per poll.  \<open>hi_sum\<close> is the function \<open>Hi\<close> of RFC 5802 from its first block, and
  \<open>kdf_at\<close> relates a job to the number of rounds it has done.
\<close>

abbreviation iterations_per_poll :: nat where "iterations_per_poll \<equiv> 256"
abbreviation min_iterations :: nat where "min_iterations \<equiv> 4096"
abbreviation max_iterations :: nat where "max_iterations \<equiv> 100000"

definition try_iterations :: "nat \<Rightarrow> pg_error + nat" where
  "try_iterations rounds =
     (if min_iterations \<le> rounds \<and> rounds \<le> max_iterations then Inr rounds
      else Inl (PgScramIterations rounds min_iterations max_iterations))"

record kdf =
  kd_prf :: "words \<times> words"
  kd_previous :: bytes
  kd_output :: bytes
  kd_remaining :: nat

text \<open>The words of the state are xored into the output, four bytes each in network order.\<close>

fun xor_words :: "bytes \<Rightarrow> words \<Rightarrow> bytes" where
  "xor_words out [] = out"
| "xor_words out (w # ws) =
     (if length out < 4 then out
      else be32 (unat (word_of_nat (from_be (take 4 out)) XOR w)) @ xor_words (drop 4 out) ws)"

definition kdf_round :: "compress \<Rightarrow> words \<times> words \<Rightarrow> words \<times> bytes \<times> bytes \<Rightarrow> words \<times> bytes \<times> bytes" where
  "kdf_round cf prf s =
     (case s of (state, block, output) \<Rightarrow>
        let step = (\<lambda>(state, block) seed. let state = cf seed block in (state, copy_at 0 (write_state state) block));
            (state, block) = foldl step (state, block) [fst prf, snd prf]
        in (state, block, xor_words output state))"

definition kdf_advance :: "compress \<Rightarrow> kdf \<Rightarrow> kdf \<times> bytes option" where
  "kdf_advance cf k =
     (let rounds = min (kd_remaining k) iterations_per_poll;
          block = copy_at 0 (kd_previous k) (replicate 64 0);
          (state, block) = sha_pad cf (replicate 8 0) block 96;
          (state, block, output) = (kdf_round cf (kd_prf k) ^^ rounds) (state, block, kd_output k);
          k = k\<lparr>kd_output := output, kd_previous := take 32 block, kd_remaining := kd_remaining k - rounds\<rparr>
      in (k, if kd_remaining k = 0 then Some (kd_output k) else None))"

section \<open>The function \<open>Hi\<close>\<close>

definition xor_bytes :: "bytes \<Rightarrow> bytes \<Rightarrow> bytes" where
  "xor_bytes a b = map2 (XOR) a b"

primrec prf_chain :: "compress \<Rightarrow> bytes \<Rightarrow> bytes \<Rightarrow> nat \<Rightarrow> bytes" where
  "prf_chain cf pw u 0 = u"
| "prf_chain cf pw u (Suc n) = hmac_ref cf pw (prf_chain cf pw u n)"

primrec hi_sum :: "compress \<Rightarrow> bytes \<Rightarrow> bytes \<Rightarrow> nat \<Rightarrow> bytes" where
  "hi_sum cf pw u 0 = u"
| "hi_sum cf pw u (Suc n) = xor_bytes (hi_sum cf pw u n) (prf_chain cf pw u (Suc n))"

lemma length_xor_bytes [simp]: "length (xor_bytes a b) = min (length a) (length b)"
  by (simp add: xor_bytes_def)

lemma length_prf_chain: "words_ok cf \<Longrightarrow> length u = 32 \<Longrightarrow> length (prf_chain cf pw u n) = 32"
  by (cases n) (simp_all add: length_hmac_ref)

lemma length_hi_sum: "words_ok cf \<Longrightarrow> length u = 32 \<Longrightarrow> length (hi_sum cf pw u n) = 32"
  by (induction n) (simp_all add: length_hmac_ref)

section \<open>Words and their bytes\<close>

lemma be32_word:
  "be32 (unat (x :: 32 word)) = [ucast (drop_bit 24 x), ucast (drop_bit 16 x), ucast (drop_bit 8 x), ucast x]"
proof -
  have b: "word_of_nat (unat x div 2 ^ n mod 256) = (ucast (drop_bit n x) :: byte)" for n
  proof -
    have "(ucast (drop_bit n x) :: byte) = word_of_nat (unat (drop_bit n x))"
      by simp
    also have "\<dots> = word_of_nat (unat x div 2 ^ n)"
      by (simp only: unat_drop_bit_eq drop_bit_eq_div[where 'a = nat])
    also have "\<dots> = word_of_nat (unat x div 2 ^ n mod 256)"
      by (rule word_unat_eq_iff[THEN iffD2]) (simp add: unat_of_nat)
    finally show ?thesis by simp
  qed
  have "be32 (unat x) = [word_of_nat (unat x div 2 ^ 24 mod 256), word_of_nat (unat x div 2 ^ 16 mod 256),
      word_of_nat (unat x div 2 ^ 8 mod 256), word_of_nat (unat x div 2 ^ 0 mod 256)]"
    by (simp add: be32_bytes)
  then show ?thesis unfolding b by simp
qed

lemma be32_xor: "be32 (unat (x XOR y :: 32 word)) = xor_bytes (be32 (unat x)) (be32 (unat y))"
  unfolding be32_word xor_bytes_def by (simp add: unsigned_xor_eq drop_bit_xor)

lemma xor_bytes_append:
  "length a = length c \<Longrightarrow> xor_bytes (a @ b) (c @ d) = xor_bytes a c @ xor_bytes b d"
  by (simp add: xor_bytes_def)

lemma xor_words_bytes:
  "length out = 4 * length ws \<Longrightarrow> xor_words out ws = xor_bytes out (write_state ws)"
proof (induction ws arbitrary: out)
  case Nil
  then show ?case by (simp add: xor_bytes_def write_state_def)
next
  case (Cons w ws)
  let ?a = "take 4 out" and ?b = "drop 4 out"
  have la: "length ?a = 4" using Cons.prems by simp
  have "from_be ?a < 2 ^ 32" using from_be_bound[of ?a] la by simp
  then have "unat (word_of_nat (from_be ?a) :: 32 word) = from_be ?a"
    by (simp add: unsigned_of_nat take_bit_nat_eq_self)
  then have "be32 (unat (word_of_nat (from_be ?a) XOR w)) = xor_bytes ?a (be32 (unat w))"
    using la by (simp add: be32_xor)
  moreover have "xor_words ?b ws = xor_bytes ?b (write_state ws)" using Cons by simp
  moreover have "xor_bytes out (write_state (w # ws)) = xor_bytes ?a (be32 (unat w)) @ xor_bytes ?b (write_state ws)"
    using xor_bytes_append[of ?a "be32 (unat w)" ?b "write_state ws"] la by (simp add: write_state_def)
  ultimately show ?case using Cons.prems by simp
qed

section \<open>Rounds\<close>

text \<open>The end of the only block that follows a padded key when the message has 32 bytes.\<close>

definition pad96 :: bytes where
  "pad96 = 128 # replicate 23 0 @ be64 768"

lemma length_pad96 [simp]: "length pad96 = 32"
  by (simp add: pad96_def)

lemma sha_ref_96:
  assumes "length k = 64" and "length u = 32"
  shows "sha_ref cf (k @ u) = write_state (cf (cf sha_iv k) (u @ pad96))"
proof -
  have p: "sha_padding (length (k @ u)) = pad96" using assms by (simp add: sha_padding_def pad96_def)
  have "chunks64 (k @ (u @ pad96) @ []) = ([k, u @ pad96], [])"
    using assms chunks64_block[of "u @ pad96" "[]"] by (simp del: append_Nil2)
  then show ?thesis unfolding sha_ref_def p by simp
qed

lemma hmac_ref_32:
  assumes W: "words_ok cf" and "length u = 32"
  shows "hmac_ref cf pw u = write_state (cf (cf sha_iv (opad cf pw))
    (write_state (cf (cf sha_iv (ipad cf pw)) (u @ pad96)) @ pad96))"
proof -
  have i: "sha_ref cf (ipad cf pw @ u) = write_state (cf (cf sha_iv (ipad cf pw)) (u @ pad96))"
    using assms by (intro sha_ref_96) (simp_all add: length_key_block)
  have "length (sha_ref cf (ipad cf pw @ u)) = 32" by (rule length_sha_ref[OF W])
  with i show ?thesis
    unfolding hmac_ref_def by (subst sha_ref_96) (simp_all add: length_key_block W)
qed

lemma copy_at_0: "length a = length src \<Longrightarrow> copy_at 0 src (a @ b) = src @ b"
  by (simp add: copy_at_def)

lemma kdf_round_hmac:
  assumes W: "words_ok cf" and u: "length u = 32" and out: "length out = 32"
  shows "\<exists>st'. kdf_round cf (cf sha_iv (ipad cf pw), cf sha_iv (opad cf pw)) (st, u @ pad96, out) =
    (st', hmac_ref cf pw u @ pad96, xor_bytes out (hmac_ref cf pw u)) \<and> length st' = 8"
proof -
  have l: "length (cf s b) = 8" "length (write_state (cf s b)) = 32" for s b
    using W length_write_state[of "cf s b"] by (simp_all add: words_ok_def)
  show ?thesis
    using u out by (simp add: kdf_round_def Let_def copy_at_0 l hmac_ref_32[OF W] xor_words_bytes)
qed

lemma kdf_rounds:
  assumes W: "words_ok cf" and u: "length u = 32"
  shows "\<exists>st'. (kdf_round cf (cf sha_iv (ipad cf pw), cf sha_iv (opad cf pw)) ^^ n)
      (st, prf_chain cf pw u k @ pad96, hi_sum cf pw u k) =
    (st', prf_chain cf pw u (k + n) @ pad96, hi_sum cf pw u (k + n))"
proof (induction n)
  case (Suc n)
  then obtain st' where "(kdf_round cf (cf sha_iv (ipad cf pw), cf sha_iv (opad cf pw)) ^^ n)
      (st, prf_chain cf pw u k @ pad96, hi_sum cf pw u k) =
    (st', prf_chain cf pw u (k + n) @ pad96, hi_sum cf pw u (k + n))" by blast
  moreover obtain st2 where "kdf_round cf (cf sha_iv (ipad cf pw), cf sha_iv (opad cf pw))
      (st', prf_chain cf pw u (k + n) @ pad96, hi_sum cf pw u (k + n)) =
    (st2, hmac_ref cf pw (prf_chain cf pw u (k + n)) @ pad96,
     xor_bytes (hi_sum cf pw u (k + n)) (hmac_ref cf pw (prf_chain cf pw u (k + n))))"
    using kdf_round_hmac[OF W length_prf_chain[OF W u] length_hi_sum[OF W u], of pw st' pw "k + n" pw "k + n"] by blast
  ultimately show ?case by simp
qed simp

text \<open>The job for password \<open>pw\<close> from the block \<open>u\<close> has done \<open>n\<close> of \<open>tot\<close> rounds.\<close>

definition kdf_at :: "compress \<Rightarrow> bytes \<Rightarrow> bytes \<Rightarrow> nat \<Rightarrow> nat \<Rightarrow> kdf \<Rightarrow> bool" where
  "kdf_at cf pw u tot n k \<longleftrightarrow>
     n \<le> tot \<and> length u = 32 \<and>
     k = \<lparr>kd_prf = (cf sha_iv (ipad cf pw), cf sha_iv (opad cf pw)), kd_previous = prf_chain cf pw u n,
          kd_output = hi_sum cf pw u n, kd_remaining = tot - n\<rparr>"

lemma sha_pad_96:
  "length u = 32 \<Longrightarrow> sha_pad cf st (copy_at 0 u (replicate 64 0)) 96 = (st, u @ pad96)"
  by (simp add: sha_pad_def copy_at_def Let_def pad96_def)

lemma kdf_advance_at:
  assumes W: "words_ok cf" and k: "kdf_at cf pw u tot n k"
  shows "kdf_at cf pw u tot (min tot (n + 256)) (fst (kdf_advance cf k))"
    and "snd (kdf_advance cf k) = (if tot \<le> n + 256 then Some (hi_sum cf pw u tot) else None)"
proof -
  let ?P = "(cf sha_iv (ipad cf pw), cf sha_iv (opad cf pw))" and ?r = "min (tot - n) 256"
  from k have u: "length u = 32" and n: "n \<le> tot" by (simp_all add: kdf_at_def)
  note lp = length_prf_chain[OF W u]
  obtain st' where "(kdf_round cf ?P ^^ ?r) (replicate 8 0, prf_chain cf pw u n @ pad96, hi_sum cf pw u n) =
      (st', prf_chain cf pw u (n + ?r) @ pad96, hi_sum cf pw u (n + ?r))"
    using kdf_rounds[OF W u] by blast
  then have adv: "kdf_advance cf k =
      (k\<lparr>kd_output := hi_sum cf pw u (n + ?r), kd_previous := prf_chain cf pw u (n + ?r), kd_remaining := tot - n - ?r\<rparr>,
       if tot - n - ?r = 0 then Some (hi_sum cf pw u (n + ?r)) else None)"
    using k by (simp add: kdf_advance_def kdf_at_def sha_pad_96 lp Let_def)
  have r: "n + ?r = min tot (n + 256)" using n by simp
  show "kdf_at cf pw u tot (min tot (n + 256)) (fst (kdf_advance cf k))"
    unfolding adv fst_conv r using k n by (auto simp: kdf_at_def)
  show "snd (kdf_advance cf k) = (if tot \<le> n + 256 then Some (hi_sum cf pw u tot) else None)"
    using n by (auto simp: adv r min_def)
qed

text \<open>Polled on its own, a job returns exactly at the first poll that reaches its rounds.\<close>

fun kdf_polls :: "compress \<Rightarrow> kdf \<Rightarrow> nat \<Rightarrow> bytes option" where
  "kdf_polls cf k 0 = None"
| "kdf_polls cf k (Suc n) =
     (case kdf_advance cf k of (k, Some out) \<Rightarrow> Some out | (k, None) \<Rightarrow> kdf_polls cf k n)"

lemma kdf_polls_at:
  assumes W: "words_ok cf"
  shows "kdf_at cf pw u tot n k \<Longrightarrow>
    kdf_polls cf k m = (if 0 < m \<and> tot \<le> n + 256 * m then Some (hi_sum cf pw u tot) else None)"
proof (induction m arbitrary: n k)
  case (Suc m)
  note a = kdf_advance_at[OF W Suc.prems]
  show ?case
  proof (cases "tot \<le> n + 256")
    case False
    then have "kdf_polls cf (fst (kdf_advance cf k)) m =
        (if 0 < m \<and> tot \<le> n + 256 + 256 * m then Some (hi_sum cf pw u tot) else None)"
      using Suc.IH[OF a(1)] by simp
    with False a(2) show ?thesis by (cases m) (auto simp: case_prod_beta)
  qed (use a(2) in \<open>simp add: case_prod_beta\<close>)
qed simp

definition kdf_new :: "compress \<Rightarrow> bytes \<Rightarrow> bytes \<Rightarrow> nat \<Rightarrow> kdf" where
  "kdf_new cf password first iterations =
     \<lparr>kd_prf = hmac_states cf password sha_iv sha_iv, kd_previous = first, kd_output = first,
      kd_remaining = iterations - 1\<rparr>"

lemma kdf_at_new:
  "words_ok cf \<Longrightarrow> length first = 32 \<Longrightarrow> kdf_at cf pw first (i - 1) 0 (kdf_new cf pw first i)"
  by (simp add: kdf_at_def kdf_new_def hmac_states_eq)

end
