(* ===== verification/Scram_Jobs.thy ===== *)
theory Scram_Jobs
  imports Scram_Kdf
begin

text \<open>
  The key derivation of \<open>pg/src/protocol/scram/kdf.rs\<close>, second part: the coordinator, whose six
  entries are jobs or finished keys, two of them cached, and the tickets of the connections that
  wait for them.  The queue of waiters is \<open>o3\<close>'s \<open>round::values::Values\<close>, outside the repository;
  its operations are the record \<open>waiters\<close> and \<open>waiters_laws\<close> is what the tickets rely on.
\<close>

abbreviation kdf_lanes :: nat where "kdf_lanes \<equiv> 4"
abbreviation cache_entries :: nat where "cache_entries \<equiv> 2"
abbreviation kdf_entries :: nat where "kdf_entries \<equiv> 6"

definition job_lane :: "nat option \<Rightarrow> nat" where
  "job_lane index = (case index of None \<Rightarrow> kdf_entries | Some i \<Rightarrow> i)"

record kdf_key =
  kk_first :: bytes
  kk_iterations :: nat

datatype kdf_state = Computing kdf | Ready keys

record entry =
  en_key :: kdf_key
  en_state :: kdf_state

record coordinator =
  co_entries :: "entry option list"
  co_cached :: "nat option list"
  co_second :: bool

definition coordinator_default :: coordinator where
  "coordinator_default =
     \<lparr>co_entries = replicate kdf_entries None, co_cached = replicate cache_entries None, co_second = False\<rparr>"

definition is_computing :: "kdf_state \<Rightarrow> bool" where
  "is_computing s = (case s of Computing _ \<Rightarrow> True | Ready _ \<Rightarrow> False)"

text \<open>The entry of \<open>index\<close> has the key.\<close>

definition entry_has :: "coordinator \<Rightarrow> kdf_key \<Rightarrow> nat \<Rightarrow> bool" where
  "entry_has c key index = (case co_entries c ! index of None \<Rightarrow> False | Some e \<Rightarrow> en_key e = key)"

fun select_cached :: "coordinator \<Rightarrow> kdf_key \<Rightarrow> nat option list \<Rightarrow> nat option" where
  "select_cached c key [] = None"
| "select_cached c key (None # cs) = select_cached c key cs"
| "select_cached c key (Some index # cs) =
     (if entry_has c key index then Some index else select_cached c key cs)"

text \<open>The scan of the entries that are not cached: the entry of the key, or the last empty entry and
  the number of jobs.\<close>

fun select_scan :: "coordinator \<Rightarrow> kdf_key \<Rightarrow> nat list \<Rightarrow> nat option \<Rightarrow> nat \<Rightarrow> nat + (nat option \<times> nat)" where
  "select_scan c key [] free computing = Inr (free, computing)"
| "select_scan c key (index # is) free computing =
     (if Some index \<in> set (co_cached c) then select_scan c key is free computing
      else case co_entries c ! index of
          None \<Rightarrow> select_scan c key is (Some index) computing
        | Some e \<Rightarrow>
            if en_key e = key then Inl index
            else select_scan c key is free (computing + (if is_computing (en_state e) then 1 else 0)))"

definition select_slot :: "coordinator \<Rightarrow> nat option \<Rightarrow> coordinator \<times> nat option" where
  "select_slot c free =
     (case free of
        Some index \<Rightarrow> (c, Some index)
      | None \<Rightarrow>
          let a = (if co_second c then 1 else 0); b = 1 - a
          in case co_cached c ! a of
               Some index \<Rightarrow> (c\<lparr>co_cached := (co_cached c)[a := None]\<rparr>, Some index)
             | None \<Rightarrow> (c\<lparr>co_cached := (co_cached c)[b := None]\<rparr>, co_cached c ! b))"

definition select_insert :: "compress \<Rightarrow> coordinator \<Rightarrow> nat \<Rightarrow> kdf_key \<Rightarrow> bytes \<Rightarrow> coordinator" where
  "select_insert cf c index key password =
     c\<lparr>co_entries := (co_entries c)[index :=
         Some \<lparr>en_key = key, en_state = Computing (kdf_new cf password (kk_first key) (kk_iterations key))\<rparr>]\<rparr>"

definition coordinator_select ::
    "compress \<Rightarrow> coordinator \<Rightarrow> kdf_key \<Rightarrow> bytes option \<Rightarrow> coordinator \<times> nat option" where
  "coordinator_select cf c key password =
     (case select_cached c key (co_cached c) of
        Some index \<Rightarrow> (c, Some index)
      | None \<Rightarrow>
          case select_scan c key [0..<kdf_entries] None 0 of
            Inl index \<Rightarrow> (c, Some index)
          | Inr (free, computing) \<Rightarrow>
              case password of
                None \<Rightarrow> (c, None)
              | Some password \<Rightarrow>
                  if computing = kdf_lanes then (c, None)
                  else case select_slot c free of
                         (c, None) \<Rightarrow> (c, None)
                       | (c, Some index) \<Rightarrow> (select_insert cf c index key password, Some index))"

definition coordinator_cache :: "coordinator \<Rightarrow> nat \<Rightarrow> coordinator" where
  "coordinator_cache c index =
     (let s = (if co_second c then 1 else 0);
          previous = co_cached c ! s;
          c = c\<lparr>co_cached := (co_cached c)[s := Some index], co_second := \<not> co_second c\<rparr>
      in case previous of None \<Rightarrow> c | Some p \<Rightarrow> c\<lparr>co_entries := (co_entries c)[p := None]\<rparr>)"

section \<open>Tickets\<close>

record 'o member =
  mb_owner :: 'o
  mb_job :: "nat option"

record ('v, 'o) waiters =
  wt_fits :: "'v \<Rightarrow> nat \<Rightarrow> bool"
  wt_get :: "'v \<Rightarrow> nat \<Rightarrow> 'o member option"
  wt_in :: "'v \<Rightarrow> nat \<Rightarrow> nat \<Rightarrow> bool"
  wt_write :: "'v \<Rightarrow> nat \<Rightarrow> 'o member \<Rightarrow> 'v"
  wt_set :: "'v \<Rightarrow> nat \<Rightarrow> nat \<Rightarrow> 'v"
  wt_push :: "'v \<Rightarrow> nat \<Rightarrow> nat \<Rightarrow> 'o member \<Rightarrow> 'v"
  wt_take :: "'v \<Rightarrow> nat \<Rightarrow> 'v"
  wt_front :: "'v \<Rightarrow> nat \<Rightarrow> 'o member option"

record 'v runtime =
  rt_waiters :: 'v
  rt_state :: coordinator

definition runtime_front :: "('v, 'o) waiters \<Rightarrow> 'v \<Rightarrow> nat option \<Rightarrow> 'o option" where
  "runtime_front W v index = map_option mb_owner (wt_front W v (job_lane index))"

definition try_entry :: "('v, 'o) waiters \<Rightarrow> 'v runtime \<Rightarrow> nat \<Rightarrow> 'o \<Rightarrow> 'v runtime option" where
  "try_entry W rt slot owner =
     (if wt_fits W (rt_waiters rt) slot
      then Some (rt\<lparr>rt_waiters := wt_write W (rt_waiters rt) slot \<lparr>mb_owner = owner, mb_job = None\<rparr>\<rparr>)
      else None)"

text \<open>\<open>release\<close>: the next owner to wake and whether members remain.\<close>

definition ticket_release :: "('v, 'o) waiters \<Rightarrow> 'v runtime \<Rightarrow> nat \<Rightarrow> 'v runtime \<times> 'o option \<times> bool" where
  "ticket_release W rt slot =
     (case wt_get W (rt_waiters rt) slot of
        None \<Rightarrow> (rt, None, False)
      | Some member \<Rightarrow>
          let front = (runtime_front W (rt_waiters rt) (mb_job member) = Some (mb_owner member));
              v = wt_take W (rt_waiters rt) slot;
              rt = rt\<lparr>rt_waiters := v\<rparr>;
              c = rt_state rt
          in case mb_job member of
               Some index \<Rightarrow>
                 (case runtime_front W v (Some index) of
                    None \<Rightarrow>
                      let c = (case co_entries c ! index of
                          Some e \<Rightarrow> if is_computing (en_state e) then c\<lparr>co_entries := (co_entries c)[index := None]\<rparr>
                                    else coordinator_cache c index
                        | None \<Rightarrow> c\<lparr>co_entries := (co_entries c)[index := None]\<rparr>)
                      in (rt\<lparr>rt_state := c\<rparr>, runtime_front W v None, False)
                  | Some next \<Rightarrow> (rt, if front then Some next else None, True))
             | None \<Rightarrow> (rt, if front then runtime_front W v None else None, False))"

definition ticket_cancel :: "('v, 'o) waiters \<Rightarrow> 'v runtime \<Rightarrow> nat \<Rightarrow> 'v runtime \<times> 'o option" where
  "ticket_cancel W rt slot = (case ticket_release W rt slot of (rt, next, _) \<Rightarrow> (rt, next))"

datatype poll_result =
    Pending
  | Keys keys
  | Unreachable

text \<open>The job of \<open>index\<close> gets its turn: joins the lane of the job when it is not there yet, advances the
  job when it is at the front of the lane, and stores the keys when the job is done.  The result says
  whether the poll goes on, and whether the job was completed by it.\<close>

definition ticket_turn ::
    "compress \<Rightarrow> ('v, 'o) waiters \<Rightarrow> 'v runtime \<Rightarrow> nat \<Rightarrow> 'o member \<Rightarrow> nat \<Rightarrow> kdf_key \<Rightarrow> kdf \<Rightarrow>
       'v runtime \<times> 'o list \<times> bool" where
  "ticket_turn cf W rt slot member index key kdf =
     (let v = rt_waiters rt;
          (v, woken) =
            (if mb_job member = None then
               let front = (runtime_front W v None = Some (mb_owner member));
                   v = wt_push W v slot index (member\<lparr>mb_job := Some index\<rparr>)
               in (v, if front then (case runtime_front W v None of None \<Rightarrow> [] | Some next \<Rightarrow> [next]) else [])
             else (v, []));
          rt = rt\<lparr>rt_waiters := v\<rparr>
      in if runtime_front W v (Some index) \<noteq> Some (mb_owner member) then (rt, woken, False)
         else case kdf_advance cf kdf of
             (kdf, None) \<Rightarrow>
               (rt\<lparr>rt_state := (rt_state rt)\<lparr>co_entries := (co_entries (rt_state rt))[index :=
                  Some \<lparr>en_key = key, en_state = Computing kdf\<rparr>]\<rparr>\<rparr>, woken @ [mb_owner member], False)
           | (_, Some salted) \<Rightarrow>
               let (inner, outer) = hmac_states cf salted sha_iv sha_iv in
               (rt\<lparr>rt_state := (rt_state rt)\<lparr>co_entries := (co_entries (rt_state rt))[index :=
                  Some \<lparr>en_key = key, en_state = Ready (keys_write cf inner outer)\<rparr>]\<rparr>\<rparr>, woken, True))"

definition ticket_ready ::
    "('v, 'o) waiters \<Rightarrow> 'v runtime \<Rightarrow> nat \<Rightarrow> nat \<Rightarrow> bool \<Rightarrow> 'v runtime \<times> 'o list \<times> poll_result" where
  "ticket_ready W rt slot index completed =
     (case ticket_release W rt slot of
        (rt, next, remaining) \<Rightarrow>
          let woken = (case next of None \<Rightarrow> [] | Some n \<Rightarrow> [n]) @
                (if completed \<and> remaining
                 then case runtime_front W (rt_waiters rt) None of None \<Rightarrow> [] | Some n \<Rightarrow> [n] else [])
          in (rt, woken,
              case co_entries (rt_state rt) ! index of
                Some e \<Rightarrow> (case en_state e of Ready keys \<Rightarrow> Keys keys | Computing _ \<Rightarrow> Unreachable)
              | None \<Rightarrow> Unreachable))"

definition ticket_poll ::
    "compress \<Rightarrow> ('v, 'o) waiters \<Rightarrow> 'v runtime \<Rightarrow> nat \<Rightarrow> kdf_key \<Rightarrow> bytes \<Rightarrow>
       'v runtime \<times> 'o list \<times> poll_result" where
  "ticket_poll cf W rt slot key password =
     (case wt_get W (rt_waiters rt) slot of
        None \<Rightarrow> (rt, [], Pending)
      | Some member \<Rightarrow>
          let (c, index) =
            (case mb_job member of
               Some index \<Rightarrow> (rt_state rt, Some index)
             | None \<Rightarrow>
                 let front = runtime_front W (rt_waiters rt) None;
                     admission = (if front = None \<or> front = Some (mb_owner member) then Some password else None)
                 in coordinator_select cf (rt_state rt) key admission);
            rt = rt\<lparr>rt_state := c\<rparr>
          in case index of
               None \<Rightarrow> (rt\<lparr>rt_waiters := wt_set W (rt_waiters rt) slot (job_lane None)\<rparr>, [], Pending)
             | Some index \<Rightarrow>
                 case co_entries c ! index of
                   None \<Rightarrow> (rt, [], Unreachable)
                 | Some e \<Rightarrow>
                     case en_state e of
                       Computing kdf \<Rightarrow>
                         (case ticket_turn cf W rt slot member index (en_key e) kdf of
                            (rt, woken, False) \<Rightarrow> (rt, woken, Pending)
                          | (rt, woken, True) \<Rightarrow>
                              case ticket_ready W rt slot index True of
                                (rt, woken2, result) \<Rightarrow> (rt, woken @ woken2, result))
                     | Ready _ \<Rightarrow> ticket_ready W rt slot index False)"

section \<open>What the waiters promise\<close>

definition waiters_laws :: "('v, 'o) waiters \<Rightarrow> bool" where
  "waiters_laws W \<longleftrightarrow>
     (\<forall>v s m t. wt_get W v s = None \<longrightarrow> wt_get W (wt_write W v s m) t = (if t = s then Some m else wt_get W v t)) \<and>
     (\<forall>v s m l t. wt_get W v s = None \<longrightarrow> wt_in W (wt_write W v s m) l t = wt_in W v l t) \<and>
     (\<forall>v s l t. wt_get W (wt_set W v s l) t = wt_get W v t) \<and>
     (\<forall>v s l k t. wt_get W v s \<noteq> None \<longrightarrow>
        wt_in W (wt_set W v s l) k t = (if t = s then k = l else wt_in W v k t)) \<and>
     (\<forall>v s l m t. wt_get W (wt_push W v s l m) t = (if t = s then Some m else wt_get W v t)) \<and>
     (\<forall>v s l m k t. wt_in W (wt_push W v s l m) k t = (if t = s then k = l else wt_in W v k t)) \<and>
     (\<forall>v s t. wt_get W (wt_take W v s) t = (if t = s then None else wt_get W v t)) \<and>
     (\<forall>v s k t. wt_in W (wt_take W v s) k t = (t \<noteq> s \<and> wt_in W v k t)) \<and>
     (\<forall>v l s. wt_front W v l = None \<longrightarrow> \<not> wt_in W v l s) \<and>
     (\<forall>v l s. wt_get W v s = None \<longrightarrow> \<not> wt_in W v l s)"

lemma waiters_simps:
  assumes "waiters_laws W"
  shows "wt_get W v s = None \<Longrightarrow> wt_get W (wt_write W v s m) t = (if t = s then Some m else wt_get W v t)"
    and "wt_get W v s = None \<Longrightarrow> wt_in W (wt_write W v s m) l t = wt_in W v l t"
    and "wt_get W (wt_set W v s l) t = wt_get W v t"
    and "wt_get W v s \<noteq> None \<Longrightarrow> wt_in W (wt_set W v s l) k t = (if t = s then k = l else wt_in W v k t)"
    and "wt_get W (wt_push W v s l m) t = (if t = s then Some m else wt_get W v t)"
    and "wt_in W (wt_push W v s l m) k t = (if t = s then k = l else wt_in W v k t)"
    and "wt_get W (wt_take W v s) t = (if t = s then None else wt_get W v t)"
    and "wt_in W (wt_take W v s) k t = (t \<noteq> s \<and> wt_in W v k t)"
    and "wt_front W v l = None \<Longrightarrow> \<not> wt_in W v l s"
    and "wt_get W v s = None \<Longrightarrow> \<not> wt_in W v l s"
  using assms by (auto simp: waiters_laws_def)

text \<open>An instance: the members by slot and the lanes' entries in order of arrival.\<close>

type_synonym 'o list_waiters = "(nat \<times> 'o member) list \<times> (nat \<times> nat) list"

definition lw_leave :: "nat \<Rightarrow> (nat \<times> nat) list \<Rightarrow> (nat \<times> nat) list" where
  "lw_leave s q = filter (\<lambda>e. snd e \<noteq> s) q"

definition list_waiters :: "nat \<Rightarrow> ('o list_waiters, 'o) waiters" where
  "list_waiters n =
     \<lparr>wt_fits = (\<lambda>v s. s < n), wt_get = (\<lambda>v s. map_of (fst v) s),
      wt_in = (\<lambda>v l s. map_of (fst v) s \<noteq> None \<and> (l, s) \<in> set (snd v)),
      wt_write = (\<lambda>v s m. ((s, m) # fst v, lw_leave s (snd v))),
      wt_set = (\<lambda>v s l. (fst v, lw_leave s (snd v) @ [(l, s)])),
      wt_push = (\<lambda>v s l m. ((s, m) # fst v, lw_leave s (snd v) @ [(l, s)])),
      wt_take = (\<lambda>v s. (filter (\<lambda>e. fst e \<noteq> s) (fst v), lw_leave s (snd v))),
      wt_front = (\<lambda>v l. case find (\<lambda>e. fst e = l \<and> map_of (fst v) (snd e) \<noteq> None) (snd v) of
         None \<Rightarrow> None | Some e \<Rightarrow> map_of (fst v) (snd e))\<rparr>"

lemma map_of_other: "map_of (filter (\<lambda>e. fst e \<noteq> s) xs) t = (if t = s then None else map_of xs t)"
  by (induction xs) auto

lemma list_waiters_laws: "waiters_laws (list_waiters n)"
proof -
  have "\<not> (map_of (fst v) s \<noteq> None \<and> (l, s) \<in> set (snd v))"
    if "(case find (\<lambda>e. fst e = l \<and> map_of (fst v) (snd e) \<noteq> None) (snd v) of
         None \<Rightarrow> None | Some e \<Rightarrow> map_of (fst v) (snd e)) = None" for v :: "'a list_waiters" and l s
  proof (cases "find (\<lambda>e. fst e = l \<and> map_of (fst v) (snd e) \<noteq> None) (snd v)")
    case None
    then show ?thesis unfolding find_None_iff by auto
  next
    case (Some e)
    then have "map_of (fst v) (snd e) \<noteq> None" unfolding find_Some_iff by auto
    with Some that show ?thesis by simp
  qed
  then show ?thesis by (auto simp: waiters_laws_def list_waiters_def lw_leave_def map_of_other)
qed

section \<open>Invariants\<close>

text \<open>The keys of RFC 5802 for a salted password.\<close>

definition scram_keys :: "compress \<Rightarrow> bytes \<Rightarrow> keys" where
  "scram_keys cf salted =
     \<lparr>ks_client = hmac_ref cf salted (ascii ''Client Key''),
      ks_stored = sha_ref cf (hmac_ref cf salted (ascii ''Client Key'')),
      ks_server = hmac_ref cf salted (ascii ''Server Key'')\<rparr>"

abbreviation key_salted :: "compress \<Rightarrow> (kdf_key \<Rightarrow> bytes) \<Rightarrow> kdf_key \<Rightarrow> bytes" where
  "key_salted cf pwd key \<equiv> hi_sum cf (pwd key) (kk_first key) (kk_iterations key - 1)"

text \<open>Every poll for the key \<open>key\<close> brings the password \<open>pwd key\<close>.\<close>

definition entry_ok :: "compress \<Rightarrow> (kdf_key \<Rightarrow> bytes) \<Rightarrow> entry \<Rightarrow> bool" where
  "entry_ok cf pwd e \<longleftrightarrow>
     (case en_state e of
        Computing k \<Rightarrow> \<exists>n. kdf_at cf (pwd (en_key e)) (kk_first (en_key e)) (kk_iterations (en_key e) - 1) n k
      | Ready ks \<Rightarrow> ks = scram_keys cf (key_salted cf pwd (en_key e)))"

definition coordinator_ok :: "compress \<Rightarrow> (kdf_key \<Rightarrow> bytes) \<Rightarrow> coordinator \<Rightarrow> bool" where
  "coordinator_ok cf pwd c \<longleftrightarrow>
     length (co_entries c) = 6 \<and> length (co_cached c) = 2 \<and>
     (\<forall>i < 6. \<forall>e. co_entries c ! i = Some e \<longrightarrow> entry_ok cf pwd e) \<and>
     (\<forall>i. Some i \<in> set (co_cached c) \<longrightarrow>
        i < 6 \<and> (\<exists>e. co_entries c ! i = Some e \<and> \<not> is_computing (en_state e))) \<and>
     (co_cached c ! 0 \<noteq> None \<longrightarrow> co_cached c ! 0 \<noteq> co_cached c ! 1)"

text \<open>The member of slot \<open>s\<close>, which polls for \<open>key\<close>, waits for no job or for the job of its key.\<close>

definition member_ok :: "('v, 'o) waiters \<Rightarrow> 'v \<Rightarrow> coordinator \<Rightarrow> kdf_key \<Rightarrow> nat \<Rightarrow> 'o member \<Rightarrow> bool" where
  "member_ok W v c key s m \<longleftrightarrow>
     (case mb_job m of
        None \<Rightarrow> True
      | Some i \<Rightarrow> i < 6 \<and> Some i \<notin> set (co_cached c) \<and> wt_in W v i s \<and> entry_has c key i) \<and>
     (\<forall>i < 6. wt_in W v i s \<longrightarrow> mb_job m = Some i)"

definition waiting_ok :: "('v, 'o) waiters \<Rightarrow> (nat \<Rightarrow> kdf_key) \<Rightarrow> 'v runtime \<Rightarrow> bool" where
  "waiting_ok W keyof rt \<longleftrightarrow>
     (\<forall>s m. wt_get W (rt_waiters rt) s = Some m \<longrightarrow> member_ok W (rt_waiters rt) (rt_state rt) (keyof s) s m)"

definition runtime_ok ::
    "compress \<Rightarrow> (kdf_key \<Rightarrow> bytes) \<Rightarrow> ('v, 'o) waiters \<Rightarrow> (nat \<Rightarrow> kdf_key) \<Rightarrow> 'v runtime \<Rightarrow> bool" where
  "runtime_ok cf pwd W keyof rt \<longleftrightarrow> coordinator_ok cf pwd (rt_state rt) \<and> waiting_ok W keyof rt"

text \<open>Entries that are neither empty nor cached stay as they are.\<close>

definition keeps :: "coordinator \<Rightarrow> coordinator \<Rightarrow> bool" where
  "keeps c c' \<longleftrightarrow>
     (\<forall>i < 6. \<forall>e. co_entries c ! i = Some e \<and> Some i \<notin> set (co_cached c) \<longrightarrow>
        co_entries c' ! i = Some e \<and> Some i \<notin> set (co_cached c'))"

lemma keeps_refl [simp]: "keeps c c"
  by (simp add: keeps_def)

lemma entry_has_Some: "entry_has c key i \<longleftrightarrow> (\<exists>e. co_entries c ! i = Some e \<and> en_key e = key)"
  by (auto simp: entry_has_def split: option.splits)

lemma member_frame:
  assumes "member_ok W v c key s m"
    and "\<And>j e. mb_job m = Some j \<Longrightarrow> j < 6 \<Longrightarrow> co_entries c ! j = Some e \<Longrightarrow> Some j \<notin> set (co_cached c) \<Longrightarrow>
      co_entries c' ! j = Some e \<and> Some j \<notin> set (co_cached c')"
  shows "member_ok W v c' key s m"
  using assms by (cases "mb_job m") (auto simp: member_ok_def entry_has_Some)

lemma member_keeps: "member_ok W v c key s m \<Longrightarrow> keeps c c' \<Longrightarrow> member_ok W v c' key s m"
  by (erule member_frame) (simp add: keeps_def)

lemma waiting_keeps:
  "waiting_ok W keyof rt \<Longrightarrow> keeps (rt_state rt) c \<Longrightarrow> waiting_ok W keyof (rt\<lparr>rt_state := c\<rparr>)"
  using member_keeps by (fastforce simp: waiting_ok_def)

section \<open>Selecting an entry\<close>

lemma select_cached_Some:
  "select_cached c key cs = Some i \<Longrightarrow> Some i \<in> set cs \<and> entry_has c key i"
  by (induction c key cs rule: select_cached.induct) (auto split: if_splits)

lemma select_scan_Inl:
  "select_scan c key is free n = Inl i \<Longrightarrow> i \<in> set is \<and> Some i \<notin> set (co_cached c) \<and> entry_has c key i"
  by (induction c key "is" free n rule: select_scan.induct) (auto simp: entry_has_def split: if_splits option.splits)

lemma select_scan_Inr:
  "select_scan c key is free n = Inr (Some i, k) \<Longrightarrow>
     free = Some i \<or> (i \<in> set is \<and> Some i \<notin> set (co_cached c) \<and> co_entries c ! i = None)"
  by (induction c key "is" free n rule: select_scan.induct) (auto split: if_splits option.splits)

text \<open>A slot found for a new job is free of waiters and leaves the cache.\<close>

lemma two_list: "length xs = 2 \<Longrightarrow> \<exists>a b. xs = [a, b]"
  by (cases xs; cases "tl xs") simp_all

lemma select_slot_ok:
  assumes ok: "coordinator_ok cf pwd c" and slot: "select_slot c free = (c', Some i)"
    and free: "\<And>j. free = Some j \<Longrightarrow> j < 6 \<and> Some j \<notin> set (co_cached c) \<and> co_entries c ! j = None"
  shows "coordinator_ok cf pwd c' \<and> keeps c c' \<and> i < 6 \<and> Some i \<notin> set (co_cached c') \<and>
    (Some i \<in> set (co_cached c) \<or> co_entries c ! i = None) \<and> co_entries c' = co_entries c"
proof (cases free)
  case (Some j)
  with slot free[OF Some] ok show ?thesis by (auto simp: select_slot_def)
next
  case None
  obtain a b where ab: "co_cached c = [a, b]"
    using ok two_list[of "co_cached c"] by (auto simp: coordinator_ok_def)
  show ?thesis
    using ok slot None unfolding coordinator_ok_def keeps_def select_slot_def
    by (auto simp: ab Let_def split: if_splits option.splits)
qed

lemma select_insert_ok:
  assumes W: "words_ok cf" and ok: "coordinator_ok cf pwd c" and i: "i < 6" "Some i \<notin> set (co_cached c)"
    and key: "length (kk_first key) = 32" and pw: "password = pwd key"
  shows "coordinator_ok cf pwd (select_insert cf c i key password)"
proof -
  have "entry_ok cf pwd \<lparr>en_key = key, en_state = Computing (kdf_new cf (pwd key) (kk_first key) (kk_iterations key))\<rparr>"
    using kdf_at_new[OF W key] by (auto simp: entry_ok_def)
  then show ?thesis
    using ok i unfolding coordinator_ok_def select_insert_def pw
    by (auto simp: nth_list_update split: if_splits)
qed

lemma coordinator_length: "coordinator_ok cf pwd c \<Longrightarrow> length (co_entries c) = 6"
  by (simp add: coordinator_ok_def)

lemma select_ok:
  assumes W: "words_ok cf" and ok: "coordinator_ok cf pwd c" and key: "length (kk_first key) = 32"
    and pw: "password = None \<or> password = Some (pwd key)"
    and sel: "coordinator_select cf c key password = (c', index)"
  shows "coordinator_ok cf pwd c' \<and> keeps c c' \<and> (\<forall>i. index = Some i \<longrightarrow> i < 6 \<and> entry_has c' key i)"
proof (cases "select_cached c key (co_cached c)")
  case (Some i)
  with sel ok select_cached_Some[OF Some] show ?thesis by (auto simp: coordinator_select_def coordinator_ok_def)
next
  case nc: None
  show ?thesis
  proof (cases "select_scan c key [0..<6] None 0")
    case (Inl i)
    with sel nc ok select_scan_Inl[OF Inl] show ?thesis by (auto simp: coordinator_select_def)
  next
    case (Inr p)
    obtain free k where p: "p = (free, k)" by (cases p)
    have f: "\<And>j. free = Some j \<Longrightarrow> j < 6 \<and> Some j \<notin> set (co_cached c) \<and> co_entries c ! j = None"
      using select_scan_Inr[of c key "[0..<6]" None 0] Inr p by fastforce
    obtain c1 i1 where slot: "select_slot c free = (c1, i1)" by (cases "select_slot c free")
    show ?thesis
    proof (cases "password = None \<or> k = 4")
      case True
      then show ?thesis using sel nc Inr p ok by (auto simp: coordinator_select_def split: option.splits)
    next
      case False
      then have pw': "password = Some (pwd key)" using pw by blast
      show ?thesis
      proof (cases i1)
        case None
        then have "c1 = c\<lparr>co_cached := (co_cached c)[1 - (if co_second c then 1 else 0) := None]\<rparr> \<and>
            co_cached c ! (1 - (if co_second c then 1 else 0)) = None"
          using slot by (auto simp: select_slot_def Let_def split: option.splits)
        then have "c1 = c" using list_update_id[of "co_cached c" "1 - (if co_second c then 1 else 0)"] by simp
        then show ?thesis using sel nc Inr p ok slot None False pw' by (simp add: coordinator_select_def)
      next
        case (Some i)
        note s = select_slot_ok[OF ok slot[unfolded Some] f]
        have c': "c' = select_insert cf c1 i key (pwd key)" "index = Some i"
          using sel nc Inr p slot Some False pw' by (simp_all add: coordinator_select_def)
        have l: "length (co_entries c1) = 6" using s coordinator_length by blast
        have "keeps c c'"
          using s coordinator_length[OF ok] unfolding c' keeps_def select_insert_def by (auto simp: nth_list_update)
        moreover have "entry_has c' key i" using s l by (simp add: c' select_insert_def entry_has_Some)
        moreover have "coordinator_ok cf pwd c'"
          using select_insert_ok[OF W _ _ _ key] s by (simp add: c')
        ultimately show ?thesis using s c'(2) by simp
      qed
    qed
  qed
qed

section \<open>Caching and releasing\<close>

lemma cache_ok:
  assumes ok: "coordinator_ok cf pwd c" and i: "i < 6" "Some i \<notin> set (co_cached c)"
    and e: "co_entries c ! i = Some e" "\<not> is_computing (en_state e)"
  shows "coordinator_ok cf pwd (coordinator_cache c i)" and "co_entries (coordinator_cache c i) ! i = Some e"
    and "\<And>j e'. j < 6 \<Longrightarrow> j \<noteq> i \<Longrightarrow> co_entries c ! j = Some e' \<Longrightarrow> Some j \<notin> set (co_cached c) \<Longrightarrow>
      co_entries (coordinator_cache c i) ! j = Some e' \<and> Some j \<notin> set (co_cached (coordinator_cache c i))"
proof -
  obtain a b where ab: "co_cached c = [a, b]"
    using ok two_list[of "co_cached c"] by (auto simp: coordinator_ok_def)
  show "coordinator_ok cf pwd (coordinator_cache c i)"
    using ok i e unfolding coordinator_ok_def coordinator_cache_def
    by (auto simp: ab Let_def nth_list_update split: if_splits option.splits)
  show "co_entries (coordinator_cache c i) ! i = Some e"
    using i e by (auto simp: ab coordinator_cache_def Let_def nth_list_update split: option.splits)
  show "co_entries (coordinator_cache c i) ! j = Some e' \<and> Some j \<notin> set (co_cached (coordinator_cache c i))"
    if "j < 6" "j \<noteq> i" "co_entries c ! j = Some e'" "Some j \<notin> set (co_cached c)" for j e'
    using i that by (auto simp: ab coordinator_cache_def Let_def nth_list_update split: option.splits if_splits)
qed

lemma drop_entry_ok:
  "coordinator_ok cf pwd c \<Longrightarrow> i < 6 \<Longrightarrow> Some i \<notin> set (co_cached c) \<Longrightarrow>
     coordinator_ok cf pwd (c\<lparr>co_entries := (co_entries c)[i := None]\<rparr>)"
  unfolding coordinator_ok_def by (auto simp: nth_list_update split: if_splits)

text \<open>Releasing a ticket keeps the invariant and every entry that is not the released job's.\<close>

lemma release_ok:
  assumes L: "waiters_laws W" and ok: "runtime_ok cf pwd W keyof rt"
    and rel: "ticket_release W rt slot = (rt', next, remaining)"
  shows "runtime_ok cf pwd W keyof rt' \<and> wt_get W (rt_waiters rt') slot = None \<and>
    (\<forall>i e m. wt_get W (rt_waiters rt) slot = Some m \<and> co_entries (rt_state rt) ! i = Some e \<and>
       (mb_job m = None \<or> mb_job m = Some i \<and> \<not> is_computing (en_state e)) \<longrightarrow>
       co_entries (rt_state rt') ! i = Some e)"
proof (cases "wt_get W (rt_waiters rt) slot")
  case None
  with rel ok show ?thesis by (simp add: ticket_release_def)
next
  case (Some m)
  let ?v = "wt_take W (rt_waiters rt) slot" and ?c = "rt_state rt"
  note ws = waiters_simps[OF L]
  from ok have c: "coordinator_ok cf pwd ?c" and w: "waiting_ok W keyof rt" by (simp_all add: runtime_ok_def)
  have m: "member_ok W (rt_waiters rt) ?c (keyof slot) slot m" using w Some by (simp add: waiting_ok_def)
  have taken: "member_ok W ?v ?c (keyof s) s n \<and> s \<noteq> slot" if "wt_get W ?v s = Some n" for s n
  proof -
    from that have "s \<noteq> slot" "wt_get W (rt_waiters rt) s = Some n" by (auto simp: ws split: if_splits)
    then have "s \<noteq> slot \<and> member_ok W (rt_waiters rt) ?c (keyof s) s n" using w by (simp add: waiting_ok_def)
    then show ?thesis by (cases "mb_job n") (simp_all add: member_ok_def ws)
  qed
  then have keep: "runtime_ok cf pwd W keyof (rt\<lparr>rt_waiters := ?v\<rparr>)"
    using c by (simp add: runtime_ok_def waiting_ok_def)
  have get: "wt_get W ?v slot = None" by (simp add: ws)
  show ?thesis
  proof (cases "mb_job m")
    case None
    then show ?thesis using rel Some keep get by (auto simp: ticket_release_def Let_def)
  next
    case (Some i)
    note job = this
    from m job have i: "i < 6" "Some i \<notin> set (co_cached ?c)" and "entry_has ?c (keyof slot) i"
      by (simp_all add: member_ok_def)
    then obtain e where e: "co_entries ?c ! i = Some e" by (auto simp: entry_has_Some)
    show ?thesis
    proof (cases "runtime_front W ?v (Some i)")
      case (Some n)
      then show ?thesis using rel \<open>wt_get W (rt_waiters rt) slot = Some m\<close> job keep get
        by (auto simp: ticket_release_def Let_def)
    next
      case None
      let ?d = "if is_computing (en_state e) then ?c\<lparr>co_entries := (co_entries ?c)[i := None]\<rparr> else coordinator_cache ?c i"
      have r: "rt' = rt\<lparr>rt_waiters := ?v, rt_state := ?d\<rparr>"
        using rel \<open>wt_get W (rt_waiters rt) slot = Some m\<close> job None e by (auto simp: ticket_release_def Let_def)
      have "\<not> wt_in W ?v i s" for s using None ws(9)[of ?v i s] by (simp add: runtime_front_def job_lane_def)
      then have other: "mb_job n \<noteq> Some i" if "wt_get W ?v s = Some n" for s n
        using taken[OF that] by (auto simp: member_ok_def)
      have d: "coordinator_ok cf pwd ?d"
        using drop_entry_ok[OF c i] cache_ok(1)[OF c i e] by simp
      have frame: "co_entries ?d ! j = Some e' \<and> Some j \<notin> set (co_cached ?d)"
        if "j < 6" "j \<noteq> i" "co_entries ?c ! j = Some e'" "Some j \<notin> set (co_cached ?c)" for j e'
      proof (cases "is_computing (en_state e)")
        case False
        from cache_ok(3)[OF c i e this that] False show ?thesis by simp
      qed (use that in simp)
      have "member_ok W ?v ?d (keyof s) s n" if "wt_get W ?v s = Some n" for s n
      proof (rule member_frame[OF conjunct1[OF taken[OF that]]])
        fix j e'
        assume "mb_job n = Some j" "j < 6" "co_entries ?c ! j = Some e'" "Some j \<notin> set (co_cached ?c)"
        moreover from this other[OF that] have "j \<noteq> i" by blast
        ultimately show "co_entries ?d ! j = Some e' \<and> Some j \<notin> set (co_cached ?d)" by (intro frame)
      qed
      then have "runtime_ok cf pwd W keyof rt'" using d by (simp add: r runtime_ok_def waiting_ok_def)
      moreover have "\<not> is_computing (en_state e) \<Longrightarrow> co_entries ?d ! i = Some e"
        using cache_ok(2)[OF c i e] by simp
      moreover have "wt_get W (rt_waiters rt') slot = None" using get by (simp add: r)
      moreover have "co_entries (rt_state rt') = co_entries ?d" by (simp add: r)
      ultimately show ?thesis
        unfolding \<open>wt_get W (rt_waiters rt) slot = Some m\<close> using job e by auto
    qed
  qed
qed

section \<open>Polling\<close>

lemma waiting_push:
  assumes L: "waiters_laws W" and w: "waiting_ok W keyof rt" and i: "i < 6"
    and e: "entry_has (rt_state rt) (keyof slot) i" and nc: "Some i \<notin> set (co_cached (rt_state rt))"
  shows "waiting_ok W keyof (rt\<lparr>rt_waiters := wt_push W (rt_waiters rt) slot i (m\<lparr>mb_job := Some i\<rparr>)\<rparr>)"
proof -
  note ws = waiters_simps[OF L]
  let ?v = "wt_push W (rt_waiters rt) slot i (m\<lparr>mb_job := Some i\<rparr>)"
  have "member_ok W ?v (rt_state rt) (keyof s) s n" if n: "wt_get W ?v s = Some n" for s n
  proof (cases "s = slot")
    case True
    with n have "n = m\<lparr>mb_job := Some i\<rparr>" by (simp add: ws)
    then show ?thesis using True i e nc by (simp add: member_ok_def ws)
  next
    case False
    with n have "member_ok W (rt_waiters rt) (rt_state rt) (keyof s) s n"
      using w by (simp add: ws waiting_ok_def)
    then show ?thesis using False by (cases "mb_job n") (simp_all add: member_ok_def ws)
  qed
  then show ?thesis by (simp add: waiting_ok_def)
qed

lemma waiting_set:
  assumes L: "waiters_laws W" and w: "waiting_ok W keyof rt"
    and m: "wt_get W (rt_waiters rt) slot = Some m" "mb_job m = None"
  shows "waiting_ok W keyof (rt\<lparr>rt_waiters := wt_set W (rt_waiters rt) slot 6\<rparr>)"
proof -
  note ws = waiters_simps[OF L]
  let ?v = "wt_set W (rt_waiters rt) slot 6"
  have "member_ok W ?v (rt_state rt) (keyof s) s n" if n: "wt_get W ?v s = Some n" for s n
  proof -
    from n have n': "wt_get W (rt_waiters rt) s = Some n" by (simp add: ws)
    then have "member_ok W (rt_waiters rt) (rt_state rt) (keyof s) s n" using w by (simp add: waiting_ok_def)
    moreover have "mb_job n = None" if "s = slot" using n' m that by simp
    ultimately show ?thesis using m by (cases "mb_job n") (auto simp: member_ok_def ws)
  qed
  then show ?thesis by (simp add: waiting_ok_def)
qed

text \<open>Replacing an uncached entry by one of the same key that is right keeps the invariant.\<close>

lemma entry_update_ok:
  assumes ok: "runtime_ok cf pwd W keyof rt" and i: "i < 6" "Some i \<notin> set (co_cached (rt_state rt))"
    and e: "entry_has (rt_state rt) (en_key e) i" "entry_ok cf pwd e"
  shows "runtime_ok cf pwd W keyof (rt\<lparr>rt_state := (rt_state rt)\<lparr>co_entries := (co_entries (rt_state rt))[i := Some e]\<rparr>\<rparr>)"
proof -
  let ?c = "rt_state rt" and ?d = "(rt_state rt)\<lparr>co_entries := (co_entries (rt_state rt))[i := Some e]\<rparr>"
  have c: "coordinator_ok cf pwd ?c" and w: "waiting_ok W keyof rt" using ok by (simp_all add: runtime_ok_def)
  note l = coordinator_length[OF c]
  have "coordinator_ok cf pwd ?d"
    using c i e unfolding coordinator_ok_def by (auto simp: nth_list_update)
  moreover have "member_ok W v ?d key s m" if "member_ok W v ?c key s m" for v key s m
  proof -
    have "entry_has ?d key j" if "entry_has ?c key j" for j
      using that l i e(1) by (cases "j = i") (auto simp: entry_has_Some)
    with that show ?thesis by (cases "mb_job m") (simp_all add: member_ok_def)
  qed
  ultimately show ?thesis using w by (simp add: runtime_ok_def waiting_ok_def)
qed

lemma turn_ok:
  assumes W: "words_ok cf" and L: "waiters_laws W" and ok: "runtime_ok cf pwd W keyof rt"
    and m: "wt_get W (rt_waiters rt) slot = Some m" "mb_job m = None \<or> mb_job m = Some i"
    and e: "i < 6" "co_entries (rt_state rt) ! i = Some e" "en_state e = Computing k" "en_key e = keyof slot"
    and turn: "ticket_turn cf W rt slot m i (en_key e) k = (rt', woken, completed)"
  shows "runtime_ok cf pwd W keyof rt' \<and> (\<exists>m'. wt_get W (rt_waiters rt') slot = Some m' \<and> mb_job m' = Some i) \<and>
    (completed \<longrightarrow> (\<exists>ks. co_entries (rt_state rt') ! i =
       Some \<lparr>en_key = keyof slot, en_state = Ready ks\<rparr>))"
proof -
  note ws = waiters_simps[OF L]
  from ok have c: "coordinator_ok cf pwd (rt_state rt)" and w: "waiting_ok W keyof rt" by (simp_all add: runtime_ok_def)
  have nc: "Some i \<notin> set (co_cached (rt_state rt))"
    using c e by (auto simp: coordinator_ok_def is_computing_def)
  have has: "entry_has (rt_state rt) (keyof slot) i" using e by (simp add: entry_has_Some)
  let ?v = "if mb_job m = None then wt_push W (rt_waiters rt) slot i (m\<lparr>mb_job := Some i\<rparr>) else rt_waiters rt"
  let ?rt = "rt\<lparr>rt_waiters := ?v\<rparr>"
  have ok': "runtime_ok cf pwd W keyof ?rt"
    using ok c waiting_push[OF L w e(1) has nc, of m] by (simp add: runtime_ok_def)
  have get: "\<exists>m'. wt_get W ?v slot = Some m' \<and> mb_job m' = Some i" using m by (auto simp: ws)
  have entry: "entry_ok cf pwd e" using c e(1,2) unfolding coordinator_ok_def by blast
  obtain n where at: "kdf_at cf (pwd (keyof slot)) (kk_first (keyof slot)) (kk_iterations (keyof slot) - 1) n k"
    using entry by (auto simp: entry_ok_def e)
  note adv = kdf_advance_at[OF W at]
  obtain k' out where a: "kdf_advance cf k = (k', out)" by (cases "kdf_advance cf k")
  note upd = entry_update_ok[OF ok' e(1), simplified, OF nc]
  show ?thesis
  proof (cases "runtime_front W ?v (Some i) \<noteq> Some (mb_owner m)")
    case True
    then have "rt' = ?rt \<and> \<not> completed"
      using turn by (auto simp: ticket_turn_def Let_def split: if_splits)
    then show ?thesis using ok' get by simp
  next
    case front: False
    show ?thesis
    proof (cases out)
      case None
      let ?e = "\<lparr>en_key = keyof slot, en_state = Computing k'\<rparr>"
      have r: "rt' = ?rt\<lparr>rt_state := (rt_state rt)\<lparr>co_entries := (co_entries (rt_state rt))[i := Some ?e]\<rparr>\<rparr> \<and> \<not> completed"
        using turn front None a e(4) by (auto simp: ticket_turn_def Let_def split: if_splits)
      have "entry_ok cf pwd ?e" using adv(1) a by (auto simp: entry_ok_def)
      with upd[of ?e] has r get show ?thesis by simp
    next
      case (Some salted)
      then have s: "salted = key_salted cf pwd (keyof slot)" using adv(2) a by (simp split: if_splits)
      let ?ks = "scram_keys cf salted"
      let ?e = "\<lparr>en_key = keyof slot, en_state = Ready ?ks\<rparr>"
      have ks: "keys_write cf (cf sha_iv (ipad cf salted)) (cf sha_iv (opad cf salted)) = ?ks"
        by (simp add: keys_write_ref[OF W] scram_keys_def)
      have r: "rt' = ?rt\<lparr>rt_state := (rt_state rt)\<lparr>co_entries := (co_entries (rt_state rt))[i := Some ?e]\<rparr>\<rparr>"
        using turn front Some a e(4)
        by (auto simp: ticket_turn_def Let_def hmac_states_eq[OF W] ks split: if_splits)
      have "entry_ok cf pwd ?e" using s by (simp add: entry_ok_def)
      with upd[of ?e] has r get e(1) coordinator_length[OF c] show ?thesis by auto
    qed
  qed
qed

lemma ready_ok:
  assumes L: "waiters_laws W" and ok: "runtime_ok cf pwd W keyof rt"
    and m: "wt_get W (rt_waiters rt) slot = Some m" "mb_job m = None \<or> mb_job m = Some i"
    and e: "i < 6" "co_entries (rt_state rt) ! i = Some e" "en_state e = Ready ks"
    and r: "ticket_ready W rt slot i completed = (rt', woken, result)"
  shows "runtime_ok cf pwd W keyof rt' \<and> wt_get W (rt_waiters rt') slot = None \<and>
    result = Keys (scram_keys cf (key_salted cf pwd (en_key e)))"
proof -
  obtain rt1 next1 rem where rel: "ticket_release W rt slot = (rt1, next1, rem)" by (cases "ticket_release W rt slot") auto
  have rt': "rt' = rt1" using r rel by (simp add: ticket_ready_def Let_def)
  have "\<not> is_computing (en_state e)" using e by (simp add: is_computing_def)
  with release_ok[OF L ok rel] m e have
    1: "runtime_ok cf pwd W keyof rt1" "wt_get W (rt_waiters rt1) slot = None" "co_entries (rt_state rt1) ! i = Some e"
    by blast+
  have "ks = scram_keys cf (key_salted cf pwd (en_key e))"
    using ok e by (auto simp: runtime_ok_def coordinator_ok_def entry_ok_def)
  moreover have "result = Keys ks" using r rel 1 e by (simp add: ticket_ready_def Let_def)
  ultimately show ?thesis using 1 rt' by simp
qed

text \<open>A poll goes on with the ticket's own job, or with the entry the coordinator selects.\<close>

lemma poll_ok:
  assumes W: "words_ok cf" and L: "waiters_laws W" and ok: "runtime_ok cf pwd W keyof rt"
    and key: "length (kk_first (keyof slot)) = 32"
    and poll: "ticket_poll cf W rt slot (keyof slot) (pwd (keyof slot)) = (rt', woken, result)"
  shows "runtime_ok cf pwd W keyof rt' \<and>
    (result = Pending \<or> result = Keys (scram_keys cf (key_salted cf pwd (keyof slot))))"
proof (cases "wt_get W (rt_waiters rt) slot")
  case None
  with poll ok show ?thesis by (simp add: ticket_poll_def)
next
  case (Some m)
  note m = this
  from ok have c: "coordinator_ok cf pwd (rt_state rt)" and w: "waiting_ok W keyof rt" by (simp_all add: runtime_ok_def)
  let ?adm = "if runtime_front W (rt_waiters rt) None = None \<or> runtime_front W (rt_waiters rt) None = Some (mb_owner m)
    then Some (pwd (keyof slot)) else None"
  obtain c1 index where sel: "(case mb_job m of Some i \<Rightarrow> (rt_state rt, Some i)
      | None \<Rightarrow> coordinator_select cf (rt_state rt) (keyof slot) ?adm) = (c1, index)"
    by (metis surj_pair)
  have "coordinator_ok cf pwd c1 \<and> keeps (rt_state rt) c1 \<and>
      (\<forall>i. index = Some i \<longrightarrow> i < 6 \<and> entry_has c1 (keyof slot) i \<and> (mb_job m = None \<or> mb_job m = Some i))"
  proof (cases "mb_job m")
    case None
    have adm: "?adm = None \<or> ?adm = Some (pwd (keyof slot))" by simp
    from sel None have "coordinator_select cf (rt_state rt) (keyof slot) ?adm = (c1, index)" by simp
    from select_ok[OF W c key adm this] None show ?thesis by blast
  next
    case (Some i)
    have "member_ok W (rt_waiters rt) (rt_state rt) (keyof slot) slot m" using w m by (simp add: waiting_ok_def)
    with Some have "i < 6 \<and> entry_has (rt_state rt) (keyof slot) i" by (simp add: member_ok_def)
    with sel Some c show ?thesis by auto
  qed
  then have c1: "coordinator_ok cf pwd c1" and k: "keeps (rt_state rt) c1"
    and idx: "\<And>i. index = Some i \<Longrightarrow> i < 6 \<and> entry_has c1 (keyof slot) i \<and> (mb_job m = None \<or> mb_job m = Some i)"
    by auto
  let ?rt = "rt\<lparr>rt_state := c1\<rparr>"
  have ok1: "runtime_ok cf pwd W keyof ?rt" using c1 waiting_keeps[OF w k] by (simp add: runtime_ok_def)
  have m1: "wt_get W (rt_waiters ?rt) slot = Some m" using m by simp
  note start = poll[unfolded ticket_poll_def Let_def m, simplified, unfolded sel, simplified]
  show ?thesis
  proof (cases index)
    case None
    have "mb_job m = None" using sel None by (cases "mb_job m") auto
    then have "waiting_ok W keyof (?rt\<lparr>rt_waiters := wt_set W (rt_waiters rt) slot 6\<rparr>)"
      using waiting_set[OF L, of keyof ?rt slot] ok1 m by (simp add: runtime_ok_def)
    with None start ok1 show ?thesis by (auto simp: job_lane_def runtime_ok_def)
  next
    case (Some i)
    with idx have i: "i < 6" "mb_job m = None \<or> mb_job m = Some i" by auto
    from idx[OF Some] obtain e where e: "co_entries c1 ! i = Some e" "en_key e = keyof slot" by (auto simp: entry_has_Some)
    then have e1: "co_entries (rt_state ?rt) ! i = Some e" by simp
    show ?thesis
    proof (cases "en_state e")
      case (Ready ks)
      then have "ticket_ready W ?rt slot i False = (rt', woken, result)" using start Some e by simp
      from ready_ok[OF L ok1 m1 i(2) i(1) e1 Ready this] e show ?thesis by simp
    next
      case (Computing kd)
      obtain rt1 woken1 completed where turn: "ticket_turn cf W ?rt slot m i (en_key e) kd = (rt1, woken1, completed)"
        by (metis prod_cases3)
      note t = turn_ok[OF W L ok1 m1 i(2) i(1) e1 Computing e(2) turn]
      show ?thesis
      proof (cases completed)
        case False
        with start Some e Computing turn t show ?thesis by simp
      next
        case True
        then obtain m' ks where t': "runtime_ok cf pwd W keyof rt1" "wt_get W (rt_waiters rt1) slot = Some m'"
          "mb_job m' = None \<or> mb_job m' = Some i"
          "co_entries (rt_state rt1) ! i = Some \<lparr>en_key = keyof slot, en_state = Ready ks\<rparr>"
          using t by blast
        obtain rt2 woken2 r2 where r: "ticket_ready W rt1 slot i True = (rt2, woken2, r2)" by (metis prod_cases3)
        have "rt' = rt2 \<and> result = r2" using start Some e Computing turn True r by simp
        with ready_ok[OF L t'(1,2,3) i(1) t'(4) _ r] show ?thesis by simp
      qed
    qed
  qed
qed

text \<open>A ticket that is given up, and a new one.\<close>

lemma cancel_ok:
  "waiters_laws W \<Longrightarrow> runtime_ok cf pwd W keyof rt \<Longrightarrow> runtime_ok cf pwd W keyof (fst (ticket_cancel W rt slot))"
  using release_ok[of W cf pwd keyof rt slot]
  by (cases "ticket_release W rt slot") (auto simp: ticket_cancel_def)

lemma try_entry_ok:
  assumes L: "waiters_laws W" and ok: "runtime_ok cf pwd W keyof rt"
    and free: "wt_get W (rt_waiters rt) slot = None" and new: "try_entry W rt slot owner = Some rt'"
  shows "runtime_ok cf pwd W (keyof(slot := key)) rt'"
proof -
  note ws = waiters_simps[OF L]
  let ?v = "wt_write W (rt_waiters rt) slot \<lparr>mb_owner = owner, mb_job = None\<rparr>"
  have rt': "rt' = rt\<lparr>rt_waiters := ?v\<rparr>" using new by (simp add: try_entry_def split: if_splits)
  have "member_ok W ?v (rt_state rt) ((keyof(slot := key)) s) s n" if n: "wt_get W ?v s = Some n" for s n
  proof (cases "s = slot")
    case True
    with n free ws(10)[OF free] show ?thesis by (auto simp: ws member_ok_def)
  next
    case False
    with n free have "member_ok W (rt_waiters rt) (rt_state rt) (keyof s) s n"
      using ok by (simp add: ws runtime_ok_def waiting_ok_def)
    then show ?thesis using False free by (cases "mb_job n") (simp_all add: member_ok_def ws)
  qed
  then show ?thesis using ok by (simp add: rt' runtime_ok_def waiting_ok_def)
qed

lemma coordinator_default_ok: "coordinator_ok cf pwd coordinator_default"
  by (auto simp: coordinator_ok_def coordinator_default_def)

end
