(* ===== verification/Pg_Encode.thy ===== *)
theory Pg_Encode
  imports Pg_Wire
begin

text \<open>
  \<open>pg/src/protocol/encode/\<close>: the writer of PostgreSQL frontend messages, whose lengths are patched in
  after the body is written.  The buffer behind it (\<open>o3\<close>'s \<open>write::Spare\<close> and \<open>Edit\<close>) is outside the
  repository: its operations are the record \<open>spare_ops\<close>, and \<open>spare_laws\<close> states what they do.
\<close>

datatype encode_scope = ScopeFrame | ScopePreparation

record query_position =
  qp_group :: nat
  qp_query :: nat

datatype result_kind = KindCommand | KindRows

datatype (plugins only: code) encode_error =
    EnFrameLength nat
  | EnLengthOverflow encode_scope nat nat
  | EnValueLength nat
  | EnParseTypes nat
  | EnParameterFormats nat
  | EnResultFormats nat
  | EnParameterCount int nat
  | EnParameterValueCount nat nat
  | EnParameterOid nat nat nat
  | EnParameterEncoding nat nat nat
  | EnResultCount nat
  | EnResultShape result_kind nat
  | EnParameterFormatCount nat nat
  | EnResultFormatCount nat nat
  | EnParameterFormat nat nat
  | EnResultFormat nat nat
  | EnResultValueCount nat nat
  | EnResultEncoding nat nat nat
  | EnStatementNameNul nat
  | EnStatementNameEmpty
  | EnStatementNameReserved
  | EnStatementSqlNul nat
  | EnGroupCount nat
  | EnStatementCount nat nat
  | EnDuplicateStatement query_position query_position
  | EnPreparationSize nat nat
  | EnArrayElements nat
  | EnCapacity nat nat

text \<open>A spare region: appending bytes, its room and what it holds; an edit reserves a prefix and goes on in
  a region of its own, which \<open>commit\<close> joins to the first one behind the final prefix.\<close>

record 's spare_ops =
  sp_write :: "'s \<Rightarrow> bytes \<Rightarrow> (nat \<times> nat) + 's"
  sp_edit :: "'s \<Rightarrow> bytes \<Rightarrow> (nat \<times> nat) + 's"
  sp_commit :: "'s \<Rightarrow> bytes \<Rightarrow> 's \<Rightarrow> 's"
  sp_room :: "'s \<Rightarrow> nat"
  sp_content :: "'s \<Rightarrow> bytes"

definition spare_laws :: "'s spare_ops \<Rightarrow> bool" where
  "spare_laws W \<longleftrightarrow>
     (\<forall>s bs. if length bs \<le> sp_room W s then
          \<exists>s'. sp_write W s bs = Inr s' \<and> sp_room W s' = sp_room W s - length bs \<and> sp_content W s' = sp_content W s @ bs
        else \<exists>e. sp_write W s bs = Inl e) \<and>
     (\<forall>s bs. if length bs \<le> sp_room W s then
          \<exists>s'. sp_edit W s bs = Inr s' \<and> sp_room W s' = sp_room W s - length bs \<and> sp_content W s' = []
        else \<exists>e. sp_edit W s bs = Inl e) \<and>
     (\<forall>s bs s'. sp_content W (sp_commit W s bs s') = sp_content W s @ bs @ sp_content W s' \<and>
        sp_room W (sp_commit W s bs s') = sp_room W s')"

text \<open>An instance: the room left and the bytes written.\<close>

definition list_spare :: "(nat \<times> bytes) spare_ops" where
  "list_spare =
     \<lparr>sp_write = (\<lambda>(r, c) bs. if length bs \<le> r then Inr (r - length bs, c @ bs) else Inl (length bs, r)),
      sp_edit = (\<lambda>(r, c) bs. if length bs \<le> r then Inr (r - length bs, []) else Inl (length bs, r)),
      sp_commit = (\<lambda>(r, c) bs (r', c'). (r', c @ bs @ c')),
      sp_room = fst, sp_content = snd\<rparr>"

lemma list_spare_laws: "spare_laws list_spare"
  by (auto simp: spare_laws_def list_spare_def)

type_synonym ('s, 'a) emitter = "'s \<Rightarrow> encode_error + 's \<times> 'a"

definition en_capacity :: "nat \<times> nat \<Rightarrow> encode_error" where
  "en_capacity e = EnCapacity (fst e) (snd e)"

definition wire_length :: "nat \<Rightarrow> encode_error + nat" where
  "wire_length v = (if i32_max < v then Inl (EnFrameLength v) else Inr v)"

text \<open>Sequencing of writer calls with \<open>?\<close>.\<close>

definition andthen :: "('s, 'a) emitter \<Rightarrow> ('a \<Rightarrow> ('s, 'b) emitter) \<Rightarrow> ('s, 'b) emitter" where
  "andthen f g s = bindr (f s) (\<lambda>(s, a). g a s)"

definition wr_extend :: "'s spare_ops \<Rightarrow> bytes \<Rightarrow> ('s, unit) emitter" where
  "wr_extend W bs s = bindr (map_err en_capacity (sp_write W s bs)) (\<lambda>s. Inr (s, ()))"

definition wr_push :: "'s spare_ops \<Rightarrow> byte \<Rightarrow> ('s, unit) emitter" where
  "wr_push W b = wr_extend W [b]"

definition wr_slices :: "'s spare_ops \<Rightarrow> bytes list \<Rightarrow> ('s, unit) emitter" where
  "wr_slices W slices = wr_extend W (concat slices)"

definition write_cstr :: "'s spare_ops \<Rightarrow> bytes \<Rightarrow> ('s, unit) emitter" where
  "write_cstr W v = wr_slices W [v, [0]]"

text \<open>\<open>str::split\<close> at a byte.\<close>

fun split_on :: "byte \<Rightarrow> bytes \<Rightarrow> bytes list" where
  "split_on c [] = [[]]"
| "split_on c (b # bs) =
     (if b = c then [] # split_on c bs
      else case split_on c bs of [] \<Rightarrow> [[b]] | p # ps \<Rightarrow> (b # p) # ps)"

fun write_parts :: "'s spare_ops \<Rightarrow> bytes list \<Rightarrow> ('s, unit) emitter" where
  "write_parts W [] s = Inr (s, ())"
| "write_parts W (p # ps) s =
     andthen (wr_extend W [34, 34]) (\<lambda>_. andthen (wr_extend W p) (\<lambda>_. write_parts W ps)) s"

definition write_search_path :: "'s spare_ops \<Rightarrow> bytes \<Rightarrow> ('s, unit) emitter" where
  "write_search_path W schema =
     andthen (wr_push W 34) (\<lambda>_.
     andthen (case split_on 34 schema of
                [] \<Rightarrow> (\<lambda>s. Inr (s, ()))
              | first # parts \<Rightarrow> andthen (wr_extend W first) (\<lambda>_. write_parts W parts)) (\<lambda>_.
     andthen (wr_extend W (ascii ''\",public'')) (\<lambda>_.
     wr_push W 0)))"

definition wr_patch :: "'s spare_ops \<Rightarrow> bool \<Rightarrow> ('s, 'a) emitter \<Rightarrow> ('s, 'a) emitter" where
  "wr_patch W header write s =
     bindr (map_err en_capacity (sp_edit W s [0, 0, 0, 0])) (\<lambda>edit.
     bindr (write edit) (\<lambda>(edit, value).
     let n = length (sp_content W edit); n = (if header then n + 4 else n) in
     bindr (wire_length n) (\<lambda>n. Inr (sp_commit W s (be32 n) edit, value))))"

definition wr_u32 :: "'s spare_ops \<Rightarrow> nat \<Rightarrow> ('s, unit) emitter" where
  "wr_u32 W v = wr_extend W (decimal v)"

definition wr_option :: "'a option \<Rightarrow> ('a \<Rightarrow> ('s, unit) emitter) \<Rightarrow> ('s, unit) emitter" where
  "wr_option v f s = (case v of None \<Rightarrow> Inr (s, ()) | Some a \<Rightarrow> f a s)"

definition wr_startup ::
    "'s spare_ops \<Rightarrow> bytes \<Rightarrow> bytes \<Rightarrow> bytes \<Rightarrow> bytes option \<Rightarrow> nat \<Rightarrow> ('s, unit) emitter" where
  "wr_startup W user database app schema timeout =
     wr_patch W True (
       andthen (wr_extend W (be32 196608)) (\<lambda>_.
       andthen (write_cstr W (ascii ''user'')) (\<lambda>_.
       andthen (write_cstr W user) (\<lambda>_.
       andthen (write_cstr W (ascii ''database'')) (\<lambda>_.
       andthen (write_cstr W database) (\<lambda>_.
       andthen (write_cstr W (ascii ''application_name'')) (\<lambda>_.
       andthen (write_cstr W app) (\<lambda>_.
       andthen (write_cstr W (ascii ''client_encoding'')) (\<lambda>_.
       andthen (write_cstr W (ascii ''UTF8'')) (\<lambda>_.
       andthen (wr_option (if 0 < timeout then Some timeout else None) (\<lambda>timeout.
         andthen (write_cstr W (ascii ''statement_timeout'')) (\<lambda>_.
         andthen (wr_u32 W timeout) (\<lambda>_. wr_push W 0)))) (\<lambda>_.
       andthen (wr_option schema (\<lambda>schema.
         andthen (write_cstr W (ascii ''search_path'')) (\<lambda>_. write_search_path W schema))) (\<lambda>_.
       wr_push W 0))))))))))))"

definition sync_message :: bytes where
  "sync_message = [fe_sync, 0, 0, 0, 4]"

definition copy_done_sync :: bytes where
  "copy_done_sync = [fe_copy_done, 0, 0, 0, 4] @ sync_message"

definition wr_sync :: "'s spare_ops \<Rightarrow> ('s, unit) emitter" where
  "wr_sync W = wr_slices W [take 1 sync_message, drop 1 sync_message]"

definition wr_copy_data :: "'s spare_ops \<Rightarrow> bytes \<Rightarrow> ('s, unit) emitter" where
  "wr_copy_data W data =
     andthen (wr_push W fe_copy_data) (\<lambda>_ s.
       bindr (wire_length (length data + 4)) (\<lambda>n.
       andthen (wr_extend W (be32 n)) (\<lambda>_. wr_extend W data) s))"

definition wr_copy_done :: "'s spare_ops \<Rightarrow> ('s, unit) emitter" where
  "wr_copy_done W = wr_slices W [take 1 copy_done_sync, take 4 (drop 1 copy_done_sync)]"

definition wr_sasl_first :: "'s spare_ops \<Rightarrow> bytes \<Rightarrow> ('s, unit) emitter \<Rightarrow> ('s, unit) emitter" where
  "wr_sasl_first W name write =
     andthen (wr_push W fe_password) (\<lambda>_.
       wr_patch W True (andthen (write_cstr W name) (\<lambda>_. wr_patch W False write)))"

definition wr_sasl_final :: "'s spare_ops \<Rightarrow> ('s, 'a) emitter \<Rightarrow> ('s, 'a) emitter" where
  "wr_sasl_final W write = andthen (wr_push W fe_password) (\<lambda>_. wr_patch W True write)"

definition wr_parse_with :: "'s spare_ops \<Rightarrow> ('s, unit) emitter \<Rightarrow> ('s, unit) emitter" where
  "wr_parse_with W write =
     andthen (wr_push W fe_parse) (\<lambda>_.
       wr_patch W True (
         andthen (wr_push W 0) (\<lambda>_.
         andthen write (\<lambda>_.
         andthen (wr_push W 0) (\<lambda>_.
         wr_extend W (be16 0))))))"

fun wr_format_list :: "'s spare_ops \<Rightarrow> nat list \<Rightarrow> ('s, unit) emitter" where
  "wr_format_list W [] s = Inr (s, ())"
| "wr_format_list W (f # fs) s = andthen (wr_extend W (be16 f)) (\<lambda>_. wr_format_list W fs) s"

definition wr_formats :: "'s spare_ops \<Rightarrow> nat list \<Rightarrow> ('s, unit) emitter" where
  "wr_formats W formats = andthen (wr_extend W (be16 (length formats mod 65536))) (\<lambda>_. wr_format_list W formats)"

definition wr_bind ::
    "'s spare_ops \<Rightarrow> bytes \<Rightarrow> nat list \<Rightarrow> int \<Rightarrow> nat list \<Rightarrow> ('s, 'a) emitter \<Rightarrow> ('s, 'a) emitter" where
  "wr_bind W name formats params results write =
     andthen (wr_push W fe_bind) (\<lambda>_.
       wr_patch W True (
         andthen (wr_push W 0) (\<lambda>_.
         andthen (write_cstr W name) (\<lambda>_.
         andthen (wr_formats W formats) (\<lambda>_.
         andthen (wr_extend W (be16 (nat (params mod 65536)))) (\<lambda>_.
         andthen write (\<lambda>value.
         andthen (wr_formats W results) (\<lambda>_ s. Inr (s, value)))))))))"

definition wr_execute :: "'s spare_ops \<Rightarrow> ('s, unit) emitter" where
  "wr_execute W = wr_extend W [fe_execute, 0, 0, 0, 9, 0, 0, 0, 0, 0]"

section \<open>What an emitter writes\<close>

text \<open>\<open>f\<close> appends exactly \<open>t\<close> and returns \<open>a\<close> when there is room for \<open>t\<close>, and fails otherwise.\<close>

definition writes :: "'s spare_ops \<Rightarrow> ('s, 'a) emitter \<Rightarrow> bytes \<Rightarrow> 'a \<Rightarrow> bool" where
  "writes W f t a \<longleftrightarrow> (\<forall>s.
     if length t \<le> sp_room W s then
       \<exists>s'. f s = Inr (s', a) \<and> sp_room W s' = sp_room W s - length t \<and> sp_content W s' = sp_content W s @ t
     else \<exists>e. f s = Inl e)"

named_theorems emitters "what the emitters write"

lemma writes_room:
  "writes W f t a \<Longrightarrow> length t \<le> sp_room W s \<Longrightarrow>
     \<exists>s'. f s = Inr (s', a) \<and> sp_room W s' = sp_room W s - length t \<and> sp_content W s' = sp_content W s @ t"
  unfolding writes_def by metis

lemma writes_full: "writes W f t a \<Longrightarrow> sp_room W s < length t \<Longrightarrow> \<exists>e. f s = Inl e"
  unfolding writes_def by (metis not_less)

lemma writes_skip [emitters]: "writes W (\<lambda>s. Inr (s, a)) [] a"
  by (simp add: writes_def)

lemma writes_extend [emitters]:
  assumes "spare_laws W"
  shows "writes W (wr_extend W bs) bs ()"
  unfolding writes_def
proof
  fix s
  have "if length bs \<le> sp_room W s then
          \<exists>s'. sp_write W s bs = Inr s' \<and> sp_room W s' = sp_room W s - length bs \<and> sp_content W s' = sp_content W s @ bs
        else \<exists>e. sp_write W s bs = Inl e"
    using assms unfolding spare_laws_def by blast
  then show "if length bs \<le> sp_room W s then
       \<exists>s'. wr_extend W bs s = Inr (s', ()) \<and> sp_room W s' = sp_room W s - length bs \<and> sp_content W s' = sp_content W s @ bs
     else \<exists>e. wr_extend W bs s = Inl e"
    by (auto simp: wr_extend_def split: if_splits)
qed

lemma writes_andthen [emitters]:
  assumes f: "writes W f t a" and g: "writes W (g a) u b"
  shows "writes W (andthen f g) (t @ u) b"
  unfolding writes_def
proof
  fix s
  show "if length (t @ u) \<le> sp_room W s then
      \<exists>s'. andthen f g s = Inr (s', b) \<and> sp_room W s' = sp_room W s - length (t @ u) \<and> sp_content W s' = sp_content W s @ t @ u
    else \<exists>e. andthen f g s = Inl e"
  proof (cases "length t \<le> sp_room W s")
    case False
    then show ?thesis using writes_full[OF f, of s] by (auto simp: andthen_def)
  next
    case True
    from writes_room[OF f this] obtain s1 where s1: "f s = Inr (s1, a)"
      "sp_room W s1 = sp_room W s - length t" "sp_content W s1 = sp_content W s @ t" by blast
    show ?thesis
    proof (cases "length u \<le> sp_room W s1")
      case True
      then have "length (t @ u) \<le> sp_room W s" using s1 \<open>length t \<le> sp_room W s\<close> by simp
      with writes_room[OF g True] s1 show ?thesis by (auto simp: andthen_def)
    next
      case False
      then show ?thesis using writes_full[OF g, of s1] s1 \<open>length t \<le> sp_room W s\<close> by (auto simp: andthen_def)
    qed
  qed
qed

lemmas writes_seq = writes_andthen[where a = "()"]

lemma spare_edit:
  assumes "spare_laws W"
  shows "if length bs \<le> sp_room W s then
      \<exists>s'. sp_edit W s bs = Inr s' \<and> sp_room W s' = sp_room W s - length bs \<and> sp_content W s' = []
    else \<exists>e. sp_edit W s bs = Inl e"
  using assms unfolding spare_laws_def by blast

lemma spare_edit_Inr: "spare_laws W \<Longrightarrow> sp_edit W s bs = Inr s' \<Longrightarrow> sp_content W s' = []"
  using spare_edit[of W bs s] by (auto split: if_splits)

lemma writes_patch [emitters]:
  assumes L: "spare_laws W" and f: "writes W f t a" and n: "length t + (if header then 4 else 0) \<le> i32_max"
  shows "writes W (wr_patch W header f) (be32 (length t + (if header then 4 else 0)) @ t) a"
  unfolding writes_def
proof
  fix s
  let ?n = "length t + (if header then 4 else 0)"
  show "if length (be32 ?n @ t) \<le> sp_room W s then
      \<exists>s'. wr_patch W header f s = Inr (s', a) \<and> sp_room W s' = sp_room W s - length (be32 ?n @ t) \<and>
        sp_content W s' = sp_content W s @ be32 ?n @ t
    else \<exists>e. wr_patch W header f s = Inl e"
  proof (cases "4 \<le> sp_room W s")
    case False
    then have "\<exists>e. sp_edit W s [0, 0, 0, 0] = Inl e" using spare_edit[OF L, of "[0, 0, 0, 0]" s] by simp
    with False show ?thesis by (auto simp: wr_patch_def)
  next
    case True
    then obtain e1 where e1: "sp_edit W s [0, 0, 0, 0] = Inr e1" "sp_room W e1 = sp_room W s - 4" "sp_content W e1 = []"
      using spare_edit[OF L, of "[0, 0, 0, 0]" s] by auto
    show ?thesis
    proof (cases "length t \<le> sp_room W e1")
      case fits: True
      from writes_room[OF f this] obtain e2 where e2: "f e1 = Inr (e2, a)" "sp_room W e2 = sp_room W e1 - length t"
        "sp_content W e2 = t" using e1 by auto
      have "wire_length ?n = Inr ?n" using n by (simp add: wire_length_def)
      then have "wr_patch W header f s = Inr (sp_commit W s (be32 ?n) e2, a)"
        using e1 e2 by (simp add: wr_patch_def Let_def split: if_splits)
      then show ?thesis using L True fits e1 e2 by (auto simp: spare_laws_def)
    next
      case over: False
      with writes_full[OF f, of e1] e1 True show ?thesis by (auto simp: wr_patch_def)
    qed
  qed
qed

lemma writes_header [emitters]:
  "spare_laws W \<Longrightarrow> writes W f t a \<Longrightarrow> length t + 4 \<le> i32_max \<Longrightarrow>
     writes W (wr_patch W True f) (be32 (length t + 4) @ t) a"
  using writes_patch[of W f t a True] by simp

text \<open>A body that is too long for an \<open>i32\<close> is never written.\<close>

lemma patch_too_long:
  assumes L: "spare_laws W" and f: "writes W f t a" and n: "i32_max < length t + (if header then 4 else 0)"
  shows "\<exists>e. wr_patch W header f s = Inl e"
proof (cases "sp_edit W s [0, 0, 0, 0]")
  case (Inr e1)
  then have e1: "sp_content W e1 = []" using spare_edit_Inr[OF L] by blast
  show ?thesis
  proof (cases "length t \<le> sp_room W e1")
    case True
    from writes_room[OF f this] obtain e2 where "f e1 = Inr (e2, a)" "sp_content W e2 = t" using e1 by auto
    with Inr n show ?thesis by (auto simp: wr_patch_def wire_length_def Let_def)
  next
    case False
    with writes_full[OF f, of e1] Inr show ?thesis by (auto simp: wr_patch_def)
  qed
qed (simp add: wr_patch_def)

section \<open>The messages\<close>

definition cstr :: "bytes \<Rightarrow> bytes" where
  "cstr v = v @ [0]"

text \<open>A typed message: tag, length of itself and the body, body.\<close>

definition message_text :: "byte \<Rightarrow> bytes \<Rightarrow> bytes" where
  "message_text tag body = tag # be32 (length body + 4) @ body"

lemma writes_push [emitters]: "spare_laws W \<Longrightarrow> writes W (wr_push W b) [b] ()"
  by (simp add: wr_push_def writes_extend)

lemma writes_cstr [emitters]: "spare_laws W \<Longrightarrow> writes W (write_cstr W v) (cstr v) ()"
  using writes_extend[of W "v @ [0]"] by (simp add: write_cstr_def wr_slices_def cstr_def)

lemma writes_u32 [emitters]: "spare_laws W \<Longrightarrow> writes W (wr_u32 W v) (decimal v) ()"
  by (simp add: wr_u32_def writes_extend)

lemma writes_option:
  "(\<And>a. v = Some a \<Longrightarrow> writes W (f a) (t a) ()) \<Longrightarrow>
     writes W (wr_option v f) (case v of None \<Rightarrow> [] | Some a \<Rightarrow> t a) ()"
  by (cases v) (auto simp: wr_option_def[abs_def] intro: writes_skip)

lemma writes_message:
  assumes "spare_laws W" and "writes W f body a" and "length body + 4 \<le> i32_max"
  shows "writes W (andthen (wr_push W tag) (\<lambda>_. wr_patch W True f)) (message_text tag body) a"
  using writes_andthen[OF writes_push[OF assms(1), of tag] writes_patch[OF assms(1,2), of True]] assms(3)
  by (simp add: message_text_def)

text \<open>The quoted identifier of \<open>search_path\<close>, its quotes doubled.\<close>

definition double_quotes :: "bytes \<Rightarrow> bytes" where
  "double_quotes v = concat (map (\<lambda>b. if b = 34 then [34, 34] else [b]) v)"

definition search_path_text :: "bytes \<Rightarrow> bytes" where
  "search_path_text schema = cstr (34 # double_quotes schema @ ascii ''\",public'')"

lemma split_on_nonempty [simp]: "split_on c bs \<noteq> []"
  by (induction bs) (auto split: list.splits)

lemma split_on_quotes:
  "split_on 34 v = p # ps \<Longrightarrow> p @ concat (map (\<lambda>q. [34, 34] @ q) ps) = double_quotes v"
proof (induction v arbitrary: p ps)
  case (Cons b v)
  obtain q qs where q: "split_on 34 v = q # qs" by (cases "split_on 34 v") auto
  have ih: "double_quotes v = q @ concat (map (\<lambda>q. [34, 34] @ q) qs)" using Cons.IH[OF q] by simp
  show ?case
  proof (cases "b = 34")
    case True
    then have "p = [] \<and> ps = q # qs" using Cons.prems q by simp
    then show ?thesis using True ih by (simp add: double_quotes_def)
  next
    case False
    then have "p = b # q \<and> ps = qs" using Cons.prems q by simp
    then show ?thesis using False ih by (simp add: double_quotes_def)
  qed
qed (simp add: double_quotes_def)

lemma writes_parts: "spare_laws W \<Longrightarrow> writes W (write_parts W ps) (concat (map (\<lambda>q. [34, 34] @ q) ps)) ()"
proof (induction ps)
  case Nil
  then show ?case using writes_skip[of W "()"] by simp
next
  case (Cons p ps)
  have "write_parts W (p # ps) = andthen (wr_extend W [34, 34]) (\<lambda>_. andthen (wr_extend W p) (\<lambda>_. write_parts W ps))"
    by (rule ext) simp
  moreover have "writes W (andthen (wr_extend W [34, 34]) (\<lambda>_. andthen (wr_extend W p) (\<lambda>_. write_parts W ps)))
      ([34, 34] @ p @ concat (map (\<lambda>q. [34, 34] @ q) ps)) ()"
    by (intro writes_seq writes_extend Cons)
  ultimately show ?case by simp
qed

lemma writes_search_path [emitters]:
  assumes L: "spare_laws W"
  shows "writes W (write_search_path W schema) (search_path_text schema) ()"
proof -
  obtain p ps where s: "split_on 34 schema = p # ps" by (cases "split_on 34 schema") auto
  have "writes W (write_search_path W schema)
      ([34] @ (p @ concat (map (\<lambda>q. [34, 34] @ q) ps)) @ ascii ''\",public'' @ [0]) ()"
    unfolding write_search_path_def s list.case
    by (intro writes_seq writes_push writes_extend writes_parts L)
  then show ?thesis unfolding split_on_quotes[OF s] by (simp add: search_path_text_def cstr_def)
qed

definition startup_params :: "bytes \<Rightarrow> bytes \<Rightarrow> bytes \<Rightarrow> bytes option \<Rightarrow> nat \<Rightarrow> (bytes \<times> bytes) list" where
  "startup_params user database app schema timeout =
     [(ascii ''user'', user), (ascii ''database'', database), (ascii ''application_name'', app),
      (ascii ''client_encoding'', ascii ''UTF8'')] @
     (if 0 < timeout then [(ascii ''statement_timeout'', decimal timeout)] else []) @
     (case schema of None \<Rightarrow> [] | Some s \<Rightarrow> [(ascii ''search_path'', 34 # double_quotes s @ ascii ''\",public'')])"

definition startup_body :: "(bytes \<times> bytes) list \<Rightarrow> bytes" where
  "startup_body params = be32 196608 @ concat (map (\<lambda>(k, v). cstr k @ cstr v) params) @ [0]"

lemma writes_startup:
  assumes L: "spare_laws W" and n: "length (startup_body (startup_params user database app schema timeout)) + 4 \<le> i32_max"
  shows "writes W (wr_startup W user database app schema timeout)
    (be32 (length (startup_body (startup_params user database app schema timeout)) + 4) @
     startup_body (startup_params user database app schema timeout)) ()"
proof -
  let ?t = "case if 0 < timeout then Some timeout else None of None \<Rightarrow> []
    | Some timeout \<Rightarrow> cstr (ascii ''statement_timeout'') @ decimal timeout @ [0]"
  let ?s = "case schema of None \<Rightarrow> [] | Some s \<Rightarrow> cstr (ascii ''search_path'') @ search_path_text s"
  have b: "startup_body (startup_params user database app schema timeout) =
      be32 196608 @ cstr (ascii ''user'') @ cstr user @ cstr (ascii ''database'') @ cstr database @
      cstr (ascii ''application_name'') @ cstr app @ cstr (ascii ''client_encoding'') @ cstr (ascii ''UTF8'') @
      ?t @ ?s @ [0]"
    by (simp add: startup_body_def startup_params_def search_path_text_def cstr_def split: option.split)
  show ?thesis
    unfolding wr_startup_def b
    by (intro writes_header writes_seq writes_extend writes_cstr writes_push
        writes_option writes_u32 writes_search_path L n[unfolded b])
qed

text \<open>What a server reads from a startup message: pairs of strings up to an empty key.\<close>

definition read_cstr :: "bytes \<Rightarrow> (bytes \<times> bytes) option" where
  "read_cstr bs = split_byte 0 bs"

function read_params :: "bytes \<Rightarrow> (bytes \<times> bytes) list option" where
  "read_params bs =
     (case read_cstr bs of
        None \<Rightarrow> None
      | Some (k, bs1) \<Rightarrow>
          if k = [] then (if bs1 = [] then Some [] else None)
          else case read_cstr bs1 of
                 None \<Rightarrow> None
               | Some (v, bs2) \<Rightarrow> map_option ((#) (k, v)) (read_params bs2))"
  by pat_completeness auto
termination
  by (relation "measure length") (auto simp: read_cstr_def split_byte_Some)

declare read_params.simps [simp del]

lemma read_cstr_cstr [simp]: "0 \<notin> set v \<Longrightarrow> read_cstr (cstr v @ bs) = Some (v, bs)"
  by (simp add: read_cstr_def split_byte_Some cstr_def)

lemma read_params_concat:
  "\<forall>(k, v) \<in> set ps. k \<noteq> [] \<and> 0 \<notin> set k \<and> 0 \<notin> set v \<Longrightarrow>
     read_params (concat (map (\<lambda>(k, v). cstr k @ cstr v) ps) @ [0]) = Some ps"
proof (induction ps)
  case Nil
  have "read_cstr [0] = Some ([], [])" using read_cstr_cstr[of "[]" "[]"] by (simp add: cstr_def)
  then show ?case by (simp add: read_params.simps)
next
  case (Cons p ps)
  obtain k v where p: "p = (k, v)" by (cases p)
  let ?r = "concat (map (\<lambda>(k, v). cstr k @ cstr v) ps) @ [0]"
  have "read_cstr (cstr k @ cstr v @ ?r) = Some (k, cstr v @ ?r)" "read_cstr (cstr v @ ?r) = Some (v, ?r)"
    using Cons.prems by (simp_all add: p)
  with Cons show ?case by (subst read_params.simps) (simp add: p)
qed

lemma double_quotes_nul: "0 \<in> set (double_quotes v) \<longleftrightarrow> 0 \<in> set v"
  by (auto simp: double_quotes_def split: if_splits)

lemma ascii_nul: "0 \<notin> set (ascii ''user'')" "0 \<notin> set (ascii ''database'')" "0 \<notin> set (ascii ''application_name'')"
  "0 \<notin> set (ascii ''client_encoding'')" "0 \<notin> set (ascii ''UTF8'')" "0 \<notin> set (ascii ''statement_timeout'')"
  "0 \<notin> set (ascii ''search_path'')" "0 \<notin> set (ascii ''\",public'')"
  by (simp_all add: ascii_def)

lemma ascii_Nil [simp]: "ascii s = [] \<longleftrightarrow> s = []"
  by (simp add: ascii_def)

lemma decimal_nul: "0 \<notin> set (decimal n)"
  using decimal_digits[of 0 n] by auto

lemma startup_reads_back:
  assumes "0 \<notin> set user" and "0 \<notin> set database" and "0 \<notin> set app" and "\<And>s. schema = Some s \<Longrightarrow> 0 \<notin> set s"
  shows "read_params (drop 4 (startup_body (startup_params user database app schema timeout))) =
    Some (startup_params user database app schema timeout)"
proof -
  have "\<forall>(k, v) \<in> set (startup_params user database app schema timeout). k \<noteq> [] \<and> 0 \<notin> set k \<and> 0 \<notin> set v"
    using assms by (auto simp: startup_params_def ascii_nul decimal_nul double_quotes_nul split: option.splits)
  from read_params_concat[OF this] show ?thesis by (simp add: startup_body_def)
qed

section \<open>Extended query messages\<close>

definition formats_text :: "nat list \<Rightarrow> bytes" where
  "formats_text fs = be16 (length fs mod 65536) @ concat (map be16 fs)"

lemma writes_format_list: "spare_laws W \<Longrightarrow> writes W (wr_format_list W fs) (concat (map be16 fs)) ()"
proof (induction fs)
  case Nil
  then show ?case using writes_skip[of W "()"] by simp
next
  case (Cons f fs)
  have "wr_format_list W (f # fs) = andthen (wr_extend W (be16 f)) (\<lambda>_. wr_format_list W fs)" by (rule ext) simp
  moreover have "writes W (andthen (wr_extend W (be16 f)) (\<lambda>_. wr_format_list W fs)) (be16 f @ concat (map be16 fs)) ()"
    by (intro writes_seq writes_extend Cons)
  ultimately show ?case by simp
qed

lemma writes_formats [emitters]: "spare_laws W \<Longrightarrow> writes W (wr_formats W fs) (formats_text fs) ()"
  unfolding wr_formats_def formats_text_def by (intro writes_seq writes_extend writes_format_list)

definition bind_body :: "bytes \<Rightarrow> nat list \<Rightarrow> int \<Rightarrow> nat list \<Rightarrow> bytes \<Rightarrow> bytes" where
  "bind_body name formats params results values =
     0 # cstr name @ formats_text formats @ be16 (nat (params mod 65536)) @ values @ formats_text results"

lemma writes_bind:
  assumes L: "spare_laws W" and f: "writes W write values a" and n: "length (bind_body name formats params results values) + 4 \<le> i32_max"
  shows "writes W (wr_bind W name formats params results write)
    (message_text fe_bind (bind_body name formats params results values)) a"
proof -
  have "writes W (andthen write (\<lambda>value. andthen (wr_formats W results) (\<lambda>_ s. Inr (s, value)))) (values @ formats_text results @ []) a"
    by (rule writes_andthen[OF f]) (intro writes_seq writes_formats writes_skip L)
  then have "writes W (andthen (wr_push W 0) (\<lambda>_. andthen (write_cstr W name) (\<lambda>_. andthen (wr_formats W formats) (\<lambda>_.
      andthen (wr_extend W (be16 (nat (params mod 65536)))) (\<lambda>_.
      andthen write (\<lambda>value. andthen (wr_formats W results) (\<lambda>_ s. Inr (s, value))))))))
      ([0] @ cstr name @ formats_text formats @ be16 (nat (params mod 65536)) @ values @ formats_text results @ []) a"
    by (intro writes_seq writes_push writes_cstr writes_formats writes_extend L)
  then show ?thesis
    unfolding wr_bind_def using n by (intro writes_message L) (simp_all add: bind_body_def)
qed

definition parse_body :: "bytes \<Rightarrow> bytes" where
  "parse_body sql = 0 # sql @ [0, 0, 0]"

lemma be_bytes_0 [simp]: "be_bytes k 0 = replicate k 0"
  by (induction k) (simp_all flip: replicate_append_same)

lemma writes_parse_with:
  assumes L: "spare_laws W" and f: "writes W write sql ()" and n: "length (parse_body sql) + 4 \<le> i32_max"
  shows "writes W (wr_parse_with W write) (message_text fe_parse (parse_body sql)) ()"
proof -
  have "writes W (andthen (wr_push W 0) (\<lambda>_. andthen write (\<lambda>_. andthen (wr_push W 0) (\<lambda>_. wr_extend W (be16 0)))))
      ([0] @ sql @ [0] @ be16 0) ()"
    by (intro writes_seq writes_push writes_extend f L)
  then have "writes W (andthen (wr_push W 0) (\<lambda>_. andthen write (\<lambda>_. andthen (wr_push W 0) (\<lambda>_. wr_extend W (be16 0)))))
      (parse_body sql) ()"
    by (simp add: parse_body_def numeral_2_eq_2)
  then show ?thesis unfolding wr_parse_with_def using n by (intro writes_message L)
qed

lemma writes_sasl_final:
  "spare_laws W \<Longrightarrow> writes W write body a \<Longrightarrow> length body + 4 \<le> i32_max \<Longrightarrow>
     writes W (wr_sasl_final W write) (message_text fe_password body) a"
  unfolding wr_sasl_final_def by (rule writes_message)

lemma writes_sasl_first:
  assumes L: "spare_laws W" and f: "writes W write first ()" and n: "length name + length first + 9 \<le> i32_max"
  shows "writes W (wr_sasl_first W name write) (message_text fe_password (cstr name @ be32 (length first) @ first)) ()"
proof -
  have "writes W (wr_patch W False write) (be32 (length first) @ first) ()"
    using writes_patch[OF L f, of False] n by simp
  then have "writes W (andthen (write_cstr W name) (\<lambda>_. wr_patch W False write)) (cstr name @ be32 (length first) @ first) ()"
    by (intro writes_seq writes_cstr L)
  then show ?thesis unfolding wr_sasl_first_def using n by (intro writes_message L) (simp_all add: cstr_def)
qed

lemma writes_copy_data:
  assumes L: "spare_laws W" and n: "length data + 4 \<le> i32_max"
  shows "writes W (wr_copy_data W data) (message_text fe_copy_data data) ()"
proof -
  have "wr_copy_data W data = andthen (wr_push W fe_copy_data) (\<lambda>_. andthen (wr_extend W (be32 (length data + 4))) (\<lambda>_. wr_extend W data))"
    using n by (simp add: wr_copy_data_def wire_length_def)
  moreover have "writes W (andthen (wr_push W fe_copy_data) (\<lambda>_. andthen (wr_extend W (be32 (length data + 4))) (\<lambda>_. wr_extend W data)))
      ([fe_copy_data] @ be32 (length data + 4) @ data) ()"
    by (intro writes_seq writes_push writes_extend L)
  ultimately show ?thesis by (simp add: message_text_def)
qed

lemma be32_small: "be32 4 = [0, 0, 0, 4]" "be32 9 = [0, 0, 0, 9]"
  by (simp_all add: be32_bytes)

lemma writes_fixed:
  assumes "spare_laws W"
  shows "writes W (wr_sync W) (message_text fe_sync []) ()"
    and "writes W (wr_copy_done W) (message_text fe_copy_done []) ()"
    and "writes W (wr_execute W) (message_text fe_execute [0, 0, 0, 0, 0]) ()"
  using writes_extend[OF assms]
  by (simp_all add: wr_sync_def wr_copy_done_def wr_execute_def wr_slices_def sync_message_def copy_done_sync_def
      message_text_def be32_small)

end
