(* ===== verification/Scram.thy ===== *)
theory Scram
  imports Scram_Accept Scram_Jobs Pg_Encode
begin

text \<open>
  \<open>pg/src/protocol/scram/mod.rs\<close>: the client side of SCRAM-SHA-256.  Base64 is the crate \<open>base64\<close>,
  outside the repository: its decoder into a buffer of given size and its encoder without padding are
  the record \<open>base64_ops\<close>.  The lemmas connect what the client sends and accepts with the functions of
  RFC 5802 over the password, the salt and the messages.
\<close>

record base64_ops =
  b6_decode :: "nat \<Rightarrow> bytes \<Rightarrow> base64_error + bytes"
  b6_encode :: "bytes \<Rightarrow> bytes"

section \<open>Mechanisms\<close>

datatype mechanisms = MechNone | MechPlus | MechSha256

definition mech_name :: bytes where
  "mech_name = ascii ''SCRAM-SHA-256''"

definition plus_name :: bytes where
  "plus_name = ascii ''SCRAM-SHA-256-PLUS''"

definition mechanisms_offer :: "mechanisms \<Rightarrow> bytes \<Rightarrow> mechanisms" where
  "mechanisms_offer m name =
     (if name = mech_name then MechSha256
      else if name = plus_name \<and> m = MechNone then MechPlus else m)"

definition mechanisms_pick :: "mechanisms \<Rightarrow> pg_error + bytes" where
  "mechanisms_pick m =
     (case m of
        MechSha256 \<Rightarrow> Inr mech_name
      | MechPlus \<Rightarrow> Inl (PgAuth SaslPlus)
      | MechNone \<Rightarrow> Inl (PgAuth NoSasl))"

section \<open>The exchange\<close>

record deriving =
  dv_server_first :: retained
  dv_key :: kdf_key

datatype scram_state =
    AwaitServerFirst bytes
  | Deriving deriving
  | AwaitServerFinal bytes
  | Complete

abbreviation client_nonce_bytes :: nat where "client_nonce_bytes \<equiv> 24"

definition encode_nonce :: "base64_ops \<Rightarrow> bytes \<Rightarrow> bytes" where
  "encode_nonce B raw = copy_at 0 (b6_encode B raw) (replicate client_nonce_bytes 0)"

definition scram_new ::
    "base64_ops \<Rightarrow> ('v, 'o) waiters \<Rightarrow> 'v runtime \<Rightarrow> nat \<Rightarrow> 'o \<Rightarrow> pg_error + bytes \<Rightarrow>
       (bytes \<Rightarrow> pg_error + 't) \<Rightarrow> pg_error + 'v runtime \<times> 't \<times> scram_state" where
  "scram_new B W rt slot owner entropy send =
     bindr (ok_or (try_entry W rt slot owner) PgScramSlot) (\<lambda>rt.
     bindr entropy (\<lambda>raw.
     let nonce = encode_nonce B raw in
     bindr (send nonce) (\<lambda>sent. Inr (rt, sent, AwaitServerFirst nonce))))"

definition shift_base64 :: "nat \<Rightarrow> base64_error \<Rightarrow> base64_error" where
  "shift_base64 by e =
     (case e of
        InvalidByte i b \<Rightarrow> InvalidByte (i + by) b
      | InvalidLength n \<Rightarrow> InvalidLength (n + by)
      | InvalidLastSymbol i s v \<Rightarrow> InvalidLastSymbol (i + by) s v
      | InvalidPadding \<Rightarrow> InvalidPadding
      | OutputSliceTooSmall \<Rightarrow> OutputSliceTooSmall)"

text \<open>The salt is decoded in chunks of four characters; only the last may be padded.\<close>

function decode_base64 :: "base64_ops \<Rightarrow> nat \<Rightarrow> bytes \<Rightarrow> pg_error + bytes list" where
  "decode_base64 B index bs =
     (if bs = [] then Inr []
      else case (if drop 4 bs = [] then None else find_bad (\<lambda>b. b \<noteq> 61) (take 4 bs)) of
          Some (pos, _) \<Rightarrow> Inl (PgServerFirst (SaltPadding (index * 4 + pos)))
        | None \<Rightarrow>
            bindr (map_err (\<lambda>e. PgServerFirstBase64 (shift_base64 (index * 4) e)) (b6_decode B 3 (take 4 bs))) (\<lambda>decoded.
            bindr (decode_base64 B (index + 1) (drop 4 bs)) (\<lambda>ds. Inr (decoded # ds))))"
  by pat_completeness auto
termination by (relation "measure (\<lambda>(_, _, bs). length bs)") auto

declare decode_base64.simps [simp del]

definition first_mismatch :: "bytes \<Rightarrow> bytes \<Rightarrow> (nat \<times> byte \<times> byte) option" where
  "first_mismatch nonce expected =
     (let pairs = zip nonce expected in
      map_option (\<lambda>i. (i, pairs ! i)) (position (\<lambda>(a, e). a \<noteq> e) pairs))"

definition scram_begin ::
    "compress \<Rightarrow> base64_ops \<Rightarrow> pg_error option \<Rightarrow> scram_state \<Rightarrow> bytes \<Rightarrow> bytes \<Rightarrow> pg_error + scram_state" where
  "scram_begin cf B full st password bs =
     (case st of
        AwaitServerFirst expected \<Rightarrow>
          bindr (map_err PgServerFirst (parse_server_first bs)) (\<lambda>parsed.
          bindr (ok_or (server_first_parts parsed) PgUnreachable) (\<lambda>(parsed, nonce, salt, count).
          if length nonce \<le> length expected
          then Inl (PgServerFirst (NonceLength (length nonce) (client_nonce_bytes + 1)))
          else case first_mismatch nonce expected of
              Some (offset, actual, expected) \<Rightarrow> Inl (PgServerFirst (NonceByte offset actual expected))
            | None \<Rightarrow>
                let (inner, outer) = hmac_states cf password sha_iv sha_iv;
                    first = (sha_new 64)\<lparr>sh_state := inner\<rparr> in
                bindr (decode_base64 B 0 salt) (\<lambda>decoded.
                let first = foldl (sha_update cf) first decoded in
                bindr (try_iterations count) (\<lambda>iterations.
                bindr (server_first_retain full parsed) (\<lambda>server_first.
                let first = sha_update cf first (be32 1) in
                Inr (Deriving \<lparr>dv_server_first = server_first,
                  dv_key = \<lparr>kk_first = snd (sha_hmac cf first outer), kk_iterations = iterations\<rparr>\<rparr>))))))
      | _ \<Rightarrow> Inl (PgProtocol DuplicateServerFirst))"

definition scram_deriving :: "scram_state \<Rightarrow> deriving option" where
  "scram_deriving st = (case st of Deriving d \<Rightarrow> Some d | _ \<Rightarrow> None)"

definition await_final :: "bytes \<Rightarrow> scram_state" where
  "await_final signature = AwaitServerFinal signature"

definition verify_final :: "base64_ops \<Rightarrow> scram_state \<Rightarrow> bytes \<Rightarrow> pg_error + scram_state" where
  "verify_final B st bs =
     (case st of
        AwaitServerFinal expected \<Rightarrow>
          bindr (map_err PgServerFinal (parse_server_final bs)) (\<lambda>final.
          case final of
            FinalError e \<Rightarrow> Inl (PgScram e)
          | FinalVerifier encoded \<Rightarrow>
              bindr (map_err PgServerFinalBase64 (b6_decode B 33 encoded)) (\<lambda>actual.
              if length actual \<noteq> 32 then Inl (PgServerFinal (SignatureLength (length actual) 32))
              else if actual \<noteq> expected then Inl (PgServerFinal SignatureMismatch)
              else Inr Complete))
      | _ \<Rightarrow> Inl (PgProtocol FinalState))"

definition scram_finish :: "scram_state \<Rightarrow> pg_error + unit" where
  "scram_finish st = (if st = Complete then Inr () else Inl (PgProtocol AuthBeforeFinal))"

text \<open>The proof and the signature the client expects from the server.\<close>

definition final_proof :: "compress \<Rightarrow> bytes \<Rightarrow> bytes \<Rightarrow> keys \<Rightarrow> bytes" where
  "final_proof cf nonce first ks =
     map2 (XOR) (hmac_auth_message cf (ks_stored ks) (take client_nonce_bytes nonce) first nonce) (ks_client ks)"

definition write_final ::
    "compress \<Rightarrow> base64_ops \<Rightarrow> 's spare_ops \<Rightarrow> deriving \<Rightarrow> keys \<Rightarrow> ('s, bytes option) emitter" where
  "write_final cf B W d ks s =
     (case retained_nonce (dv_server_first d) of
        None \<Rightarrow> Inr (s, None)
      | Some nonce \<Rightarrow>
          let first = rt_bytes (dv_server_first d);
              client = take client_nonce_bytes nonce;
              proof' = final_proof cf nonce first ks;
              encoded = copy_at 0 (b6_encode B proof') (replicate 44 61);
              expected = hmac_auth_message cf (ks_server ks) client first nonce
          in andthen (wr_extend W (ascii ''c=biws,r='')) (\<lambda>_.
             andthen (wr_extend W nonce) (\<lambda>_.
             andthen (wr_extend W (ascii '',p='')) (\<lambda>_.
             andthen (wr_extend W encoded) (\<lambda>_ s. Inr (s, Some expected))))) s)"

section \<open>Mechanism choice\<close>

lemma offers_sha256: "foldl mechanisms_offer MechSha256 names = MechSha256"
  by (induction names) (simp_all add: mechanisms_offer_def)

lemma offers_pick:
  "mechanisms_pick (foldl mechanisms_offer m names) =
     (if m = MechSha256 \<or> mech_name \<in> set names then Inr mech_name
      else if m = MechPlus \<or> plus_name \<in> set names then Inl (PgAuth SaslPlus)
      else Inl (PgAuth NoSasl))"
proof (induction names arbitrary: m)
  case Nil
  show ?case by (cases m) (simp_all add: mechanisms_pick_def)
next
  case (Cons n names)
  have "mech_name \<noteq> plus_name" by (simp add: mech_name_def plus_name_def ascii_def)
  with Cons[of "mechanisms_offer m n"] show ?case by (cases m) (auto simp: mechanisms_offer_def)
qed

section \<open>The first server message\<close>

lemma first_mismatch_None:
  "length expected < length nonce \<Longrightarrow> first_mismatch nonce expected = None \<longleftrightarrow> take (length expected) nonce = expected"
proof -
  assume l: "length expected < length nonce"
  have "first_mismatch nonce expected = None \<longleftrightarrow> (\<forall>(a, e) \<in> set (zip nonce expected). a = e)"
    by (auto simp: first_mismatch_def position_None Let_def)
  also have "\<dots> \<longleftrightarrow> (\<forall>i < length expected. nonce ! i = expected ! i)"
    using l by (auto simp: set_zip)
  also have "\<dots> \<longleftrightarrow> take (length expected) nonce = expected"
    using l by (auto simp: list_eq_iff_nth_eq)
  finally show ?thesis .
qed

text \<open>The text of the first block of \<open>Hi\<close>: the salt and the block number 1.\<close>

lemma first_block_ref:
  assumes W: "words_ok cf"
  shows "snd (sha_hmac cf (sha_update cf (foldl (sha_update cf) ((sha_new 64)\<lparr>sh_state := cf sha_iv (ipad cf pw)\<rparr>) ds) (be32 1))
      (cf sha_iv (opad cf pw))) = hmac_ref cf pw (concat ds @ be32 1)"
proof -
  have "absorbed cf ((sha_new 64)\<lparr>sh_state := cf sha_iv (ipad cf pw)\<rparr>) (ipad cf pw)"
    using absorbed_keyed[of "ipad cf pw" "sha_new 64" cf] by (simp add: sha_new_def length_key_block W)
  from sha_hmac_ref(1)[OF W absorbed_update[OF absorbed_updates[OF this], unfolded append_assoc]] show ?thesis .
qed

text \<open>The server's first message that a client with nonce \<open>client\<close> accepts.\<close>

definition first_accepted :: "base64_ops \<Rightarrow> bytes \<Rightarrow> bytes \<Rightarrow> bytes \<Rightarrow> bytes list \<Rightarrow> nat \<Rightarrow> (byte \<times> bytes) list \<Rightarrow> bool" where
  "first_accepted B client nonce salt ds n exts \<longleftrightarrow>
     first_ok nonce salt n exts \<and> length client < length nonce \<and> take (length client) nonce = client \<and>
     decode_base64 B 0 salt = Inr ds \<and> min_iterations \<le> n \<and> n \<le> max_iterations"

definition first_deriving :: "compress \<Rightarrow> bytes \<Rightarrow> bytes \<Rightarrow> bytes \<Rightarrow> bytes list \<Rightarrow> nat \<Rightarrow> (byte \<times> bytes) list \<Rightarrow> deriving" where
  "first_deriving cf pw nonce salt ds n exts =
     \<lparr>dv_server_first = \<lparr>rt_bytes = first_text nonce salt n exts, rt_nonce = (2, 2 + length nonce)\<rparr>,
      dv_key = \<lparr>kk_first = hmac_ref cf pw (concat ds @ be32 1), kk_iterations = n\<rparr>\<rparr>"

lemma try_iterations_Inr: "try_iterations n = Inr i \<longleftrightarrow> min_iterations \<le> n \<and> n \<le> max_iterations \<and> i = n"
  by (auto simp: try_iterations_def)

lemma begin_text:
  assumes W: "words_ok cf" and ok: "first_ok nonce salt n exts"
  shows "scram_begin cf B full (AwaitServerFirst client) pw (first_text nonce salt n exts) =
    (if length nonce \<le> length client then Inl (PgServerFirst (NonceLength (length nonce) 25))
     else case first_mismatch nonce client of
         Some (offset, actual, expected) \<Rightarrow> Inl (PgServerFirst (NonceByte offset actual expected))
       | None \<Rightarrow>
           bindr (decode_base64 B 0 salt) (\<lambda>ds. bindr (try_iterations n) (\<lambda>_.
             case full of Some e \<Rightarrow> Inl e | None \<Rightarrow> Inr (Deriving (first_deriving cf pw nonce salt ds n exts)))))"
proof -
  note p = server_first_accept[OF ok]
  note parts = server_first_projections[OF ok p]
  have i: "bindr (try_iterations n) f = bindr (try_iterations n) (\<lambda>_. f n)" for f :: "nat \<Rightarrow> pg_error + scram_state"
    by (simp add: try_iterations_def)
  show ?thesis
    unfolding scram_begin_def scram_state.case p map_err.simps bindr.simps parts ok_or_def option.case prod.case
      hmac_states_eq[OF W] Let_def first_block_ref[OF W]
    by (subst i) (simp add: server_first_retain_def first_deriving_def split: option.split)
qed

lemma begin_accepts:
  assumes W: "words_ok cf" and a: "first_accepted B client nonce salt ds n exts"
  shows "scram_begin cf B None (AwaitServerFirst client) pw (first_text nonce salt n exts) =
    Inr (Deriving (first_deriving cf pw nonce salt ds n exts))"
proof -
  from a have ok: "first_ok nonce salt n exts" by (simp add: first_accepted_def)
  have "first_mismatch nonce client = None" using a by (simp add: first_accepted_def first_mismatch_None)
  with a show ?thesis unfolding begin_text[OF W ok] by (simp add: first_accepted_def try_iterations_def)
qed

lemma begin_only:
  assumes W: "words_ok cf" and b: "scram_begin cf B full (AwaitServerFirst client) pw bs = Inr st"
  shows "\<exists>nonce salt ds n exts. bs = first_text nonce salt n exts \<and>
    first_accepted B client nonce salt ds n exts \<and> full = None \<and>
    st = Deriving (first_deriving cf pw nonce salt ds n exts)"
proof -
  from b obtain f where f: "parse_server_first bs = Inr f"
    by (auto simp: scram_begin_def bindr_Inr_iff map_err_Inr_iff)
  from server_first_only[OF f] obtain nonce salt n exts where
    bs: "bs = first_text nonce salt n exts" and ok: "first_ok nonce salt n exts" by (elim exE conjE)
  note t = b[unfolded bs begin_text[OF W ok]]
  from t have l: "length client < length nonce" and m: "first_mismatch nonce client = None"
    by (auto split: if_splits option.splits)
  with t obtain ds where ds: "decode_base64 B 0 salt = Inr ds" "min_iterations \<le> n" "n \<le> max_iterations"
    and full: "full = None" and st: "st = Deriving (first_deriving cf pw nonce salt ds n exts)"
    by (cases full) (auto simp: bindr_Inr_iff try_iterations_Inr)
  have "first_accepted B client nonce salt ds n exts"
    using ok l m ds by (simp add: first_accepted_def first_mismatch_None)
  with bs full st show ?thesis by blast
qed

section \<open>Mutual authentication\<close>

text \<open>\<open>AuthMessage\<close> of RFC 5802 with an empty user name and no channel binding.\<close>

definition auth_message :: "bytes \<Rightarrow> bytes \<Rightarrow> bytes \<Rightarrow> bytes" where
  "auth_message client first nonce =
     ascii ''n=,r='' @ client @ ascii '','' @ first @ ascii '',c=biws,r='' @ nonce"

text \<open>What the server checks: the client key recovered from the proof hashes to the stored key.\<close>

definition server_accepts :: "compress \<Rightarrow> bytes \<Rightarrow> bytes \<Rightarrow> bytes \<Rightarrow> bool" where
  "server_accepts cf stored auth prf \<longleftrightarrow> sha_ref cf (xor_bytes prf (hmac_ref cf stored auth)) = stored"

definition salted_password :: "compress \<Rightarrow> bytes \<Rightarrow> bytes \<Rightarrow> nat \<Rightarrow> bytes" where
  "salted_password cf pw salt n = hi_sum cf pw (hmac_ref cf pw (salt @ be32 1)) (n - 1)"

lemma xor_bytes_cancel: "length a = length b \<Longrightarrow> xor_bytes (xor_bytes a b) a = b"
proof (induction a b rule: list_induct2)
  case (Cons x xs y ys)
  have "(x XOR y) XOR x = y" by (metis xor.assoc xor.commute xor_self_eq xor.right_neutral)
  with Cons show ?case by (simp add: xor_bytes_def)
qed (simp add: xor_bytes_def)

lemma deriving_nonce:
  "retained_nonce (dv_server_first (first_deriving cf pw nonce salt ds n exts)) = Some nonce"
  unfolding retained_nonce_def first_deriving_def first_text_def attrs_text_Cons[of "(114, nonce)"]
  using subslice_append[of 2 "[114, 61]" "2 + length nonce" nonce] by (simp add: first_text_def)

lemma final_proof_accepted:
  assumes W: "words_ok cf" and l: "length client = 24" "take 24 nonce = client"
  shows "server_accepts cf (ks_stored (scram_keys cf salted)) (auth_message client first nonce)
    (final_proof cf nonce first (scram_keys cf salted))"
proof -
  let ?ks = "scram_keys cf salted"
  have h: "hmac_auth_message cf (ks_stored ?ks) client first nonce = hmac_ref cf (ks_stored ?ks) (auth_message client first nonce)"
    by (simp add: hmac_auth_message_ref[OF W] auth_message_def)
  have "xor_bytes (xor_bytes (hmac_ref cf (ks_stored ?ks) (auth_message client first nonce)) (ks_client ?ks))
      (hmac_ref cf (ks_stored ?ks) (auth_message client first nonce)) = ks_client ?ks"
    by (rule xor_bytes_cancel) (simp add: scram_keys_def length_hmac_ref W)
  then show ?thesis
    using l h by (simp add: server_accepts_def final_proof_def xor_bytes_def scram_keys_def)
qed

lemma writes_final:
  assumes W: "words_ok cf" and L: "spare_laws S" and l: "length client = 24" "take 24 nonce = client"
  shows "writes S (write_final cf B S (first_deriving cf pw nonce salt ds n exts) ks)
    (ascii ''c=biws,r='' @ nonce @ ascii '',p='' @
       copy_at 0 (b6_encode B (final_proof cf nonce (first_text nonce salt n exts) ks)) (replicate 44 61))
    (Some (hmac_ref cf (ks_server ks) (auth_message client (first_text nonce salt n exts) nonce)))"
proof -
  let ?e = "copy_at 0 (b6_encode B (final_proof cf nonce (first_text nonce salt n exts) ks)) (replicate 44 61)"
  let ?x = "hmac_ref cf (ks_server ks) (auth_message client (first_text nonce salt n exts) nonce)"
  have d: "rt_bytes (dv_server_first (first_deriving cf pw nonce salt ds n exts)) = first_text nonce salt n exts"
    by (simp add: first_deriving_def)
  have "write_final cf B S (first_deriving cf pw nonce salt ds n exts) ks =
      andthen (wr_extend S (ascii ''c=biws,r='')) (\<lambda>_. andthen (wr_extend S nonce) (\<lambda>_.
      andthen (wr_extend S (ascii '',p='')) (\<lambda>_. andthen (wr_extend S ?e) (\<lambda>_ s. Inr (s, Some ?x)))))"
    by (rule ext) (simp add: write_final_def deriving_nonce d l Let_def hmac_auth_message_ref[OF W] auth_message_def)
  moreover have "writes S (andthen (wr_extend S (ascii ''c=biws,r='')) (\<lambda>_. andthen (wr_extend S nonce) (\<lambda>_.
      andthen (wr_extend S (ascii '',p='')) (\<lambda>_. andthen (wr_extend S ?e) (\<lambda>_ s. Inr (s, Some ?x))))))
      (ascii ''c=biws,r='' @ nonce @ ascii '',p='' @ ?e @ []) (Some ?x)"
    by (intro writes_seq writes_extend writes_skip L)
  ultimately show ?thesis by simp
qed

lemma verify_final_exact:
  "verify_final B (AwaitServerFinal expected) bs = Inr st \<longleftrightarrow>
     st = Complete \<and> length expected = 32 \<and>
     (\<exists>v exts. bs = attrs_text ((118, v) # exts) \<and> v \<noteq> [] \<and> 44 \<notin> set v \<and> ext_ok 0 exts \<and> b6_decode B 33 v = Inr expected)"
proof -
  have "verify_final B (AwaitServerFinal expected) bs = Inr st \<longleftrightarrow>
      (\<exists>v. parse_server_final bs = Inr (FinalVerifier v) \<and> b6_decode B 33 v = Inr expected) \<and> length expected = 32 \<and> st = Complete"
  proof (cases "parse_server_final bs")
    case (Inr final)
    then show ?thesis
      by (cases final) (auto simp: verify_final_def bindr_Inr_iff map_err_Inr_iff split: if_splits)
  qed (simp add: verify_final_def)
  then show ?thesis unfolding server_final_verifier by blast
qed

text \<open>The steps of the exchange: a server message, the keys of the derivation, or the final message.  A step is
  labelled with the message it received, a run with those received so far.\<close>

inductive scram_step ::
    "compress \<Rightarrow> base64_ops \<Rightarrow> 's spare_ops \<Rightarrow> bytes \<Rightarrow> scram_state \<times> 's \<Rightarrow> bytes option \<Rightarrow> scram_state \<times> 's \<Rightarrow> bool"
  for cf B S pw where
  first: "scram_begin cf B full st pw bs = Inr st' \<Longrightarrow> scram_step cf B S pw (st, s) (Some bs) (st', s)"
| derived: "scram_deriving st = Some d \<Longrightarrow>
    ks = scram_keys cf (hi_sum cf pw (kk_first (dv_key d)) (kk_iterations (dv_key d) - 1)) \<Longrightarrow>
    write_final cf B S d ks s = Inr (s', Some sig) \<Longrightarrow> scram_step cf B S pw (st, s) None (await_final sig, s')"
| final: "verify_final B st bs = Inr st' \<Longrightarrow> scram_step cf B S pw (st, s) (Some bs) (st', s)"

inductive scram_run ::
    "compress \<Rightarrow> base64_ops \<Rightarrow> 's spare_ops \<Rightarrow> bytes \<Rightarrow> scram_state \<times> 's \<Rightarrow> bytes list \<Rightarrow> scram_state \<times> 's \<Rightarrow> bool"
  for cf B S pw c where
  start: "scram_run cf B S pw c [] c"
| received: "scram_run cf B S pw c ms d \<Longrightarrow> scram_step cf B S pw d (Some bs) e \<Longrightarrow> scram_run cf B S pw c (ms @ [bs]) e"
| silent: "scram_run cf B S pw c ms d \<Longrightarrow> scram_step cf B S pw d None e \<Longrightarrow> scram_run cf B S pw c ms e"

text \<open>What has been established in each state of an exchange of nonce \<open>client\<close>, started with the
  output \<open>out\<close>: the keys behind a signature are those of the password and the server's salt.\<close>

definition server_signature :: "compress \<Rightarrow> bytes \<Rightarrow> bytes \<Rightarrow> bytes \<Rightarrow> nat \<Rightarrow> bytes \<Rightarrow> bytes \<Rightarrow> bytes" where
  "server_signature cf pw client salt n first nonce =
     hmac_ref cf (ks_server (scram_keys cf (salted_password cf pw salt n))) (auth_message client first nonce)"

definition scram_sent :: "compress \<Rightarrow> base64_ops \<Rightarrow> bytes \<Rightarrow> bytes \<Rightarrow> bytes \<Rightarrow> bytes list \<Rightarrow> nat \<Rightarrow> (byte \<times> bytes) list \<Rightarrow> bytes" where
  "scram_sent cf B pw nonce salt ds n exts =
     ascii ''c=biws,r='' @ nonce @ ascii '',p='' @
       copy_at 0 (b6_encode B (final_proof cf nonce (first_text nonce salt n exts)
         (scram_keys cf (salted_password cf pw (concat ds) n)))) (replicate 44 61)"

definition scram_inv ::
    "compress \<Rightarrow> base64_ops \<Rightarrow> 's spare_ops \<Rightarrow> bytes \<Rightarrow> bytes \<Rightarrow> bytes \<Rightarrow> bytes list \<Rightarrow> scram_state \<times> 's \<Rightarrow> bool" where
  "scram_inv cf B S pw client out ms c \<longleftrightarrow>
     (case c of (st, s) \<Rightarrow>
        case st of
          AwaitServerFirst e \<Rightarrow> e = client \<and> sp_content S s = out \<and> ms = []
        | Deriving d \<Rightarrow> sp_content S s = out \<and>
            (\<exists>nonce salt ds n exts. first_accepted B client nonce salt ds n exts \<and> d = first_deriving cf pw nonce salt ds n exts \<and>
               ms = [first_text nonce salt n exts])
        | AwaitServerFinal sig \<Rightarrow>
            (\<exists>nonce salt ds n exts. first_accepted B client nonce salt ds n exts \<and> ms = [first_text nonce salt n exts] \<and>
               sp_content S s = out @ scram_sent cf B pw nonce salt ds n exts \<and>
               sig = server_signature cf pw client (concat ds) n (first_text nonce salt n exts) nonce)
        | Complete \<Rightarrow>
            (\<exists>nonce salt ds n exts v more. first_accepted B client nonce salt ds n exts \<and>
               ms = [first_text nonce salt n exts, attrs_text ((118, v) # more)] \<and> 44 \<notin> set v \<and>
               sp_content S s = out @ scram_sent cf B pw nonce salt ds n exts \<and>
               b6_decode B 33 v = Inr (server_signature cf pw client (concat ds) n (first_text nonce salt n exts) nonce)))"

text \<open>A step after which the messages are \<open>ms\<close> and those of its label.\<close>

lemma scram_step_inv:
  assumes W: "words_ok cf" and L: "spare_laws S" and l: "length client = 24"
    and step: "scram_step cf B S pw c m c'" and inv: "scram_inv cf B S pw client out ms c"
  shows "scram_inv cf B S pw client out (ms @ (case m of None \<Rightarrow> [] | Some bs \<Rightarrow> [bs])) c'"
  using step
proof cases
  case (first full st bs st' s)
  from first(4) obtain e where e: "st = AwaitServerFirst e" by (cases st) (simp_all add: scram_begin_def)
  with inv first(1) have ec: "e = client" "sp_content S s = out" "ms = []" by (simp_all add: scram_inv_def)
  from begin_only[OF W first(4)[unfolded e ec(1)]] obtain nonce salt ds n exts where
    "bs = first_text nonce salt n exts" "first_accepted B client nonce salt ds n exts"
    "st' = Deriving (first_deriving cf pw nonce salt ds n exts)"
    by (elim exE conjE)
  then show ?thesis using ec first(2,3) unfolding scram_inv_def by simp blast
next
  case (derived st d ks s s' sig)
  then have st: "st = Deriving d" by (cases st) (simp_all add: scram_deriving_def)
  with inv derived(1) obtain nonce salt ds n exts where a: "first_accepted B client nonce salt ds n exts"
    and d: "d = first_deriving cf pw nonce salt ds n exts" and out: "sp_content S s = out" and ms: "ms = [first_text nonce salt n exts]"
    by (auto simp: scram_inv_def)
  have tk: "take 24 nonce = client" using a l by (simp add: first_accepted_def)
  have ks: "ks = scram_keys cf (salted_password cf pw (concat ds) n)"
    by (simp add: derived(5) d first_deriving_def salted_password_def)
  note w = writes_final[OF W L l tk, of B pw salt ds n exts ks]
  show ?thesis
  proof (cases "length (scram_sent cf B pw nonce salt ds n exts) \<le> sp_room S s")
    case True
    from writes_room[OF w, of s] True derived(6) have "sp_content S s' = out @ scram_sent cf B pw nonce salt ds n exts"
      "sig = server_signature cf pw client (concat ds) n (first_text nonce salt n exts) nonce"
      unfolding d scram_sent_def ks[symmetric] using out by (auto simp: server_signature_def ks)
    then show ?thesis using a ms derived(2,3) unfolding scram_inv_def await_final_def by simp blast
  next
    case False
    with writes_full[OF w, of s] derived(6) show ?thesis unfolding d scram_sent_def ks[symmetric] by auto
  qed
next
  case (final st bs st' s)
  from final(4) obtain sig where st: "st = AwaitServerFinal sig" by (cases st) (simp_all add: verify_final_def)
  with inv final(1) obtain nonce salt ds n exts where a: "first_accepted B client nonce salt ds n exts"
    "sp_content S s = out @ scram_sent cf B pw nonce salt ds n exts" "ms = [first_text nonce salt n exts]"
    and sig: "sig = server_signature cf pw client (concat ds) n (first_text nonce salt n exts) nonce"
    by (auto simp: scram_inv_def)
  from final(4)[unfolded st verify_final_exact] obtain v more where "st' = Complete" "bs = attrs_text ((118, v) # more)" "44 \<notin> set v"
    "b6_decode B 33 v = Inr sig" by blast
  with a sig final(2,3) show ?thesis unfolding scram_inv_def by simp blast
qed

lemma scram_run_inv:
  assumes W: "words_ok cf" and L: "spare_laws S" and l: "length client = 24"
    and run: "scram_run cf B S pw c ms c'" and inv: "scram_inv cf B S pw client out [] c"
  shows "scram_inv cf B S pw client out ms c'"
  using run
proof induction
  case start
  show ?case by (rule inv)
next
  case (received ms d bs e)
  from scram_step_inv[OF W L l received(2,3)] show ?case by simp
next
  case (silent ms d e)
  from scram_step_inv[OF W L l silent(2,3)] show ?case by simp
qed

end
