(* ===== verification/Scram_Claims.thy ===== *)
theory Scram_Claims
  imports Scram
begin

text \<open>
  The properties of the SCRAM components, each with a witness.  The witnesses instantiate the
  compression function with a constant one, base64 with a decoder of groups of four characters, the
  waiters and the spare buffer with the list instances of their theories.
\<close>

definition demo_compress :: compress where
  "demo_compress st b = replicate 8 0"

lemma demo_words_ok: "words_ok demo_compress"
  by (simp add: words_ok_def demo_compress_def)

definition b64_value :: "byte \<Rightarrow> nat" where
  "b64_value c =
     (let n = unat c in
      if 65 \<le> n \<and> n \<le> 90 then n - 65 else if 97 \<le> n \<and> n \<le> 122 then n - 71
      else if 48 \<le> n \<and> n \<le> 57 then n + 4 else if n = 43 then 62 else if n = 47 then 63 else 0)"

fun b64_decode :: "bytes \<Rightarrow> bytes" where
  "b64_decode (a # b # c # d # cs) =
     take (if c = 61 then 1 else if d = 61 then 2 else 3)
       (be_bytes 3 (((b64_value a * 64 + b64_value b) * 64 + b64_value c) * 64 + b64_value d)) @ b64_decode cs"
| "b64_decode _ = []"

definition demo_base64 :: base64_ops where
  "demo_base64 =
     \<lparr>b6_decode = (\<lambda>n bs. if length (b64_decode bs) \<le> n then Inr (b64_decode bs) else Inl OutputSliceTooSmall),
      b6_encode = (\<lambda>bs. replicate ((length bs * 8 + 5) div 6) 65)\<rparr>"

definition demo_nonce :: bytes where
  "demo_nonce = replicate 24 65"

definition demo_first :: bytes where
  "demo_first = first_text (demo_nonce @ [66]) [65, 65, 65, 65] 4096 []"

lemma demo_accepted: "first_accepted demo_base64 demo_nonce (demo_nonce @ [66]) [65, 65, 65, 65] [[0, 0, 0]] 4096 []"
proof -
  have "be_bytes 3 0 = [0, 0, 0]" by (simp add: numeral_3_eq_3)
  then have "decode_base64 demo_base64 0 [65, 65, 65, 65] = Inr [[0, 0, 0]]"
    by (simp add: decode_base64.simps demo_base64_def b64_value_def Let_def)
  then show ?thesis
    by (simp add: first_accepted_def first_ok_def demo_nonce_def is_nonce_char_def)
qed

section \<open>Accepting the server's first message\<close>

text \<open>C10: In the state that awaits it, the client accepts a first server message exactly when the message
  consists of a nonce, a salt, a count and well-formed extensions, the nonce properly extends the client's
  own, the salt decodes, the count is between 4096 and 100000, and the copy of the message could be stored;
  the state then holds that message and the first block of the key derivation, which is the HMAC of the
  decoded salt and the block number 1 under the password.\<close>

theorem scram_first_exact:
  assumes "words_ok cf"
  shows "scram_begin cf B full (AwaitServerFirst client) pw bs = Inr st \<longleftrightarrow>
    full = None \<and>
    (\<exists>nonce salt ds n exts. bs = first_text nonce salt n exts \<and> first_accepted B client nonce salt ds n exts \<and>
       st = Deriving \<lparr>dv_server_first = \<lparr>rt_bytes = bs, rt_nonce = (2, 2 + length nonce)\<rparr>,
         dv_key = \<lparr>kk_first = hmac_ref cf pw (concat ds @ be32 1), kk_iterations = n\<rparr>\<rparr>)"
proof
  assume "scram_begin cf B full (AwaitServerFirst client) pw bs = Inr st"
  from begin_only[OF assms this] obtain nonce salt ds n exts where
    "bs = first_text nonce salt n exts" "first_accepted B client nonce salt ds n exts" "full = None"
    "st = Deriving (first_deriving cf pw nonce salt ds n exts)" by (elim exE conjE)
  then show "full = None \<and> (\<exists>nonce salt ds n exts. bs = first_text nonce salt n exts \<and>
      first_accepted B client nonce salt ds n exts \<and>
      st = Deriving \<lparr>dv_server_first = \<lparr>rt_bytes = bs, rt_nonce = (2, 2 + length nonce)\<rparr>,
        dv_key = \<lparr>kk_first = hmac_ref cf pw (concat ds @ be32 1), kk_iterations = n\<rparr>\<rparr>)"
    unfolding first_deriving_def by blast
qed (auto simp: begin_accepts[OF assms, unfolded first_deriving_def])

theorem scram_first_exact_witness:
  "scram_begin demo_compress demo_base64 None (AwaitServerFirst demo_nonce) [1] demo_first =
     Inr (Deriving \<lparr>dv_server_first = \<lparr>rt_bytes = demo_first, rt_nonce = (2, 27)\<rparr>,
       dv_key = \<lparr>kk_first = hmac_ref demo_compress [1] ([0, 0, 0] @ be32 1), kk_iterations = 4096\<rparr>\<rparr>)"
proof -
  have "27 = 2 + length (demo_nonce @ [66])" "[0, 0, 0] = concat [[0, 0, 0 :: byte]]" by (simp_all add: demo_nonce_def)
  then show ?thesis
    unfolding scram_first_exact[OF demo_words_ok] using demo_accepted demo_first_def
    by (intro conjI refl exI[of _ "demo_nonce @ [66]"] exI[of _ "[65, 65, 65, 65]"] exI[of _ "[[0, 0, 0]]"]
        exI[of _ 4096] exI[of _ "[]"]) simp_all
qed

section \<open>Mutual authentication\<close>

text \<open>C11: Whatever messages the server sends and in whatever order the client's steps come, an exchange
  that ends with \<open>finish\<close> accepting has done all of SCRAM: it received two messages, a first one that the client
  accepts and a last one whose verifier is the signature over the very same authentication message, which only
  the server key of that password and salt yields, and in between the client wrote the final message, whose
  proof a server with the stored key of the same password and salt accepts.\<close>

theorem scram_authenticates:
  assumes W: "words_ok cf" and L: "spare_laws S" and n: "length client = 24"
    and run: "scram_run cf B S pw (AwaitServerFirst client, s) received (st, s')" and f: "scram_finish st = Inr ()"
  shows "\<exists>nonce salt ds i exts v more.
    first_accepted B client nonce salt ds i exts \<and>
    received = [first_text nonce salt i exts, attrs_text ((118, v) # more)] \<and> 44 \<notin> set v \<and>
    (let first = first_text nonce salt i exts; auth = auth_message client first nonce;
         ks = scram_keys cf (salted_password cf pw (concat ds) i); prf = final_proof cf nonce first ks
     in sp_content S s' = sp_content S s @ ascii ''c=biws,r='' @ nonce @ ascii '',p='' @
            copy_at 0 (b6_encode B prf) (replicate 44 61) \<and>
        server_accepts cf (ks_stored ks) auth prf \<and>
        b6_decode B 33 v = Inr (hmac_ref cf (ks_server ks) auth))"
proof -
  have "st = Complete" using f by (simp add: scram_finish_def split: if_splits)
  moreover have "scram_inv cf B S pw client (sp_content S s) [] (AwaitServerFirst client, s)" by (simp add: scram_inv_def)
  note scram_run_inv[OF W L n run this]
  ultimately obtain nonce salt ds i exts v more where a: "first_accepted B client nonce salt ds i exts"
    "received = [first_text nonce salt i exts, attrs_text ((118, v) # more)]" "44 \<notin> set v"
    "sp_content S s' = sp_content S s @ scram_sent cf B pw nonce salt ds i exts"
    "b6_decode B 33 v = Inr (server_signature cf pw client (concat ds) i (first_text nonce salt i exts) nonce)"
    unfolding scram_inv_def by auto
  moreover have "take 24 nonce = client" using a(1) n by (simp add: first_accepted_def)
  note final_proof_accepted[OF W n this]
  ultimately show ?thesis unfolding Let_def scram_sent_def server_signature_def by blast
qed

lemma demo_sha: "sha_ref demo_compress m = replicate 32 0"
proof -
  have "foldl demo_compress st bs = replicate 8 0 \<or> bs = []" for st bs
    by (induction bs arbitrary: st rule: rev_induct) (simp_all add: demo_compress_def)
  moreover have "fst (chunks64 (m @ sha_padding (length m))) \<noteq> []"
  proof -
    have "55 \<le> r + (119 - r) mod 64" for r :: nat
    proof (cases "r \<le> 55")
      case True
      then have "119 - r = (55 - r) + 64" by simp
      then have "(119 - r) mod 64 = 55 - r" by (simp only: mod_add_self2) simp
      then show ?thesis by simp
    qed simp
    from this[of "length m mod 64"] have "55 \<le> length m + (119 - length m mod 64) mod 64"
      using mod_less_eq_dividend[of "length m" 64] by simp
    then have "\<not> length (m @ sha_padding (length m)) < 64" by (simp add: sha_padding_def)
    then show ?thesis by (subst chunks64.simps) (simp add: case_prod_beta)
  qed
  ultimately have "sha_ref demo_compress m = write_state (replicate 8 0)" unfolding sha_ref_def by metis
  also have "be32 0 = replicate 4 0" by simp
  then have "write_state (replicate 8 0) = concat (replicate 8 (replicate 4 0))" by (simp add: write_state_def)
  also have "\<dots> = replicate 32 0" by (simp flip: replicate_add add: eval_nat_numeral)
  finally show ?thesis .
qed

definition demo_final :: bytes where
  "demo_final = attrs_text [(118, replicate 43 65 @ [61])]"

lemma demo_decode: "b6_decode demo_base64 33 (replicate 43 65 @ [61]) = Inr (replicate 32 0)"
proof -
  have "b64_decode (replicate 43 65 @ [61]) = replicate 32 0" by code_simp
  then show ?thesis by (simp add: demo_base64_def)
qed

lemma demo_run: "\<exists>s'. scram_run demo_compress demo_base64 list_spare [1] (AwaitServerFirst demo_nonce, (1000, [])) [demo_first, demo_final] (Complete, s')"
proof -
  let ?d = "first_deriving demo_compress [1] (demo_nonce @ [66]) [65, 65, 65, 65] [[0, 0, 0]] 4096 []"
  let ?ks = "scram_keys demo_compress (hi_sum demo_compress [1] (kk_first (dv_key ?d)) (kk_iterations (dv_key ?d) - 1))"
  have n: "length demo_nonce = 24" "take 24 (demo_nonce @ [66]) = demo_nonce" by (simp_all add: demo_nonce_def)
  note b = begin_accepts[OF demo_words_ok demo_accepted, of "[1]"]
  note w = writes_final[OF demo_words_ok list_spare_laws n, of demo_base64 "[1]" "[65, 65, 65, 65]" "[[0, 0, 0]]" 4096 "[]" ?ks]
  have sig: "hmac_ref demo_compress k m = replicate 32 0" for k m by (simp add: hmac_ref_def demo_sha)
  have "length (final_proof demo_compress (demo_nonce @ [66]) (first_text (demo_nonce @ [66]) [65, 65, 65, 65] 4096 []) ?ks) = 32"
    by (simp add: final_proof_def hmac_auth_message_ref[OF demo_words_ok] sig scram_keys_def)
  then have "length (b6_encode demo_base64 (final_proof demo_compress (demo_nonce @ [66]) (first_text (demo_nonce @ [66]) [65, 65, 65, 65] 4096 []) ?ks)) = 43"
    by (simp add: demo_base64_def)
  then have room: "length (ascii ''c=biws,r='' @ (demo_nonce @ [66]) @ ascii '',p='' @ copy_at 0 (b6_encode demo_base64
      (final_proof demo_compress (demo_nonce @ [66]) (first_text (demo_nonce @ [66]) [65, 65, 65, 65] 4096 []) ?ks)) (replicate 44 61))
      \<le> sp_room list_spare (1000, [])"
    using n(1) by (simp add: list_spare_def ascii_def)
  from writes_room[OF w[unfolded sig] room] obtain s' where
    s': "write_final demo_compress demo_base64 list_spare ?d ?ks (1000, []) = Inr (s', Some (replicate 32 0))" by blast
  have v: "verify_final demo_base64 (AwaitServerFinal (replicate 32 0)) demo_final = Inr Complete"
    unfolding verify_final_exact demo_final_def
    using demo_decode by (intro conjI exI[of _ "replicate 43 65 @ [61]"] exI[of _ "[]"]) auto
  have r1: "scram_run demo_compress demo_base64 list_spare [1] (AwaitServerFirst demo_nonce, (1000, [])) [demo_first] (Deriving ?d, (1000, []))"
    using scram_run.received[OF scram_run.start scram_step.first[OF b]] by (simp add: demo_first_def)
  have r2: "scram_run demo_compress demo_base64 list_spare [1] (AwaitServerFirst demo_nonce, (1000, [])) [demo_first] (await_final (replicate 32 0), s')"
    by (rule scram_run.silent[OF r1 scram_step.derived[OF _ refl s']]) (simp add: scram_deriving_def)
  have "scram_run demo_compress demo_base64 list_spare [1] (AwaitServerFirst demo_nonce, (1000, [])) [demo_first, demo_final] (Complete, s')"
    using scram_run.received[OF r2[unfolded await_final_def] scram_step.final[OF v]] by simp
  then show ?thesis ..
qed

theorem scram_authenticates_witness:
  "\<exists>s' nonce salt ds i exts v more.
    first_accepted demo_base64 demo_nonce nonce salt ds i exts \<and>
    [demo_first, demo_final] = [first_text nonce salt i exts, attrs_text ((118, v) # more)] \<and> 44 \<notin> set v \<and>
    (let first = first_text nonce salt i exts; auth = auth_message demo_nonce first nonce;
         ks = scram_keys demo_compress (salted_password demo_compress [1] (concat ds) i);
         prf = final_proof demo_compress nonce first ks
     in sp_content list_spare s' = sp_content list_spare (1000, []) @ ascii ''c=biws,r='' @ nonce @ ascii '',p='' @
            copy_at 0 (b6_encode demo_base64 prf) (replicate 44 61) \<and>
        server_accepts demo_compress (ks_stored ks) auth prf \<and>
        b6_decode demo_base64 33 v = Inr (hmac_ref demo_compress (ks_server ks) auth))"
proof -
  obtain s' where run: "scram_run demo_compress demo_base64 list_spare [1] (AwaitServerFirst demo_nonce, (1000, [])) [demo_first, demo_final] (Complete, s')"
    using demo_run by blast
  have "length demo_nonce = 24" "scram_finish Complete = Inr ()" by (simp_all add: demo_nonce_def scram_finish_def)
  from scram_authenticates[OF demo_words_ok list_spare_laws this(1) run this(2)] show ?thesis by blast
qed

section \<open>Key derivation\<close>

text \<open>C12: A key derivation job that is polled on its own returns at the first poll by which the 256 rounds
  of each poll cover the iteration count, never before, and what it returns is \<open>Hi(password, salt, i)\<close> of
  RFC 5802.\<close>

theorem pbkdf2_in_polls:
  assumes "words_ok cf"
  shows "kdf_polls cf (kdf_new cf pw (hmac_ref cf pw (salt @ be32 1)) i) m =
    (if 0 < m \<and> i - 1 \<le> 256 * m then Some (salted_password cf pw salt i) else None)"
  using kdf_polls_at[OF assms kdf_at_new[OF assms length_hmac_ref[OF assms]]]
  by (simp add: salted_password_def)

theorem pbkdf2_in_polls_witness:
  "kdf_polls demo_compress (kdf_new demo_compress [1] (hmac_ref demo_compress [1] ([2] @ be32 1)) 4096) 15 = None \<and>
   kdf_polls demo_compress (kdf_new demo_compress [1] (hmac_ref demo_compress [1] ([2] @ be32 1)) 4096) 16 =
     Some (salted_password demo_compress [1] [2] 4096)"
  unfolding pbkdf2_in_polls[OF demo_words_ok] by simp

text \<open>The states of a runtime: tickets are entered on free slots, polled with the password that belongs to
  their key, and cancelled.\<close>

inductive runtime_reach ::
    "compress \<Rightarrow> (kdf_key \<Rightarrow> bytes) \<Rightarrow> ('v, 'o) waiters \<Rightarrow> 'v runtime \<Rightarrow> (nat \<Rightarrow> kdf_key) \<Rightarrow> bool"
  for cf pwd W where
  init: "\<forall>s. wt_get W v s = None \<Longrightarrow> \<forall>s. length (kk_first (keyof s)) = 32 \<Longrightarrow>
    runtime_reach cf pwd W \<lparr>rt_waiters = v, rt_state = coordinator_default\<rparr> keyof"
| enter: "runtime_reach cf pwd W rt keyof \<Longrightarrow> wt_get W (rt_waiters rt) slot = None \<Longrightarrow>
    length (kk_first key) = 32 \<Longrightarrow> try_entry W rt slot owner = Some rt' \<Longrightarrow>
    runtime_reach cf pwd W rt' (keyof(slot := key))"
| poll: "runtime_reach cf pwd W rt keyof \<Longrightarrow>
    ticket_poll cf W rt slot (keyof slot) (pwd (keyof slot)) = (rt', woken, result) \<Longrightarrow>
    runtime_reach cf pwd W rt' keyof"
| cancel: "runtime_reach cf pwd W rt keyof \<Longrightarrow> ticket_cancel W rt slot = (rt', next) \<Longrightarrow>
    runtime_reach cf pwd W rt' keyof"

lemma runtime_reach_ok:
  assumes W: "words_ok cf" and L: "waiters_laws W"
  shows "runtime_reach cf pwd W rt keyof \<Longrightarrow>
    runtime_ok cf pwd W keyof rt \<and> (\<forall>s. length (kk_first (keyof s)) = 32)"
proof (induction rule: runtime_reach.induct)
  case (init v keyof)
  then show ?case by (simp add: runtime_ok_def coordinator_default_ok waiting_ok_def)
next
  case (enter rt keyof slot key owner rt')
  then have "runtime_ok cf pwd W (keyof(slot := key)) rt'" by (intro try_entry_ok[OF L]) auto
  moreover have "\<forall>s. length (kk_first ((keyof(slot := key)) s)) = 32" using enter by simp
  ultimately show ?case by blast
next
  case (poll rt keyof slot rt' woken result)
  then show ?case using poll_ok[OF W L, of pwd keyof rt slot rt' woken result] by simp
next
  case (cancel rt keyof slot rt' next')
  then show ?case using cancel_ok[OF L, of cf pwd keyof rt slot] by simp
qed

text \<open>C13: Connections share key derivation jobs and cached keys, enter, poll and give up in any order; a
  poll never runs into a missing or unfinished entry, and whenever it delivers keys, they are the keys of
  the password and the salted block of the ticket that polled.\<close>

theorem poll_delivers_keys:
  assumes "words_ok cf" and "waiters_laws W" and "runtime_reach cf pwd W rt keyof"
    and "ticket_poll cf W rt slot (keyof slot) (pwd (keyof slot)) = (rt', woken, result)"
  shows "result = Pending \<or>
    result = Keys (scram_keys cf (hi_sum cf (pwd (keyof slot)) (kk_first (keyof slot)) (kk_iterations (keyof slot) - 1)))"
  using runtime_reach_ok[OF assms(1-3)] poll_ok[OF assms(1,2), of pwd keyof rt slot rt' woken result] assms(4) by blast

definition demo_key :: kdf_key where
  "demo_key = \<lparr>kk_first = replicate 32 7, kk_iterations = 1\<rparr>"

definition demo_runtime :: "nat list_waiters runtime" where
  "demo_runtime = \<lparr>rt_waiters = ([(0, \<lparr>mb_owner = 0, mb_job = None\<rparr>)], []), rt_state = coordinator_default\<rparr>"

lemma demo_runtime_reach: "runtime_reach demo_compress (\<lambda>_. [1]) (list_waiters 1) demo_runtime (\<lambda>_. demo_key)"
proof -
  have k: "length (kk_first demo_key) = 32" by (simp add: demo_key_def)
  have "runtime_reach demo_compress (\<lambda>_. [1]) (list_waiters 1) \<lparr>rt_waiters = ([], []), rt_state = coordinator_default\<rparr> (\<lambda>_. demo_key)"
    by (rule runtime_reach.init) (simp_all add: list_waiters_def k)
  moreover have "try_entry (list_waiters 1) \<lparr>rt_waiters = ([], []), rt_state = coordinator_default\<rparr> 0 (0 :: nat) = Some demo_runtime"
    by (simp add: try_entry_def list_waiters_def demo_runtime_def lw_leave_def)
  ultimately have "runtime_reach demo_compress (\<lambda>_. [1]) (list_waiters 1) demo_runtime ((\<lambda>_. demo_key)(0 := demo_key))"
    using k by (intro runtime_reach.enter[where slot = 0 and owner = 0]) (simp_all add: list_waiters_def)
  moreover have "(\<lambda>_. demo_key)(0 := demo_key) = (\<lambda>_ :: nat. demo_key)" by (rule ext) simp
  ultimately show ?thesis by simp
qed

lemma demo_select: "coordinator_select demo_compress coordinator_default demo_key (Some [1]) =
  (select_insert demo_compress coordinator_default 5 demo_key [1], Some 5)"
proof -
  have u: "[0..<6] = [0, 1, 2, 3, 4, 5 :: nat]" by (simp add: upt_rec)
  have "select_cached coordinator_default demo_key (co_cached coordinator_default) = None"
    by (simp add: coordinator_default_def numeral_2_eq_2)
  moreover have "select_scan coordinator_default demo_key [0, 1, 2, 3, 4, 5] None 0 = Inr (Some 5, 0)"
    by (simp add: coordinator_default_def)
  ultimately show ?thesis by (simp add: coordinator_select_def u select_slot_def)
qed

theorem poll_delivers_keys_witness:
  "snd (snd (ticket_poll demo_compress (list_waiters 1) demo_runtime 0 demo_key [1])) =
     Keys (scram_keys demo_compress (hi_sum demo_compress [1] (kk_first demo_key) (kk_iterations demo_key - 1)))"
proof -
  obtain rt' woken result where p: "ticket_poll demo_compress (list_waiters 1) demo_runtime 0 demo_key [1] = (rt', woken, result)"
    by (metis prod_cases3)
  note k = poll_delivers_keys[OF demo_words_ok list_waiters_laws demo_runtime_reach p]
  let ?k = "kdf_new demo_compress [1] (kk_first demo_key) (kk_iterations demo_key)"
  have "kdf_at demo_compress [1] (kk_first demo_key) (kk_iterations demo_key - 1) 0 ?k"
    by (rule kdf_at_new[OF demo_words_ok]) (simp add: demo_key_def)
  then have "snd (kdf_advance demo_compress ?k) \<noteq> None"
    using kdf_advance_at(2)[OF demo_words_ok] by (simp add: demo_key_def)
  then obtain k' out where a: "kdf_advance demo_compress ?k = (k', Some out)" by (cases "kdf_advance demo_compress ?k") auto
  let ?c = "select_insert demo_compress coordinator_default 5 demo_key [1]"
  have e: "co_entries ?c ! 5 = Some \<lparr>en_key = demo_key, en_state = Computing ?k\<rparr>"
    by (simp add: select_insert_def coordinator_default_def)
  have "snd (snd (ticket_turn demo_compress (list_waiters 1) (demo_runtime\<lparr>rt_state := ?c\<rparr>) 0 \<lparr>mb_owner = 0, mb_job = None\<rparr> 5 demo_key ?k))"
    by (simp add: ticket_turn_def demo_runtime_def list_waiters_def runtime_front_def job_lane_def lw_leave_def a
        case_prod_beta Let_def)
  then obtain rt1 w1 where t: "ticket_turn demo_compress (list_waiters 1) (demo_runtime\<lparr>rt_state := ?c\<rparr>) 0 \<lparr>mb_owner = 0, mb_job = None\<rparr> 5 demo_key ?k = (rt1, w1, True)"
    by (metis prod.collapse)
  have m: "wt_get (list_waiters 1) (rt_waiters demo_runtime) 0 = Some \<lparr>mb_owner = 0, mb_job = None\<rparr>"
    and f: "runtime_front (list_waiters 1) (rt_waiters demo_runtime) None = None" and st: "rt_state demo_runtime = coordinator_default"
    by (simp_all add: list_waiters_def demo_runtime_def runtime_front_def)
  have "snd (snd (ticket_poll demo_compress (list_waiters 1) demo_runtime 0 demo_key [1])) = snd (snd (ticket_ready (list_waiters 1) rt1 0 5 True))"
    by (simp add: ticket_poll_def m f st demo_select e t case_prod_beta del: One_nat_def)
  then have "result \<noteq> Pending"
    using p by (simp add: ticket_ready_def case_prod_beta Let_def split: option.split kdf_state.split)
  with p k show ?thesis by simp
qed

section \<open>Hashing\<close>

text \<open>C14: For every compression function, the streamed computation that a client runs over a keyed state
  yields the HMAC of the concatenated authentication message, whatever the lengths of its parts, and the
  three keys written from the keyed states are the HMACs and the hash that RFC 5802 defines.\<close>

theorem streams_are_hmac:
  assumes "words_ok cf"
  shows "hmac_auth_message cf key client first nonce = hmac_ref cf key (auth_message client first nonce) \<and>
    (case hmac_states cf salted sha_iv sha_iv of (inner, outer) \<Rightarrow> keys_write cf inner outer) =
      \<lparr>ks_client = hmac_ref cf salted (ascii ''Client Key''),
       ks_stored = sha_ref cf (hmac_ref cf salted (ascii ''Client Key'')),
       ks_server = hmac_ref cf salted (ascii ''Server Key'')\<rparr>"
  by (simp add: hmac_auth_message_ref[OF assms] auth_message_def hmac_states_eq[OF assms] keys_write_ref[OF assms])

theorem streams_are_hmac_witness:
  "hmac_auth_message demo_compress [1] [2] [3] [4] = hmac_ref demo_compress [1] (auth_message [2] [3] [4]) \<and>
    (case hmac_states demo_compress [5] sha_iv sha_iv of (inner, outer) \<Rightarrow> keys_write demo_compress inner outer) =
      \<lparr>ks_client = hmac_ref demo_compress [5] (ascii ''Client Key''),
       ks_stored = sha_ref demo_compress (hmac_ref demo_compress [5] (ascii ''Client Key'')),
       ks_server = hmac_ref demo_compress [5] (ascii ''Server Key'')\<rparr>"
  by (rule streams_are_hmac[OF demo_words_ok])

section \<open>Choosing the mechanism\<close>

text \<open>C15: Whatever mechanisms the server offers and in whatever order, SCRAM-SHA-256 is picked exactly when it
  is among them; otherwise an offer of the channel-binding variant alone is reported as such.\<close>

theorem mechanism_choice:
  "mechanisms_pick (foldl mechanisms_offer MechNone names) =
     (if mech_name \<in> set names then Inr mech_name
      else if plus_name \<in> set names then Inl (PgAuth SaslPlus) else Inl (PgAuth NoSasl))"
  by (simp add: offers_pick)

end
