(* ===== verification/Pg_Frame.thy ===== *)
theory Pg_Frame
  imports Pg_Encode
begin

text \<open>
  \<open>pg/src/protocol/frame/codec.rs\<close>: cutting the input of a connection into typed messages.  The input
  of \<open>dope\<close>'s session codec is a parameter through what the codec asks of it: whether the staging buffer
  can grow to a length (\<open>need\<close>), and whether a consumed or selected length is inside the input.
\<close>

datatype pg_head =
    Message byte bytes
  | Fatal pg_error

datatype pg_parse =
    More nat
  | CapacityExhausted
  | Item pg_head nat

datatype pg_finish =
    FinishEmpty
  | FinishItem pg_head

text \<open>\<open>try_consumed\<close> and \<open>try_prefix\<close> refuse lengths beyond the input (\<open>scope::Error\<close>).\<close>

definition try_consumed :: "bytes \<Rightarrow> nat \<Rightarrow> unit + nat" where
  "try_consumed bs n = (if n \<le> length bs then Inr n else Inl ())"

definition try_prefix :: "bytes \<Rightarrow> nat \<Rightarrow> nat \<Rightarrow> unit + bytes \<times> nat" where
  "try_prefix bs start n = bindr (ok_or (subslice start n bs) ()) (\<lambda>data. Inr (data, n))"

definition pg_need :: "(nat \<Rightarrow> nat option) \<Rightarrow> nat \<Rightarrow> pg_parse" where
  "pg_need need n = (case need n of Some n \<Rightarrow> More n | None \<Rightarrow> CapacityExhausted)"

definition wire_word :: "bytes \<Rightarrow> nat" where
  "wire_word bs = from_be (take 4 (drop 1 bs))"

definition codec_parse :: "nat \<Rightarrow> (nat \<Rightarrow> nat option) \<Rightarrow> bytes \<Rightarrow> unit + pg_parse" where
  "codec_parse limit need bs =
     (if length bs < 5 then Inr (pg_need need 5)
      else
        let typ = bs ! 0; wire = wire_word bs in
        if wire < 4 then
          bindr (try_consumed bs (sat_add64 1 (length bs - 1))) (\<lambda>used.
            Inr (Item (Fatal (PgProtocol (FrameLength wire 4))) used))
        else if limit \<le> wire then
          bindr (try_consumed bs (sat_add64 1 4)) (\<lambda>used.
            Inr (Item (Fatal (PgProtocol (FrameCapacity wire limit))) used))
        else
          let all = wire + 1 in
          if length bs < all then Inr (pg_need need all)
          else bindr (try_prefix bs 5 (sat_add64 1 (all - 1))) (\<lambda>(data, used). Inr (Item (Message typ data) used)))"

definition codec_finish :: "nat \<Rightarrow> bytes \<Rightarrow> pg_finish" where
  "codec_finish limit bs =
     (if bs = [] then FinishEmpty
      else case length_try_new (length bs) of
          Inl e \<Rightarrow> FinishItem (Fatal e)
        | Inr actual \<Rightarrow>
            FinishItem (Fatal (PgProtocol (
              if length bs < 5 then FrameTruncated actual 5
              else
                let wire = wire_word bs in
                if wire < 4 then FrameLength wire 4
                else if limit \<le> wire then FrameCapacity wire limit
                else FrameTruncated actual (wire + 1)))))"

section \<open>Messages are cut exactly\<close>

lemma be32_parts: "\<exists>a b c d. be32 v = [a, b, c, d]"
  by (simp add: be32_bytes)

lemma wire_word_message [simp]:
  "length body + 4 \<le> u32_max \<Longrightarrow> wire_word (message_text tag body @ rest) = length body + 4"
  by (simp add: wire_word_def message_text_def)

lemma length_message_text [simp]: "length (message_text tag body) = length body + 5"
  by (simp add: message_text_def)

text \<open>A whole message at the front of the input is taken, whatever follows.\<close>

lemma parse_message:
  assumes "length body + 4 < limit" and "limit \<le> u32_max"
  shows "codec_parse limit need (message_text tag body @ rest) = Inr (Item (Message tag body) (length body + 5))"
proof -
  have "drop 5 (message_text tag body @ rest) = body @ rest" by (simp add: message_text_def)
  then have "subslice 5 (5 + length body) (message_text tag body @ rest) = Some body"
    by (simp add: subslice_def)
  moreover have "(message_text tag body @ rest) ! 0 = tag" by (simp add: message_text_def)
  ultimately show ?thesis
    using assms by (simp add: codec_parse_def try_prefix_def ok_or_def Let_def add.commute)
qed

text \<open>A proper prefix of a message asks for more: for the header, then for the whole message.\<close>

lemma parse_prefix:
  assumes "length body + 4 < limit" and "limit \<le> u32_max" and "bs @ after = message_text tag body" and "after \<noteq> []"
  shows "codec_parse limit need bs = Inr (pg_need need (if length bs < 5 then 5 else length body + 5))"
proof (cases "length bs < 5")
  case False
  have l: "length bs < length body + 5"
    using assms(3,4) length_message_text[of tag body] by (metis length_append length_greater_0_conv less_add_same_cancel1)
  have "wire_word bs = wire_word (message_text tag body @ [])"
    using False by (simp add: wire_word_def flip: assms(3))
  then have "wire_word bs = length body + 4" using assms(1,2) by (simp only: wire_word_message)
  with False l assms(1) show ?thesis by (simp add: codec_parse_def Let_def add.commute)
qed (simp add: codec_parse_def)

lemma append_take_drops5:
  assumes "4 \<le> w"
  shows "bs = take 1 bs @ take 4 (drop 1 bs) @ take (w + 1 - 5) (drop 5 bs) @ drop (w + 1) bs"
proof -
  have "drop 5 bs = take (w + 1 - 5) (drop 5 bs) @ drop (w + 1) bs"
    using assms append_take_drop_id[of "w + 1 - 5" "drop 5 bs"] by simp
  moreover have "bs = take 1 bs @ take 4 (drop 1 bs) @ drop 5 bs"
    using append_take_drop_id[of 4 "drop 1 bs"] append_take_drop_id[of 1 bs] by simp
  ultimately show ?thesis by metis
qed

text \<open>Every item is the front of the input: a whole message, or an error of the length it declares.\<close>

lemma parse_item:
  assumes m: "limit \<le> u32_max" and p: "codec_parse limit need bs = Inr (Item h n)" and bl: "length bs \<le> u64_max"
  shows "0 < n \<and> n \<le> length bs \<and>
    (case h of
       Message tag body \<Rightarrow> bs = message_text tag body @ drop n bs \<and> n = length body + 5 \<and> length body + 4 < limit
     | Fatal e \<Rightarrow> (wire_word bs < 4 \<and> e = PgProtocol (FrameLength (wire_word bs) 4) \<and> n = length bs) \<or>
         (limit \<le> wire_word bs \<and> 4 \<le> wire_word bs \<and> e = PgProtocol (FrameCapacity (wire_word bs) limit) \<and> n = 5))"
proof -
  let ?w = "wire_word bs"
  from p have l: "5 \<le> length bs" by (simp add: codec_parse_def pg_need_def split: if_splits option.splits)
  consider "?w < 4" | "4 \<le> ?w" "limit \<le> ?w" | "4 \<le> ?w" "?w < limit" by linarith
  then show ?thesis
  proof cases
    case 1
    have "sat_add64 1 (length bs - 1) = length bs" using l bl by (subst sat_add64_id) auto
    with 1 p l show ?thesis by (auto simp: codec_parse_def try_consumed_def Let_def)
  next
    case 2
    with p l show ?thesis by (auto simp: codec_parse_def try_consumed_def Let_def)
  next
    case 3
    with p l have w: "?w + 1 \<le> length bs"
      by (auto simp: codec_parse_def Let_def pg_need_def split: if_splits option.splits)
    with 3 p l m have h: "h = Message (bs ! 0) (take (?w + 1 - 5) (drop 5 bs))" "n = ?w + 1"
      by (auto simp: codec_parse_def Let_def try_prefix_def subslice_def ok_or_def)
    let ?b = "take (?w + 1 - 5) (drop 5 bs)"
    have lb: "length ?b + 4 = ?w" using w 3 by simp
    have "be32 ?w = take 4 (drop 1 bs)" unfolding wire_word_def by (rule be_bytes_from_be) (use l in simp)
    moreover have "bs = take 1 bs @ take 4 (drop 1 bs) @ ?b @ drop (?w + 1) bs"
      by (rule append_take_drops5[of "?w" bs]) (use 3 in simp)
    moreover have "take 1 bs = [bs ! 0]" using l by (cases bs) auto
    ultimately have "bs = message_text (bs ! 0) ?b @ drop (?w + 1) bs"
      unfolding message_text_def lb by simp
    with h w 3 lb show ?thesis by simp
  qed
qed

lemma parse_never_fails:
  "length bs \<le> u64_max \<Longrightarrow> limit \<le> u32_max \<Longrightarrow> \<exists>r. codec_parse limit need bs = Inr r"
  by (auto simp: codec_parse_def try_consumed_def try_prefix_def subslice_def ok_or_def Let_def)

section \<open>Streams of messages\<close>

text \<open>The session parses again behind each message; \<open>stream_parse\<close> gives the messages and what is left.\<close>

function stream_parse :: "nat \<Rightarrow> bytes \<Rightarrow> (byte \<times> bytes) list \<times> bytes" where
  "stream_parse limit bs =
     (case codec_parse limit (\<lambda>_. None) bs of
        Inr (Item (Message tag body) n) \<Rightarrow>
          if n = 0 then ([], bs) else (case stream_parse limit (drop n bs) of (ms, rest) \<Rightarrow> ((tag, body) # ms, rest))
      | _ \<Rightarrow> ([], bs))"
  by pat_completeness auto
termination
proof (relation "measure (length \<circ> snd)")
  fix limit bs r p tag body n h
  assume "codec_parse limit (\<lambda>_. None) bs = Inr p" "p = Item h n" "n \<noteq> 0"
  moreover from this have "bs \<noteq> []" by (auto simp: codec_parse_def pg_need_def)
  ultimately show "((limit, drop n bs), limit, bs) \<in> measure (length \<circ> snd)" by simp
qed auto

declare stream_parse.simps [simp del]

lemma stream_parse_messages:
  assumes "limit \<le> u32_max" and "\<forall>(tag, body) \<in> set ms. length body + 4 < limit"
    and "codec_parse limit (\<lambda>_. None) rest = Inr (pg_need (\<lambda>_. None) k)"
  shows "stream_parse limit (concat (map (\<lambda>(tag, body). message_text tag body) ms) @ rest) = (ms, rest)"
  using assms(2)
proof (induction ms)
  case Nil
  then show ?case using assms(3) by (subst stream_parse.simps) (simp add: pg_need_def)
next
  case (Cons m ms)
  obtain tag body where m: "m = (tag, body)" by (cases m)
  let ?r = "concat (map (\<lambda>(tag, body). message_text tag body) ms) @ rest"
  have "codec_parse limit (\<lambda>_. None) (message_text tag body @ ?r) = Inr (Item (Message tag body) (length body + 5))"
    using Cons.prems assms(1) by (intro parse_message) (auto simp: m)
  moreover have "drop (length body + 5) (message_text tag body @ ?r) = ?r"
    using length_message_text[of tag body] by (simp del: length_message_text add: drop_append)
  moreover have "stream_parse limit ?r = (ms, rest)" using Cons by simp
  ultimately show ?case by (subst stream_parse.simps) (simp add: m)
qed

end
