(* ===== verification/Pg_Claims.thy ===== *)
theory Pg_Claims
  imports Pg_Frame
begin

text \<open>
  The properties of the PostgreSQL message writer and frame codec, each with a witness over the list
  instance of the spare buffer.
\<close>

section \<open>Messages\<close>

text \<open>C16: A Bind message is written exactly when there is room for it: what is then appended is one typed
  message of the right length, and a frame codec whose limit admits it takes it whole from the front of any
  input, name, formats and values in order.\<close>

theorem bind_framed:
  assumes "spare_laws W" and "writes W write values a"
    and "body = bind_body name formats params results values" and "length body + 4 \<le> i32_max"
    and "length body + 4 < limit" and "limit \<le> u32_max"
  shows "((\<exists>s'. wr_bind W name formats params results write s = Inr (s', a) \<and>
        sp_content W s' = sp_content W s @ message_text fe_bind body) \<longleftrightarrow> length body + 5 \<le> sp_room W s) \<and>
    (length body + 5 > sp_room W s \<longrightarrow> (\<exists>e. wr_bind W name formats params results write s = Inl e)) \<and>
    codec_parse limit need (message_text fe_bind body @ rest) = Inr (Item (Message fe_bind body) (length body + 5))"
proof -
  note w = writes_bind[OF assms(1,2,4)[unfolded assms(3)], folded assms(3)]
  have "\<exists>e. wr_bind W name formats params results write s = Inl e" if "length body + 5 > sp_room W s"
    using writes_full[OF w, of s] that by simp
  then show ?thesis using writes_room[OF w, of s] parse_message[OF assms(5,6)] by fastforce
qed

definition demo_body :: bytes where
  "demo_body = bind_body (ascii ''s1'') [1] 1 [1] [0, 0, 0, 1, 9]"

theorem bind_framed_witness:
  "(\<exists>s'. wr_bind list_spare (ascii ''s1'') [1] 1 [1] (wr_extend list_spare [0, 0, 0, 1, 9]) (100, []) = Inr (s', ()) \<and>
      sp_content list_spare s' = message_text fe_bind demo_body) \<and>
   codec_parse 1000 (\<lambda>_. None) (message_text fe_bind demo_body @ [83]) =
     Inr (Item (Message fe_bind demo_body) (length demo_body + 5))"
proof -
  have "length demo_body = 19" by (simp add: demo_body_def bind_body_def cstr_def formats_text_def ascii_def)
  then show ?thesis
    using bind_framed[OF list_spare_laws writes_extend[OF list_spare_laws, of "[0, 0, 0, 1, 9]"] demo_body_def,
        of 1000 "(100, [])" "\<lambda>_. None" "[83]"]
    by (simp add: list_spare_def)
qed

text \<open>C17: A startup message is length-prefixed, and a server that reads it gets back the protocol version and
  exactly the parameters the client meant, the schema quoted, when no parameter contains a NUL.\<close>

theorem startup_reads_parameters:
  assumes "spare_laws W" and "params = startup_params user database app schema timeout"
    and "length (startup_body params) + 4 \<le> i32_max" and "length (startup_body params) + 4 \<le> sp_room W s"
    and "0 \<notin> set user" and "0 \<notin> set database" and "0 \<notin> set app" and "\<And>x. schema = Some x \<Longrightarrow> 0 \<notin> set x"
  shows "\<exists>s'. wr_startup W user database app schema timeout s = Inr (s', ()) \<and>
    sp_content W s' = sp_content W s @ be32 (length (startup_body params) + 4) @ startup_body params \<and>
    take 4 (startup_body params) = be32 196608 \<and> read_params (drop 4 (startup_body params)) = Some params"
proof -
  note w = writes_startup[OF assms(1) assms(3)[unfolded assms(2)], folded assms(2)]
  have "take 4 (startup_body params) = be32 196608" by (simp add: startup_body_def)
  with writes_room[OF w, of s] startup_reads_back[OF assms(5-8), where timeout = timeout] assms(2,4) show ?thesis by auto
qed

theorem startup_reads_parameters_witness:
  "\<exists>s'. wr_startup list_spare (ascii ''u'') (ascii ''d'') (ascii ''a'') (Some (ascii ''x\"y'')) 7 (500, []) = Inr (s', ()) \<and>
     read_params (drop 8 (sp_content list_spare s')) =
       Some (startup_params (ascii ''u'') (ascii ''d'') (ascii ''a'') (Some (ascii ''x\"y'')) 7)"
proof -
  let ?p = "startup_params (ascii ''u'') (ascii ''d'') (ascii ''a'') (Some (ascii ''x\"y'')) 7"
  have "length (startup_body ?p) + 4 \<le> 200"
    by (simp add: startup_body_def startup_params_def cstr_def ascii_def double_quotes_def decimal.simps)
  then have l: "length (startup_body ?p) + 4 \<le> i32_max" "length (startup_body ?p) + 4 \<le> sp_room list_spare (500, [])"
    by (simp_all add: list_spare_def)
  obtain s' where s': "wr_startup list_spare (ascii ''u'') (ascii ''d'') (ascii ''a'') (Some (ascii ''x\"y'')) 7 (500, []) = Inr (s', ())"
    "sp_content list_spare s' = sp_content list_spare (500, []) @ be32 (length (startup_body ?p) + 4) @ startup_body ?p"
    "read_params (drop 4 (startup_body ?p)) = Some ?p"
    using startup_reads_parameters[OF list_spare_laws refl l] by (auto simp: ascii_def)
  have "drop 8 (sp_content list_spare s') = drop 4 (startup_body ?p)" using s'(2) by (simp add: list_spare_def)
  with s' show ?thesis by auto
qed

text \<open>C18: A final password message whose body does not fit the signed 32-bit length of the protocol is refused,
  whatever writes the body and whatever the buffer.\<close>

theorem oversized_refused:
  assumes "spare_laws W" and "writes W write t a" and "i32_max < length t + 4"
  shows "\<exists>e. wr_sasl_final W write s = Inl e"
proof -
  have "\<exists>e. wr_patch W True write s' = Inl e" for s' using patch_too_long[OF assms(1,2), of True] assms(3) by simp
  then show ?thesis by (cases "wr_push W fe_password s") (auto simp: wr_sasl_final_def andthen_def)
qed

theorem oversized_refused_witness:
  "\<exists>e. wr_sasl_final list_spare (wr_extend list_spare (replicate 2147483647 0)) (10, []) = Inl e"
  by (rule oversized_refused[OF list_spare_laws writes_extend[OF list_spare_laws]]) simp

section \<open>The frame codec\<close>

text \<open>C19: A stream of messages within the limit followed by a proper prefix of a further message is cut into
  exactly those messages, and the prefix is left for more input.\<close>

theorem stream_cut:
  assumes "limit \<le> u32_max" and "\<forall>(tag, body) \<in> set ms. length body + 4 < limit"
    and "length body' + 4 < limit" and "rest @ missing = message_text tag' body'" and "missing \<noteq> []"
  shows "stream_parse limit (concat (map (\<lambda>(tag, body). message_text tag body) ms) @ rest) = (ms, rest)"
  using stream_parse_messages[OF assms(1,2) parse_prefix[OF assms(3,1,4,5)]] .

theorem stream_cut_witness:
  "stream_parse 100 (message_text 50 [] @ message_text 90 [73] @ [67, 0, 0]) = ([(50, []), (90, [73])], [67, 0, 0])"
  using stream_cut[of 100 "[(50, []), (90, [73])]" "[1]" "[67, 0, 0]" "[0, 5, 1]" 67]
  by (simp add: message_text_def be32_bytes)

text \<open>C20: On any input the codec returns; when it takes an item, the item is the front of the input: either a
  whole message whose declared length is below the limit, or the error of the length that is declared, a
  length below 4 taking all input and a length that reaches the limit the five bytes of the header.\<close>

theorem codec_total:
  assumes "limit \<le> u32_max" and "length bs \<le> u64_max"
  shows "\<exists>r. codec_parse limit need bs = Inr r \<and>
    (case r of
       Item h n \<Rightarrow> 0 < n \<and> n \<le> length bs \<and>
         (case h of
            Message tag body \<Rightarrow> bs = message_text tag body @ drop n bs \<and> n = length body + 5 \<and> length body + 4 < limit
          | Fatal e \<Rightarrow> (wire_word bs < 4 \<and> e = PgProtocol (FrameLength (wire_word bs) 4) \<and> n = length bs) \<or>
              (limit \<le> wire_word bs \<and> 4 \<le> wire_word bs \<and> e = PgProtocol (FrameCapacity (wire_word bs) limit) \<and> n = 5))
     | More k \<Rightarrow> True | CapacityExhausted \<Rightarrow> True)"
proof -
  obtain r where r: "codec_parse limit need bs = Inr r" using parse_never_fails[OF assms(2,1)] by blast
  show ?thesis
  proof (cases r)
    case (Item h n)
    with parse_item[OF assms(1) r[unfolded Item] assms(2)] r show ?thesis by simp
  qed (use r in auto)
qed

theorem codec_total_witness:
  "\<exists>r. codec_parse 100 (\<lambda>_. None) [90, 0, 0, 0, 3, 1] = Inr r \<and> r = Item (Fatal (PgProtocol (FrameLength 3 4))) 6"
proof -
  have "wire_word [90, 0, 0, 0, 3, 1] = 3" by (simp add: wire_word_def from_be_def)
  then show ?thesis
    using codec_total[of 100 "[90, 0, 0, 0, 3, 1]" "\<lambda>_. None"]
    by (simp add: codec_parse_def try_consumed_def)
qed

end
