(* ===== verification/Pg_Text.thy ===== *)
theory Pg_Text
  imports Pg_Wire
begin

text \<open>
  Text on the wire: \<open>Wire::try_text\<close> of \<open>pg/src/protocol/wire.rs\<close> over the UTF-8 validation of Rust's
  \<open>str::from_utf8\<close>, which reports how long the valid prefix is and how many bytes of the next character
  are wrong (none when the input ends inside it), and the big-endian reads of fixed-width integers.
\<close>

section \<open>UTF-8 validation\<close>

definition utf8_cont :: "byte \<Rightarrow> bool" where
  "utf8_cont b \<longleftrightarrow> 128 \<le> b \<and> b < 192"

text \<open>The second byte of a character of three or four bytes, given the first.\<close>

definition utf8_second3 :: "byte \<Rightarrow> byte \<Rightarrow> bool" where
  "utf8_second3 a b \<longleftrightarrow>
     (if a = 224 then 160 \<le> b \<and> b < 192 else if a = 237 then 128 \<le> b \<and> b < 160 else utf8_cont b)"

definition utf8_second4 :: "byte \<Rightarrow> byte \<Rightarrow> bool" where
  "utf8_second4 a b \<longleftrightarrow>
     (if a = 240 then 144 \<le> b \<and> b < 192 else if a = 244 then 128 \<le> b \<and> b < 144 else utf8_cont b)"

fun utf8_tail :: "nat \<Rightarrow> nat \<Rightarrow> bytes \<Rightarrow> nat option + nat" where
  "utf8_tail k 0 bs = Inr k"
| "utf8_tail k (Suc n) [] = Inl None"
| "utf8_tail k (Suc n) (b # bs) = (if utf8_cont b then utf8_tail (k + 1) n bs else Inl (Some k))"

text \<open>The width of the first character, or the length of the error in it.\<close>

definition utf8_next :: "byte \<Rightarrow> bytes \<Rightarrow> nat option + nat" where
  "utf8_next a bs =
     (if a < 128 then Inr 1
      else if 194 \<le> a \<and> a < 224 then utf8_tail 1 1 bs
      else if 224 \<le> a \<and> a < 240 then
        (case bs of [] \<Rightarrow> Inl None | b # cs \<Rightarrow> if utf8_second3 a b then utf8_tail 2 1 cs else Inl (Some 1))
      else if 240 \<le> a \<and> a < 245 then
        (case bs of [] \<Rightarrow> Inl None | b # cs \<Rightarrow> if utf8_second4 a b then utf8_tail 2 2 cs else Inl (Some 1))
      else Inl (Some 1))"

lemma utf8_tail_bounds: "utf8_tail k n bs = Inr w \<Longrightarrow> w = k + n \<and> n \<le> length bs"
  by (induction k n bs rule: utf8_tail.induct) (auto split: if_splits)

lemma utf8_tail_error: "utf8_tail k n bs = Inl (Some e) \<Longrightarrow> k \<le> e \<and> e < k + n"
  by (induction k n bs rule: utf8_tail.induct) (auto split: if_splits)

lemma utf8_next_bounds: "utf8_next a bs = Inr w \<Longrightarrow> 0 < w \<and> w \<le> 4 \<and> w \<le> Suc (length bs)"
  by (auto simp: utf8_next_def split: if_splits list.splits dest!: utf8_tail_bounds)

lemma utf8_next_error: "utf8_next a bs = Inl (Some e) \<Longrightarrow> 1 \<le> e \<and> e \<le> 3"
  by (auto simp: utf8_next_def split: if_splits list.splits dest!: utf8_tail_error)

text \<open>The first error of a text: where it starts and how long it is.\<close>

function utf8_error :: "nat \<Rightarrow> bytes \<Rightarrow> (nat \<times> nat option) option" where
  "utf8_error at [] = None"
| "utf8_error at (a # bs) =
     (case utf8_next a bs of Inl e \<Rightarrow> Some (at, e) | Inr w \<Rightarrow> utf8_error (at + w) (drop w (a # bs)))"
  by pat_completeness auto
termination
  by (relation "measure (\<lambda>(at, bs). length bs)") (auto dest: utf8_next_bounds)

definition utf8_ok :: "bytes \<Rightarrow> bool" where
  "utf8_ok bs \<longleftrightarrow> utf8_error 0 bs = None"

definition utf8_from_error :: "nat option \<Rightarrow> utf8" where
  "utf8_from_error e =
     (case e of None \<Rightarrow> UIncomplete
      | Some n \<Rightarrow> if n = 1 then UOne else if n = 2 then UTwo else if n = 3 then UThree else UOther)"

definition try_text :: "bytes \<Rightarrow> (nat \<times> utf8) + bytes" where
  "try_text bs =
     (case utf8_error 0 bs of None \<Rightarrow> Inr bs | Some (valid, e) \<Rightarrow> Inl (valid, utf8_from_error e))"

lemma try_text_Inr: "try_text bs = Inr v \<longleftrightarrow> v = bs \<and> utf8_ok bs"
  by (auto simp: try_text_def utf8_ok_def split: option.splits)

lemma utf8_error_shift: "(utf8_error at bs = None) = (utf8_error at' bs = None)"
proof (induction at bs arbitrary: at' rule: utf8_error.induct)
  case (2 at a bs)
  show ?case
  proof (cases "utf8_next a bs")
    case (Inr w)
    from 2[OF Inr, of "at' + w"] show ?thesis by (simp add: Inr)
  qed simp
qed simp

text \<open>A text of seven-bit bytes is valid.\<close>

lemma utf8_ok_ascii: "\<forall>b \<in> set bs. b < 128 \<Longrightarrow> utf8_ok bs"
proof -
  have "\<forall>b \<in> set bs. b < 128 \<Longrightarrow> utf8_error at bs = None" for at
    by (induction bs arbitrary: at) (simp_all add: utf8_next_def)
  then show "\<forall>b \<in> set bs. b < 128 \<Longrightarrow> utf8_ok bs" by (simp add: utf8_ok_def)
qed

text \<open>An error lies inside the text, behind a valid prefix.\<close>

lemma utf8_error_inside: "utf8_error at bs = Some (valid, e) \<Longrightarrow> at \<le> valid \<and> valid < at + length bs"
proof (induction at bs rule: utf8_error.induct)
  case (2 at a bs)
  show ?case
  proof (cases "utf8_next a bs")
    case (Inl x)
    then show ?thesis using 2 by auto
  next
    case (Inr w)
    then have "utf8_error (at + w) (drop w (a # bs)) = Some (valid, e)" using 2(2) by simp
    from 2(1)[OF Inr this] have "at + w \<le> valid \<and> valid < at + w + length (drop w (a # bs))" .
    then show ?thesis by auto
  qed
qed simp

section \<open>Integers of fixed width\<close>

definition from_be_word :: "bytes \<Rightarrow> 'a::len word" where
  "from_be_word bs = word_of_nat (from_be bs)"

definition be_word :: "'a::len word \<Rightarrow> bytes" where
  "be_word w = be_bytes (LENGTH('a) div 8) (unat w)"

abbreviation be_i16 :: "bytes \<Rightarrow> int" where "be_i16 bs \<equiv> sint (from_be_word bs :: 16 word)"
abbreviation be_i32 :: "bytes \<Rightarrow> int" where "be_i32 bs \<equiv> sint (from_be_word bs :: 32 word)"

lemma unat_from_be_word: "8 * length bs \<le> LENGTH('a) \<Longrightarrow> unat (from_be_word bs :: 'a::len word) = from_be bs"
proof -
  assume "8 * length bs \<le> LENGTH('a)"
  then have "(2::nat) ^ (8 * length bs) \<le> 2 ^ LENGTH('a)" by (rule power_increasing) simp
  moreover have "(256::nat) ^ length bs = 2 ^ (8 * length bs)" by (simp add: power_mult)
  ultimately have "from_be bs < 2 ^ LENGTH('a)" using from_be_bound[of bs] by linarith
  then show ?thesis by (simp add: from_be_word_def unat_of_nat take_bit_eq_mod)
qed

lemma be_word_from:
  "8 * length bs = LENGTH('a) \<Longrightarrow> be_word (from_be_word bs :: 'a::len word) = bs"
  by (simp add: be_word_def unat_from_be_word flip: dvd_def)

lemma from_be_be_word:
  assumes "8 dvd LENGTH('a)"
  shows "from_be_word (be_word (w :: 'a::len word)) = w"
proof -
  obtain k where k: "LENGTH('a) = 8 * k" using assms by blast
  have "unat w < 256 ^ k" using unsigned_less[of w] by (simp add: k power_mult)
  then show ?thesis by (simp add: from_be_word_def be_word_def k)
qed

lemma length_be_word [simp]: "length (be_word (w :: 'a::len word)) = LENGTH('a) div 8"
  by (simp add: be_word_def)

text \<open>A signed 32-bit length as the code reads it.\<close>

lemma be_i32_cases:
  assumes "length bs = 4"
  shows "be_i32 bs = (if from_be bs \<le> i32_max then int (from_be bs) else int (from_be bs) - 4294967296)"
proof -
  have b: "from_be bs < 4294967296" using from_be_bound[of bs] assms by simp
  then have "uint (from_be_word bs :: 32 word) = int (from_be bs)"
    using unat_from_be_word[of bs, where 'a = 32] assms by (simp add: uint_nat)
  then have s: "be_i32 bs = take_bit 32 (int (from_be bs)) - 4294967296 * of_bool (odd (int (from_be bs) div 2147483648))"
    by (simp add: sint_uint signed_take_bit_eq_take_bit_minus bit_iff_odd)
  have "int (from_be bs) div 2147483648 = (if from_be bs \<le> i32_max then 0 else 1)"
    using b by (auto intro: div_pos_pos_trivial int_div_pos_eq[of _ _ _ "int (from_be bs) - 2147483648"])
  with s b show ?thesis by (simp add: take_bit_int_eq_self)
qed

end
