(* ===== verification/Pg_Row.thy ===== *)
theory Pg_Row
  imports Pg_Text
begin

text \<open>
  Rows of PostgreSQL results: the row reader of \<open>pg/src/protocol/value/decode/mod.rs\<close>, its scalar, data,
  optional and array readers, the lazily read arrays of \<open>pg/src/schema/array.rs\<close>, the row types of
  \<open>pg/src/schema/row.rs\<close>, and the unchecked second reading of a validated row in
  \<open>decode/checked/\<close>.  Integers and floating point numbers are the words of their bits.
\<close>

section \<open>The row reader\<close>

record row_reader =
  rd_buf :: bytes
  rd_start :: nat
  rd_stop :: nat

record column =
  col_buf :: bytes
  col_index :: nat

datatype field = FieldData column | FieldNull nat

type_synonym 'a reading = "row_reader \<Rightarrow> pg_error + 'a \<times> row_reader"

definition value_error :: "value_reason \<Rightarrow> pg_error + 'a" where
  "value_error r = Inl (PgProtocol (ReasonValue r))"

definition reading_then :: "'a reading \<Rightarrow> ('a \<Rightarrow> 'b reading) \<Rightarrow> 'b reading" where
  "reading_then f g rd = bindr (f rd) (\<lambda>(a, rd). g a rd)"

text \<open>What a reader returns after a step of its column.\<close>

definition reading_map :: "('a \<Rightarrow> pg_error + 'b) \<Rightarrow> 'a reading \<Rightarrow> 'b reading" where
  "reading_map g f rd = bindr (f rd) (\<lambda>(a, rd). bindr (g a) (\<lambda>b. Inr (b, rd)))"

definition row_reader_new :: "bytes \<Rightarrow> nat \<Rightarrow> pg_error + row_reader" where
  "row_reader_new bs want =
     (case split_array 2 bs of
        None \<Rightarrow> value_error (RowTruncated (length bs))
      | Some (head, tail) \<Rightarrow>
          let count = be_i16 head in
          if count < 0 then value_error (NegativeColumnCount count)
          else if nat count \<noteq> want then value_error (ColumnCount (nat count) want)
          else Inr \<lparr>rd_buf = tail, rd_start = 0, rd_stop = nat count\<rparr>)"

definition row_reader_finish :: "row_reader \<Rightarrow> pg_error + unit" where
  "row_reader_finish rd =
     (if rd_start rd < rd_stop rd then value_error (RowUnread (rd_stop rd - rd_start rd))
      else if rd_buf rd \<noteq> [] then value_error (RowTrailing (length (rd_buf rd)))
      else Inr ())"

definition row_reader_nullable :: "bytes \<Rightarrow> 'a reading \<Rightarrow> pg_error + 'a option" where
  "row_reader_nullable bs decode =
     bindr (row_reader_new bs 1) (\<lambda>rd.
     bindr (case split_array 4 (rd_buf rd) of
        Some (head, tail) \<Rightarrow>
          if head = replicate 4 255 then Inr (None, rd\<lparr>rd_buf := tail, rd_start := 1\<rparr>)
          else bindr (decode rd) (\<lambda>(v, rd). Inr (Some v, rd))
      | None \<Rightarrow> bindr (decode rd) (\<lambda>(v, rd). Inr (Some v, rd))) (\<lambda>(v, rd).
     bindr (row_reader_finish rd) (\<lambda>_. Inr v)))"

definition take_column :: "field reading" where
  "take_column rd =
     (if rd_stop rd \<le> rd_start rd then value_error (RowDecoderColumns (rd_stop rd))
      else let index = rd_start rd in
        case split_array 4 (rd_buf rd) of
          None \<Rightarrow> value_error (ColumnLength index (length (rd_buf rd)))
        | Some (head, tail) \<Rightarrow>
            let len = be_i32 head; rd = rd\<lparr>rd_buf := tail, rd_start := index + 1\<rparr> in
            if len = -1 then Inr (FieldNull index, rd)
            else if len < 0 then value_error (NegativeColumnLength index len)
            else case wire_split_at (nat len) (rd_buf rd) of
                None \<Rightarrow> value_error (ColumnBytes index (length (rd_buf rd)) (nat len))
              | Some (head, tail) \<Rightarrow>
                  Inr (FieldData \<lparr>col_buf = head, col_index = index\<rparr>, rd\<lparr>rd_buf := tail\<rparr>))"

definition require_column :: "column reading" where
  "require_column = reading_map (\<lambda>f. case f of FieldData c \<Rightarrow> Inr c | FieldNull i \<Rightarrow> value_error (ColumnNull i)) take_column"

section \<open>Columns\<close>

definition column_width :: "nat \<Rightarrow> pg_error + nat" where
  "column_width n = (if u32_max < n then Inl (PgProtocol (ReasonSession (RequiredLength n))) else Inr n)"

definition column_fixed :: "nat \<Rightarrow> column \<Rightarrow> pg_error + bytes" where
  "column_fixed n c =
     (if length (col_buf c) = n then Inr (col_buf c)
      else bindr (column_width n) (\<lambda>w. value_error (ColumnWidth (col_index c) (length (col_buf c)) w)))"

definition column_bool :: "column \<Rightarrow> pg_error + bool" where
  "column_bool c = bindr (column_fixed 1 c) (\<lambda>bs.
     let b = hd bs in if b = 0 then Inr False else if b = 1 then Inr True else value_error (PgBool (col_index c) b))"

definition column_take_fixed :: "nat \<Rightarrow> column \<Rightarrow> pg_error + bytes \<times> column" where
  "column_take_fixed n c =
     (case split_array n (col_buf c) of
        None \<Rightarrow> bindr (column_width n) (\<lambda>w. value_error (ArrayHeader (col_index c) (length (col_buf c)) w))
      | Some (head, tail) \<Rightarrow> Inr (head, c\<lparr>col_buf := tail\<rparr>))"

definition column_text :: "column \<Rightarrow> pg_error + bytes" where
  "column_text c = map_err (\<lambda>(valid, e). PgProtocol (ReasonValue (TextUtf8 (col_index c) valid e))) (try_text (col_buf c))"

definition column_json :: "column \<Rightarrow> pg_error + bytes" where
  "column_json c =
     (case split_first (col_buf c) of
        None \<Rightarrow> value_error (JsonTruncated (col_index c) 0)
      | Some (version, value) \<Rightarrow>
          if version \<noteq> 1 then value_error (JsonVersion (col_index c) version)
          else map_err (\<lambda>(valid, e). PgProtocol (ReasonValue (JsonUtf8 (col_index c) valid e))) (try_text value))"

definition column_word :: "nat \<Rightarrow> column \<Rightarrow> pg_error + 'a::len word" where
  "column_word n c = bindr (column_fixed n c) (\<lambda>bs. Inr (from_be_word bs))"

section \<open>Arrays\<close>

datatype array_element = ElementExact nat | ElementString

record array_value =
  av_bytes :: bytes
  av_len :: nat

definition array_header :: "array_element \<Rightarrow> column \<Rightarrow> pg_error + nat \<times> column" where
  "array_header want c =
     bindr (column_take_fixed 12 c) (\<lambda>(h, c).
     let ndim = be_i32 (take 4 h); nulls = be_i32 (take 4 (drop 4 h)); oid = from_be (drop 8 h) in
     bindr (case want of
        ElementExact w \<Rightarrow> if oid \<noteq> w then value_error (ArrayOid (col_index c) oid w) else Inr ()
      | ElementString \<Rightarrow> if oid \<notin> {19, 25, 1042, 1043} then value_error (ArrayTextOid (col_index c) oid) else Inr ()) (\<lambda>_.
     if nulls \<noteq> 0 then value_error (ArrayNulls (col_index c) nulls)
     else if ndim = 0 then Inr (0, c)
     else if ndim \<noteq> 1 then value_error (ArrayDimensions (col_index c) ndim)
     else bindr (column_take_fixed 8 c) (\<lambda>(h, c).
       let dim = be_i32 (take 4 h) in
       if dim < 0 then value_error (NegativeArrayDimension (col_index c) dim)
       else if length (col_buf c) div 4 < nat dim then value_error (ArrayPayload (col_index c) (nat dim) (length (col_buf c)))
       else Inr (nat dim, c))))"

definition column_array :: "array_element \<Rightarrow> column \<Rightarrow> pg_error + array_value" where
  "column_array want c = bindr (array_header want c) (\<lambda>(len, c). Inr \<lparr>av_bytes = col_buf c, av_len = len\<rparr>)"

datatype element_type = ElI32 | ElI64 | ElText

datatype element_value = EvI32 "32 word" | EvI64 "64 word" | EvText bytes

text \<open>The elements of a one-dimensional array, read one after another from its bytes.\<close>

definition array_finish :: "bytes \<Rightarrow> pg_error + unit" where
  "array_finish bs = (if bs = [] then Inr () else value_error (ArrayTrailing (length bs)))"

definition array_split :: "bytes \<Rightarrow> pg_error + bytes \<times> bytes" where
  "array_split bs =
     (case split_array 4 bs of
        None \<Rightarrow> value_error (ArrayLength (length bs))
      | Some (head, tail) \<Rightarrow>
          let len = be_i32 head in
          if len = -1 then value_error ArrayNull
          else if len < 0 then value_error (NegativeArrayLength len)
          else ok_or (wire_split_at (nat len) tail) (PgProtocol (ReasonValue (ArrayBytes (length tail) (nat len)))))"

definition element_value :: "element_type \<Rightarrow> bytes \<Rightarrow> pg_error + element_value" where
  "element_value t bs =
     (case t of
        ElI32 \<Rightarrow> if length bs = 4 then Inr (EvI32 (from_be_word bs)) else value_error (ArrayI32Width (length bs))
      | ElI64 \<Rightarrow> if length bs = 8 then Inr (EvI64 (from_be_word bs)) else value_error (ArrayI64Width (length bs))
      | ElText \<Rightarrow> map_err (\<lambda>(valid, e). PgProtocol (ReasonValue (ArrayTextUtf8 valid e))) (bindr (try_text bs) (\<lambda>v. Inr (EvText v))))"

definition element_read :: "element_type \<Rightarrow> bytes \<Rightarrow> pg_error + element_value \<times> bytes" where
  "element_read t bs = bindr (array_split bs) (\<lambda>(e, bs). bindr (element_value t e) (\<lambda>v. Inr (v, bs)))"

text \<open>Allocations are answered by \<open>refuse\<close>, which gives the error for a request of that many units.\<close>

definition allocate :: "(nat \<Rightarrow> pg_error option) \<Rightarrow> nat \<Rightarrow> pg_error + unit" where
  "allocate refuse n = (case refuse n of None \<Rightarrow> Inr () | Some e \<Rightarrow> Inl e)"

definition element_own :: "(nat \<Rightarrow> pg_error option) \<Rightarrow> element_value \<Rightarrow> pg_error + unit" where
  "element_own refuse v = (case v of EvText s \<Rightarrow> allocate refuse (length s) | _ \<Rightarrow> Inr ())"

fun collect_owned :: "(nat \<Rightarrow> pg_error option) \<Rightarrow> element_type \<Rightarrow> nat \<Rightarrow> bytes \<Rightarrow> pg_error + element_value list \<times> bytes" where
  "collect_owned refuse t 0 bs = Inr ([], bs)"
| "collect_owned refuse t (Suc n) bs =
     bindr (element_read t bs) (\<lambda>(v, bs).
     bindr (element_own refuse v) (\<lambda>_.
     bindr (collect_owned refuse t n bs) (\<lambda>(vs, bs). Inr (v # vs, bs))))"

definition try_collect :: "(nat \<Rightarrow> pg_error option) \<Rightarrow> element_type \<Rightarrow> array_value \<Rightarrow> pg_error + element_value list" where
  "try_collect refuse t a =
     bindr (allocate refuse (av_len a)) (\<lambda>_.
     bindr (collect_owned refuse t (av_len a) (av_bytes a)) (\<lambda>(vs, bs).
     bindr (array_finish bs) (\<lambda>_. Inr vs)))"

datatype iter_state = IterReading bytes nat | IterDone

definition array_iter :: "array_value \<Rightarrow> iter_state" where
  "array_iter a = IterReading (av_bytes a) (av_len a)"

fun iter_next :: "element_type \<Rightarrow> iter_state \<Rightarrow> (pg_error + element_value) option \<times> iter_state" where
  "iter_next t IterDone = (None, IterDone)"
| "iter_next t (IterReading bs 0) =
     ((case array_finish bs of Inl e \<Rightarrow> Some (Inl e) | Inr _ \<Rightarrow> None), IterDone)"
| "iter_next t (IterReading bs (Suc n)) =
     (case element_read t bs of
        Inl e \<Rightarrow> (Some (Inl e), IterDone)
      | Inr (v, bs) \<Rightarrow> (Some (Inr v), IterReading bs n))"

definition iter_size_hint :: "iter_state \<Rightarrow> nat \<times> nat option" where
  "iter_size_hint it = (case it of IterReading bs n \<Rightarrow> (0, checked_add64 n 1) | IterDone \<Rightarrow> (0, Some 0))"

section \<open>Row types\<close>

datatype scalar_type =
    ScBool | ScI16 | ScI32 | ScI64 | ScF32 | ScF64 | ScString | ScText | ScJsonb | ScLtree | ScBytes | ScUuid
  | ScTimestamp | ScDate

datatype field_value =
    FvBool bool
  | FvI16 "16 word"
  | FvI32 "32 word"
  | FvI64 "64 word"
  | FvF32 "32 word"
  | FvF64 "64 word"
  | FvText bytes
  | FvBytes bytes
  | FvUuid bytes
  | FvTimestamp "64 word"
  | FvDate "32 word"

datatype row_type =
    RowUnit
  | RowField scalar_type
  | RowOption scalar_type
  | RowVec element_type
  | RowPair row_type row_type
  | RowTriple row_type row_type row_type
  | RowQuad row_type row_type row_type row_type

datatype row_view =
    ViewUnit
  | ViewField field_value
  | ViewOption "field_value option"
  | ViewArray array_value
  | ViewList "element_value list"
  | ViewPair row_view row_view
  | ViewTriple row_view row_view row_view
  | ViewQuad row_view row_view row_view row_view

text \<open>The reading of one column's payload at a scalar type: \<open>Scalar\<close>, \<open>Data\<close> and \<open>read_i32\<close> of the row
  reader require a value and then read it, \<open>Optional\<close> reads it when it is not null.\<close>

fun column_value :: "scalar_type \<Rightarrow> column \<Rightarrow> pg_error + field_value" where
  "column_value ScBool c = bindr (column_bool c) (\<lambda>b. Inr (FvBool b))"
| "column_value ScI16 c = bindr (column_word 2 c) (\<lambda>w. Inr (FvI16 w))"
| "column_value ScI32 c = bindr (column_word 4 c) (\<lambda>w. Inr (FvI32 w))"
| "column_value ScI64 c = bindr (column_word 8 c) (\<lambda>w. Inr (FvI64 w))"
| "column_value ScF32 c = bindr (column_word 4 c) (\<lambda>w. Inr (FvF32 w))"
| "column_value ScF64 c = bindr (column_word 8 c) (\<lambda>w. Inr (FvF64 w))"
| "column_value ScString c = bindr (column_text c) (\<lambda>t. Inr (FvText t))"
| "column_value ScText c = bindr (column_text c) (\<lambda>t. Inr (FvText t))"
| "column_value ScJsonb c = bindr (column_json c) (\<lambda>t. Inr (FvText t))"
| "column_value ScLtree c = bindr (column_text c) (\<lambda>t. Inr (FvText t))"
| "column_value ScBytes c = Inr (FvBytes (col_buf c))"
| "column_value ScUuid c = bindr (column_fixed 16 c) (\<lambda>bs. Inr (FvUuid bs))"
| "column_value ScTimestamp c = bindr (column_word 8 c) (\<lambda>w. Inr (FvTimestamp w))"
| "column_value ScDate c = bindr (column_word 4 c) (\<lambda>w. Inr (FvDate w))"

definition read_scalar :: "scalar_type \<Rightarrow> field_value reading" where
  "read_scalar t = reading_map (column_value t) require_column"

definition read_optional :: "scalar_type \<Rightarrow> field_value option reading" where
  "read_optional t = reading_map
     (\<lambda>f. case f of FieldData c \<Rightarrow> bindr (column_value t c) (\<lambda>v. Inr (Some v)) | FieldNull _ \<Rightarrow> Inr None) take_column"

definition array_oid :: "element_type \<Rightarrow> array_element" where
  "array_oid t = (case t of ElI32 \<Rightarrow> ElementExact 23 | ElI64 \<Rightarrow> ElementExact 20 | ElText \<Rightarrow> ElementString)"

definition read_array :: "element_type \<Rightarrow> array_value reading" where
  "read_array t = reading_map (column_array (array_oid t)) require_column"

text \<open>The \<open>decode\<close> of the field types: scalars, optional scalars, vectors.\<close>

definition row_field :: "scalar_type \<Rightarrow> row_view reading" where
  "row_field t = reading_map (\<lambda>v. Inr (ViewField v)) (read_scalar t)"

definition row_option :: "scalar_type \<Rightarrow> row_view reading" where
  "row_option t = reading_map (\<lambda>v. Inr (ViewOption v)) (read_optional t)"

definition row_vec :: "element_type \<Rightarrow> row_view reading" where
  "row_vec t = reading_map (\<lambda>a. Inr (ViewArray a)) (read_array t)"

fun row_decode :: "row_type \<Rightarrow> row_view reading" where
  "row_decode RowUnit rd = Inr (ViewUnit, rd)"
| "row_decode (RowField t) rd = row_field t rd"
| "row_decode (RowOption t) rd = row_option t rd"
| "row_decode (RowVec t) rd = row_vec t rd"
| "row_decode (RowPair a b) rd =
     reading_then (row_decode a) (\<lambda>x. reading_then (row_decode b) (\<lambda>y rd. Inr (ViewPair x y, rd))) rd"
| "row_decode (RowTriple a b c) rd =
     reading_then (row_decode a) (\<lambda>x. reading_then (row_decode b) (\<lambda>y. reading_then (row_decode c) (\<lambda>z rd.
       Inr (ViewTriple x y z, rd)))) rd"
| "row_decode (RowQuad a b c d) rd =
     reading_then (row_decode a) (\<lambda>x. reading_then (row_decode b) (\<lambda>y. reading_then (row_decode c) (\<lambda>z.
       reading_then (row_decode d) (\<lambda>w rd. Inr (ViewQuad x y z w, rd))))) rd"

text \<open>Owned rows copy texts and byte strings, and collect arrays.\<close>

definition value_own :: "(nat \<Rightarrow> pg_error option) \<Rightarrow> field_value \<Rightarrow> pg_error + field_value" where
  "value_own refuse v =
     (case v of FvText t \<Rightarrow> bindr (allocate refuse (length t)) (\<lambda>_. Inr v)
      | FvBytes t \<Rightarrow> bindr (allocate refuse (length t)) (\<lambda>_. Inr v)
      | _ \<Rightarrow> Inr v)"

definition row_field_owned :: "(nat \<Rightarrow> pg_error option) \<Rightarrow> scalar_type \<Rightarrow> row_view reading" where
  "row_field_owned q t = reading_map (\<lambda>v. bindr (value_own q v) (\<lambda>v. Inr (ViewField v))) (read_scalar t)"

definition row_option_owned :: "(nat \<Rightarrow> pg_error option) \<Rightarrow> scalar_type \<Rightarrow> row_view reading" where
  "row_option_owned q t =
     reading_map (\<lambda>v. case v of None \<Rightarrow> Inr (ViewOption None)
       | Some v \<Rightarrow> bindr (value_own q v) (\<lambda>v. Inr (ViewOption (Some v)))) (read_optional t)"

definition row_vec_owned :: "(nat \<Rightarrow> pg_error option) \<Rightarrow> element_type \<Rightarrow> row_view reading" where
  "row_vec_owned q t = reading_map (\<lambda>a. bindr (try_collect q t a) (\<lambda>vs. Inr (ViewList vs))) (read_array t)"

fun row_decode_owned :: "(nat \<Rightarrow> pg_error option) \<Rightarrow> row_type \<Rightarrow> row_view reading" where
  "row_decode_owned q RowUnit rd = Inr (ViewUnit, rd)"
| "row_decode_owned q (RowField t) rd = row_field_owned q t rd"
| "row_decode_owned q (RowOption t) rd = row_option_owned q t rd"
| "row_decode_owned q (RowVec t) rd = row_vec_owned q t rd"
| "row_decode_owned q (RowPair a b) rd =
     reading_then (row_decode_owned q a) (\<lambda>x. reading_then (row_decode_owned q b) (\<lambda>y rd. Inr (ViewPair x y, rd))) rd"
| "row_decode_owned q (RowTriple a b c) rd =
     reading_then (row_decode_owned q a) (\<lambda>x. reading_then (row_decode_owned q b) (\<lambda>y.
     reading_then (row_decode_owned q c) (\<lambda>z rd. Inr (ViewTriple x y z, rd)))) rd"
| "row_decode_owned q (RowQuad a b c d) rd =
     reading_then (row_decode_owned q a) (\<lambda>x. reading_then (row_decode_owned q b) (\<lambda>y.
     reading_then (row_decode_owned q c) (\<lambda>z. reading_then (row_decode_owned q d) (\<lambda>w rd.
       Inr (ViewQuad x y z w, rd))))) rd"

section \<open>Decoding a row\<close>

text \<open>\<open>Row::decode\<close> of a result row, and \<open>Row::into_owned\<close>.\<close>

definition row_parse :: "row_type \<Rightarrow> bytes \<Rightarrow> nat \<Rightarrow> pg_error + row_view" where
  "row_parse t bs n = bindr (row_reader_new bs n) (\<lambda>rd. bindr (row_decode t rd) (\<lambda>(v, rd). bindr (row_reader_finish rd) (\<lambda>_. Inr v)))"

definition row_into_owned :: "(nat \<Rightarrow> pg_error option) \<Rightarrow> row_type \<Rightarrow> bytes \<Rightarrow> nat \<Rightarrow> pg_error + row_view" where
  "row_into_owned q t bs n =
     bindr (row_reader_new bs n) (\<lambda>rd. bindr (row_decode_owned q t rd) (\<lambda>(v, rd). bindr (row_reader_finish rd) (\<lambda>_. Inr v)))"

text \<open>Rows of a scalar query, whose one column may be null.\<close>

definition scalar_decode :: "row_type \<Rightarrow> bytes \<Rightarrow> pg_error + row_view option" where
  "scalar_decode t bs = row_reader_nullable bs (row_decode t)"

definition scalar_into_owned :: "(nat \<Rightarrow> pg_error option) \<Rightarrow> row_type \<Rightarrow> bytes \<Rightarrow> pg_error + row_view option" where
  "scalar_into_owned q t bs = row_reader_nullable bs (row_decode_owned q t)"

section \<open>Validated rows\<close>

text \<open>The closed field descriptions: pairs ending in a unit, over five scalar types.\<close>

fun checked_fields :: "row_type \<Rightarrow> bool" where
  "checked_fields (RowField t) \<longleftrightarrow> t \<in> {ScBool, ScI32, ScI64, ScString, ScJsonb}"
| "checked_fields (RowPair a b) \<longleftrightarrow> checked_fields a \<and> (b = RowUnit \<or> checked_fields b)"
| "checked_fields _ \<longleftrightarrow> False"

definition row_validate :: "row_type \<Rightarrow> bytes \<Rightarrow> nat \<Rightarrow> pg_error + unit" where
  "row_validate t bs columns =
     bindr (row_reader_new bs columns) (\<lambda>rd. bindr (row_decode t rd) (\<lambda>(_, rd). row_reader_finish rd))"

text \<open>The unchecked cursor.  \<open>None\<close> is a read outside the row, or a text that is not UTF-8, which the
  source's unsafe code assumes away.\<close>

definition cursor_fixed :: "nat \<Rightarrow> bytes \<Rightarrow> (bytes \<times> bytes) option" where
  "cursor_fixed n bs = (if 4 + n \<le> length bs then Some (take n (drop 4 bs), drop (4 + n) bs) else None)"

definition cursor_text :: "nat \<Rightarrow> bytes \<Rightarrow> (bytes \<times> bytes) option" where
  "cursor_text prefix bs =
     (if 4 \<le> length bs then
        let len = be_i32 (take 4 bs) in
        if len < 0 then None
        else case subslice (4 + prefix) (4 + nat len) bs of
            None \<Rightarrow> None
          | Some t \<Rightarrow> if utf8_ok t then Some (t, drop (4 + nat len) bs) else None
      else None)"

fun fields_read :: "row_type \<Rightarrow> bytes \<Rightarrow> (row_view \<times> bytes) option" where
  "fields_read (RowPair a RowUnit) bs = map_option (\<lambda>(v, bs). (ViewPair v ViewUnit, bs)) (fields_read a bs)"
| "fields_read (RowPair a b) bs =
     (case fields_read a bs of None \<Rightarrow> None
      | Some (v, bs) \<Rightarrow> map_option (\<lambda>(w, bs). (ViewPair v w, bs)) (fields_read b bs))"
| "fields_read (RowField ScBool) bs = map_option (\<lambda>(x, bs). (ViewField (FvBool (hd x \<noteq> 0)), bs)) (cursor_fixed 1 bs)"
| "fields_read (RowField ScI32) bs = map_option (\<lambda>(x, bs). (ViewField (FvI32 (from_be_word x)), bs)) (cursor_fixed 4 bs)"
| "fields_read (RowField ScI64) bs = map_option (\<lambda>(x, bs). (ViewField (FvI64 (from_be_word x)), bs)) (cursor_fixed 8 bs)"
| "fields_read (RowField ScString) bs = map_option (\<lambda>(x, bs). (ViewField (FvText x), bs)) (cursor_text 0 bs)"
| "fields_read (RowField ScJsonb) bs = map_option (\<lambda>(x, bs). (ViewField (FvText x), bs)) (cursor_text 1 bs)"
| "fields_read _ bs = None"

definition row_read :: "row_type \<Rightarrow> bytes \<Rightarrow> row_view option" where
  "row_read t bs = (if 2 \<le> length bs then map_option fst (fields_read t (drop 2 bs)) else None)"

end
