(* ===== verification/Pg_Row_Spec.thy ===== *)
theory Pg_Row_Spec
  imports Pg_Row
begin

text \<open>
  What a row is, apart from the reader: a count and its columns, each null or a value with its length.
  The reader accepts exactly the rows whose columns have values of the row type, and the unchecked second
  reading of a validated row gives the same values inside the row.
\<close>

section \<open>Rows as lists of columns\<close>

definition field_bytes :: "bytes option \<Rightarrow> bytes" where
  "field_bytes f = (case f of None \<Rightarrow> replicate 4 255 | Some p \<Rightarrow> be32 (length p) @ p)"

definition row_bytes :: "bytes option list \<Rightarrow> bytes" where
  "row_bytes cols = be16 (length cols) @ concat (map field_bytes cols)"

definition field_fits :: "bytes option \<Rightarrow> bool" where
  "field_fits f \<longleftrightarrow> (case f of None \<Rightarrow> True | Some p \<Rightarrow> length p \<le> i32_max)"

abbreviation column_of :: "nat \<Rightarrow> bytes \<Rightarrow> column" where
  "column_of i p \<equiv> \<lparr>col_buf = p, col_index = i\<rparr>"

text \<open>The value of a payload at a scalar type.\<close>

fun scalar_value :: "scalar_type \<Rightarrow> bytes \<Rightarrow> field_value option" where
  "scalar_value ScBool p = (if p = [0] then Some (FvBool False) else if p = [1] then Some (FvBool True) else None)"
| "scalar_value ScI16 p = (if length p = 2 then Some (FvI16 (from_be_word p)) else None)"
| "scalar_value ScI32 p = (if length p = 4 then Some (FvI32 (from_be_word p)) else None)"
| "scalar_value ScI64 p = (if length p = 8 then Some (FvI64 (from_be_word p)) else None)"
| "scalar_value ScF32 p = (if length p = 4 then Some (FvF32 (from_be_word p)) else None)"
| "scalar_value ScF64 p = (if length p = 8 then Some (FvF64 (from_be_word p)) else None)"
| "scalar_value ScJsonb p = (case p of [] \<Rightarrow> None | v # t \<Rightarrow> if v = 1 \<and> utf8_ok t then Some (FvText t) else None)"
| "scalar_value ScBytes p = Some (FvBytes p)"
| "scalar_value ScUuid p = (if length p = 16 then Some (FvUuid p) else None)"
| "scalar_value ScTimestamp p = (if length p = 8 then Some (FvTimestamp (from_be_word p)) else None)"
| "scalar_value ScDate p = (if length p = 4 then Some (FvDate (from_be_word p)) else None)"
| "scalar_value _ p = (if utf8_ok p then Some (FvText p) else None)"

text \<open>An array without nulls and at most one dimension, whose elements are still to be read.\<close>

definition element_oid_ok :: "element_type \<Rightarrow> nat \<Rightarrow> bool" where
  "element_oid_ok t oid \<longleftrightarrow> (case t of ElI32 \<Rightarrow> oid = 23 | ElI64 \<Rightarrow> oid = 20 | ElText \<Rightarrow> oid \<in> {19, 25, 1042, 1043})"

definition array_of_bytes :: "element_type \<Rightarrow> bytes \<Rightarrow> array_value option" where
  "array_of_bytes t p =
     (if 12 \<le> length p \<and> from_be (take 4 (drop 4 p)) = 0 \<and> element_oid_ok t (from_be (take 4 (drop 8 p))) then
        if from_be (take 4 p) = 0 then Some \<lparr>av_bytes = drop 12 p, av_len = 0\<rparr>
        else if from_be (take 4 p) = 1 \<and> 20 \<le> length p \<and> from_be (take 4 (drop 12 p)) \<le> i32_max \<and>
            from_be (take 4 (drop 12 p)) \<le> (length p - 20) div 4
        then Some \<lparr>av_bytes = drop 20 p, av_len = from_be (take 4 (drop 12 p))\<rparr>
        else None
      else None)"

text \<open>The number of columns of a row type, and the view of that many columns.\<close>

fun row_width :: "row_type \<Rightarrow> nat" where
  "row_width RowUnit = 0"
| "row_width (RowField t) = 1"
| "row_width (RowOption t) = 1"
| "row_width (RowVec t) = 1"
| "row_width (RowPair a b) = row_width a + row_width b"
| "row_width (RowTriple a b c) = row_width a + row_width b + row_width c"
| "row_width (RowQuad a b c d) = row_width a + row_width b + row_width c + row_width d"

definition cell_view :: "(bytes option \<Rightarrow> 'a option) \<Rightarrow> bytes option list \<Rightarrow> ('a \<times> bytes option list) option" where
  "cell_view h cols = (case cols of [] \<Rightarrow> None | c # rest \<Rightarrow> map_option (\<lambda>v. (v, rest)) (h c))"

definition view_then where
  "view_then f g cols = Option.bind (f cols) (\<lambda>(x, cols). g x cols)"

fun row_view :: "row_type \<Rightarrow> bytes option list \<Rightarrow> (row_view \<times> bytes option list) option" where
  "row_view RowUnit cols = Some (ViewUnit, cols)"
| "row_view (RowField t) cols = cell_view (\<lambda>c. Option.bind c (\<lambda>p. map_option ViewField (scalar_value t p))) cols"
| "row_view (RowOption t) cols =
     cell_view (\<lambda>c. case c of None \<Rightarrow> Some (ViewOption None)
       | Some p \<Rightarrow> map_option (\<lambda>v. ViewOption (Some v)) (scalar_value t p)) cols"
| "row_view (RowVec t) cols = cell_view (\<lambda>c. Option.bind c (\<lambda>p. map_option ViewArray (array_of_bytes t p))) cols"
| "row_view (RowPair a b) cols =
     view_then (row_view a) (\<lambda>x. view_then (row_view b) (\<lambda>y cols. Some (ViewPair x y, cols))) cols"
| "row_view (RowTriple a b c) cols =
     view_then (row_view a) (\<lambda>x. view_then (row_view b) (\<lambda>y. view_then (row_view c) (\<lambda>z cols.
       Some (ViewTriple x y z, cols)))) cols"
| "row_view (RowQuad a b c d) cols =
     view_then (row_view a) (\<lambda>x. view_then (row_view b) (\<lambda>y. view_then (row_view c) (\<lambda>z.
       view_then (row_view d) (\<lambda>w cols. Some (ViewQuad x y z w, cols))))) cols"

section \<open>Payloads\<close>

lemma value_error_not_Inr [simp]: "value_error r \<noteq> Inr v"
  by (simp add: value_error_def)

lemma column_width_error [simp]: "bindr (column_width n) (\<lambda>w. value_error (f w)) \<noteq> Inr v"
  by (simp add: column_width_def value_error_def)

lemma column_fixed_Inr: "column_fixed n c = Inr bs \<longleftrightarrow> length (col_buf c) = n \<and> bs = col_buf c"
  by (auto simp: column_fixed_def)

lemma column_word_Inr: "column_word n c = Inr w \<longleftrightarrow> length (col_buf c) = n \<and> w = from_be_word (col_buf c)"
  by (auto simp: column_word_def bindr_Inr_iff column_fixed_Inr)

lemma column_bool_Inr: "column_bool c = Inr b \<longleftrightarrow> (b = False \<and> col_buf c = [0] \<or> b = True \<and> col_buf c = [1])"
proof -
  have "length (col_buf c) = 1 \<longleftrightarrow> (\<exists>x. col_buf c = [x])" by (auto simp: length_Suc_conv)
  then show ?thesis
    by (auto simp: column_bool_def bindr_Inr_iff column_fixed_Inr Let_def simp del: One_nat_def split: if_splits)
qed

lemma column_text_Inr: "column_text c = Inr t \<longleftrightarrow> utf8_ok (col_buf c) \<and> t = col_buf c"
  by (auto simp: column_text_def map_err_Inr_iff try_text_Inr)

lemma column_json_Inr: "column_json c = Inr t \<longleftrightarrow> col_buf c = 1 # t \<and> utf8_ok t"
  by (cases "col_buf c") (auto simp: column_json_def map_err_Inr_iff try_text_Inr)

lemma column_value_Inr: "column_value t c = Inr v \<longleftrightarrow> scalar_value t (col_buf c) = Some v"
  by (cases t)
     (auto simp: bindr_Inr_iff column_word_Inr column_bool_Inr column_text_Inr column_json_Inr column_fixed_Inr
       split: list.splits)

lemma column_take_fixed_Inr:
  "column_take_fixed n c = Inr (h, c') \<longleftrightarrow>
     n \<le> length (col_buf c) \<and> h = take n (col_buf c) \<and> c' = c\<lparr>col_buf := drop n (col_buf c)\<rparr>"
  by (auto simp: column_take_fixed_def split_array_def)

lemma be_i32_eq_0: "length bs = 4 \<Longrightarrow> be_i32 bs = 0 \<longleftrightarrow> from_be bs = 0"
  using be_i32_cases[of bs] from_be_bound[of bs] by (auto split: if_splits)

lemma be_i32_eq_1: "length bs = 4 \<Longrightarrow> be_i32 bs = 1 \<longleftrightarrow> from_be bs = 1"
  using be_i32_cases[of bs] from_be_bound[of bs] by (auto split: if_splits)

lemma be_i32_neg: "length bs = 4 \<Longrightarrow> be_i32 bs < 0 \<longleftrightarrow> i32_max < from_be bs"
  using be_i32_cases[of bs] from_be_bound[of bs] by (auto split: if_splits)

lemma be_i32_nat: "length bs = 4 \<Longrightarrow> from_be bs \<le> i32_max \<Longrightarrow> nat (be_i32 bs) = from_be bs"
  using be_i32_cases[of bs] by simp

lemma column_array_Inr: "column_array (array_oid t) c = Inr a \<longleftrightarrow> array_of_bytes t (col_buf c) = Some a"
proof (cases "12 \<le> length (col_buf c)")
  case False
  then show ?thesis
    by (auto simp: column_array_def array_header_def bindr_Inr_iff column_take_fixed_Inr array_of_bytes_def)
next
  case True
  let ?p = "col_buf c"
  let ?ndim = "take 4 ?p" and ?nulls = "take 4 (drop 4 ?p)" and ?oid = "take 4 (drop 8 ?p)" and ?dim = "take 4 (drop 12 ?p)"
  have h: "column_take_fixed 12 c = Inr (take 12 ?p, c\<lparr>col_buf := drop 12 ?p\<rparr>)"
    using True by (simp add: column_take_fixed_Inr)
  have t: "take 4 (take 12 ?p) = ?ndim" "take 4 (drop 4 (take 12 ?p)) = ?nulls" "drop 8 (take 12 ?p) = ?oid"
    by (simp_all add: drop_take)
  have l: "length ?ndim = 4" "length ?nulls = 4" "length ?oid = 4" using True by simp_all
  have ve: "bindr (value_error r) f \<noteq> Inr x" for r f x by (simp add: value_error_def)
  define T where "T = bindr (column_take_fixed 8 (c\<lparr>col_buf := drop 12 ?p\<rparr>)) (\<lambda>(h, c).
         let dim = be_i32 (take 4 h) in
         if dim < 0 then value_error (NegativeArrayDimension (col_index c) dim)
         else if length (col_buf c) div 4 < nat dim then value_error (ArrayPayload (col_index c) (nat dim) (length (col_buf c)))
         else Inr (nat dim, c))"
  have head: "array_header (array_oid t) c =
      (if \<not> element_oid_ok t (from_be ?oid) then value_error (case t of ElI32 \<Rightarrow> ArrayOid (col_index c) (from_be ?oid) 23
         | ElI64 \<Rightarrow> ArrayOid (col_index c) (from_be ?oid) 20 | ElText \<Rightarrow> ArrayTextOid (col_index c) (from_be ?oid))
       else if from_be ?nulls \<noteq> 0 then value_error (ArrayNulls (col_index c) (be_i32 ?nulls))
       else if from_be ?ndim = 0 then Inr (0, c\<lparr>col_buf := drop 12 ?p\<rparr>)
       else if from_be ?ndim \<noteq> 1 then value_error (ArrayDimensions (col_index c) (be_i32 ?ndim))
       else T)"
    unfolding T_def array_header_def h bindr.simps Let_def t prod.case
    by (cases t)
      (simp_all add: array_oid_def element_oid_ok_def be_i32_eq_0[OF l(1)] be_i32_eq_0[OF l(2)] be_i32_eq_1[OF l(1)] value_error_def)
  have tail: "T = Inr (n, d) \<longleftrightarrow>
      20 \<le> length ?p \<and> from_be ?dim \<le> i32_max \<and> from_be ?dim \<le> (length ?p - 20) div 4 \<and> n = from_be ?dim \<and>
      d = c\<lparr>col_buf := drop 20 ?p\<rparr>" for n d
  proof (cases "20 \<le> length ?p")
    case True
    then have l': "length ?dim = 4" by simp
    have h': "column_take_fixed 8 (c\<lparr>col_buf := drop 12 ?p\<rparr>) = Inr (take 8 (drop 12 ?p), c\<lparr>col_buf := drop 20 ?p\<rparr>)"
      using True by (simp add: column_take_fixed_Inr)
    have t': "take 4 (take 8 (drop 12 ?p)) = ?dim" by simp
    show ?thesis
    proof (cases "from_be ?dim \<le> i32_max")
      case True
      then show ?thesis using \<open>20 \<le> length ?p\<close> be_i32_nat[OF l' True] be_i32_neg[OF l']
        unfolding T_def h' bindr.simps prod.case Let_def t' by (auto simp: not_less)
    next
      case False
      then show ?thesis using be_i32_neg[OF l'] unfolding T_def h' bindr.simps prod.case Let_def t' by auto
    qed
  next
    case False
    then show ?thesis by (auto simp: T_def bindr_Inr_iff column_take_fixed_Inr)
  qed
  show ?thesis
    unfolding column_array_def head array_of_bytes_def using True
    by (auto simp: ve bindr_Inr_iff tail)
qed

section \<open>The reader on columns\<close>

definition field_of :: "nat \<Rightarrow> bytes option \<Rightarrow> field" where
  "field_of i f = (case f of None \<Rightarrow> FieldNull i | Some p \<Rightarrow> FieldData (column_of i p))"

text \<open>\<open>f\<close> takes columns that \<open>P\<close> relates to the value it returns, and takes any such columns.\<close>

definition reads_columns :: "'a reading \<Rightarrow> (bytes option list \<Rightarrow> 'a \<Rightarrow> bool) \<Rightarrow> bool" where
  "reads_columns f P \<longleftrightarrow> (\<forall>rd v rd'. f rd = Inr (v, rd') \<longleftrightarrow>
     (\<exists>cols buf. rd_buf rd = concat (map field_bytes cols) @ buf \<and> (\<forall>c \<in> set cols. field_fits c) \<and> P cols v \<and>
        (cols \<noteq> [] \<longrightarrow> rd_start rd + length cols \<le> rd_stop rd) \<and>
        rd' = rd\<lparr>rd_buf := buf, rd_start := rd_start rd + length cols\<rparr>))"

lemma replicate_4: "replicate 4 x = [x, x, x, x]"
  by (simp add: numeral_eq_Suc)

lemma from_be_255: "from_be (replicate 4 255) = 4294967295"
  by (simp add: from_be_def replicate_4)

lemma minus_one_32: "length bs = 4 \<Longrightarrow> be_i32 bs = -1 \<longleftrightarrow> bs = replicate 4 255"
proof
  assume l: "length bs = 4" and "be_i32 bs = -1"
  then have "from_be bs = 4294967295" using be_i32_cases[OF l] from_be_bound[of bs] by (auto split: if_splits)
  then have "be32 (from_be bs) = be32 (from_be (replicate 4 255))" by (simp add: from_be_255)
  then show "bs = replicate 4 255" using l by simp
next
  assume "length bs = 4" and b: "bs = replicate 4 255"
  then show "be_i32 bs = -1" using b be_i32_cases[of bs] by (simp add: from_be_255)
qed

lemma take_column_Inr:
  "take_column rd = Inr (f, rd') \<longleftrightarrow> rd_start rd < rd_stop rd \<and>
     (\<exists>c buf. rd_buf rd = field_bytes c @ buf \<and> field_fits c \<and> f = field_of (rd_start rd) c \<and>
        rd' = rd\<lparr>rd_buf := buf, rd_start := rd_start rd + 1\<rparr>)" (is "?l \<longleftrightarrow> ?r")
proof
  assume l: ?l
  then have s: "rd_start rd < rd_stop rd" by (auto simp: take_column_def split: if_splits)
  obtain h t where sp: "split_array 4 (rd_buf rd) = Some (h, t)"
    using l s by (auto simp: take_column_def Let_def split: option.splits)
  then have b: "rd_buf rd = h @ t" and h: "length h = 4" by (auto simp: split_array_def split: if_splits)
  show ?r
  proof (cases "be_i32 h = -1")
    case True
    then have "rd_buf rd = field_bytes None @ t" using b minus_one_32[OF h] by (simp add: field_bytes_def)
    moreover have "f = field_of (rd_start rd) None" "rd' = rd\<lparr>rd_buf := t, rd_start := rd_start rd + 1\<rparr>"
      using l s sp True by (simp_all add: take_column_def field_of_def Let_def)
    moreover have "field_fits None" by (simp add: field_fits_def)
    ultimately show ?thesis using s by blast
  next
    case False
    then have pos: "\<not> be_i32 h < 0" using l s sp by (auto simp: take_column_def Let_def split: if_splits)
    then have le: "from_be h \<le> i32_max" using be_i32_neg[OF h] by simp
    note n = be_i32_nat[OF h le]
    obtain p u where w: "wire_split_at (from_be h) t = Some (p, u)"
      using l s sp False pos by (auto simp: take_column_def Let_def n split: option.splits)
    then have p: "t = p @ u" "length p = from_be h" by (auto simp: wire_split_at_def split: if_splits)
    then have "rd_buf rd = field_bytes (Some p) @ u" using b h by (simp add: field_bytes_def)
    moreover have "f = field_of (rd_start rd) (Some p)" "rd' = rd\<lparr>rd_buf := u, rd_start := rd_start rd + 1\<rparr>"
      using l s sp False pos w by (auto simp: take_column_def n field_of_def Let_def)
    moreover have "field_fits (Some p)" using p le by (simp add: field_fits_def)
    ultimately show ?thesis using s by blast
  qed
next
  assume ?r
  then obtain c buf where s: "rd_start rd < rd_stop rd" and b: "rd_buf rd = field_bytes c @ buf" and fit: "field_fits c"
    and f: "f = field_of (rd_start rd) c" and rd': "rd' = rd\<lparr>rd_buf := buf, rd_start := rd_start rd + 1\<rparr>" by blast
  show ?l
  proof (cases c)
    case None
    then have "split_array 4 (rd_buf rd) = Some (replicate 4 255, buf)" using b by (simp add: split_array_def field_bytes_def)
    with s f rd' None minus_one_32[of "replicate 4 255"] show ?thesis by (simp add: take_column_def field_of_def Let_def)
  next
    case (Some p)
    have le: "from_be (be32 (length p)) \<le> i32_max" and fb: "from_be (be32 (length p)) = length p"
      using fit Some by (simp_all add: field_fits_def)
    have n: "be_i32 (be32 (length p)) = int (length p)" using be_i32_cases[of "be32 (length p)"] le fb by simp
    have "split_array 4 (rd_buf rd) = Some (be32 (length p), p @ buf)" using b Some by (simp add: split_array_def field_bytes_def)
    moreover have "wire_split_at (length p) (p @ buf) = Some (p, buf)" by (simp add: wire_split_at_def)
    ultimately show ?thesis using s f rd' Some by (simp add: take_column_def field_of_def n Let_def)
  qed
qed

lemma reads_cell:
  assumes "\<And>i c v. g (field_of i c) = Inr v \<longleftrightarrow> P c v"
  shows "reads_columns (reading_map g take_column) (\<lambda>cols v. \<exists>c. cols = [c] \<and> P c v)"
  unfolding reads_columns_def
proof (intro allI)
  fix rd v rd'
  have "reading_map g take_column rd = Inr (v, rd') \<longleftrightarrow> (\<exists>f. take_column rd = Inr (f, rd') \<and> g f = Inr v)"
    by (auto simp: reading_map_def bindr_Inr_iff)
  also have "\<dots> \<longleftrightarrow> rd_start rd < rd_stop rd \<and> (\<exists>c buf. rd_buf rd = field_bytes c @ buf \<and> field_fits c \<and> P c v \<and>
        rd' = rd\<lparr>rd_buf := buf, rd_start := rd_start rd + 1\<rparr>)"
    unfolding take_column_Inr using assms by blast
  also have "\<dots> \<longleftrightarrow> (\<exists>cols buf. rd_buf rd = concat (map field_bytes cols) @ buf \<and> (\<forall>c \<in> set cols. field_fits c) \<and>
        (\<exists>c. cols = [c] \<and> P c v) \<and> (cols \<noteq> [] \<longrightarrow> rd_start rd + length cols \<le> rd_stop rd) \<and>
        rd' = rd\<lparr>rd_buf := buf, rd_start := rd_start rd + length cols\<rparr>)" (is "?l \<longleftrightarrow> ?r")
  proof
    assume ?l
    then obtain c buf where "rd_start rd < rd_stop rd" "rd_buf rd = field_bytes c @ buf" "field_fits c" "P c v"
      "rd' = rd\<lparr>rd_buf := buf, rd_start := rd_start rd + 1\<rparr>" by blast
    then show ?r by (intro exI[of _ "[c]"] exI[of _ buf]) simp
  next
    assume ?r
    then obtain c buf where "rd_start rd < rd_stop rd" "rd_buf rd = field_bytes c @ buf" "field_fits c" "P c v"
      "rd' = rd\<lparr>rd_buf := buf, rd_start := rd_start rd + 1\<rparr>" by force
    then show ?l by blast
  qed
  finally show "reading_map g take_column rd = Inr (v, rd') \<longleftrightarrow>
      (\<exists>cols buf. rd_buf rd = concat (map field_bytes cols) @ buf \<and> (\<forall>c \<in> set cols. field_fits c) \<and>
        (\<exists>c. cols = [c] \<and> P c v) \<and> (cols \<noteq> [] \<longrightarrow> rd_start rd + length cols \<le> rd_stop rd) \<and>
        rd' = rd\<lparr>rd_buf := buf, rd_start := rd_start rd + length cols\<rparr>)" .
qed

lemma reads_then:
  assumes f: "reads_columns f P" and g: "\<And>a. reads_columns (g a) (Q a)"
  shows "reads_columns (reading_then f g) (\<lambda>cols b. \<exists>a us vs. cols = us @ vs \<and> P us a \<and> Q a vs b)"
  unfolding reads_columns_def
proof (intro allI iffI)
  fix rd v rd'
  assume "reading_then f g rd = Inr (v, rd')"
  then obtain a rd1 where 1: "f rd = Inr (a, rd1)" and 2: "g a rd1 = Inr (v, rd')"
    by (auto simp: reading_then_def bindr_Inr_iff)
  from f 1 obtain us b1 where u: "rd_buf rd = concat (map field_bytes us) @ b1" "\<forall>c \<in> set us. field_fits c" "P us a"
    "us \<noteq> [] \<longrightarrow> rd_start rd + length us \<le> rd_stop rd" "rd1 = rd\<lparr>rd_buf := b1, rd_start := rd_start rd + length us\<rparr>"
    unfolding reads_columns_def by blast
  from g[of a] 2 obtain vs b2 where w: "rd_buf rd1 = concat (map field_bytes vs) @ b2" "\<forall>c \<in> set vs. field_fits c" "Q a vs v"
    "vs \<noteq> [] \<longrightarrow> rd_start rd1 + length vs \<le> rd_stop rd1" "rd' = rd1\<lparr>rd_buf := b2, rd_start := rd_start rd1 + length vs\<rparr>"
    unfolding reads_columns_def by blast
  show "\<exists>cols buf. rd_buf rd = concat (map field_bytes cols) @ buf \<and> (\<forall>c \<in> set cols. field_fits c) \<and>
      (\<exists>a us vs. cols = us @ vs \<and> P us a \<and> Q a vs v) \<and> (cols \<noteq> [] \<longrightarrow> rd_start rd + length cols \<le> rd_stop rd) \<and>
      rd' = rd\<lparr>rd_buf := buf, rd_start := rd_start rd + length cols\<rparr>"
  proof (intro exI conjI)
    show "rd_buf rd = concat (map field_bytes (us @ vs)) @ b2" using u w by simp
    show "us @ vs \<noteq> [] \<longrightarrow> rd_start rd + length (us @ vs) \<le> rd_stop rd" using u w by (cases vs) auto
    show "rd' = rd\<lparr>rd_buf := b2, rd_start := rd_start rd + length (us @ vs)\<rparr>" using u w by (simp add: ac_simps)
  qed (use u w in auto)
next
  fix rd rd' :: row_reader and v
  assume "\<exists>cols buf. rd_buf rd = concat (map field_bytes cols) @ buf \<and> (\<forall>c \<in> set cols. field_fits c) \<and>
      (\<exists>a us vs. cols = us @ vs \<and> P us a \<and> Q a vs v) \<and> (cols \<noteq> [] \<longrightarrow> rd_start rd + length cols \<le> rd_stop rd) \<and>
      rd' = rd\<lparr>rd_buf := buf, rd_start := rd_start rd + length cols\<rparr>"
  then obtain cols buf a us vs where c0: "rd_buf rd = concat (map field_bytes cols) @ buf" "\<forall>c \<in> set cols. field_fits c"
    "cols = us @ vs" "P us a" "Q a vs v" "cols \<noteq> [] \<longrightarrow> rd_start rd + length cols \<le> rd_stop rd"
    "rd' = rd\<lparr>rd_buf := buf, rd_start := rd_start rd + length cols\<rparr>" by blast
  then have c: "rd_buf rd = concat (map field_bytes us) @ concat (map field_bytes vs) @ buf"
    "\<forall>c \<in> set us. field_fits c" "\<forall>c \<in> set vs. field_fits c" "P us a" "Q a vs v"
    "us @ vs \<noteq> [] \<longrightarrow> rd_start rd + length (us @ vs) \<le> rd_stop rd"
    "rd' = rd\<lparr>rd_buf := buf, rd_start := rd_start rd + length (us @ vs)\<rparr>" by simp_all
  let ?rd1 = "rd\<lparr>rd_buf := concat (map field_bytes vs) @ buf, rd_start := rd_start rd + length us\<rparr>"
  have "us \<noteq> [] \<longrightarrow> rd_start rd + length us \<le> rd_stop rd" using c(6) by auto
  with c(1,2,4) f have "f rd = Inr (a, ?rd1)" unfolding reads_columns_def by blast
  moreover have "g a ?rd1 = Inr (v, rd')"
  proof -
    have "rd_buf ?rd1 = concat (map field_bytes vs) @ buf" "vs \<noteq> [] \<longrightarrow> rd_start ?rd1 + length vs \<le> rd_stop ?rd1"
      "rd' = ?rd1\<lparr>rd_buf := buf, rd_start := rd_start ?rd1 + length vs\<rparr>"
      using c by (simp_all add: ac_simps)
    with g[of a] c(3,5) show ?thesis unfolding reads_columns_def by blast
  qed
  ultimately show "reading_then f g rd = Inr (v, rd')" by (simp add: reading_then_def)
qed

lemma reading_map_map: "reading_map g (reading_map h f) = reading_map (\<lambda>a. bindr (h a) g) f"
proof
  fix rd show "reading_map g (reading_map h f) rd = reading_map (\<lambda>a. bindr (h a) g) f rd"
  proof (cases "f rd")
    case (Inr x)
    obtain a rd' where "x = (a, rd')" by (cases x)
    then show ?thesis using Inr by (cases "h a") (simp_all add: reading_map_def)
  qed (simp add: reading_map_def)
qed

text \<open>\<open>f\<close> reads the columns that \<open>g\<close> views, of which there are \<open>n\<close>.\<close>

definition local_view where
  "local_view g n \<longleftrightarrow> (\<forall>cols v rest. g cols = Some (v, rest) \<longleftrightarrow>
     (\<exists>us. cols = us @ rest \<and> length us = n \<and> g us = Some (v, [])))"

definition reads_view :: "'a reading \<Rightarrow> (bytes option list \<Rightarrow> ('a \<times> bytes option list) option) \<Rightarrow> nat \<Rightarrow> bool" where
  "reads_view f g n \<longleftrightarrow> reads_columns f (\<lambda>cols v. g cols = Some (v, [])) \<and> local_view g n"

lemma reads_cong: "reads_columns f P \<Longrightarrow> (\<And>cols v. P cols v \<longleftrightarrow> Q cols v) \<Longrightarrow> reads_columns f Q"
  by (simp add: reads_columns_def)

lemma local_view_cell: "local_view (cell_view h) 1"
  unfolding local_view_def
proof (intro allI)
  fix cols v rest
  show "cell_view h cols = Some (v, rest) \<longleftrightarrow> (\<exists>us. cols = us @ rest \<and> length us = 1 \<and> cell_view h us = Some (v, []))"
    by (cases cols) (auto simp: cell_view_def length_Suc_conv)
qed

lemma local_view_unit: "local_view (\<lambda>cols. Some (v, cols)) 0"
  by (auto simp: local_view_def)

lemma local_viewD:
  assumes "local_view f n"
  shows "f cols = Some (v, rest) \<longleftrightarrow> (\<exists>us. cols = us @ rest \<and> length us = n \<and> f us = Some (v, []))"
  using assms[unfolded local_view_def, THEN spec, THEN spec, THEN spec, of cols v rest] .

lemma local_view_length:
  assumes "local_view f n" and "f us = Some (v, [])"
  shows "length us = n"
  using assms(2) unfolding local_viewD[OF assms(1), of us v "[]"] by auto

lemma local_view_extend:
  assumes "local_view f n" and "f us = Some (v, [])"
  shows "f (us @ rest) = Some (v, rest)"
  using local_viewD[OF assms(1), of "us @ rest" v rest] local_view_length[OF assms] assms(2) by blast

lemma view_then_Some:
  assumes "local_view f n" and "\<And>a. local_view (g a) m"
  shows "view_then f g cols = Some (v, rest) \<longleftrightarrow> (\<exists>a us vs. cols = us @ vs @ rest \<and> length us = n \<and> length vs = m \<and>
    f us = Some (a, []) \<and> g a vs = Some (v, []))" (is "?l \<longleftrightarrow> ?r")
proof
  assume ?l
  then obtain a mid where 1: "f cols = Some (a, mid)" and 2: "g a mid = Some (v, rest)"
    by (auto simp: view_then_def bind_eq_Some_conv)
  from 1 obtain us where "cols = us @ mid" "length us = n" "f us = Some (a, [])"
    unfolding local_viewD[OF assms(1), of cols] by blast
  moreover from 2 obtain vs where "mid = vs @ rest" "length vs = m" "g a vs = Some (v, [])"
    unfolding local_viewD[OF assms(2), of a mid] by blast
  ultimately show ?r by blast
next
  assume ?r
  then obtain a us vs where "cols = us @ vs @ rest" "f us = Some (a, [])" "g a vs = Some (v, [])" by blast
  with local_view_extend[OF assms(1), of us a "vs @ rest"] local_view_extend[OF assms(2), of a vs v rest]
  show ?l by (simp add: view_then_def)
qed

lemma local_view_then:
  assumes "local_view f n" and "\<And>a. local_view (g a) m"
  shows "local_view (view_then f g) (n + m)"
  unfolding local_view_def
proof (intro allI iffI)
  fix cols v rest
  assume "view_then f g cols = Some (v, rest)"
  then obtain a us vs where "cols = us @ vs @ rest" "length us = n" "length vs = m" "f us = Some (a, [])" "g a vs = Some (v, [])"
    unfolding view_then_Some[OF assms] by blast
  moreover from this have "view_then f g (us @ vs) = Some (v, [])"
    unfolding view_then_Some[OF assms] by (intro exI[of _ a] exI[of _ us] exI[of _ vs]) simp
  ultimately show "\<exists>us. cols = us @ rest \<and> length us = n + m \<and> view_then f g us = Some (v, [])"
    by (intro exI[of _ "us @ vs"]) simp
next
  fix cols v rest
  assume "\<exists>us. cols = us @ rest \<and> length us = n + m \<and> view_then f g us = Some (v, [])"
  then obtain a us vs where "cols = (us @ vs) @ rest" "length us = n" "length vs = m" "f us = Some (a, [])" "g a vs = Some (v, [])"
    unfolding view_then_Some[OF assms] by auto
  then show "view_then f g cols = Some (v, rest)"
    unfolding view_then_Some[OF assms] by (intro exI[of _ a] exI[of _ us] exI[of _ vs]) simp
qed

lemma reads_view_then:
  assumes f: "reads_view f f' n" and g: "\<And>a. reads_view (g a) (g' a) m"
  shows "reads_view (reading_then f g) (view_then f' g') (n + m)"
proof -
  have l: "local_view f' n" "\<And>a. local_view (g' a) m" using assms by (simp_all add: reads_view_def)
  have "reads_columns (reading_then f g) (\<lambda>cols b. \<exists>a us vs. cols = us @ vs \<and> f' us = Some (a, []) \<and> g' a vs = Some (b, []))"
    using assms by (intro reads_then) (simp_all add: reads_view_def)
  then have "reads_columns (reading_then f g) (\<lambda>cols v. view_then f' g' cols = Some (v, []))"
  proof (rule reads_cong)
    fix cols v
    show "(\<exists>a us vs. cols = us @ vs \<and> f' us = Some (a, []) \<and> g' a vs = Some (v, [])) \<longleftrightarrow> view_then f' g' cols = Some (v, [])"
      unfolding view_then_Some[OF l] 
      by (simp only: append_Nil2) (blast dest: local_view_length[OF l(1)] local_view_length[OF l(2)])
  qed
  then show ?thesis using local_view_then[OF l] by (simp add: reads_view_def)
qed

lemma reads_view_cell:
  assumes "\<And>i c v. g (field_of i c) = Inr v \<longleftrightarrow> h c = Some v"
  shows "reads_view (reading_map g take_column) (cell_view h) 1"
proof -
  have "reads_columns (reading_map g take_column) (\<lambda>cols v. \<exists>c. cols = [c] \<and> h c = Some v)"
    using assms by (rule reads_cell)
  then have "reads_columns (reading_map g take_column) (\<lambda>cols v. cell_view h cols = Some (v, []))"
    by (rule reads_cong) (auto simp: cell_view_def split: list.splits)
  then show ?thesis using local_view_cell by (simp add: reads_view_def)
qed

lemma reads_view_unit: "reads_view (\<lambda>rd. Inr (v, rd)) (\<lambda>cols. Some (v, cols)) 0"
  using local_view_unit[of v] by (auto simp: reads_view_def reads_columns_def)

lemma reads_view_required:
  assumes "\<And>c v. h c = Inr v \<longleftrightarrow> f (col_buf c) = Some v"
  shows "reads_view (reading_map (\<lambda>v. Inr (k v)) (reading_map h require_column))
    (cell_view (\<lambda>c. Option.bind c (\<lambda>p. map_option k (f p)))) 1"
  unfolding require_column_def reading_map_map
proof (rule reads_view_cell)
  fix i c v
  show "bindr (bindr (case field_of i c of FieldData c \<Rightarrow> Inr c | FieldNull i \<Rightarrow> value_error (ColumnNull i)) h) (\<lambda>v. Inr (k v)) = Inr v
    \<longleftrightarrow> Option.bind c (\<lambda>p. map_option k (f p)) = Some v"
    by (cases c) (auto simp: field_of_def value_error_def bindr_Inr_iff assms)
qed

lemma reads_view_optional:
  "reads_view (reading_map (\<lambda>v. Inr (ViewOption v)) (read_optional t))
    (cell_view (\<lambda>c. case c of None \<Rightarrow> Some (ViewOption None) | Some p \<Rightarrow> map_option (\<lambda>v. ViewOption (Some v)) (scalar_value t p))) 1"
  unfolding read_optional_def reading_map_map
proof (rule reads_view_cell)
  fix i c v
  show "bindr (case field_of i c of FieldData c \<Rightarrow> bindr (column_value t c) (\<lambda>v. Inr (Some v)) | FieldNull _ \<Rightarrow> Inr None)
      (\<lambda>v. Inr (ViewOption v)) = Inr v \<longleftrightarrow>
    (case c of None \<Rightarrow> Some (ViewOption None) | Some p \<Rightarrow> map_option (\<lambda>v. ViewOption (Some v)) (scalar_value t p)) = Some v"
    by (cases c) (auto simp: field_of_def bindr_Inr_iff column_value_Inr)
qed

text \<open>The reader of a row type reads the columns that make up its view.\<close>

lemma row_decode_reads: "reads_view (row_decode t) (row_view t) (row_width t)"
proof (induction t)
  case RowUnit
  then show ?case using reads_view_unit[of ViewUnit] by (simp add: ext)
next
  case (RowField t)
  then show ?case
    using reads_view_required[of "column_value t" "scalar_value t" ViewField, OF column_value_Inr] by (simp add: row_field_def read_scalar_def ext)
next
  case (RowOption t)
  then show ?case using reads_view_optional by (simp add: row_option_def)
next
  case (RowVec t)
  then show ?case
    using reads_view_required[of "column_array (array_oid t)" "array_of_bytes t" ViewArray, OF column_array_Inr] by (simp add: row_vec_def read_array_def)
next
  case (RowPair a b)
  have "reads_view (reading_then (row_decode a) (\<lambda>x. reading_then (row_decode b) (\<lambda>y rd. Inr (ViewPair x y, rd))))
      (view_then (row_view a) (\<lambda>x. view_then (row_view b) (\<lambda>y cols. Some (ViewPair x y, cols)))) (row_width a + (row_width b + 0))"
    by (intro reads_view_then reads_view_unit RowPair)
  then show ?case by simp
next
  case (RowTriple a b c)
  have "reads_view (reading_then (row_decode a) (\<lambda>x. reading_then (row_decode b) (\<lambda>y. reading_then (row_decode c) (\<lambda>z rd. Inr (ViewTriple x y z, rd)))))
      (view_then (row_view a) (\<lambda>x. view_then (row_view b) (\<lambda>y. view_then (row_view c) (\<lambda>z cols. Some (ViewTriple x y z, cols)))))
      (row_width a + (row_width b + (row_width c + 0)))"
    by (intro reads_view_then reads_view_unit RowTriple)
  then show ?case by (simp add: add.assoc)
next
  case (RowQuad a b c d)
  have "reads_view (reading_then (row_decode a) (\<lambda>x. reading_then (row_decode b) (\<lambda>y. reading_then (row_decode c) (\<lambda>z.
        reading_then (row_decode d) (\<lambda>w rd. Inr (ViewQuad x y z w, rd))))))
      (view_then (row_view a) (\<lambda>x. view_then (row_view b) (\<lambda>y. view_then (row_view c) (\<lambda>z. view_then (row_view d) (\<lambda>w cols. Some (ViewQuad x y z w, cols))))))
      (row_width a + (row_width b + (row_width c + (row_width d + 0))))"
    by (intro reads_view_then reads_view_unit RowQuad)
  then show ?case by (simp add: add.assoc)
qed

section \<open>Whole rows\<close>

lemma reader_new_Inr:
  "row_reader_new bs n = Inr rd \<longleftrightarrow> n < 32768 \<and> (\<exists>tail. bs = be16 n @ tail \<and> rd = \<lparr>rd_buf = tail, rd_start = 0, rd_stop = n\<rparr>)"
proof (cases "2 \<le> length bs")
  case True
  let ?h = "take 2 bs" and ?t = "drop 2 bs"
  have l: "length ?h = 2" using True by simp
  have b: "from_be ?h < 65536" using from_be_bound[of ?h] l by simp
  have u: "uint (from_be_word ?h :: 16 word) = int (from_be ?h)"
    using unat_from_be_word[of ?h, where 'a = 16] l by (simp add: uint_nat)
  have "be_i16 ?h = take_bit 16 (int (from_be ?h)) - 65536 * of_bool (odd (int (from_be ?h) div 32768))"
    by (simp add: sint_uint u signed_take_bit_eq_take_bit_minus bit_iff_odd)
  moreover have "int (from_be ?h) div 32768 = (if from_be ?h < 32768 then 0 else 1)"
    using b by (auto intro: div_pos_pos_trivial int_div_pos_eq[of _ _ _ "int (from_be ?h) - 32768"])
  ultimately have s: "be_i16 ?h = (if from_be ?h < 32768 then int (from_be ?h) else int (from_be ?h) - 65536)"
    using b by (simp add: take_bit_int_eq_self)
  have e: "(\<exists>tail. bs = be16 n @ tail \<and> rd = \<lparr>rd_buf = tail, rd_start = 0, rd_stop = n\<rparr>) \<longleftrightarrow>
      ?h = be16 n \<and> rd = \<lparr>rd_buf = ?t, rd_start = 0, rd_stop = n\<rparr>"
  proof (intro iffI conjI; (elim exE conjE)?)
    assume "?h = be16 n" "rd = \<lparr>rd_buf = ?t, rd_start = 0, rd_stop = n\<rparr>"
    then show "\<exists>tail. bs = be16 n @ tail \<and> rd = \<lparr>rd_buf = tail, rd_start = 0, rd_stop = n\<rparr>"
      by (metis append_take_drop_id)
  qed simp_all
  have w: "n < 32768 \<Longrightarrow> ?h = be16 n \<longleftrightarrow> from_be ?h = n"
  proof
    assume "n < 32768" and "?h = be16 n"
    then show "from_be ?h = n" by simp
  next
    assume "from_be ?h = n"
    then show "?h = be16 n" using be_bytes_from_be[OF l] by simp
  qed
  show ?thesis
  proof (cases "from_be ?h < 32768")
    case True
    then show ?thesis unfolding e
      using \<open>2 \<le> length bs\<close> w by (auto simp: row_reader_new_def split_array_def s value_error_def Let_def split: if_splits)
  next
    case False
    then show ?thesis unfolding e
      using \<open>2 \<le> length bs\<close> w b by (auto simp: row_reader_new_def split_array_def s value_error_def Let_def split: if_splits)
  qed
qed (auto simp: row_reader_new_def split_array_def)

lemma row_decode_Inr:
  "row_decode t rd = Inr (v, rd') \<longleftrightarrow>
     (\<exists>cols buf. rd_buf rd = concat (map field_bytes cols) @ buf \<and> (\<forall>c \<in> set cols. field_fits c) \<and>
        row_view t cols = Some (v, []) \<and> (cols \<noteq> [] \<longrightarrow> rd_start rd + length cols \<le> rd_stop rd) \<and>
        rd' = rd\<lparr>rd_buf := buf, rd_start := rd_start rd + length cols\<rparr>)"
  using row_decode_reads[of t] unfolding reads_view_def reads_columns_def by blast

lemma row_view_width: "row_view t cols = Some (v, []) \<Longrightarrow> length cols = row_width t"
  using row_decode_reads[of t] local_view_length[of "row_view t" "row_width t" cols v] by (simp add: reads_view_def)

lemma row_parse_exact:
  "row_parse t bs n = Inr v \<longleftrightarrow> n = row_width t \<and> n < 32768 \<and>
     (\<exists>cols. bs = row_bytes cols \<and> (\<forall>c \<in> set cols. field_fits c) \<and> row_view t cols = Some (v, []))"
  (is "?l \<longleftrightarrow> ?r")
proof
  assume ?l
  then obtain rd rd' where 1: "row_reader_new bs n = Inr rd" and 2: "row_decode t rd = Inr (v, rd')" and 3: "row_reader_finish rd' = Inr ()"
    by (auto simp: row_parse_def bindr_Inr_iff)
  from 1 obtain tail where n: "n < 32768" "bs = be16 n @ tail" and rd: "rd = \<lparr>rd_buf = tail, rd_start = 0, rd_stop = n\<rparr>"
    by (auto simp: reader_new_Inr)
  from 2[unfolded row_decode_Inr] obtain cols buf where c: "rd_buf rd = concat (map field_bytes cols) @ buf"
    "\<forall>c \<in> set cols. field_fits c" "row_view t cols = Some (v, [])" "cols \<noteq> [] \<longrightarrow> rd_start rd + length cols \<le> rd_stop rd"
    "rd' = rd\<lparr>rd_buf := buf, rd_start := rd_start rd + length cols\<rparr>" by blast
  from 3 have "n \<le> length cols" "buf = []" by (auto simp: row_reader_finish_def c(5) rd split: if_splits)
  with c rd have "length cols = n" by (cases "cols = []") auto
  with n c rd \<open>buf = []\<close> row_view_width[OF c(3)] show ?r by (intro conjI exI[of _ cols]) (auto simp: row_bytes_def)
next
  assume ?r
  then obtain cols where n: "n = row_width t" "n < 32768" and c: "bs = row_bytes cols" "\<forall>c \<in> set cols. field_fits c"
    "row_view t cols = Some (v, [])" by blast
  note w = row_view_width[OF c(3)]
  let ?rd = "\<lparr>rd_buf = concat (map field_bytes cols), rd_start = 0, rd_stop = n\<rparr>"
  let ?rd' = "?rd\<lparr>rd_buf := [], rd_start := n\<rparr>"
  have "row_reader_new bs n = Inr ?rd" using n c w by (simp add: reader_new_Inr row_bytes_def)
  moreover have "row_decode t ?rd = Inr (v, ?rd')"
    unfolding row_decode_Inr using c n w by (intro exI[of _ cols] exI[of _ "[]"]) simp
  moreover have "row_reader_finish ?rd' = Inr ()" by (simp add: row_reader_finish_def)
  ultimately show ?l by (simp add: row_parse_def)
qed

section \<open>The unchecked second reading\<close>

lemma cursor_fixed_field: "length p = n \<Longrightarrow> cursor_fixed n (field_bytes (Some p) @ rest) = Some (p, rest)"
  by (simp add: cursor_fixed_def field_bytes_def)

lemma cursor_text_field:
  assumes "length (q @ p) \<le> i32_max" and "utf8_ok p"
  shows "cursor_text (length q) (field_bytes (Some (q @ p)) @ rest) = Some (p, rest)"
proof -
  let ?l = "be32 (length (q @ p))"
  have n: "be_i32 ?l = int (length (q @ p))" using be_i32_cases[of ?l] assms(1) by simp
  have t: "take 4 (field_bytes (Some (q @ p)) @ rest) = ?l" by (simp add: field_bytes_def)
  have "subslice (4 + length q) (4 + length (q @ p)) (field_bytes (Some (q @ p)) @ rest) = Some p"
    by (simp add: subslice_def field_bytes_def)
  moreover have "drop (4 + length (q @ p)) (field_bytes (Some (q @ p)) @ rest) = rest" by (simp add: field_bytes_def)
  moreover have "4 \<le> length (field_bytes (Some (q @ p)) @ rest)" by (simp add: field_bytes_def)
  ultimately show ?thesis unfolding cursor_text_def t n Let_def nat_int using assms(2) by (simp del: length_append)
qed

lemma fields_read_view:
  "checked_fields t \<Longrightarrow> row_view t cols = Some (v, []) \<Longrightarrow> \<forall>c \<in> set cols. field_fits c \<Longrightarrow>
     fields_read t (concat (map field_bytes cols) @ rest) = Some (v, rest)"
proof (induction t arbitrary: cols v rest)
  case (RowField t)
  then obtain p x where c: "cols = [Some p]" "scalar_value t p = Some x" "v = ViewField x" "length p \<le> i32_max"
    by (auto simp: cell_view_def bind_eq_Some_conv field_fits_def split: list.splits)
  from RowField(1) consider "t = ScBool" | "t = ScI32" | "t = ScI64" | "t = ScString" | "t = ScJsonb" by auto
  then show ?case
  proof cases
    case 4
    then show ?thesis using c cursor_text_field[of "[]" p rest] by (auto split: if_splits)
  next
    case 5
    then obtain u where "p = 1 # u" "utf8_ok u" "x = FvText u" using c(2) by (auto split: list.splits if_splits)
    then show ?thesis using c 5 cursor_text_field[of "[1]" u rest] by simp
  qed (use c in \<open>auto simp: cursor_fixed_field split: if_splits\<close>)
next
  case (RowPair a b)
  have l: "local_view (row_view a) (row_width a)" "local_view (row_view b) (row_width b)"
    using row_decode_reads by (simp_all add: reads_view_def)
  from RowPair.prems(2) obtain x mid y where 1: "row_view a cols = Some (x, mid)" and 2: "row_view b mid = Some (y, [])"
    and v: "v = ViewPair x y" by (auto simp: view_then_def bind_eq_Some_conv)
  from 1 obtain us where us: "cols = us @ mid" "row_view a us = Some (x, [])" unfolding local_viewD[OF l(1), of cols] by blast
  have fa: "fields_read a (concat (map field_bytes us) @ concat (map field_bytes mid) @ rest) = Some (x, concat (map field_bytes mid) @ rest)"
    using RowPair.IH(1)[OF _ us(2)] RowPair.prems us(1) by simp
  show ?case
  proof (cases "b = RowUnit")
    case True
    then show ?thesis using 2 fa v us by simp
  next
    case False
    then have "fields_read b (concat (map field_bytes mid) @ rest) = Some (y, rest)"
      using RowPair.IH(2)[OF _ 2] RowPair.prems us(1) by simp
    moreover have "fields_read (RowPair a b) bs = (case fields_read a bs of None \<Rightarrow> None
      | Some (v, bs) \<Rightarrow> map_option (\<lambda>(w, bs). (ViewPair v w, bs)) (fields_read b bs))" for bs
      using False by (cases b) (simp_all split: option.split)
    ultimately show ?thesis using fa v us by simp
  qed
qed simp_all

lemma row_validate_parse: "row_validate t bs n = Inr () \<longleftrightarrow> (\<exists>v. row_parse t bs n = Inr v)"
  by (auto simp: row_validate_def row_parse_def bindr_Inr_iff)

lemma row_reread:
  assumes "checked_fields t" and "row_validate t bs n = Inr ()"
  shows "\<exists>v. row_parse t bs n = Inr v \<and> row_read t bs = Some v"
proof -
  obtain v where v: "row_parse t bs n = Inr v" using assms(2) row_validate_parse by blast
  then obtain cols where c: "bs = row_bytes cols" "\<forall>c \<in> set cols. field_fits c" "row_view t cols = Some (v, [])"
    by (auto simp: row_parse_exact)
  have "row_read t bs = Some v"
    using fields_read_view[OF assms(1) c(3,2), of "[]"] by (simp add: row_read_def c(1) row_bytes_def)
  with v show ?thesis by blast
qed

end
