(* ===== verification/Pg_Results.thy ===== *)
theory Pg_Results
  imports Pg_Row_Spec
begin

text \<open>
  \<open>pg/src/api/results/mod.rs\<close>: rows and collections of a typed query, validated once and then viewed
  without checks, and the outcomes of a synchronized group, from which the rows of all its commands or the
  exact failure are taken.
\<close>

section \<open>Rows and collections\<close>

definition row_required :: "(pg_error \<Rightarrow> 'e) \<Rightarrow> 'e + 'p option \<Rightarrow> 'e + 'p" where
  "row_required from d = bindr d (\<lambda>d. ok_or d (from PgNotFound))"

fun collection_owned :: "(nat \<Rightarrow> pg_error option) \<Rightarrow> row_type \<Rightarrow> nat \<Rightarrow> bytes list \<Rightarrow> pg_error + row_view list" where
  "collection_owned q t n [] = Inr []"
| "collection_owned q t n (row # rows) =
     bindr (row_into_owned q t row n) (\<lambda>v. bindr (collection_owned q t n rows) (\<lambda>vs. Inr (v # vs)))"

fun collection_validate :: "row_type \<Rightarrow> nat \<Rightarrow> bytes list \<Rightarrow> pg_error + unit" where
  "collection_validate t n [] = Inr ()"
| "collection_validate t n (row # rows) = bindr (row_validate t row n) (\<lambda>_. collection_validate t n rows)"

text \<open>Viewing a validated collection, row by row; \<open>None\<close> within is a read outside the row.\<close>

fun views_next :: "row_type \<Rightarrow> bytes list \<Rightarrow> row_view option option \<times> bytes list" where
  "views_next t [] = (None, [])"
| "views_next t (row # rows) = (Some (row_read t row), rows)"

fun views :: "row_type \<Rightarrow> bytes list \<Rightarrow> row_view option list" where
  "views t [] = []"
| "views t (row # rows) = (case views_next t (row # rows) of (Some v, rest) \<Rightarrow> v # views t rows | (None, _) \<Rightarrow> [])"

lemma collection_validate_Inr: "collection_validate t n rows = Inr () \<longleftrightarrow> (\<forall>row \<in> set rows. row_validate t row n = Inr ())"
  by (induction rows) (auto simp: bindr_Inr_iff)

lemma views_eq: "views t rows = map (row_read t) rows"
  by (induction rows) simp_all

lemma collection_views:
  assumes "checked_fields t" and "collection_validate t n rows = Inr ()"
  shows "\<exists>vs. map (\<lambda>row. row_parse t row n) rows = map Inr vs \<and> views t rows = map Some vs"
  using assms(2)
proof (induction rows)
  case (Cons row rows)
  then have row: "row_validate t row n = Inr ()" and rows: "collection_validate t n rows = Inr ()"
    by (auto simp: bindr_Inr_iff)
  from row_reread[OF assms(1) row] obtain v where "row_parse t row n = Inr v" "row_read t row = Some v" by blast
  moreover from Cons.IH[OF rows] obtain vs where "map (\<lambda>row. row_parse t row n) rows = map Inr vs" "views t rows = map Some vs" by blast
  ultimately show ?case by (intro exI[of _ "v # vs"]) simp
qed simp

text \<open>A scalar result is null exactly when its one column is.\<close>

lemma scalar_decode_exact:
  "scalar_decode t bs = Inr r \<longleftrightarrow>
     (if bs = row_bytes [None] then r = None
      else (\<forall>tail. bs \<noteq> row_bytes [None] @ tail) \<and> (\<exists>v. r = Some v \<and> row_parse t bs 1 = Inr v))"
proof (cases "\<exists>tail. bs = row_bytes [None] @ tail")
  case True
  then obtain tail where b: "bs = row_bytes [None] @ tail" by blast
  have "row_reader_new bs 1 = Inr \<lparr>rd_buf = replicate 4 255 @ tail, rd_start = 0, rd_stop = 1\<rparr>"
    unfolding reader_new_Inr b by (simp add: row_bytes_def field_bytes_def)
  moreover have "split_array 4 (replicate 4 255 @ tail) = Some (replicate 4 255, tail)" by (simp add: split_array_def)
  ultimately show ?thesis
    using b by (auto simp: scalar_decode_def row_reader_nullable_def row_reader_finish_def value_error_def row_bytes_def)
next
  case False
  have "\<not> (\<exists>rd tail. row_reader_new bs 1 = Inr rd \<and> split_array 4 (rd_buf rd) = Some (replicate 4 255, tail))"
  proof
    assume "\<exists>rd tail. row_reader_new bs 1 = Inr rd \<and> split_array 4 (rd_buf rd) = Some (replicate 4 255, tail)"
    then obtain rd tail where 1: "row_reader_new bs 1 = Inr rd" "split_array 4 (rd_buf rd) = Some (replicate 4 255, tail)" by blast
    then have "rd_buf rd = replicate 4 255 @ tail" by (auto simp: split_array_def split: if_splits) (metis append_take_drop_id)
    then have "bs = row_bytes [None] @ tail" using 1(1) by (auto simp: reader_new_Inr row_bytes_def field_bytes_def)
    then show False using False by blast
  qed
  then have n: "scalar_decode t bs = bindr (row_reader_new bs 1) (\<lambda>rd. bindr (row_decode t rd) (\<lambda>(v, rd). bindr (row_reader_finish rd) (\<lambda>_. Inr (Some v))))"
    by (cases "row_reader_new bs 1")
       (auto simp: scalar_decode_def row_reader_nullable_def bindr_assoc split_def split: option.splits intro!: arg_cong[where f = "bindr _"])
  have "bs \<noteq> row_bytes [None]" using False by (metis append_Nil2)
  then show ?thesis using False by (auto simp: n row_parse_def bindr_Inr_iff)
qed

section \<open>Synchronized groups\<close>

datatype ('t, 'e) group_outcome = GroupCompleted 't | GroupFailed 'e | GroupInterrupted 'e | GroupServer | GroupSkipped | GroupUnobserved

datatype group_sync = SyncComplete | SyncUnobserved

record ('t, 'e, 'd) group_failure =
  gf_outcomes :: "('t, 'e) group_outcome list"
  gf_diagnostics :: "'d list"
  gf_sync :: group_sync
  gf_sync_error :: "'e option"
  gf_cause :: "'e option"

fun group_take :: "('p option, 'e) group_outcome \<Rightarrow> 'p option \<times> ('p option, 'e) group_outcome" where
  "group_take (GroupCompleted p) = (p, GroupCompleted None)"
| "group_take x = (None, x)"

text \<open>The loop over the slots: \<open>rows\<close> have been taken from the outcomes before \<open>rest\<close>, which are left in \<open>left\<close>.\<close>

fun group_rows :: "'p list \<Rightarrow> ('p option, 'e) group_outcome list \<Rightarrow> ('p option, 'e) group_outcome list \<Rightarrow>
    ('p list \<times> ('p option, 'e) group_outcome list) + 'p list" where
  "group_rows rows left [] = Inr rows"
| "group_rows rows left (x # rest) =
     (case group_take x of
        (Some p, y) \<Rightarrow> group_rows (rows @ [p]) (left @ [y]) rest
      | (None, y) \<Rightarrow> Inl (rows, left @ y # rest))"

fun group_restore :: "'p list \<Rightarrow> ('p option, 'e) group_outcome list \<Rightarrow> ('p option, 'e) group_outcome list" where
  "group_restore [] xs = xs"
| "group_restore (p # ps) [] = []"
| "group_restore (p # ps) (x # xs) = GroupCompleted (Some p) # group_restore ps xs"

fun group_convert :: "(pg_error \<Rightarrow> 'e) \<Rightarrow> ('p option, 'e) group_outcome \<Rightarrow> ('p, 'e) group_outcome" where
  "group_convert from (GroupCompleted (Some p)) = GroupCompleted p"
| "group_convert from (GroupCompleted None) = GroupFailed (from PgNotFound)"
| "group_convert from (GroupFailed e) = GroupFailed e"
| "group_convert from (GroupInterrupted e) = GroupInterrupted e"
| "group_convert from GroupServer = GroupServer"
| "group_convert from GroupSkipped = GroupSkipped"
| "group_convert from GroupUnobserved = GroupUnobserved"

definition group_required ::
    "(pg_error \<Rightarrow> 'e) \<Rightarrow> ('p option, 'e, 'd) group_failure \<Rightarrow> ('p, 'e, 'd) group_failure + 'p list" where
  "group_required from g =
     (let fail = \<lambda>outcomes. Inl \<lparr>gf_outcomes = map (group_convert from) outcomes, gf_diagnostics = gf_diagnostics g,
            gf_sync = gf_sync g, gf_sync_error = gf_sync_error g, gf_cause = gf_cause g\<rparr> in
      if gf_sync g = SyncComplete \<and> gf_sync_error g = None \<and> gf_cause g = None \<and> gf_diagnostics g = [] then
        case group_rows [] [] (gf_outcomes g) of
          Inr rows \<Rightarrow> Inr rows
        | Inl (rows, outcomes) \<Rightarrow> fail (group_restore rows outcomes)
      else fail (gf_outcomes g))"

definition group_diagnostic :: "(nat \<times> 'd) list \<Rightarrow> nat \<Rightarrow> 'd option" where
  "group_diagnostic ds index = map_option snd (find (\<lambda>d. fst d = index) ds)"

definition group_clean :: "('p option, 'e, 'd) group_failure \<Rightarrow> bool" where
  "group_clean g \<longleftrightarrow> gf_sync g = SyncComplete \<and> gf_sync_error g = None \<and> gf_cause g = None \<and> gf_diagnostics g = []"

lemma group_restore_taken:
  "group_restore rows (replicate (length rows) (GroupCompleted None) @ xs) = map (\<lambda>p. GroupCompleted (Some p)) rows @ xs"
  by (induction rows) simp_all

lemma group_rows_spec:
  "group_rows rows (replicate (length rows) (GroupCompleted None)) xs =
     (case position (\<lambda>x. \<forall>p. x \<noteq> GroupCompleted (Some p)) xs of
        None \<Rightarrow> Inr (rows @ map (\<lambda>x. the (fst (group_take x))) xs)
      | Some i \<Rightarrow> Inl (rows @ map (\<lambda>x. the (fst (group_take x))) (take i xs),
          replicate (length rows + i) (GroupCompleted None) @ drop i xs))"
proof (induction xs arbitrary: rows)
  case (Cons x xs)
  show ?case
  proof (cases "\<exists>p. x = GroupCompleted (Some p)")
    case True
    then obtain p where x: "x = GroupCompleted (Some p)" by blast
    have s: "replicate (length rows + Suc i) (GroupCompleted None) = replicate (Suc (length rows) + i) (GroupCompleted None)" for i
      by simp
    show ?thesis using Cons.IH[of "rows @ [p]"]
      by (auto simp: x s replicate_append_same split: option.splits)
  next
    case False
    then have "fst (group_take x) = None \<and> snd (group_take x) = x"
      by (cases x; cases "fst (group_take x)") auto
    then show ?thesis using False by (cases "group_take x") simp
  qed
qed simp

text \<open>All rows are returned when every command completed with one and nothing else went wrong, and otherwise
  no payload is lost: every outcome is the original one.\<close>

lemma group_required_exact:
  "group_required from g =
     (if group_clean g \<and> (\<forall>x \<in> set (gf_outcomes g). \<exists>p. x = GroupCompleted (Some p))
      then Inr (map (\<lambda>x. the (fst (group_take x))) (gf_outcomes g))
      else Inl \<lparr>gf_outcomes = map (group_convert from) (gf_outcomes g), gf_diagnostics = gf_diagnostics g,
            gf_sync = gf_sync g, gf_sync_error = gf_sync_error g, gf_cause = gf_cause g\<rparr>)"
proof (cases "position (\<lambda>x. \<forall>p. x \<noteq> GroupCompleted (Some p)) (gf_outcomes g)")
  case None
  have "group_rows [] [] (gf_outcomes g) = Inr (map (\<lambda>x. the (fst (group_take x))) (gf_outcomes g))"
    using group_rows_spec[of "[]" "gf_outcomes g"] by (simp add: None)
  moreover have "\<forall>x \<in> set (gf_outcomes g). \<exists>p. x = GroupCompleted (Some p)" using None by (simp add: position_None)
  ultimately show ?thesis by (simp add: group_required_def group_clean_def)
next
  case (Some i)
  let ?xs = "gf_outcomes g" and ?rows = "map (\<lambda>x. the (fst (group_take x))) (take i (gf_outcomes g))"
  note p = position_Some[OF Some]
  have t: "map (\<lambda>p. GroupCompleted (Some p)) ?rows = take i ?xs"
  proof (rule nth_equalityI)
    fix j assume j: "j < length (map (\<lambda>p. GroupCompleted (Some p)) ?rows)"
    then have "j < i" using p by simp
    then obtain q where "?xs ! j = GroupCompleted (Some q)" using p by blast
    then show "map (\<lambda>p. GroupCompleted (Some p)) ?rows ! j = take i ?xs ! j" using j by simp
  qed simp
  have r: "group_rows [] [] ?xs = Inl (?rows, replicate i (GroupCompleted None) @ drop i ?xs)"
    using group_rows_spec[of "[]" ?xs] Some by simp
  have "length ?rows = i" using p by simp
  then have s: "group_restore ?rows (replicate i (GroupCompleted None) @ drop i ?xs) = ?xs"
    using group_restore_taken[of ?rows "drop i ?xs"] t by simp
  have "\<not> (\<forall>x \<in> set ?xs. \<exists>p. x = GroupCompleted (Some p))" using p nth_mem by blast
  then show ?thesis unfolding group_required_def Let_def r sum.case prod.case s by simp
qed

end
