(* ===== verification/Pg_Bind.thy ===== *)
theory Pg_Bind
  imports Pg_Results Pg_Encode
begin

text \<open>
  \<open>pg/src/protocol/value/encode.rs\<close>: the writer of bound parameters, which admits each value only at the
  object identifier and format that the query declares for its place.  The buffer is the spare region of
  the message writer.
\<close>

section \<open>The writer\<close>

definition value_length :: "nat \<Rightarrow> encode_error + nat" where
  "value_length v = (if i32_max < v then Inl (EnValueLength v) else Inr v)"

definition count32 :: "nat \<Rightarrow> encode_error + nat" where
  "count32 v = (if i32_max < v then Inl (EnArrayElements v) else Inr v)"

definition write_with_len :: "'s spare_ops \<Rightarrow> bytes \<Rightarrow> ('s, unit) emitter" where
  "write_with_len W payload s = bindr (value_length (length payload)) (\<lambda>n. wr_slices W [be32 n, payload] s)"

record 's bind_writer =
  bw_out :: 's
  bw_oids :: "nat list"
  bw_formats :: "nat list"
  bw_index :: nat

type_synonym 's bind_step = "'s bind_writer \<Rightarrow> encode_error + 's bind_writer"

definition bind_writer_new :: "'s \<Rightarrow> nat list \<Rightarrow> nat list \<Rightarrow> 's bind_writer" where
  "bind_writer_new s oids formats = \<lparr>bw_out = s, bw_oids = oids, bw_formats = formats, bw_index = 0\<rparr>"

definition bind_check_any :: "'s bind_writer \<Rightarrow> encode_error + unit" where
  "bind_check_any bw =
     (if length (bw_oids bw) \<le> bw_index bw
      then Inl (EnParameterValueCount (length (bw_oids bw)) (length (bw_oids bw) + 1)) else Inr ())"

text \<open>The format declared for a place: none means text, one stands for all.\<close>

definition declared_format :: "nat list \<Rightarrow> nat \<Rightarrow> nat" where
  "declared_format formats i = (case formats of [] \<Rightarrow> 0 | [f] \<Rightarrow> f | _ \<Rightarrow> formats ! i)"

definition bind_check :: "nat \<Rightarrow> nat \<Rightarrow> 's bind_writer \<Rightarrow> encode_error + unit" where
  "bind_check oid format bw =
     (let index = bw_index bw in
      case get (bw_oids bw) index of
        None \<Rightarrow> Inl (EnParameterValueCount (length (bw_oids bw)) (length (bw_oids bw) + 1))
      | Some expected \<Rightarrow>
          if oid \<noteq> expected then Inl (EnParameterOid index expected oid)
          else let expected = declared_format (bw_formats bw) index in
            if format \<noteq> expected then Inl (EnParameterEncoding index expected format) else Inr ())"

definition bind_write :: "nat \<Rightarrow> nat \<Rightarrow> ('s, unit) emitter \<Rightarrow> 's bind_step" where
  "bind_write oid format write bw =
     bindr (bind_check oid format bw) (\<lambda>_.
     bindr (write (bw_out bw)) (\<lambda>(s, _). Inr (bw\<lparr>bw_out := s, bw_index := bw_index bw + 1\<rparr>)))"

definition bind_null :: "'s spare_ops \<Rightarrow> 's bind_step" where
  "bind_null W bw =
     bindr (bind_check_any bw) (\<lambda>_.
     bindr (wr_extend W (replicate 4 255) (bw_out bw)) (\<lambda>(s, _). Inr (bw\<lparr>bw_out := s, bw_index := bw_index bw + 1\<rparr>)))"

definition bind_finish :: "'s bind_writer \<Rightarrow> encode_error + unit" where
  "bind_finish bw =
     (if bw_index bw = length (bw_oids bw) then Inr ()
      else Inl (EnParameterValueCount (length (bw_oids bw)) (bw_index bw)))"

definition write_array :: "'s spare_ops \<Rightarrow> nat \<Rightarrow> nat \<Rightarrow> nat \<Rightarrow> ('s, unit) emitter \<Rightarrow> 's bind_step" where
  "write_array W oid element len write = bind_write oid 1 (\<lambda>s.
     bindr (count32 len) (\<lambda>count. wr_patch W False (
       andthen (wr_slices W [be32 1, be32 0, be32 element, be32 count, be32 1]) (\<lambda>_. write)) s))"

section \<open>The values\<close>

datatype scalar_param = PBool bool | PI16 "16 word" | PI32 "32 word" | PI64 "64 word" | PF32 "32 word" | PF64 "64 word"

datatype data_param = PText bytes | PLtree bytes | PJsonb bytes | PBytes bytes | PUuid bytes | PTime "64 word" | PDate "32 word"

datatype array_param =
    PI64s "64 word list"
  | PI32s "32 word list"
  | PTexts "bytes list"
  | PI16s "16 word list"
  | PF32s "32 word list"
  | PF64s "64 word list"
  | PBools "bool list"

definition bool_byte :: "bool \<Rightarrow> bytes" where
  "bool_byte b = [if b then 1 else 0]"

fun write_scalar :: "'s spare_ops \<Rightarrow> scalar_param \<Rightarrow> 's bind_step" where
  "write_scalar W (PBool v) = bind_write 16 1 (write_with_len W (bool_byte v))"
| "write_scalar W (PI16 v) = bind_write 21 1 (write_with_len W (be_word v))"
| "write_scalar W (PI32 v) = bind_write 23 1 (write_with_len W (be_word v))"
| "write_scalar W (PI64 v) = bind_write 20 1 (write_with_len W (be_word v))"
| "write_scalar W (PF32 v) = bind_write 700 1 (write_with_len W (be_word v))"
| "write_scalar W (PF64 v) = bind_write 701 1 (write_with_len W (be_word v))"

fun write_data :: "'s spare_ops \<Rightarrow> data_param \<Rightarrow> 's bind_step" where
  "write_data W (PText v) = bind_write 25 1 (write_with_len W v)"
| "write_data W (PLtree v) = bind_write 25 0 (write_with_len W v)"
| "write_data W (PJsonb v) = bind_write 3802 1 (\<lambda>s.
     bindr (value_length (length v + 1)) (\<lambda>n. wr_slices W [be32 n, [1], v] s))"
| "write_data W (PBytes v) = bind_write 17 1 (write_with_len W v)"
| "write_data W (PUuid v) = bind_write 2950 1 (write_with_len W v)"
| "write_data W (PTime v) = bind_write 1114 1 (write_with_len W (be_word v))"
| "write_data W (PDate v) = bind_write 1082 1 (write_with_len W (be_word v))"

fun write_items :: "'s spare_ops \<Rightarrow> bytes list \<Rightarrow> ('s, unit) emitter" where
  "write_items W [] s = Inr (s, ())"
| "write_items W (v # vs) s = andthen (write_with_len W v) (\<lambda>_. write_items W vs) s"

fun write_array_param :: "'s spare_ops \<Rightarrow> array_param \<Rightarrow> 's bind_step" where
  "write_array_param W (PI64s vs) = write_array W 1016 20 (length vs) (write_items W (map be_word vs))"
| "write_array_param W (PI32s vs) = write_array W 1007 23 (length vs) (write_items W (map be_word vs))"
| "write_array_param W (PTexts vs) = write_array W 1009 25 (length vs) (write_items W vs)"
| "write_array_param W (PI16s vs) = write_array W 1005 21 (length vs) (write_items W (map be_word vs))"
| "write_array_param W (PF32s vs) = write_array W 1021 700 (length vs) (write_items W (map be_word vs))"
| "write_array_param W (PF64s vs) = write_array W 1022 701 (length vs) (write_items W (map be_word vs))"
| "write_array_param W (PBools vs) = write_array W 1000 16 (length vs) (write_items W (map bool_byte vs))"

datatype param = ParamNull | ParamScalar scalar_param | ParamData data_param | ParamArray array_param

fun write_param :: "'s spare_ops \<Rightarrow> param \<Rightarrow> 's bind_step" where
  "write_param W ParamNull = bind_null W"
| "write_param W (ParamScalar v) = write_scalar W v"
| "write_param W (ParamData v) = write_data W v"
| "write_param W (ParamArray v) = write_array_param W v"

text \<open>A query's parameters as its \<open>encode\<close> writes them, one call each, up to \<open>finish\<close>.\<close>

fun write_params :: "'s spare_ops \<Rightarrow> param list \<Rightarrow> 's bind_step" where
  "write_params W [] bw = Inr bw"
| "write_params W (p # ps) bw = bindr (write_param W p bw) (write_params W ps)"

definition bind_values :: "'s spare_ops \<Rightarrow> nat list \<Rightarrow> nat list \<Rightarrow> param list \<Rightarrow> ('s, unit) emitter" where
  "bind_values W oids formats ps s =
     bindr (write_params W ps (bind_writer_new s oids formats)) (\<lambda>bw.
     bindr (bind_finish bw) (\<lambda>_. Inr (bw_out bw, ())))"

section \<open>What a value is on the wire\<close>

definition array_payload :: "nat \<Rightarrow> bytes list \<Rightarrow> bytes" where
  "array_payload element vs = be32 1 @ be32 0 @ be32 element @ be32 (length vs) @ be32 1 @ concat (map (\<lambda>v. field_bytes (Some v)) vs)"

fun param_domain :: "param \<Rightarrow> nat \<times> nat" where
  "param_domain ParamNull = (0, 0)"
| "param_domain (ParamScalar v) =
     ((case v of PBool _ \<Rightarrow> 16 | PI16 _ \<Rightarrow> 21 | PI32 _ \<Rightarrow> 23 | PI64 _ \<Rightarrow> 20 | PF32 _ \<Rightarrow> 700 | PF64 _ \<Rightarrow> 701), 1)"
| "param_domain (ParamData v) =
     (case v of PText _ \<Rightarrow> (25, 1) | PLtree _ \<Rightarrow> (25, 0) | PJsonb _ \<Rightarrow> (3802, 1) | PBytes _ \<Rightarrow> (17, 1) | PUuid _ \<Rightarrow> (2950, 1)
      | PTime _ \<Rightarrow> (1114, 1) | PDate _ \<Rightarrow> (1082, 1))"
| "param_domain (ParamArray v) =
     ((case v of PI64s _ \<Rightarrow> 1016 | PI32s _ \<Rightarrow> 1007 | PTexts _ \<Rightarrow> 1009 | PI16s _ \<Rightarrow> 1005 | PF32s _ \<Rightarrow> 1021 | PF64s _ \<Rightarrow> 1022 | PBools _ \<Rightarrow> 1000), 1)"

fun array_items :: "array_param \<Rightarrow> nat \<times> bytes list" where
  "array_items (PI64s vs) = (20, map be_word vs)"
| "array_items (PI32s vs) = (23, map be_word vs)"
| "array_items (PTexts vs) = (25, vs)"
| "array_items (PI16s vs) = (21, map be_word vs)"
| "array_items (PF32s vs) = (700, map be_word vs)"
| "array_items (PF64s vs) = (701, map be_word vs)"
| "array_items (PBools vs) = (16, map bool_byte vs)"

fun param_payload :: "param \<Rightarrow> bytes option" where
  "param_payload ParamNull = None"
| "param_payload (ParamScalar v) = Some (case v of PBool b \<Rightarrow> bool_byte b | PI16 w \<Rightarrow> be_word w | PI32 w \<Rightarrow> be_word w
     | PI64 w \<Rightarrow> be_word w | PF32 w \<Rightarrow> be_word w | PF64 w \<Rightarrow> be_word w)"
| "param_payload (ParamData v) = Some (case v of PText t \<Rightarrow> t | PLtree t \<Rightarrow> t | PJsonb t \<Rightarrow> 1 # t | PBytes t \<Rightarrow> t
     | PUuid t \<Rightarrow> t | PTime w \<Rightarrow> be_word w | PDate w \<Rightarrow> be_word w)"
| "param_payload (ParamArray v) = Some (array_payload (fst (array_items v)) (snd (array_items v)))"

definition param_admitted :: "nat list \<Rightarrow> nat list \<Rightarrow> nat \<Rightarrow> param \<Rightarrow> bool" where
  "param_admitted oids formats i p \<longleftrightarrow> i < length oids \<and> (p = ParamNull \<or> param_domain p = (oids ! i, declared_format formats i))"

end
