(* ===== verification/Pg_Bind_Spec.thy ===== *)
theory Pg_Bind_Spec
  imports Pg_Bind
begin

text \<open>
  What the parameter writer leaves in the buffer, and how a row reader takes it back: the values are
  written whole when each is admitted at its place and fits, and they decode, as the columns of a row, to
  the values that were written.
\<close>

section \<open>Values\<close>

text \<open>\<open>w\<close> writes the payload with its length, or fails when the length does not fit.\<close>

definition writes_field :: "'s spare_ops \<Rightarrow> ('s, unit) emitter \<Rightarrow> bytes \<Rightarrow> bool" where
  "writes_field W w p \<longleftrightarrow>
     (if length p \<le> i32_max then writes W w (field_bytes (Some p)) () else \<forall>s. \<exists>e. w s = Inl e)"

lemma writes_with_len:
  assumes L: "spare_laws W"
  shows "writes_field W (write_with_len W p) p"
proof (cases "length p \<le> i32_max")
  case True
  then have "write_with_len W p = wr_extend W (field_bytes (Some p))"
    by (intro ext) (simp add: write_with_len_def value_length_def wr_slices_def field_bytes_def)
  then show ?thesis using True writes_extend[OF L] by (simp add: writes_field_def)
qed (simp add: writes_field_def write_with_len_def value_length_def)

lemma writes_jsonb:
  assumes L: "spare_laws W"
  shows "writes_field W (\<lambda>s. bindr (value_length (length v + 1)) (\<lambda>n. wr_slices W [be32 n, [1], v] s)) (1 # v)"
proof (cases "length v + 1 \<le> i32_max")
  case True
  then have "(\<lambda>s. bindr (value_length (length v + 1)) (\<lambda>n. wr_slices W [be32 n, [1], v] s)) = wr_extend W (field_bytes (Some (1 # v)))"
    by (intro ext) (simp add: value_length_def wr_slices_def field_bytes_def)
  then show ?thesis using True writes_extend[OF L] by (simp add: writes_field_def)
qed (simp add: writes_field_def value_length_def)

definition items_text :: "bytes list \<Rightarrow> bytes" where
  "items_text vs = concat (map (\<lambda>v. field_bytes (Some v)) vs)"

lemma items_text_simps [simp]: "items_text [] = []" "items_text (v # vs) = field_bytes (Some v) @ items_text vs"
  by (simp_all add: items_text_def)

lemma length_field_bytes [simp]: "length (field_bytes (Some p)) = length p + 4"
  by (simp add: field_bytes_def)

lemma length_items_text: "4 * length vs \<le> length (items_text vs)" "v \<in> set vs \<Longrightarrow> length v \<le> length (items_text vs)"
  by (induction vs) auto

lemma write_items_eq: "write_items W (v # vs) = andthen (write_with_len W v) (\<lambda>_. write_items W vs)"
  by (rule ext) simp

lemma writes_items:
  "spare_laws W \<Longrightarrow> \<forall>v \<in> set vs. length v \<le> i32_max \<Longrightarrow> writes W (write_items W vs) (items_text vs) ()"
proof (induction vs)
  case Nil
  then show ?case using writes_skip[of W "()"] by simp
next
  case (Cons v vs)
  then have "writes W (write_with_len W v) (field_bytes (Some v)) ()" using writes_with_len[of W v] by (simp add: writes_field_def)
  with Cons show ?case unfolding write_items_eq items_text_simps by (intro writes_seq) simp_all
qed

lemma write_items_long:
  assumes "spare_laws W"
  shows "\<exists>v \<in> set vs. i32_max < length v \<Longrightarrow> \<exists>e. write_items W vs s = Inl e"
proof (induction vs arbitrary: s)
  case (Cons v vs)
  show ?case
  proof (cases "write_with_len W v s")
    case (Inr x)
    then have "length v \<le> i32_max" by (auto simp: write_with_len_def value_length_def split: if_splits)
    then have "\<exists>e. write_items W vs (fst x) = Inl e" using Cons by auto
    then show ?thesis using Inr by (cases x) (auto simp: andthen_def)
  qed (simp add: andthen_def)
qed simp

lemma array_payload_items: "array_payload element vs = be32 1 @ be32 0 @ be32 element @ be32 (length vs) @ be32 1 @ items_text vs"
  by (simp add: array_payload_def items_text_def)

text \<open>An array written by \<open>write_array\<close>.\<close>

definition array_writer :: "'s spare_ops \<Rightarrow> nat \<Rightarrow> nat \<Rightarrow> ('s, unit) emitter \<Rightarrow> ('s, unit) emitter" where
  "array_writer W element len write s =
     bindr (count32 len) (\<lambda>count. wr_patch W False (
       andthen (wr_slices W [be32 1, be32 0, be32 element, be32 count, be32 1]) (\<lambda>_. write)) s)"

lemma writes_array:
  assumes L: "spare_laws W"
  shows "writes_field W (array_writer W element (length vs) (write_items W vs)) (array_payload element vs)"
proof (cases "length (array_payload element vs) \<le> i32_max")
  case True
  have "length v \<le> i32_max" if "v \<in> set vs" for v
    using length_items_text(2)[OF that] True by (simp add: array_payload_items)
  then have w: "writes W (write_items W vs) (items_text vs) ()" using writes_items[OF L] by blast
  have c: "length vs \<le> i32_max" using length_items_text(1)[of vs] True by (simp add: array_payload_items)
  have h: "writes W (wr_slices W [be32 1, be32 0, be32 element, be32 (length vs), be32 1])
      (concat [be32 1, be32 0, be32 element, be32 (length vs), be32 1]) ()"
    unfolding wr_slices_def by (rule writes_extend[OF L])
  have "writes W (andthen (wr_slices W [be32 1, be32 0, be32 element, be32 (length vs), be32 1]) (\<lambda>_. write_items W vs))
      (array_payload element vs) ()"
    using writes_andthen[OF h w] by (simp add: array_payload_items)
  from writes_patch[OF L this, of False] True c show ?thesis
    by (simp add: writes_field_def array_writer_def[abs_def] count32_def field_bytes_def)
next
  case False
  have "\<exists>e. array_writer W element (length vs) (write_items W vs) s = Inl e" for s
  proof (cases "\<exists>v \<in> set vs. i32_max < length v")
    case True
    have "\<exists>e. andthen (wr_slices W hs) (\<lambda>_. write_items W vs) s' = Inl e" for hs s'
      using write_items_long[OF L True] by (cases "wr_slices W hs s'") (auto simp: andthen_def split_def)
    then show ?thesis unfolding array_writer_def count32_def wr_patch_def
      by (cases "sp_edit W s [0, 0, 0, 0]") (auto simp: Let_def, metis bindr.simps(1))
  next
    case short: False
    have w: "writes W (write_items W vs) (items_text vs) ()" using short by (intro writes_items[OF L]) auto
    have h: "writes W (wr_slices W [be32 1, be32 0, be32 element, be32 (length vs), be32 1])
        (concat [be32 1, be32 0, be32 element, be32 (length vs), be32 1]) ()"
      unfolding wr_slices_def by (rule writes_extend[OF L])
    have "writes W (andthen (wr_slices W [be32 1, be32 0, be32 element, be32 (length vs), be32 1]) (\<lambda>_. write_items W vs))
        (array_payload element vs) ()"
      using writes_andthen[OF h w] by (simp add: array_payload_items)
    from patch_too_long[OF L this, of False s] False show ?thesis by (simp add: array_writer_def count32_def)
  qed
  then show ?thesis using False by (simp add: writes_field_def)
qed

section \<open>Parameters\<close>

text \<open>The call that writes a value that is not null.\<close>

lemma write_param_field:
  assumes L: "spare_laws W" and p: "p \<noteq> ParamNull"
  shows "\<exists>w. write_param W p = bind_write (fst (param_domain p)) (snd (param_domain p)) w \<and> writes_field W w (the (param_payload p))"
proof (cases p)
  case (ParamScalar v)
  then show ?thesis using writes_with_len[OF L] by (cases v) auto
next
  case (ParamData v)
  then show ?thesis using writes_with_len[OF L] writes_jsonb[OF L] by (cases v) auto
next
  case (ParamArray v)
  have len: "length (snd (array_items v)) = (case v of PI64s vs \<Rightarrow> length vs | PI32s vs \<Rightarrow> length vs | PTexts vs \<Rightarrow> length vs
     | PI16s vs \<Rightarrow> length vs | PF32s vs \<Rightarrow> length vs | PF64s vs \<Rightarrow> length vs | PBools vs \<Rightarrow> length vs)"
    by (cases v) simp_all
  have "write_param W p = bind_write (fst (param_domain p)) (snd (param_domain p))
      (array_writer W (fst (array_items v)) (length (snd (array_items v))) (write_items W (snd (array_items v))))"
    using ParamArray by (cases v) (simp_all add: write_array_def array_writer_def[abs_def] ext)
  then show ?thesis using writes_array[OF L] ParamArray by auto
qed (use p in simp)

lemma bind_check_Inr:
  "bind_check oid format bw = Inr () \<longleftrightarrow> bw_index bw < length (bw_oids bw) \<and> oid = bw_oids bw ! bw_index bw \<and>
     format = declared_format (bw_formats bw) (bw_index bw)"
  by (auto simp: bind_check_def get_def Let_def)

definition writer_admits :: "'s bind_writer \<Rightarrow> param \<Rightarrow> bool" where
  "writer_admits bw p \<longleftrightarrow> param_admitted (bw_oids bw) (bw_formats bw) (bw_index bw) p \<and> field_fits (param_payload p)"

lemma length_field_option: "length (field_bytes f) = (case f of None \<Rightarrow> 4 | Some p \<Rightarrow> length p + 4)"
  by (simp add: field_bytes_def split: option.split)

lemma write_param_exact:
  assumes L: "spare_laws W"
  shows "if writer_admits bw p \<and> length (field_bytes (param_payload p)) \<le> sp_room W (bw_out bw)
    then \<exists>s. write_param W p bw = Inr (bw\<lparr>bw_out := s, bw_index := bw_index bw + 1\<rparr>) \<and>
      sp_room W s = sp_room W (bw_out bw) - length (field_bytes (param_payload p)) \<and>
      sp_content W s = sp_content W (bw_out bw) @ field_bytes (param_payload p)
    else \<exists>e. write_param W p bw = Inl e"
proof (cases "p = ParamNull")
  case True
  note w = writes_extend[OF L, of "replicate 4 255"]
  have f: "field_bytes (param_payload p) = replicate 4 255" using True by (simp add: field_bytes_def)
  have a: "writer_admits bw p \<longleftrightarrow> bw_index bw < length (bw_oids bw)"
    using True by (simp add: writer_admits_def param_admitted_def field_fits_def)
  show ?thesis
  proof (cases "bw_index bw < length (bw_oids bw)")
    case False
    then show ?thesis using a True by (simp add: bind_null_def bind_check_any_def)
  next
    case in_range: True
    then have c: "bind_check_any bw = Inr ()" by (simp add: bind_check_any_def)
    show ?thesis
    proof (cases "length (replicate 4 (255::byte)) \<le> sp_room W (bw_out bw)")
      case fits: True
      from writes_room[OF w this] show ?thesis unfolding f a using in_range fits True c by (auto simp: bind_null_def)
    next
      case False
      then have "\<exists>e. wr_extend W (replicate 4 255) (bw_out bw) = Inl e" by (intro writes_full[OF w]) simp
      then show ?thesis unfolding f a using False True c by (auto simp: bind_null_def)
    qed
  qed
next
  case False
  obtain q where q: "param_payload p = Some q" using False by (cases p) auto
  obtain w where w: "write_param W p = bind_write (fst (param_domain p)) (snd (param_domain p)) w" "writes_field W w q"
    using write_param_field[OF L False] q by auto
  have a: "writer_admits bw p \<longleftrightarrow> bind_check (fst (param_domain p)) (snd (param_domain p)) bw = Inr () \<and> length q \<le> i32_max"
    using False by (auto simp: writer_admits_def param_admitted_def bind_check_Inr field_fits_def q prod_eq_iff)
  show ?thesis
  proof (cases "bind_check (fst (param_domain p)) (snd (param_domain p)) bw")
    case (Inl e)
    then show ?thesis unfolding a w(1) bind_write_def by simp
  next
    case (Inr u)
    show ?thesis
    proof (cases "length q \<le> i32_max")
      case False
      then have "\<exists>e. w (bw_out bw) = Inl e" using w(2) by (simp add: writes_field_def)
      then show ?thesis unfolding a w(1) bind_write_def using False Inr by auto
    next
      case True
      then have ww: "writes W w (field_bytes (Some q)) ()" using w(2) by (simp add: writes_field_def)
      show ?thesis
      proof (cases "length (field_bytes (Some q)) \<le> sp_room W (bw_out bw)")
        case room: True
        from writes_room[OF ww this] show ?thesis unfolding a w(1) bind_write_def q using True room Inr by auto
      next
        case full: False
        then have "\<exists>e. w (bw_out bw) = Inl e" by (intro writes_full[OF ww]) simp
        then show ?thesis unfolding a w(1) bind_write_def q using full Inr by auto
      qed
    qed
  qed
qed

text \<open>The whole parameter list.\<close>

definition params_text :: "param list \<Rightarrow> bytes" where
  "params_text ps = concat (map (\<lambda>p. field_bytes (param_payload p)) ps)"

definition params_admitted :: "nat list \<Rightarrow> nat list \<Rightarrow> nat \<Rightarrow> param list \<Rightarrow> bool" where
  "params_admitted oids formats i ps \<longleftrightarrow> i + length ps = length oids \<and>
     (\<forall>j < length ps. param_admitted oids formats (i + j) (ps ! j) \<and> field_fits (param_payload (ps ! j)))"

lemma params_admitted_Cons:
  "params_admitted oids formats i (p # ps) \<longleftrightarrow>
     param_admitted oids formats i p \<and> field_fits (param_payload p) \<and> params_admitted oids formats (i + 1) ps"
  unfolding params_admitted_def by (auto simp: less_Suc_eq_0_disj All_less_Suc2)

lemma write_params_exact:
  assumes L: "spare_laws W"
  shows "if params_admitted oids formats i ps \<and> length (params_text ps) \<le> sp_room W s
    then \<exists>s'. bindr (write_params W ps \<lparr>bw_out = s, bw_oids = oids, bw_formats = formats, bw_index = i\<rparr>) (\<lambda>bw.
        bindr (bind_finish bw) (\<lambda>_. Inr (bw_out bw, ()))) = Inr (s', ()) \<and>
      sp_room W s' = sp_room W s - length (params_text ps) \<and> sp_content W s' = sp_content W s @ params_text ps
    else \<exists>e. bindr (write_params W ps \<lparr>bw_out = s, bw_oids = oids, bw_formats = formats, bw_index = i\<rparr>) (\<lambda>bw.
        bindr (bind_finish bw) (\<lambda>_. Inr (bw_out bw, ()))) = Inl e"
proof (induction ps arbitrary: i s)
  case Nil
  show ?case by (simp add: params_admitted_def params_text_def bind_finish_def)
next
  case (Cons p ps)
  let ?bw = "\<lparr>bw_out = s, bw_oids = oids, bw_formats = formats, bw_index = i\<rparr>"
  let ?f = "field_bytes (param_payload p)"
  have t: "params_text (p # ps) = ?f @ params_text ps" by (simp add: params_text_def)
  have a: "writer_admits ?bw p \<longleftrightarrow> param_admitted oids formats i p \<and> field_fits (param_payload p)"
    by (simp add: writer_admits_def)
  show ?case
  proof (cases "writer_admits ?bw p \<and> length ?f \<le> sp_room W s")
    case False
    then obtain e where "write_param W p ?bw = Inl e" using write_param_exact[OF L, of ?bw p] by auto
    moreover have "\<not> (params_admitted oids formats i (p # ps) \<and> length (params_text (p # ps)) \<le> sp_room W s)"
      using False a unfolding params_admitted_Cons t by auto
    ultimately show ?thesis by simp
  next
    case True
    then obtain s1 where s1: "write_param W p ?bw = Inr (?bw\<lparr>bw_out := s1, bw_index := i + 1\<rparr>)"
      "sp_room W s1 = sp_room W s - length ?f" "sp_content W s1 = sp_content W s @ ?f"
      using write_param_exact[OF L, of ?bw p] by auto
    have r: "length (params_text (p # ps)) \<le> sp_room W s \<longleftrightarrow> length (params_text ps) \<le> sp_room W s1"
      using True s1(2) unfolding t by auto
    have b: "?bw\<lparr>bw_out := s1, bw_index := i + 1\<rparr> = \<lparr>bw_out = s1, bw_oids = oids, bw_formats = formats, bw_index = i + 1\<rparr>" by simp
    have k: "params_admitted oids formats i (p # ps) \<longleftrightarrow> params_admitted oids formats (i + 1) ps"
      using True a by (simp add: params_admitted_Cons)
    show ?thesis using Cons.IH[of "i + 1" s1] s1(2,3)
      unfolding r k write_params.simps s1(1) b bindr.simps unfolding t by (auto simp: ac_simps split: if_splits)
  qed
qed

lemma writes_bind_values:
  assumes "spare_laws W" and "params_admitted oids formats 0 ps"
  shows "writes W (bind_values W oids formats ps) (params_text ps) ()"
  using write_params_exact[OF assms(1), of oids formats 0 ps] assms(2)
  by (simp add: writes_def bind_values_def bind_writer_new_def)

lemma bind_values_refused:
  assumes "spare_laws W" and "\<not> params_admitted oids formats 0 ps"
  shows "\<exists>e. bind_values W oids formats ps s = Inl e"
  using write_params_exact[OF assms(1), of oids formats 0 ps s] assms(2)
  by (simp add: bind_values_def bind_writer_new_def)

section \<open>Reading parameters back\<close>

text \<open>The row type at which a parameter's payload reads back, and what is read.  The element types that have
  no reader (arrays of \<open>int2\<close>, floats and booleans) are left out.\<close>

fun param_type :: "param \<Rightarrow> row_type" where
  "param_type ParamNull = RowOption ScBytes"
| "param_type (ParamScalar v) = RowField (case v of PBool _ \<Rightarrow> ScBool | PI16 _ \<Rightarrow> ScI16 | PI32 _ \<Rightarrow> ScI32 | PI64 _ \<Rightarrow> ScI64
     | PF32 _ \<Rightarrow> ScF32 | PF64 _ \<Rightarrow> ScF64)"
| "param_type (ParamData v) = RowField (case v of PText _ \<Rightarrow> ScText | PLtree _ \<Rightarrow> ScLtree | PJsonb _ \<Rightarrow> ScJsonb | PBytes _ \<Rightarrow> ScBytes
     | PUuid _ \<Rightarrow> ScUuid | PTime _ \<Rightarrow> ScTimestamp | PDate _ \<Rightarrow> ScDate)"
| "param_type (ParamArray v) = (case v of PI64s _ \<Rightarrow> RowVec ElI64 | PI32s _ \<Rightarrow> RowVec ElI32 | PTexts _ \<Rightarrow> RowVec ElText | _ \<Rightarrow> RowUnit)"

fun param_view :: "param \<Rightarrow> row_view" where
  "param_view ParamNull = ViewOption None"
| "param_view (ParamScalar v) = ViewField (case v of PBool b \<Rightarrow> FvBool b | PI16 w \<Rightarrow> FvI16 w | PI32 w \<Rightarrow> FvI32 w | PI64 w \<Rightarrow> FvI64 w
     | PF32 w \<Rightarrow> FvF32 w | PF64 w \<Rightarrow> FvF64 w)"
| "param_view (ParamData v) = ViewField (case v of PText t \<Rightarrow> FvText t | PLtree t \<Rightarrow> FvText t | PJsonb t \<Rightarrow> FvText t | PBytes t \<Rightarrow> FvBytes t
     | PUuid t \<Rightarrow> FvUuid t | PTime w \<Rightarrow> FvTimestamp w | PDate w \<Rightarrow> FvDate w)"
| "param_view (ParamArray v) = ViewList (case v of PI64s vs \<Rightarrow> map EvI64 vs | PI32s vs \<Rightarrow> map EvI32 vs | PTexts vs \<Rightarrow> map EvText vs | _ \<Rightarrow> [])"

text \<open>What Rust's types promise of a value: strings are UTF-8, identifiers have sixteen bytes.\<close>

fun param_typed :: "param \<Rightarrow> bool" where
  "param_typed ParamNull \<longleftrightarrow> True"
| "param_typed (ParamScalar v) \<longleftrightarrow> True"
| "param_typed (ParamData v) \<longleftrightarrow> (case v of PText t \<Rightarrow> utf8_ok t | PLtree t \<Rightarrow> utf8_ok t | PJsonb t \<Rightarrow> utf8_ok t | PUuid t \<Rightarrow> length t = 16 | _ \<Rightarrow> True)"
| "param_typed (ParamArray v) \<longleftrightarrow> (case v of PI64s _ \<Rightarrow> True | PI32s _ \<Rightarrow> True | PTexts vs \<Rightarrow> (\<forall>v \<in> set vs. utf8_ok v) | _ \<Rightarrow> False)"

text \<open>Elements.\<close>

lemma array_split_field: "length p \<le> i32_max \<Longrightarrow> array_split (field_bytes (Some p) @ rest) = Inr (p, rest)"
proof -
  assume l: "length p \<le> i32_max"
  then have n: "be_i32 (be32 (length p)) = int (length p)" using be_i32_cases[of "be32 (length p)"] by simp
  have "split_array 4 (field_bytes (Some p) @ rest) = Some (be32 (length p), p @ rest)"
    by (simp add: split_array_def field_bytes_def)
  then show ?thesis by (simp add: array_split_def n Let_def wire_split_at_def ok_or_def)
qed

lemma collect_items:
  assumes "\<forall>v \<in> set vs. length (f v) \<le> i32_max \<and> element_value t (f v) = Inr (g v)"
  shows "collect_owned (\<lambda>_. None) t (length vs) (items_text (map f vs) @ rest) = Inr (map g vs, rest)"
  using assms
proof (induction vs)
  case (Cons v vs)
  then have "element_read t (items_text (map f (v # vs)) @ rest) = Inr (g v, items_text (map f vs) @ rest)"
    by (simp add: element_read_def array_split_field)
  moreover have "element_own (\<lambda>_. None) x = Inr ()" for x by (simp add: element_own_def allocate_def split: element_value.split)
  ultimately show ?case using Cons by simp
qed simp

lemma array_of_payload:
  assumes "length vs \<le> i32_max" and "element_oid_ok t oid" and "oid < 2 ^ 32"
  shows "array_of_bytes t (array_payload oid vs) = Some \<lparr>av_bytes = items_text vs, av_len = length vs\<rparr>"
proof -
  let ?p = "array_payload oid vs"
  have d: "take 4 ?p = be32 1" "take 4 (drop 4 ?p) = be32 0" "take 4 (drop 8 ?p) = be32 oid" "take 4 (drop 12 ?p) = be32 (length vs)"
    "drop 20 ?p = items_text vs" "length ?p = 20 + length (items_text vs)"
    by (simp_all add: array_payload_items del: be_bytes_0)
  have "from_be (be32 1) = 1" "from_be (be32 0) = 0" "from_be (be32 oid) = oid" "from_be (be32 (length vs)) = length vs"
    using assms(1,3) by (simp_all del: be_bytes_0)
  then show ?thesis using assms(1,2) length_items_text(1)[of vs] unfolding array_of_bytes_def d by simp
qed

text \<open>A parameter's payload decodes, owned, to the parameter, and to nothing else at its type.\<close>

lemma column_back:
  assumes "param_typed p" and "field_fits (param_payload p)" and "param_payload p = Some q"
    and "param_type p = RowField t"
  shows "scalar_value t q = Some (case param_view p of ViewField v \<Rightarrow> v)"
proof (cases p)
  case (ParamScalar v)
  then show ?thesis using assms(3,4) by (cases v) (auto simp: bool_byte_def from_be_be_word split: if_splits)
next
  case (ParamData v)
  then show ?thesis using assms by (cases v) (auto simp: from_be_be_word)
qed (use assms in \<open>auto split: array_param.splits\<close>)

lemma value_own_free [simp]: "value_own (\<lambda>_. None) v = Inr v"
  by (simp add: value_own_def allocate_def split: field_value.split)

lemma try_collect_items:
  assumes "\<forall>v \<in> set vs. length (f v) \<le> i32_max \<and> element_value t (f v) = Inr (g v)"
  shows "try_collect (\<lambda>_. None) t \<lparr>av_bytes = items_text (map f vs), av_len = length vs\<rparr> = Inr (map g vs)"
  using collect_items[OF assms, of "[]"] by (simp add: try_collect_def allocate_def array_finish_def)

lemma array_param_back:
  assumes "param_typed (ParamArray v)" and "field_fits (param_payload (ParamArray v))"
  shows "\<exists>t a. param_type (ParamArray v) = RowVec t \<and> array_of_bytes t (the (param_payload (ParamArray v))) = Some a \<and>
    bindr (try_collect (\<lambda>_. None) t a) (\<lambda>vs. Inr (ViewList vs)) = Inr (param_view (ParamArray v))"
proof -
  let ?vs = "snd (array_items v)"
  have fit: "length (items_text ?vs) \<le> i32_max" "length ?vs \<le> i32_max"
    using assms(2) length_items_text(1)[of ?vs] by (auto simp: field_fits_def array_payload_items)
  note a = array_of_payload[OF fit(2)]
  show ?thesis
  proof (cases v)
    case (PI64s vs)
    then have "try_collect (\<lambda>_. None) ElI64 \<lparr>av_bytes = items_text (map be_word vs), av_len = length vs\<rparr> = Inr (map EvI64 vs)"
      by (intro try_collect_items) (simp add: element_value_def from_be_be_word)
    then show ?thesis using PI64s a[of ElI64 20] by (simp add: element_oid_ok_def)
  next
    case (PI32s vs)
    then have "try_collect (\<lambda>_. None) ElI32 \<lparr>av_bytes = items_text (map be_word vs), av_len = length vs\<rparr> = Inr (map EvI32 vs)"
      by (intro try_collect_items) (simp add: element_value_def from_be_be_word)
    then show ?thesis using PI32s a[of ElI32 23] by (simp add: element_oid_ok_def)
  next
    case (PTexts vs)
    have "\<forall>v \<in> set vs. length v \<le> i32_max \<and> utf8_ok v"
      using assms(1) fit(1) PTexts by (auto intro: order_trans[OF length_items_text(2)])
    then have "try_collect (\<lambda>_. None) ElText \<lparr>av_bytes = items_text (map id vs), av_len = length vs\<rparr> = Inr (map EvText vs)"
      by (intro try_collect_items) (simp add: element_value_def try_text_Inr[THEN iffD2])
    then show ?thesis using PTexts a[of ElText 25] by (simp add: element_oid_ok_def)
  qed (use assms(1) in simp_all)
qed

lemma param_owned:
  assumes p: "param_typed p" "field_fits (param_payload p)"
    and rd: "rd_buf rd = field_bytes (param_payload p) @ buf" "rd_start rd < rd_stop rd"
  shows "row_decode_owned (\<lambda>_. None) (param_type p) rd = Inr (param_view p, rd\<lparr>rd_buf := buf, rd_start := rd_start rd + 1\<rparr>)"
proof -
  let ?rd' = "rd\<lparr>rd_buf := buf, rd_start := rd_start rd + 1\<rparr>"
  have c: "take_column rd = Inr (field_of (rd_start rd) (param_payload p), ?rd')"
    unfolding take_column_Inr using p(2) rd by blast
  have r: "param_payload p = Some q \<Longrightarrow> require_column rd = Inr (column_of (rd_start rd) q, ?rd')" for q
    using c by (simp add: require_column_def reading_map_def field_of_def)
  show ?thesis
  proof (cases p)
    case ParamNull
    then show ?thesis using c by (simp add: row_option_owned_def read_optional_def reading_map_def field_of_def)
  next
    case (ParamScalar v)
    then obtain q where q: "param_payload p = Some q" by simp
    obtain t where t: "param_type p = RowField t" using ParamScalar by simp
    have "column_value t (column_of (rd_start rd) q) = Inr (case param_view p of ViewField v \<Rightarrow> v)"
      using column_back[OF p q t] by (simp add: column_value_Inr)
    then show ?thesis unfolding t using r[OF q] ParamScalar by (simp add: row_field_owned_def read_scalar_def reading_map_def)
  next
    case (ParamData v)
    then obtain q where q: "param_payload p = Some q" by simp
    obtain t where t: "param_type p = RowField t" using ParamData by simp
    have "column_value t (column_of (rd_start rd) q) = Inr (case param_view p of ViewField v \<Rightarrow> v)"
      using column_back[OF p q t] by (simp add: column_value_Inr)
    then show ?thesis unfolding t using r[OF q] ParamData by (simp add: row_field_owned_def read_scalar_def reading_map_def)
  next
    case (ParamArray v)
    then obtain q where q: "param_payload p = Some q" by simp
    obtain t a where t: "param_type p = RowVec t" "array_of_bytes t q = Some a"
      "bindr (try_collect (\<lambda>_. None) t a) (\<lambda>vs. Inr (ViewList vs)) = Inr (param_view p)"
      using array_param_back[of v] p q ParamArray by auto
    have "column_array (array_oid t) (column_of (rd_start rd) q) = Inr a" using t(2) by (simp add: column_array_Inr)
    then show ?thesis unfolding t(1) using r[OF q] t(3) by (simp add: row_vec_owned_def read_array_def reading_map_def)
  qed
qed

definition params_type :: "param list \<Rightarrow> row_type" where
  "params_type ps = foldr RowPair (map param_type ps) RowUnit"

definition params_view :: "param list \<Rightarrow> row_view" where
  "params_view ps = foldr ViewPair (map param_view ps) ViewUnit"

lemma params_owned:
  "\<forall>p \<in> set ps. param_typed p \<and> field_fits (param_payload p) \<Longrightarrow> rd_buf rd = params_text ps @ buf \<Longrightarrow>
   rd_start rd + length ps \<le> rd_stop rd \<Longrightarrow>
     row_decode_owned (\<lambda>_. None) (params_type ps) rd =
       Inr (params_view ps, rd\<lparr>rd_buf := buf, rd_start := rd_start rd + length ps\<rparr>)"
proof (induction ps arbitrary: rd)
  case Nil
  then show ?case by (simp add: params_type_def params_view_def params_text_def)
next
  case (Cons p ps)
  let ?rd = "rd\<lparr>rd_buf := params_text ps @ buf, rd_start := rd_start rd + 1\<rparr>"
  have "row_decode_owned (\<lambda>_. None) (param_type p) rd = Inr (param_view p, ?rd)"
    using Cons.prems by (intro param_owned) (simp_all add: params_text_def)
  moreover have "row_decode_owned (\<lambda>_. None) (params_type ps) ?rd =
      Inr (params_view ps, ?rd\<lparr>rd_buf := buf, rd_start := rd_start ?rd + length ps\<rparr>)"
    using Cons.prems by (intro Cons.IH) simp_all
  ultimately show ?case by (simp add: params_type_def params_view_def reading_then_def)
qed

lemma params_read_back:
  assumes "\<forall>p \<in> set ps. param_typed p \<and> field_fits (param_payload p)" and "length ps < 32768"
  shows "row_into_owned (\<lambda>_. None) (params_type ps) (be16 (length ps) @ params_text ps) (length ps) = Inr (params_view ps)"
proof -
  let ?rd = "\<lparr>rd_buf = params_text ps, rd_start = 0, rd_stop = length ps\<rparr>"
  have "row_reader_new (be16 (length ps) @ params_text ps) (length ps) = Inr ?rd" using assms(2) by (simp add: reader_new_Inr)
  moreover have "row_decode_owned (\<lambda>_. None) (params_type ps) ?rd = Inr (params_view ps, ?rd\<lparr>rd_buf := [], rd_start := 0 + length ps\<rparr>)"
    using params_owned[OF assms(1), of ?rd "[]"] by simp
  ultimately show ?thesis by (simp add: row_into_owned_def row_reader_finish_def)
qed

section \<open>Reading an array lazily\<close>

text \<open>The answers of an array's iterator, up to its end.\<close>

fun iter_answers :: "nat \<Rightarrow> element_type \<Rightarrow> iter_state \<Rightarrow> (pg_error + element_value) option list" where
  "iter_answers 0 t it = []"
| "iter_answers (Suc k) t it = (case iter_next t it of (x, it) \<Rightarrow> x # iter_answers k t it)"

lemma iter_done: "iter_answers k t IterDone = replicate k None"
  by (induction k) simp_all

lemma element_own_free: "element_own (\<lambda>_. None) v = Inr ()"
  by (simp add: element_own_def allocate_def split: element_value.split)

text \<open>The iterator gives the elements that collecting gives, then ends; or it gives the error that collecting
  gives, once, behind the elements before it.\<close>

lemma iter_collect:
  "case bindr (collect_owned (\<lambda>_. None) t n bs) (\<lambda>(vs, bs). bindr (array_finish bs) (\<lambda>_. Inr vs)) of
     Inr vs \<Rightarrow> length vs = n \<and> iter_answers (n + 1 + k) t (IterReading bs n) = map (\<lambda>v. Some (Inr v)) vs @ replicate (k + 1) None
   | Inl e \<Rightarrow> \<exists>vs. length vs \<le> n \<and> iter_answers (n + 1 + k) t (IterReading bs n) =
       map (\<lambda>v. Some (Inr v)) vs @ Some (Inl e) # replicate (n + k - length vs) None"
proof (induction n arbitrary: bs)
  case 0
  show ?case by (cases "array_finish bs") (simp_all add: iter_done)
next
  case (Suc n)
  show ?case
  proof (cases "element_read t bs")
    case (Inl e)
    then show ?thesis by (auto simp: iter_done intro: exI[of _ "[]"])
  next
    case (Inr x)
    obtain v bs' where x: "x = (v, bs')" by (cases x)
    show ?thesis
    proof (cases "bindr (collect_owned (\<lambda>_. None) t n bs') (\<lambda>(vs, bs). bindr (array_finish bs) (\<lambda>_. Inr vs))")
      case inl: (Inl e)
      with Suc.IH[of bs'] obtain vs where vs: "length vs \<le> n" "iter_answers (n + 1 + k) t (IterReading bs' n) =
          map (\<lambda>v. Some (Inr v)) vs @ Some (Inl e) # replicate (n + k - length vs) None" by auto
      have "bindr (collect_owned (\<lambda>_. None) t (Suc n) bs) (\<lambda>(vs, bs). bindr (array_finish bs) (\<lambda>_. Inr vs)) = Inl e"
        using inl Inr x by (cases "collect_owned (\<lambda>_. None) t n bs'") (auto simp: element_own_free split_def bindr_Inl_iff)
      then show ?thesis using vs Inr x by (auto intro!: exI[of _ "v # vs"])
    next
      case inr: (Inr vs)
      with Suc.IH[of bs'] have vs: "length vs = n" "iter_answers (n + 1 + k) t (IterReading bs' n) =
          map (\<lambda>v. Some (Inr v)) vs @ replicate (k + 1) None" by auto
      have "bindr (collect_owned (\<lambda>_. None) t (Suc n) bs) (\<lambda>(vs, bs). bindr (array_finish bs) (\<lambda>_. Inr vs)) = Inr (v # vs)"
        using inr Inr x by (cases "collect_owned (\<lambda>_. None) t n bs'") (auto simp: element_own_free split_def bindr_Inr_iff)
      then show ?thesis using vs Inr x by simp
    qed
  qed
qed

end
