(* ===== verification/Sql_Parts.thy ===== *)
theory Sql_Parts
  imports Prelude
begin

text \<open>
  \<open>core/src/sql/raw.rs\<close>: SQL text made of fragments.  Fragments are compared with a text without joining
  them, and joined into a buffer of exactly their length.
\<close>

fun parts_matches :: "bytes list \<Rightarrow> bytes \<Rightarrow> bool" where
  "parts_matches [] t \<longleftrightarrow> t = []"
| "parts_matches (p # ps) t \<longleftrightarrow>
     length p \<le> length t \<and> \<not> (ps = [] \<and> drop (length p) t \<noteq> []) \<and> take (length p) t = p \<and>
     parts_matches ps (drop (length p) t)"

text \<open>\<open>None\<close> is a fragment that does not fit into what is left of the buffer, which the source panics on.\<close>

fun parts_concat :: "bytes list \<Rightarrow> bytes \<Rightarrow> bytes option" where
  "parts_concat [] remaining = Some remaining"
| "parts_concat (p # ps) remaining =
     (if length p \<le> length remaining then map_option (\<lambda>t. p @ t) (parts_concat ps (drop (length p) remaining)) else None)"

lemma parts_matches_iff: "parts_matches ps t \<longleftrightarrow> t = concat ps"
proof (induction ps arbitrary: t)
  case (Cons p ps)
  have "length p \<le> length t \<and> take (length p) t = p \<longleftrightarrow> (\<exists>u. t = p @ u)"
  proof
    assume "length p \<le> length t \<and> take (length p) t = p"
    then show "\<exists>u. t = p @ u" by (metis append_take_drop_id)
  qed auto
  then have "parts_matches (p # ps) t \<longleftrightarrow> (\<exists>u. t = p @ u) \<and> \<not> (ps = [] \<and> drop (length p) t \<noteq> []) \<and> parts_matches ps (drop (length p) t)"
    by auto
  also have "\<dots> \<longleftrightarrow> (\<exists>u. t = p @ u \<and> (ps = [] \<longrightarrow> u = []) \<and> u = concat ps)" by (auto simp: Cons.IH)
  finally show ?case by auto
qed simp

lemma parts_concat_exact:
  "length remaining = length (concat ps) \<Longrightarrow> parts_concat ps remaining = Some (concat ps)"
  by (induction ps arbitrary: remaining) auto

end
