(* ===== verification/Pg_Desc.thy ===== *)
theory Pg_Desc
  imports Pg_Bind_Spec Sql_Parts
begin

text \<open>
  \<open>pg/src/schema/desc/\<close> and \<open>pg/src/schema/mod.rs\<close>: the descriptions a server gives of a prepared
  statement's parameters and columns, validated against the types a query declares, and the checks of a
  query's own metadata.
\<close>

section \<open>Column descriptions\<close>

record registry =
  reg_ltree :: "nat option"

definition registry_default :: registry where
  "registry_default = \<lparr>reg_ltree = None\<rparr>"

definition registry_with_ltree :: "registry \<Rightarrow> nat \<Rightarrow> registry" where
  "registry_with_ltree r oid = \<lparr>reg_ltree = Some oid\<rparr>"

datatype target = TargetExact nat | TargetString | TargetStringArray | TargetLtree

record types =
  ty_bytes :: bytes
  ty_expected :: nat
  ty_index :: nat
  ty_registry :: registry

definition types_new :: "bytes \<Rightarrow> nat \<Rightarrow> registry \<Rightarrow> pg_error + types" where
  "types_new payload expected reg =
     (if length payload < 2 then Inl (PgDescriptionRowCountTruncated (length payload))
      else let signed = be_i16 (take 2 payload) in
        if signed < 0 then Inl (PgDescriptionRowCountNegative signed)
        else if nat signed \<noteq> expected then Inl (PgDescriptionColumnCount (nat signed) expected)
        else Inr \<lparr>ty_bytes = drop 2 payload, ty_expected = nat signed, ty_index = 0, ty_registry = reg\<rparr>)"

definition next_oid :: "types \<Rightarrow> pg_error + nat \<times> types" where
  "next_oid ty =
     (if ty_index ty = ty_expected ty then Inl (PgDescriptionDecoderOverflow (ty_index ty + 1) (ty_expected ty))
      else case position (\<lambda>b. b = 0) (ty_bytes ty) of
          None \<Rightarrow> Inl (PgDescriptionFieldName (length (ty_bytes ty)))
        | Some name_end \<Rightarrow>
            let metadata = drop (name_end + 1) (ty_bytes ty) in
            if length metadata < 18 then Inl (PgDescriptionFieldMetadata (length metadata))
            else let oid = from_be (take 4 (drop 6 metadata)); format = be_i16 (take 2 (drop 16 metadata)) in
              if format \<noteq> 0 then Inl (PgDescriptionFieldFormat format)
              else Inr (oid, ty\<lparr>ty_bytes := drop 18 metadata, ty_index := ty_index ty + 1\<rparr>))"

definition target_check :: "registry \<Rightarrow> target \<Rightarrow> nat \<Rightarrow> pg_error + unit" where
  "target_check reg t actual =
     (case t of
        TargetExact expected \<Rightarrow> if actual = expected then Inr () else Inl (PgDescriptionOid actual expected)
      | TargetString \<Rightarrow> if actual \<in> {19, 25, 1042, 1043} then Inr () else Inl (PgDescriptionStringOid actual)
      | TargetStringArray \<Rightarrow> if actual \<in> {1003, 1009, 1014, 1015} then Inr () else Inl (PgDescriptionStringArrayOid actual)
      | TargetLtree \<Rightarrow>
          (case reg_ltree reg of
             Some expected \<Rightarrow> if expected = actual then Inr () else Inl (PgDescriptionLtreeOid actual expected)
           | None \<Rightarrow> Inl (PgProtocol (ReasonSession LtreeMissing))))"

definition match_type :: "target \<Rightarrow> types \<Rightarrow> pg_error + types" where
  "match_type t ty = bindr (next_oid ty) (\<lambda>(actual, ty). bindr (target_check (ty_registry ty) t actual) (\<lambda>_. Inr ty))"

definition types_finish :: "types \<Rightarrow> pg_error + unit" where
  "types_finish ty =
     (if ty_index ty \<noteq> ty_expected ty then Inl (PgDescriptionUnvalidated (ty_index ty) (ty_expected ty))
      else if ty_bytes ty \<noteq> [] then Inl (PgDescriptionRowTrailing (length (ty_bytes ty)))
      else Inr ())"

text \<open>The target of each field type.\<close>

fun scalar_target :: "scalar_type \<Rightarrow> target" where
  "scalar_target ScBool = TargetExact 16"
| "scalar_target ScI16 = TargetExact 21"
| "scalar_target ScI32 = TargetExact 23"
| "scalar_target ScI64 = TargetExact 20"
| "scalar_target ScF32 = TargetExact 700"
| "scalar_target ScF64 = TargetExact 701"
| "scalar_target ScBytes = TargetExact 17"
| "scalar_target ScUuid = TargetExact 2950"
| "scalar_target ScTimestamp = TargetExact 1114"
| "scalar_target ScDate = TargetExact 1082"
| "scalar_target ScJsonb = TargetExact 3802"
| "scalar_target ScString = TargetString"
| "scalar_target ScText = TargetString"
| "scalar_target ScLtree = TargetLtree"

text \<open>An optional field is described as the field.\<close>

definition option_target :: "scalar_type \<Rightarrow> target" where
  "option_target t = scalar_target t"

definition vec_target :: "element_type \<Rightarrow> target" where
  "vec_target t = (case t of ElI32 \<Rightarrow> TargetExact 1007 | ElI64 \<Rightarrow> TargetExact 1016 | ElText \<Rightarrow> TargetStringArray)"

fun row_check :: "row_type \<Rightarrow> types \<Rightarrow> pg_error + types" where
  "row_check RowUnit ty = Inr ty"
| "row_check (RowField t) ty = match_type (scalar_target t) ty"
| "row_check (RowOption t) ty = match_type (option_target t) ty"
| "row_check (RowVec t) ty = match_type (vec_target t) ty"
| "row_check (RowPair a b) ty = bindr (row_check a ty) (row_check b)"
| "row_check (RowTriple a b c) ty = bindr (row_check a ty) (\<lambda>ty. bindr (row_check b ty) (row_check c))"
| "row_check (RowQuad a b c d) ty =
     bindr (row_check a ty) (\<lambda>ty. bindr (row_check b ty) (\<lambda>ty. bindr (row_check c ty) (row_check d)))"

text \<open>Result formats: text for \<open>ltree\<close>, binary for the rest.  The flags collect the types whose identifier a
  server assigns.\<close>

definition scalar_format :: "scalar_type \<Rightarrow> nat" where
  "scalar_format t = (if t = ScLtree then 0 else 1)"

definition scalar_dynamic :: "scalar_type \<Rightarrow> nat" where
  "scalar_dynamic t = (if t = ScLtree then 1 else 0)"

fun row_dynamic :: "row_type \<Rightarrow> nat" where
  "row_dynamic RowUnit = 0"
| "row_dynamic (RowField t) = scalar_dynamic t"
| "row_dynamic (RowOption t) = scalar_dynamic t"
| "row_dynamic (RowVec t) = 0"
| "row_dynamic (RowPair a b) = or (row_dynamic a) (row_dynamic b)"
| "row_dynamic (RowTriple a b c) = or (or (row_dynamic a) (row_dynamic b)) (row_dynamic c)"
| "row_dynamic (RowQuad a b c d) = or (or (or (row_dynamic a) (row_dynamic b)) (row_dynamic c)) (row_dynamic d)"

record formats =
  fm_values :: "nat list"
  fm_columns :: nat
  fm_index :: nat

definition formats_new :: "nat list \<Rightarrow> nat \<Rightarrow> formats" where
  "formats_new values columns = \<lparr>fm_values = values, fm_columns = columns, fm_index = 0\<rparr>"

definition formats_finish :: "formats \<Rightarrow> encode_error + unit" where
  "formats_finish fm = (if fm_index fm = fm_columns fm then Inr () else Inl (EnResultValueCount (fm_columns fm) (fm_index fm)))"

definition formats_take :: "nat \<Rightarrow> formats \<Rightarrow> encode_error + formats" where
  "formats_take expected fm =
     (if fm_columns fm \<le> fm_index fm then Inl (EnResultValueCount (fm_columns fm) (fm_index fm + 1))
      else let actual = declared_format (fm_values fm) (fm_index fm) in
        if actual \<noteq> expected then Inl (EnResultEncoding (fm_index fm) expected actual)
        else Inr (fm\<lparr>fm_index := fm_index fm + 1\<rparr>))"

fun row_formats :: "row_type \<Rightarrow> formats \<Rightarrow> encode_error + formats" where
  "row_formats RowUnit fm = Inr fm"
| "row_formats (RowField t) fm = formats_take (scalar_format t) fm"
| "row_formats (RowOption t) fm = formats_take (scalar_format t) fm"
| "row_formats (RowVec t) fm = formats_take 1 fm"
| "row_formats (RowPair a b) fm = bindr (row_formats a fm) (row_formats b)"
| "row_formats (RowTriple a b c) fm = bindr (row_formats a fm) (\<lambda>fm. bindr (row_formats b fm) (row_formats c))"
| "row_formats (RowQuad a b c d) fm =
     bindr (row_formats a fm) (\<lambda>fm. bindr (row_formats b fm) (\<lambda>fm. bindr (row_formats c fm) (row_formats d)))"

section \<open>Parameter descriptions\<close>

fun parameters_loop :: "nat \<Rightarrow> nat list \<Rightarrow> bytes \<Rightarrow> pg_error + bytes" where
  "parameters_loop index [] bs = Inr bs"
| "parameters_loop index (want # wants) bs =
     (case split_array 4 bs of
        None \<Rightarrow> Inl (PgDescriptionParameterOidTruncated index (length bs))
      | Some (head, tail) \<Rightarrow>
          let actual = from_be head in
          if actual \<noteq> want then Inl (PgDescriptionParameterOid index actual want)
          else parameters_loop (index + 1) wants tail)"

definition types_parameters :: "bytes \<Rightarrow> nat list \<Rightarrow> pg_error + unit" where
  "types_parameters payload expected =
     (if length payload < 2 then Inl (PgDescriptionParameterCountTruncated (length payload))
      else let signed = be_i16 (take 2 payload) in
        if signed < 0 then Inl (PgDescriptionParameterCountNegative signed)
        else if nat signed \<noteq> length expected then Inl (PgDescriptionParameterCount (nat signed) (length expected))
        else bindr (parameters_loop 0 expected (drop 2 payload)) (\<lambda>bs.
          if bs \<noteq> [] then Inl (PgDescriptionParameterTrailing (length bs)) else Inr ()))"

definition ltree_oid :: "bytes \<Rightarrow> pg_error + nat" where
  "ltree_oid payload =
     bindr (types_new payload 1 registry_default) (\<lambda>ty.
     bindr (next_oid ty) (\<lambda>(oid, ty).
     bindr (types_finish ty) (\<lambda>_.
     if oid = 0 then Inl PgDescriptionLtreeOidZero else Inr oid)))"

section \<open>Query metadata\<close>

record typed_query =
  tq_name :: bytes
  tq_sql :: bytes
  tq_oids :: "nat list"
  tq_params :: int
  tq_columns :: nat
  tq_param_formats :: "nat list"
  tq_result_formats :: "nat list"
  tq_kind :: result_kind
  tq_scalar :: bool
  tq_row :: row_type

definition types_query :: "typed_query \<Rightarrow> bytes \<Rightarrow> registry \<Rightarrow> pg_error + unit" where
  "types_query q payload reg =
     (if tq_kind q \<noteq> KindRows then Inl PgDescriptionUnexpectedRows
      else bindr (types_new payload (tq_columns q) reg) (\<lambda>ty. bindr (row_check (tq_row q) ty) types_finish))"

record query_meta =
  qm_name :: bytes
  qm_sql :: bytes
  qm_oids :: "nat list"
  qm_columns :: nat
  qm_kind :: result_kind
  qm_dynamic :: nat

datatype format_kind = FormatParameter | FormatResult

definition is_format_count :: "nat \<Rightarrow> nat \<Rightarrow> bool" where
  "is_format_count actual values \<longleftrightarrow> actual \<le> 1 \<or> actual = values"

definition nul :: "bytes \<Rightarrow> nat option" where
  "nul v = position (\<lambda>b. b = 0) v"

definition check_codes :: "nat list \<Rightarrow> nat \<Rightarrow> format_kind \<Rightarrow> encode_error + unit" where
  "check_codes formats expected kind =
     (if \<not> is_format_count (length formats) expected then
        Inl (case kind of FormatParameter \<Rightarrow> EnParameterFormatCount (length formats) expected
             | FormatResult \<Rightarrow> EnResultFormatCount (length formats) expected)
      else case position (\<lambda>f. 1 < f) formats of
          None \<Rightarrow> Inr ()
        | Some i \<Rightarrow> Inl (case kind of FormatParameter \<Rightarrow> EnParameterFormat i (formats ! i) | FormatResult \<Rightarrow> EnResultFormat i (formats ! i)))"

definition ltree_probe_name :: bytes where
  "ltree_probe_name = ascii ''__cartel_type_ltree''"

definition query_check :: "typed_query \<Rightarrow> encode_error + unit" where
  "query_check q =
     (if (tq_kind q = KindRows) \<noteq> (tq_columns q \<noteq> 0) \<or> tq_scalar q \<and> tq_columns q \<noteq> 1
      then Inl (EnResultShape (tq_kind q) (tq_columns q))
      else if tq_name q = [] then Inl EnStatementNameEmpty
      else if parts_matches [tq_name q] ltree_probe_name then Inl EnStatementNameReserved
      else case nul (tq_name q) of Some p \<Rightarrow> Inl (EnStatementNameNul p) | None \<Rightarrow>
        (case nul (tq_sql q) of Some p \<Rightarrow> Inl (EnStatementSqlNul p) | None \<Rightarrow>
           if 32767 < tq_columns q then Inl (EnResultCount (tq_columns q))
           else if tq_params q < 0 \<or> nat (tq_params q) \<noteq> length (tq_oids q)
           then Inl (EnParameterCount (tq_params q) (length (tq_oids q)))
           else bindr (check_codes (tq_param_formats q) (nat (tq_params q)) FormatParameter) (\<lambda>_.
                check_codes (tq_result_formats q) (tq_columns q) FormatResult)))"

definition query_try_new :: "typed_query \<Rightarrow> encode_error + query_meta" where
  "query_try_new q =
     bindr (query_check q) (\<lambda>_. Inr \<lparr>qm_name = tq_name q, qm_sql = tq_sql q, qm_oids = tq_oids q,
       qm_columns = tq_columns q, qm_kind = tq_kind q, qm_dynamic = row_dynamic (tq_row q)\<rparr>)"

text \<open>\<open>QueryMeta::validate\<close>, whose success is the admission that binding and decoding rely on.\<close>

definition query_validate :: "typed_query \<Rightarrow> encode_error + unit" where
  "query_validate q =
     bindr (query_check q) (\<lambda>_.
     bindr (row_formats (tq_row q) (formats_new (tq_result_formats q) (tq_columns q))) formats_finish)"

definition query_matches :: "query_meta \<Rightarrow> typed_query \<Rightarrow> bool" where
  "query_matches m q \<longleftrightarrow> qm_name m = tq_name q \<and> qm_sql m = tq_sql q \<and> qm_oids m = tq_oids q \<and>
     qm_columns m = tq_columns q \<and> qm_kind m = tq_kind q \<and> qm_dynamic m = row_dynamic (tq_row q)"

end
