(* ===== verification/Pg_Desc_Spec.thy ===== *)
theory Pg_Desc_Spec
  imports Pg_Desc
begin

text \<open>
  What a description is, apart from its reader: the columns with their names and identifiers.  A query's
  description is accepted exactly when it lists columns that its row type takes, in order; a row of values
  of the described types then decodes exactly when the fields admit its nulls and the forms of its arrays.
\<close>

section \<open>Row types as lists of cells\<close>

fun run_steps :: "('x \<Rightarrow> 's \<Rightarrow> 'e + 's) \<Rightarrow> 'x list \<Rightarrow> 's \<Rightarrow> 'e + 's" where
  "run_steps f [] s = Inr s"
| "run_steps f (x # xs) s = bindr (f x s) (run_steps f xs)"

lemma run_steps_Nil: "run_steps f [] = Inr"
  by (rule ext) simp

lemma run_steps_append: "run_steps f (xs @ ys) = (\<lambda>s. bindr (run_steps f xs s) (run_steps f ys))"
proof (induction xs)
  case (Cons x xs)
  then show ?case by (intro ext) (simp add: bindr_assoc)
qed (simp add: run_steps_Nil)

datatype cell = CellScalar bool scalar_type | CellVec element_type

fun row_cells :: "row_type \<Rightarrow> cell list" where
  "row_cells RowUnit = []"
| "row_cells (RowField t) = [CellScalar False t]"
| "row_cells (RowOption t) = [CellScalar True t]"
| "row_cells (RowVec t) = [CellVec t]"
| "row_cells (RowPair a b) = row_cells a @ row_cells b"
| "row_cells (RowTriple a b c) = row_cells a @ row_cells b @ row_cells c"
| "row_cells (RowQuad a b c d) = row_cells a @ row_cells b @ row_cells c @ row_cells d"

fun cell_target :: "cell \<Rightarrow> target" where
  "cell_target (CellScalar _ t) = scalar_target t"
| "cell_target (CellVec t) = vec_target t"

fun cell_format :: "cell \<Rightarrow> nat" where
  "cell_format (CellScalar _ t) = scalar_format t"
| "cell_format (CellVec t) = 1"

lemma length_row_cells: "length (row_cells t) = row_width t"
  by (induction t) simp_all

lemma row_check_steps: "row_check t = run_steps match_type (map cell_target (row_cells t))"
  by (induction t; rule ext) (simp_all add: option_target_def run_steps_append run_steps_Nil bindr_assoc)

lemma row_formats_steps: "row_formats t = run_steps formats_take (map cell_format (row_cells t))"
  by (induction t; rule ext) (simp_all add: run_steps_append run_steps_Nil bindr_assoc)

section \<open>Descriptions as lists of columns\<close>

record described =
  ds_name :: bytes
  ds_table :: bytes
  ds_oid :: nat
  ds_size :: bytes

definition described_ok :: "described \<Rightarrow> bool" where
  "described_ok d \<longleftrightarrow> 0 \<notin> set (ds_name d) \<and> length (ds_table d) = 6 \<and> ds_oid d < 2 ^ 32 \<and> length (ds_size d) = 6"

definition described_bytes :: "described \<Rightarrow> bytes" where
  "described_bytes d = ds_name d @ 0 # ds_table d @ be32 (ds_oid d) @ ds_size d @ be16 0"

definition description_bytes :: "described list \<Rightarrow> bytes" where
  "description_bytes ds = be16 (length ds) @ concat (map described_bytes ds)"

definition target_accepts :: "registry \<Rightarrow> target \<Rightarrow> nat \<Rightarrow> bool" where
  "target_accepts reg t oid \<longleftrightarrow>
     (case t of TargetExact e \<Rightarrow> oid = e | TargetString \<Rightarrow> oid \<in> {19, 25, 1042, 1043}
      | TargetStringArray \<Rightarrow> oid \<in> {1003, 1009, 1014, 1015} | TargetLtree \<Rightarrow> reg_ltree reg = Some oid)"

lemma target_check_Inr: "target_check reg t oid = Inr () \<longleftrightarrow> target_accepts reg t oid"
  by (auto simp: target_check_def target_accepts_def split: target.split option.split)

lemma be_i16_cases:
  assumes "length bs = 2"
  shows "be_i16 bs = (if from_be bs < 32768 then int (from_be bs) else int (from_be bs) - 65536)"
proof -
  have b: "from_be bs < 65536" using from_be_bound[of bs] assms by simp
  then have "uint (from_be_word bs :: 16 word) = int (from_be bs)"
    using unat_from_be_word[of bs, where 'a = 16] assms by (simp add: uint_nat)
  then have s: "be_i16 bs = take_bit 16 (int (from_be bs)) - 65536 * of_bool (odd (int (from_be bs) div 32768))"
    by (simp add: sint_uint signed_take_bit_eq_take_bit_minus bit_iff_odd)
  have "int (from_be bs) div 32768 = (if from_be bs < 32768 then 0 else 1)"
    using b by (auto intro: div_pos_pos_trivial int_div_pos_eq[of _ _ _ "int (from_be bs) - 32768"])
  with s b show ?thesis by (simp add: take_bit_int_eq_self)
qed

lemma be_i16_eq_0:
  assumes "length bs = 2"
  shows "be_i16 bs = 0 \<longleftrightarrow> bs = be16 0"
proof -
  have "be_i16 bs = 0 \<longleftrightarrow> from_be bs = 0"
    using be_i16_cases[OF assms] from_be_bound[of bs] assms by (auto split: if_splits)
  also have "\<dots> \<longleftrightarrow> bs = be16 0"
    using be_bytes_from_be[OF assms] from_be_bytes_id[of 0 2] by (metis zero_less_numeral zero_less_power)
  finally show ?thesis .
qed

lemma next_oid_Inr:
  "next_oid ty = Inr (oid, ty') \<longleftrightarrow> ty_index ty \<noteq> ty_expected ty \<and>
     (\<exists>d rest. described_ok d \<and> ds_oid d = oid \<and> ty_bytes ty = described_bytes d @ rest \<and>
        ty' = ty\<lparr>ty_bytes := rest, ty_index := ty_index ty + 1\<rparr>)" (is "?l \<longleftrightarrow> ?r")
proof
  assume l: ?l
  then have i: "ty_index ty \<noteq> ty_expected ty" by (auto simp: next_oid_def)
  obtain n where n: "position (\<lambda>b. b = 0) (ty_bytes ty) = Some n"
    using l i by (auto simp: next_oid_def split: option.splits)
  let ?name = "take n (ty_bytes ty)" and ?m = "drop (n + 1) (ty_bytes ty)"
  note p = position_Some[OF n]
  have b: "ty_bytes ty = ?name @ 0 # ?m" using id_take_nth_drop[of n "ty_bytes ty"] p by simp
  have nz: "0 \<notin> set ?name" using p by (auto simp: in_set_conv_nth)
  have m: "18 \<le> length ?m" using l i n by (auto simp: next_oid_def Let_def split: if_splits)
  have f: "be_i16 (take 2 (drop 16 ?m)) = 0" using l i n m by (auto simp: next_oid_def Let_def split: if_splits)
  have o: "oid = from_be (take 4 (drop 6 ?m))" "ty' = ty\<lparr>ty_bytes := drop 18 ?m, ty_index := ty_index ty + 1\<rparr>"
    using l i n m f by (auto simp: next_oid_def Let_def split: if_splits)
  let ?d = "\<lparr>ds_name = ?name, ds_table = take 6 ?m, ds_oid = oid, ds_size = take 6 (drop 10 ?m)\<rparr>"
  have lo: "oid < 2 ^ 32" using from_be_bound[of "take 4 (drop 6 ?m)"] m by (simp add: o)
  have "be32 oid = take 4 (drop 6 ?m)" using m by (simp add: o)
  moreover have "be16 0 = take 2 (drop 16 ?m)" using f m be_i16_eq_0[of "take 2 (drop 16 ?m)"] by simp
  moreover have "take 6 ?m @ take 4 (drop 6 ?m) @ take 6 (drop 10 ?m) @ take 2 (drop 16 ?m) @ drop 18 ?m = ?m"
  proof -
    have "take 2 (drop 16 ?m) @ drop 18 ?m = drop 16 ?m" using append_take_drop_id[of 2 "drop 16 ?m"] by simp
    moreover have "take 6 (drop 10 ?m) @ drop 16 ?m = drop 10 ?m" using append_take_drop_id[of 6 "drop 10 ?m"] by simp
    moreover have "take 4 (drop 6 ?m) @ drop 10 ?m = drop 6 ?m" using append_take_drop_id[of 4 "drop 6 ?m"] by simp
    ultimately show ?thesis using append_take_drop_id[of 6 ?m] by simp
  qed
  ultimately have "described_bytes ?d @ drop 18 ?m = ?name @ 0 # ?m" by (simp add: described_bytes_def)
  with b have bb: "ty_bytes ty = described_bytes ?d @ drop 18 ?m" by (rule trans[OF _ sym])
  have ok: "described_ok ?d" using nz m lo by (simp add: described_ok_def)
  show ?r using i o(2) bb ok by (intro conjI exI[of _ ?d] exI[of _ "drop 18 ?m"]) simp_all
next
  assume ?r
  then obtain d rest where i: "ty_index ty \<noteq> ty_expected ty" and d: "described_ok d" "ds_oid d = oid"
    "ty_bytes ty = described_bytes d @ rest" "ty' = ty\<lparr>ty_bytes := rest, ty_index := ty_index ty + 1\<rparr>" by blast
  have n: "position (\<lambda>b. b = 0) (ty_bytes ty) = Some (length (ds_name d))"
    using d(1) unfolding d(3) described_bytes_def described_ok_def by (auto intro!: position_skip)
  let ?m = "ds_table d @ be32 oid @ ds_size d @ be16 0 @ rest"
  have m: "drop (length (ds_name d) + 1) (ty_bytes ty) = ?m" unfolding d(3) described_bytes_def d(2) by simp
  have len: "length (ds_table d) = 6" "length (ds_size d) = 6" "oid < 2 ^ 32" using d(1,2) by (auto simp: described_ok_def)
  have mm: "\<not> length ?m < 18" "take 4 (drop 6 ?m) = be32 oid" "take 2 (drop 16 ?m) = be16 0" "drop 18 ?m = rest"
    using len by (simp_all del: be_bytes_0)
  have "be_i16 (be16 0) = 0" using be_i16_eq_0[of "be16 0"] by simp
  then show ?l unfolding next_oid_def n option.case m Let_def mm(2-4) using mm(1) i d(4) len(3) by simp
qed

lemma match_type_Inr:
  "match_type t ty = Inr ty' \<longleftrightarrow> ty_index ty \<noteq> ty_expected ty \<and>
     (\<exists>d rest. described_ok d \<and> target_accepts (ty_registry ty) t (ds_oid d) \<and> ty_bytes ty = described_bytes d @ rest \<and>
        ty' = ty\<lparr>ty_bytes := rest, ty_index := ty_index ty + 1\<rparr>)"
proof -
  have "match_type t ty = Inr ty' \<longleftrightarrow> (\<exists>oid. next_oid ty = Inr (oid, ty') \<and> target_check (ty_registry ty') t oid = Inr ())"
    by (auto simp: match_type_def bindr_Inr_iff)
  also have "\<dots> \<longleftrightarrow> (\<exists>oid. next_oid ty = Inr (oid, ty') \<and> target_accepts (ty_registry ty) t oid)"
  proof -
    have "ty_registry ty' = ty_registry ty" if "next_oid ty = Inr (oid, ty')" for oid using that by (auto simp: next_oid_Inr)
    then show ?thesis unfolding target_check_Inr by metis
  qed
  finally show ?thesis unfolding next_oid_Inr by blast
qed

definition described_rows :: "registry \<Rightarrow> target list \<Rightarrow> described list \<Rightarrow> bool" where
  "described_rows reg ts ds \<longleftrightarrow> list_all2 (\<lambda>t d. described_ok d \<and> target_accepts reg t (ds_oid d)) ts ds"

lemma match_types_Inr:
  assumes "ty_index ty \<le> ty_expected ty"
  shows "run_steps match_type ts ty = Inr ty' \<longleftrightarrow> ty_index ty + length ts \<le> ty_expected ty \<and>
     (\<exists>ds rest. described_rows (ty_registry ty) ts ds \<and> ty_bytes ty = concat (map described_bytes ds) @ rest \<and>
        ty' = ty\<lparr>ty_bytes := rest, ty_index := ty_index ty + length ts\<rparr>)"
  using assms
proof (induction ts arbitrary: ty)
  case Nil
  then show ?case by (auto simp: described_rows_def)
next
  case (Cons t ts)
  have "run_steps match_type (t # ts) ty = Inr ty' \<longleftrightarrow>
      (\<exists>ty1. match_type t ty = Inr ty1 \<and> run_steps match_type ts ty1 = Inr ty')"
    by (auto simp: bindr_Inr_iff)
  also have "\<dots> \<longleftrightarrow> ty_index ty \<noteq> ty_expected ty \<and> (\<exists>d rest. described_ok d \<and> target_accepts (ty_registry ty) t (ds_oid d) \<and>
      ty_bytes ty = described_bytes d @ rest \<and>
      run_steps match_type ts (ty\<lparr>ty_bytes := rest, ty_index := ty_index ty + 1\<rparr>) = Inr ty')"
    unfolding match_type_Inr by blast
  also have "\<dots> \<longleftrightarrow> ty_index ty \<noteq> ty_expected ty \<and> (\<exists>d rest. described_ok d \<and> target_accepts (ty_registry ty) t (ds_oid d) \<and>
      ty_bytes ty = described_bytes d @ rest \<and> ty_index ty + 1 + length ts \<le> ty_expected ty \<and>
      (\<exists>ds rest'. described_rows (ty_registry ty) ts ds \<and> rest = concat (map described_bytes ds) @ rest' \<and>
        ty' = ty\<lparr>ty_bytes := rest', ty_index := ty_index ty + 1 + length ts\<rparr>))"
  proof (cases "ty_index ty = ty_expected ty")
    case False
    then have "ty_index (ty\<lparr>ty_bytes := rest, ty_index := ty_index ty + 1\<rparr>) \<le> ty_expected (ty\<lparr>ty_bytes := rest, ty_index := ty_index ty + 1\<rparr>)" for rest
      using Cons.prems by simp
    note ih = Cons.IH[OF this]
    show ?thesis unfolding ih by simp
  qed simp
  also have "\<dots> \<longleftrightarrow> ty_index ty + length (t # ts) \<le> ty_expected ty \<and>
     (\<exists>ds rest. described_rows (ty_registry ty) (t # ts) ds \<and> ty_bytes ty = concat (map described_bytes ds) @ rest \<and>
        ty' = ty\<lparr>ty_bytes := rest, ty_index := ty_index ty + length (t # ts)\<rparr>)" (is "?l \<longleftrightarrow> ?r")
  proof
    assume ?l
    then obtain d ds rest' where "described_ok d" "target_accepts (ty_registry ty) t (ds_oid d)"
      "ty_bytes ty = described_bytes d @ concat (map described_bytes ds) @ rest'" "ty_index ty + 1 + length ts \<le> ty_expected ty"
      "described_rows (ty_registry ty) ts ds" "ty' = ty\<lparr>ty_bytes := rest', ty_index := ty_index ty + 1 + length ts\<rparr>" by blast
    then show ?r by (intro conjI exI[of _ "d # ds"] exI[of _ rest']) (simp_all add: described_rows_def)
  next
    assume r: ?r
    then obtain d ds rest' where "described_ok d" "target_accepts (ty_registry ty) t (ds_oid d)"
      "ty_bytes ty = described_bytes d @ concat (map described_bytes ds) @ rest'"
      "described_rows (ty_registry ty) ts ds" "ty' = ty\<lparr>ty_bytes := rest', ty_index := ty_index ty + length (t # ts)\<rparr>"
      by (auto simp: described_rows_def list_all2_Cons1)
    with r show ?l by (intro conjI exI[of _ d] exI[of _ "concat (map described_bytes ds) @ rest'"] exI[of _ ds] exI[of _ rest']) simp_all
  qed
  finally show ?case .
qed

lemma types_new_Inr:
  "types_new payload n reg = Inr ty \<longleftrightarrow> n < 32768 \<and>
     (\<exists>tail. payload = be16 n @ tail \<and> ty = \<lparr>ty_bytes = tail, ty_expected = n, ty_index = 0, ty_registry = reg\<rparr>)"
proof (cases "2 \<le> length payload")
  case True
  then have l: "length (take 2 payload) = 2" by simp
  have e: "(\<exists>tail. payload = be16 n @ tail \<and> ty = \<lparr>ty_bytes = tail, ty_expected = n, ty_index = 0, ty_registry = reg\<rparr>) \<longleftrightarrow>
      take 2 payload = be16 n \<and> ty = \<lparr>ty_bytes = drop 2 payload, ty_expected = n, ty_index = 0, ty_registry = reg\<rparr>"
  proof (intro iffI conjI; (elim exE conjE)?)
    assume "take 2 payload = be16 n" "ty = \<lparr>ty_bytes = drop 2 payload, ty_expected = n, ty_index = 0, ty_registry = reg\<rparr>"
    then show "\<exists>tail. payload = be16 n @ tail \<and> ty = \<lparr>ty_bytes = tail, ty_expected = n, ty_index = 0, ty_registry = reg\<rparr>"
      by (metis append_take_drop_id)
  qed simp_all
  have w: "n < 32768 \<Longrightarrow> take 2 payload = be16 n \<longleftrightarrow> from_be (take 2 payload) = n"
  proof
    assume "n < 32768" and "take 2 payload = be16 n"
    then show "from_be (take 2 payload) = n" by simp
  next
    assume "from_be (take 2 payload) = n"
    then show "take 2 payload = be16 n" using be_bytes_from_be[OF l] by simp
  qed
  show ?thesis unfolding e
    using True w be_i16_cases[OF l] from_be_bound[of "take 2 payload"] l
    by (cases "from_be (take 2 payload) < 32768") (auto simp: types_new_def Let_def split: if_splits)
qed (auto simp: types_new_def)

text \<open>Descriptions of a query.\<close>

lemma types_query_exact:
  "types_query q payload reg = Inr () \<longleftrightarrow> tq_kind q = KindRows \<and> tq_columns q = row_width (tq_row q) \<and> tq_columns q < 32768 \<and>
     (\<exists>ds. payload = description_bytes ds \<and> described_rows reg (map cell_target (row_cells (tq_row q))) ds)"
  (is "?l \<longleftrightarrow> ?r")
proof -
  let ?ts = "map cell_target (row_cells (tq_row q))"
  have lts: "length ?ts = row_width (tq_row q)" by (simp add: length_row_cells)
  have ldr: "described_rows reg ?ts ds \<Longrightarrow> length ds = row_width (tq_row q)" for ds
    by (auto simp: described_rows_def length_row_cells dest!: list_all2_lengthD)
  show ?thesis
  proof
    assume ?l
    then obtain ty ty' where k: "tq_kind q = KindRows" and 1: "types_new payload (tq_columns q) reg = Inr ty"
      and 2: "run_steps match_type ?ts ty = Inr ty'" and 3: "types_finish ty' = Inr ()"
      by (auto simp: types_query_def bindr_Inr_iff row_check_steps split: if_splits)
    from 1 obtain tail where ty: "tq_columns q < 32768" "payload = be16 (tq_columns q) @ tail"
      "ty = \<lparr>ty_bytes = tail, ty_expected = tq_columns q, ty_index = 0, ty_registry = reg\<rparr>" by (auto simp: types_new_Inr)
    from 2 match_types_Inr[of ty ?ts ty'] ty(3) obtain ds rest where
      d: "described_rows reg ?ts ds" "tail = concat (map described_bytes ds) @ rest" "ty' = ty\<lparr>ty_bytes := rest, ty_index := length ?ts\<rparr>"
      by auto
    from 3 d(3) ty(3) have "length ?ts = tq_columns q" "rest = []" by (auto simp: types_finish_def split: if_splits)
    with d ty have "payload = description_bytes ds" using lts ldr[OF d(1)] by (simp add: description_bytes_def)
    then show ?r using k ty(1) d(1) lts \<open>length ?ts = tq_columns q\<close> by auto
  next
    assume ?r
    then obtain ds where k: "tq_kind q = KindRows" "tq_columns q = row_width (tq_row q)" "tq_columns q < 32768"
      and d: "payload = description_bytes ds" "described_rows reg ?ts ds" by blast
    let ?ty = "\<lparr>ty_bytes = concat (map described_bytes ds), ty_expected = tq_columns q, ty_index = 0, ty_registry = reg\<rparr>"
    have 1: "types_new payload (tq_columns q) reg = Inr ?ty"
      using k d ldr[OF d(2)] by (simp add: types_new_Inr description_bytes_def)
    have 2: "run_steps match_type ?ts ?ty = Inr (?ty\<lparr>ty_bytes := [], ty_index := length ?ts\<rparr>)"
      using match_types_Inr[of ?ty ?ts] d(2) lts k(2) by auto
    show ?l using k lts unfolding types_query_def 1 row_check_steps bindr.simps 2 by (simp add: types_finish_def)
  qed
qed

text \<open>Descriptions of the parameters.\<close>

lemma parameters_loop_Inr:
  assumes "\<forall>oid \<in> set oids. oid < 2 ^ 32"
  shows "parameters_loop i oids bs = Inr rest \<longleftrightarrow> bs = concat (map be32 oids) @ rest"
  using assms
proof (induction oids arbitrary: i bs)
  case (Cons oid oids)
  show ?case
  proof (cases "4 \<le> length bs")
    case True
    have "from_be (take 4 bs) = oid \<longleftrightarrow> take 4 bs = be32 oid"
    proof
      assume "from_be (take 4 bs) = oid"
      then show "take 4 bs = be32 oid" using be_bytes_from_be[of "take 4 bs" 4] True by simp
    next
      assume "take 4 bs = be32 oid"
      then show "from_be (take 4 bs) = oid" using Cons.prems by simp
    qed
    moreover have "take 4 bs = be32 oid \<and> drop 4 bs = concat (map be32 oids) @ rest \<longleftrightarrow> bs = be32 oid @ concat (map be32 oids) @ rest"
      using append_take_drop_id[of 4 bs] by (metis append_eq_conv_conj length_be_bytes)
    ultimately show ?thesis using Cons True by (auto simp: split_array_def Let_def)
  next
    case False
    then show ?thesis by (auto simp: split_array_def)
  qed
qed auto

lemma types_parameters_exact:
  assumes "\<forall>oid \<in> set oids. oid < 2 ^ 32"
  shows "types_parameters payload oids = Inr () \<longleftrightarrow> length oids < 32768 \<and> payload = be16 (length oids) @ concat (map be32 oids)"
proof (cases "2 \<le> length payload")
  case True
  then have l: "length (take 2 payload) = 2" by simp
  have h: "payload = be16 (length oids) @ t \<longleftrightarrow> take 2 payload = be16 (length oids) \<and> drop 2 payload = t" for t
    using append_take_drop_id[of 2 payload] by (metis append_eq_conv_conj length_be_bytes)
  have w: "length oids < 32768 \<Longrightarrow> take 2 payload = be16 (length oids) \<longleftrightarrow> from_be (take 2 payload) = length oids"
  proof
    assume "length oids < 32768" and "take 2 payload = be16 (length oids)"
    then show "from_be (take 2 payload) = length oids" by simp
  next
    assume "from_be (take 2 payload) = length oids"
    then show "take 2 payload = be16 (length oids)" using be_bytes_from_be[OF l] by simp
  qed
  show ?thesis unfolding h
    using True w be_i16_cases[OF l] from_be_bound[of "take 2 payload"] l parameters_loop_Inr[OF assms, of 0 "drop 2 payload" "[]"]
    by (cases "from_be (take 2 payload) < 32768")
       (auto simp: types_parameters_def Let_def bindr_Inr_iff parameters_loop_Inr[OF assms] split: if_splits)
qed (auto simp: types_parameters_def)

section \<open>Described rows decode\<close>

text \<open>What a server sends for a column.  An array has dimensions with sizes and lower bounds, elements that may be
  null, and a flag that there may be nulls; any other value is its bytes.\<close>

record server_array =
  sa_dims :: "(nat \<times> nat) list"
  sa_nulls :: bool
  sa_items :: "bytes option list"

datatype server_value = PlainValue bytes | ArrayValue nat server_array

definition server_array_ok :: "server_array \<Rightarrow> bool" where
  "server_array_ok a \<longleftrightarrow>
     length (sa_dims a) \<le> 6 \<and> (\<forall>(n, lower) \<in> set (sa_dims a). n \<le> i32_max \<and> lower < 2 ^ 32) \<and>
     length (sa_items a) = (if sa_dims a = [] then 0 else prod_list (map fst (sa_dims a))) \<and>
     (\<forall>f \<in> set (sa_items a). field_fits f) \<and> (None \<in> set (sa_items a) \<longrightarrow> sa_nulls a)"

definition server_array_bytes :: "nat \<Rightarrow> server_array \<Rightarrow> bytes" where
  "server_array_bytes element a =
     be32 (length (sa_dims a)) @ be32 (if sa_nulls a then 1 else 0) @ be32 element @
     concat (map (\<lambda>(n, lower). be32 n @ be32 lower) (sa_dims a)) @ concat (map field_bytes (sa_items a))"

fun value_bytes :: "server_value \<Rightarrow> bytes" where
  "value_bytes (PlainValue p) = p"
| "value_bytes (ArrayValue element a) = server_array_bytes element a"

text \<open>The type of the elements of each known array type, and the binary form of the values of the other known
  types.\<close>

definition array_element_oid :: "nat \<Rightarrow> nat option" where
  "array_element_oid oid =
     map_of [(1007, 23), (1016, 20), (1003, 19), (1009, 25), (1014, 1042), (1015, 1043)] oid"

definition binary_value :: "registry \<Rightarrow> nat \<Rightarrow> bytes \<Rightarrow> bool" where
  "binary_value reg oid p \<longleftrightarrow>
     (oid = 16 \<longrightarrow> p = [0] \<or> p = [1]) \<and>
     (oid = 21 \<longrightarrow> length p = 2) \<and>
     (oid \<in> {23, 700, 1082} \<longrightarrow> length p = 4) \<and>
     (oid \<in> {20, 701, 1114} \<longrightarrow> length p = 8) \<and>
     (oid = 2950 \<longrightarrow> length p = 16) \<and>
     (oid \<in> {19, 25, 1042, 1043} \<or> reg_ltree reg = Some oid \<longrightarrow> utf8_ok p) \<and>
     (oid = 3802 \<longrightarrow> (\<exists>t. p = 1 # t \<and> utf8_ok t))"

definition described_value :: "registry \<Rightarrow> nat \<Rightarrow> server_value \<Rightarrow> bool" where
  "described_value reg oid v \<longleftrightarrow> length (value_bytes v) \<le> i32_max \<and>
     (case v of
        PlainValue p \<Rightarrow> array_element_oid oid = None \<and> binary_value reg oid p
      | ArrayValue element a \<Rightarrow> array_element_oid oid = Some element \<and> server_array_ok a)"

text \<open>An extension's type has an identifier that the server assigned, behind those of its own types.\<close>

definition registry_assigned :: "registry \<Rightarrow> bool" where
  "registry_assigned reg \<longleftrightarrow> (case reg_ltree reg of None \<Rightarrow> True | Some oid \<Rightarrow> 16384 \<le> oid)"

text \<open>What a field admits of the values of its type: null where it is optional, and of arrays those of at most one
  dimension that have no nulls.\<close>

definition array_flat :: "server_array \<Rightarrow> bool" where
  "array_flat a \<longleftrightarrow> length (sa_dims a) \<le> 1 \<and> \<not> sa_nulls a"

fun cell_admits :: "cell \<Rightarrow> server_value option \<Rightarrow> bool" where
  "cell_admits (CellScalar optional _) None \<longleftrightarrow> optional"
| "cell_admits (CellVec _) None \<longleftrightarrow> False"
| "cell_admits (CellVec _) (Some (ArrayValue _ a)) \<longleftrightarrow> array_flat a"
| "cell_admits _ _ \<longleftrightarrow> True"

fun cell_reads :: "cell \<Rightarrow> bytes option \<Rightarrow> bool" where
  "cell_reads (CellScalar n t) f = (case f of None \<Rightarrow> n | Some p \<Rightarrow> scalar_value t p \<noteq> None)"
| "cell_reads (CellVec t) f = (case f of None \<Rightarrow> False | Some p \<Rightarrow> array_of_bytes t p \<noteq> None)"

lemma binary_valueD:
  "binary_value reg 16 p \<Longrightarrow> p = [0] \<or> p = [1]"
  "binary_value reg 21 p \<Longrightarrow> length p = 2"
  "binary_value reg 23 p \<Longrightarrow> length p = 4"
  "binary_value reg 700 p \<Longrightarrow> length p = 4"
  "binary_value reg 1082 p \<Longrightarrow> length p = 4"
  "binary_value reg 20 p \<Longrightarrow> length p = 8"
  "binary_value reg 701 p \<Longrightarrow> length p = 8"
  "binary_value reg 1114 p \<Longrightarrow> length p = 8"
  "binary_value reg 2950 p \<Longrightarrow> length p = 16"
  "binary_value reg oid p \<Longrightarrow> oid \<in> {19, 25, 1042, 1043} \<or> reg_ltree reg = Some oid \<Longrightarrow> utf8_ok p"
  "binary_value reg 3802 p \<Longrightarrow> \<exists>t. p = 1 # t \<and> utf8_ok t"
  unfolding binary_value_def by blast+

lemma scalar_value_described:
  assumes t: "target_accepts reg (scalar_target t) oid" and v: "binary_value reg oid p"
  shows "scalar_value t p \<noteq> None"
proof (cases "scalar_target t")
  case (TargetExact e)
  then have "binary_value reg e p" using t v by (simp add: target_accepts_def)
  then show ?thesis using TargetExact by (cases t) (auto dest: binary_valueD)
next
  case TargetString
  then have "utf8_ok p" using t binary_valueD(10)[OF v] by (simp add: target_accepts_def)
  then show ?thesis using TargetString by (cases t) simp_all
next
  case TargetLtree
  then have "utf8_ok p" using t binary_valueD(10)[OF v] by (simp add: target_accepts_def)
  then show ?thesis using TargetLtree by (cases t) simp_all
qed (cases t; simp)

lemma length_items_ge: "4 * length fs \<le> length (concat (map field_bytes fs))"
  by (induction fs) (auto simp: field_bytes_def split: option.split)

lemma array_reads:
  assumes a: "server_array_ok a" and e: "element_oid_ok t el"
  shows "array_of_bytes t (server_array_bytes el a) \<noteq> None \<longleftrightarrow> array_flat a"
proof -
  let ?n = "length (sa_dims a)" and ?f = "if sa_nulls a then 1 else 0 :: nat"
  let ?p = "server_array_bytes el a"
  let ?tail = "concat (map (\<lambda>(n, lower). be32 n @ be32 lower) (sa_dims a)) @ concat (map field_bytes (sa_items a))"
  have el: "el < 2 ^ 32" using e by (cases t) (auto simp: element_oid_ok_def)
  have n: "?n \<le> 6" using a by (simp add: server_array_ok_def)
  have parts: "take 4 ?p = be32 ?n" "take 4 (drop 4 ?p) = be32 ?f" "take 4 (drop 8 ?p) = be32 el" "drop 12 ?p = ?tail" "12 \<le> length ?p"
    unfolding server_array_bytes_def by (simp_all del: be_bytes_0)
  have words: "from_be (be32 ?n) = ?n" "from_be (be32 ?f) = ?f" "from_be (be32 el) = el"
    using n el by (simp_all del: be_bytes_0)
  show ?thesis
  proof (cases "sa_dims a")
    case Nil
    then show ?thesis unfolding array_of_bytes_def parts words array_flat_def using parts(5) e by simp
  next
    case (Cons d ds)
    obtain m lower where d: "d = (m, lower)" by (cases d)
    show ?thesis
    proof (cases ds)
      case Nil
      have items: "length (sa_items a) = m" "m \<le> i32_max" using a Cons Nil d by (auto simp: server_array_ok_def)
      have tail: "?tail = be32 m @ be32 lower @ concat (map field_bytes (sa_items a))" using Cons Nil d by simp
      have dim: "take 4 (drop 12 ?p) = be32 m" unfolding parts(4) tail by (simp del: be_bytes_0)
      have "length ?p = 12 + length ?tail" using parts(4,5) by (metis add.commute le_add_diff_inverse2 length_drop)
      then have "20 + 4 * m \<le> length ?p" unfolding tail using length_items_ge[of "sa_items a"] items(1)
        by (simp del: be_bytes_0 length_concat)
      then have "20 \<le> length ?p" "m \<le> (length ?p - 20) div 4" by linarith+
      moreover have "from_be (be32 m) = m" using items(2) by (simp del: be_bytes_0)
      ultimately show ?thesis unfolding array_of_bytes_def parts(1-3) words dim array_flat_def
        using parts(5) e Cons Nil items(2) by (simp del: be_bytes_0)
    next
      case (Cons d' ds')
      then have "2 \<le> ?n" using \<open>sa_dims a = d # ds\<close> by simp
      then show ?thesis unfolding array_of_bytes_def parts words array_flat_def by auto
    qed
  qed
qed

lemma vec_target_element:
  "target_accepts reg (vec_target t) oid \<Longrightarrow> \<exists>el. array_element_oid oid = Some el \<and> element_oid_ok t el"
  by (cases t) (auto simp: target_accepts_def vec_target_def array_element_oid_def element_oid_ok_def)

lemma scalar_target_plain:
  "registry_assigned reg \<Longrightarrow> target_accepts reg (scalar_target t) oid \<Longrightarrow> array_element_oid oid = None"
  by (cases t) (auto simp: target_accepts_def array_element_oid_def registry_assigned_def)

lemma cell_reads_described:
  assumes r: "registry_assigned reg" and t: "target_accepts reg (cell_target c) oid"
    and v: "pred_option (described_value reg oid) f"
  shows "cell_reads c (map_option value_bytes f) \<longleftrightarrow> cell_admits c f"
proof (cases f)
  case None
  then show ?thesis by (cases c) simp_all
next
  case (Some w)
  show ?thesis
  proof (cases c)
    case (CellScalar n s)
    then have "array_element_oid oid = None" using scalar_target_plain[OF r] t by simp
    with v Some obtain p where w: "w = PlainValue p" and b: "binary_value reg oid p"
      by (cases w) (auto simp: described_value_def)
    show ?thesis using scalar_value_described[OF _ b, of s] t CellScalar Some w by simp
  next
    case (CellVec e)
    with t have "target_accepts reg (vec_target e) oid" by simp
    from vec_target_element[OF this] obtain el where el: "array_element_oid oid = Some el" "element_oid_ok e el" by blast
    with v Some obtain a where w: "w = ArrayValue el a" and a: "server_array_ok a"
      by (cases w) (auto simp: described_value_def)
    show ?thesis using array_reads[OF a el(2)] CellVec Some w by simp
  qed
qed

lemma row_view_cells:
  "row_view t us = Some (v, rest) \<Longrightarrow> \<exists>ws. us = ws @ rest \<and> list_all2 cell_reads (row_cells t) ws"
proof (induction t arbitrary: us v rest)
  case (RowPair a b)
  then show ?case by (fastforce simp: view_then_def bind_eq_Some_conv intro: list_all2_appendI)
next
  case (RowTriple a b c)
  then show ?case by (fastforce simp: view_then_def bind_eq_Some_conv intro: list_all2_appendI)
next
  case (RowQuad a b c d)
  then show ?case by (fastforce simp: view_then_def bind_eq_Some_conv intro: list_all2_appendI)
qed (auto simp: cell_view_def bind_eq_Some_conv list_all2_Cons1 split: list.splits option.splits)

lemma row_view_reads:
  "list_all2 cell_reads (row_cells t) us \<Longrightarrow> \<exists>v. row_view t (us @ rest) = Some (v, rest)"
proof (induction t arbitrary: us rest)
  case (RowOption t)
  then show ?case by (auto simp: list_all2_Cons1 cell_view_def split: option.splits)
next
  case (RowPair a b)
  then obtain ua ub where u: "us = ua @ ub" "list_all2 cell_reads (row_cells a) ua" "list_all2 cell_reads (row_cells b) ub"
    by (auto simp: list_all2_append1)
  from RowPair.IH(1)[OF u(2), of "ub @ rest"] RowPair.IH(2)[OF u(3), of rest] show ?case by (auto simp: u(1) view_then_def)
next
  case (RowTriple a b c)
  then obtain ua ub uc where u: "us = ua @ ub @ uc" "list_all2 cell_reads (row_cells a) ua" "list_all2 cell_reads (row_cells b) ub"
    "list_all2 cell_reads (row_cells c) uc"
    by (auto simp: list_all2_append1)
  from RowTriple.IH(1)[OF u(2), of "ub @ uc @ rest"] RowTriple.IH(2)[OF u(3), of "uc @ rest"] RowTriple.IH(3)[OF u(4), of rest]
  show ?case by (auto simp: u(1) view_then_def)
next
  case (RowQuad a b c d)
  then obtain ua ub uc ud where u: "us = ua @ ub @ uc @ ud" "list_all2 cell_reads (row_cells a) ua" "list_all2 cell_reads (row_cells b) ub"
    "list_all2 cell_reads (row_cells c) uc" "list_all2 cell_reads (row_cells d) ud"
    by (auto simp: list_all2_append1)
  from RowQuad.IH(1)[OF u(2), of "ub @ uc @ ud @ rest"] RowQuad.IH(2)[OF u(3), of "uc @ ud @ rest"] RowQuad.IH(3)[OF u(4), of "ud @ rest"]
    RowQuad.IH(4)[OF u(5), of rest]
  show ?case by (auto simp: u(1) view_then_def)
qed (auto simp: list_all2_Cons1 cell_view_def split: option.splits)

text \<open>The bytes of a description determine the identifiers.\<close>

lemma described_bytes_inj:
  assumes "described_ok d" and "described_ok d'" and "described_bytes d @ r = described_bytes d' @ r'"
  shows "ds_oid d = ds_oid d' \<and> r = r'"
proof -
  let ?ty = "\<lparr>ty_bytes = described_bytes d @ r, ty_expected = 1, ty_index = 0, ty_registry = registry_default\<rparr>"
  have "next_oid ?ty = Inr (ds_oid d, ?ty\<lparr>ty_bytes := r, ty_index := ty_index ?ty + 1\<rparr>)"
    unfolding next_oid_Inr using assms(1) by auto
  moreover have "next_oid ?ty = Inr (ds_oid d', ?ty\<lparr>ty_bytes := r', ty_index := ty_index ?ty + 1\<rparr>)"
    unfolding next_oid_Inr using assms(2,3) by auto
  ultimately show ?thesis by simp
qed

lemma descriptions_inj:
  "\<forall>d \<in> set ds. described_ok d \<Longrightarrow> \<forall>d \<in> set ds'. described_ok d \<Longrightarrow> length ds = length ds' \<Longrightarrow>
     concat (map described_bytes ds) = concat (map described_bytes ds') \<Longrightarrow> map ds_oid ds = map ds_oid ds'"
proof (induction ds arbitrary: ds')
  case (Cons d ds)
  then obtain e es where ds': "ds' = e # es" by (cases ds') auto
  with Cons described_bytes_inj[of d e "concat (map described_bytes ds)" "concat (map described_bytes es)"] show ?case by simp
qed simp

text \<open>The bytes of a row determine its columns.\<close>

lemma field_bytes_inj:
  assumes "field_fits c" and "field_fits d" and e: "field_bytes c @ r = field_bytes d @ r'"
  shows "c = d \<and> r = r'"
proof -
  have w: "from_be (take 4 (field_bytes c @ r)) = (case c of None \<Rightarrow> 2 ^ 32 - 1 | Some p \<Rightarrow> length p)" if "field_fits c" for c r
    using that by (auto simp: field_bytes_def field_fits_def from_be_255 split: option.splits)
  have s: "(case c of None \<Rightarrow> 2 ^ 32 - 1 | Some p \<Rightarrow> length p) = (case d of None \<Rightarrow> 2 ^ 32 - 1 | Some p \<Rightarrow> length p)"
    using w[OF assms(1), of r] w[OF assms(2), of r'] e by simp
  show ?thesis
  proof (cases c; cases d)
    fix p q assume "c = Some p" "d = Some q"
    with s e show ?thesis by (simp add: field_bytes_def)
  qed (use s e assms in \<open>auto simp: field_bytes_def field_fits_def\<close>)
qed

lemma row_bytes_inj:
  assumes "row_bytes cs = row_bytes ds" and "length cs = length ds" and "\<forall>c \<in> set cs. field_fits c" and "\<forall>d \<in> set ds. field_fits d"
  shows "cs = ds"
proof -
  have "concat (map field_bytes cs) = concat (map field_bytes ds)" using assms(1,2) by (simp add: row_bytes_def)
  then show ?thesis using assms(2-4)
  proof (induction cs arbitrary: ds)
    case (Cons c cs)
    then obtain d ds' where ds: "ds = d # ds'" by (cases ds) auto
    with Cons field_bytes_inj[of c d "concat (map field_bytes cs)" "concat (map field_bytes ds')"] show ?case by simp
  qed simp
qed

lemma row_parse_cells:
  assumes "\<forall>c \<in> set cells. field_fits c" and "length cells = row_width t" and "row_width t < 32768"
  shows "(\<exists>v. row_parse t (row_bytes cells) (row_width t) = Inr v) \<longleftrightarrow> list_all2 cell_reads (row_cells t) cells"
proof
  assume "\<exists>v. row_parse t (row_bytes cells) (row_width t) = Inr v"
  then obtain v cols where c: "row_bytes cells = row_bytes cols" "\<forall>c \<in> set cols. field_fits c" "row_view t cols = Some (v, [])"
    unfolding row_parse_exact by blast
  have "cells = cols" using row_bytes_inj[OF c(1) _ assms(1) c(2)] row_view_width[OF c(3)] assms(2) by simp
  with row_view_cells[OF c(3)] show "list_all2 cell_reads (row_cells t) cells" by auto
next
  assume "list_all2 cell_reads (row_cells t) cells"
  from row_view_reads[OF this, of "[]"] show "\<exists>v. row_parse t (row_bytes cells) (row_width t) = Inr v"
    unfolding row_parse_exact using assms by auto
qed

lemma described_rows_decode:
  assumes q: "types_query q (description_bytes ds) reg = Inr ()" and ds: "\<forall>d \<in> set ds. described_ok d" "length ds < 32768"
    and r: "registry_assigned reg" and f: "length vals = length ds"
      "\<forall>i < length ds. pred_option (described_value reg (ds_oid (ds ! i))) (vals ! i)"
  shows "(\<exists>v. row_parse (tq_row q) (row_bytes (map (map_option value_bytes) vals)) (tq_columns q) = Inr v) \<longleftrightarrow>
    (\<forall>i < length ds. cell_admits (row_cells (tq_row q) ! i) (vals ! i))"
proof -
  let ?cs = "row_cells (tq_row q)" and ?cells = "map (map_option value_bytes) vals"
  from q obtain ds' where n: "tq_columns q = row_width (tq_row q)" "tq_columns q < 32768" and
    d: "description_bytes ds = description_bytes ds'" "described_rows reg (map cell_target ?cs) ds'"
    by (auto simp: types_query_exact)
  have l': "length ds' = row_width (tq_row q)" using d(2) by (auto simp: described_rows_def length_row_cells dest!: list_all2_lengthD)
  have "be16 (length ds) = be16 (length ds')" and c: "concat (map described_bytes ds) = concat (map described_bytes ds')"
    using d(1) by (auto simp: description_bytes_def)
  then have "from_be (be16 (length ds)) = from_be (be16 (length ds'))" by simp
  then have l: "length ds = length ds'" using ds(2) l' n by simp
  have "\<forall>d \<in> set ds'. described_ok d" using d(2) by (auto simp: described_rows_def list_all2_conv_all_nth in_set_conv_nth)
  then have o: "map ds_oid ds = map ds_oid ds'" using descriptions_inj[OF ds(1) _ l c] by blast
  have cell: "cell_reads (?cs ! i) (?cells ! i) \<longleftrightarrow> cell_admits (?cs ! i) (vals ! i)" if i: "i < length ds" for i
  proof -
    have "target_accepts reg (cell_target (?cs ! i)) (ds_oid (ds' ! i))"
      using d(2) i l l' by (auto simp: described_rows_def list_all2_conv_all_nth length_row_cells)
    moreover have "ds_oid (ds ! i) = ds_oid (ds' ! i)" using o i l by (metis nth_map)
    ultimately have "target_accepts reg (cell_target (?cs ! i)) (ds_oid (ds ! i))" by simp
    from cell_reads_described[OF r this] f i show ?thesis by simp
  qed
  have "\<forall>c \<in> set ?cells. field_fits c"
    using f by (fastforce simp: in_set_conv_nth field_fits_def described_value_def split: option.splits)
  from row_parse_cells[OF this] n f(1) l l' cell show ?thesis
    by (auto simp: list_all2_conv_all_nth length_row_cells)
qed

section \<open>Admitted queries\<close>

lemma formats_take_Inr:
  "formats_take f fm = Inr fm' \<longleftrightarrow> fm_index fm < fm_columns fm \<and> declared_format (fm_values fm) (fm_index fm) = f \<and>
     fm' = fm\<lparr>fm_index := fm_index fm + 1\<rparr>"
  by (auto simp: formats_take_def Let_def)

lemma formats_takes_Inr:
  "run_steps formats_take fs fm = Inr fm' \<longleftrightarrow> (fs \<noteq> [] \<longrightarrow> fm_index fm + length fs \<le> fm_columns fm) \<and>
     (\<forall>j < length fs. declared_format (fm_values fm) (fm_index fm + j) = fs ! j) \<and>
     fm' = fm\<lparr>fm_index := fm_index fm + length fs\<rparr>"
proof (induction fs arbitrary: fm)
  case (Cons f fs)
  show ?case
    by (auto simp: bindr_Inr_iff formats_take_Inr Cons.IH All_less_Suc2)
qed auto

text \<open>A query is admitted exactly when its metadata are consistent and every result column's declared format
  is the one its field type reads.\<close>

definition query_ok :: "typed_query \<Rightarrow> bool" where
  "query_ok q \<longleftrightarrow>
     (tq_kind q = KindRows \<longleftrightarrow> tq_columns q \<noteq> 0) \<and> (tq_scalar q \<longrightarrow> tq_columns q = 1) \<and>
     tq_name q \<noteq> [] \<and> tq_name q \<noteq> ltree_probe_name \<and> 0 \<notin> set (tq_name q) \<and> 0 \<notin> set (tq_sql q) \<and>
     tq_columns q \<le> 32767 \<and> tq_params q = int (length (tq_oids q)) \<and>
     is_format_count (length (tq_param_formats q)) (length (tq_oids q)) \<and> (\<forall>f \<in> set (tq_param_formats q). f \<le> 1) \<and>
     is_format_count (length (tq_result_formats q)) (tq_columns q) \<and> (\<forall>f \<in> set (tq_result_formats q). f \<le> 1) \<and>
     row_width (tq_row q) = tq_columns q \<and>
     (\<forall>i < tq_columns q. declared_format (tq_result_formats q) i = cell_format (row_cells (tq_row q) ! i))"

lemma check_codes_Inr:
  "check_codes fs n kind = Inr () \<longleftrightarrow> is_format_count (length fs) n \<and> (\<forall>f \<in> set fs. f \<le> 1)"
  by (auto simp: check_codes_def position_None not_less split: option.splits dest!: position_Some) (metis nth_mem not_less)

lemma query_check_Inr:
  "query_check q = Inr () \<longleftrightarrow>
     (tq_kind q = KindRows \<longleftrightarrow> tq_columns q \<noteq> 0) \<and> (tq_scalar q \<longrightarrow> tq_columns q = 1) \<and>
     tq_name q \<noteq> [] \<and> tq_name q \<noteq> ltree_probe_name \<and> 0 \<notin> set (tq_name q) \<and> 0 \<notin> set (tq_sql q) \<and>
     tq_columns q \<le> 32767 \<and> tq_params q = int (length (tq_oids q)) \<and>
     is_format_count (length (tq_param_formats q)) (length (tq_oids q)) \<and> (\<forall>f \<in> set (tq_param_formats q). f \<le> 1) \<and>
     is_format_count (length (tq_result_formats q)) (tq_columns q) \<and> (\<forall>f \<in> set (tq_result_formats q). f \<le> 1)"
proof -
  have i: "(if c then Inl e else r) = Inr u \<longleftrightarrow> \<not> c \<and> r = Inr u" for c e r and u :: unit by simp
  have o: "(case x of None \<Rightarrow> r | Some p \<Rightarrow> Inl (f p)) = Inr u \<longleftrightarrow> x = None \<and> r = Inr u" for x f r and u :: unit
    by (simp split: option.split)
  have n: "nul v = None \<longleftrightarrow> 0 \<notin> set v" for v by (auto simp: nul_def position_None)
  have c: "(bindr (check_codes a m FormatParameter) (\<lambda>_. r) :: encode_error + unit) = Inr () \<longleftrightarrow> check_codes a m FormatParameter = Inr () \<and> r = Inr ()" for a m r
    by (simp add: bindr_Inr_iff)
  have p: "\<not> (tq_params q < 0 \<or> nat (tq_params q) \<noteq> length (tq_oids q)) \<longleftrightarrow> tq_params q = int (length (tq_oids q))" by auto
  have s: "parts_matches [tq_name q] ltree_probe_name \<longleftrightarrow> tq_name q = ltree_probe_name" by (auto simp: parts_matches_iff)
  show ?thesis unfolding query_check_def i o n c p s check_codes_Inr not_less by auto
qed

lemma query_validate_exact: "query_validate q = Inr () \<longleftrightarrow> query_ok q"
proof -
  let ?fm = "formats_new (tq_result_formats q) (tq_columns q)"
  have "bindr (row_formats (tq_row q) ?fm) formats_finish = Inr () \<longleftrightarrow> row_width (tq_row q) = tq_columns q \<and>
      (\<forall>i < tq_columns q. declared_format (tq_result_formats q) i = cell_format (row_cells (tq_row q) ! i))"
    unfolding row_formats_steps bindr_Inr_iff formats_takes_Inr
    by (auto simp: formats_new_def formats_finish_def length_row_cells split: if_splits)
  then show ?thesis unfolding query_validate_def bindr_Inr_iff query_ok_def using query_check_Inr[of q] by auto
qed

text \<open>The places at which formats are looked up lie inside the declared lists.\<close>

lemma declared_in_range:
  "is_format_count (length fs) n \<Longrightarrow> i < n \<Longrightarrow> length fs \<le> 1 \<or> i < length fs"
  by (auto simp: is_format_count_def)

end
