(* ===== verification/Pg_Value_Claims.thy ===== *)
theory Pg_Value_Claims
  imports Pg_Desc_Spec
begin

text \<open>
  Properties of column values, rows, parameters and descriptions.
\<close>

section \<open>Concrete inputs\<close>

definition demo_params :: "param list" where
  "demo_params = [ParamScalar (PI32 7), ParamNull, ParamData (PText [104, 105]), ParamArray (PI64s [1, 2])]"

definition demo_oids :: "nat list" where
  "demo_oids = [23, 17, 25, 1016]"

lemma field_sizes:
  "length (field_bytes f) = 4 + (case f of None \<Rightarrow> 0 | Some p \<Rightarrow> length p)"
  by (simp add: field_bytes_def split: option.split)

lemma length_array_payload: "length (array_payload e vs) = 20 + (\<Sum>v\<leftarrow>vs. 4 + length v)"
  by (simp add: array_payload_def field_bytes_def length_concat comp_def)

lemma demo_utf8: "utf8_ok [104, 105]"
  by (rule utf8_ok_ascii) simp

lemma params_admitted_Nil: "params_admitted oids formats i [] \<longleftrightarrow> i = length oids"
  by (simp add: params_admitted_def)

lemma demo_admitted: "params_admitted demo_oids [1] 0 demo_params"
  unfolding demo_params_def params_admitted_Cons params_admitted_Nil
  by (simp add: demo_oids_def param_admitted_def field_fits_def declared_format_def length_array_payload)

lemma demo_typed: "\<forall>p \<in> set demo_params. param_typed p"
  by (simp add: demo_params_def demo_utf8)

lemma demo_params_size: "length (params_text demo_params) = 66"
  by (simp add: params_text_def demo_params_def field_sizes length_array_payload)

section \<open>Rows\<close>

text \<open>C22: Decoding a row succeeds exactly when its payload is a count and that many columns, one for each field
  of the row type, whose values are values of their fields, null only where the field is optional; the view is
  then those values, and nothing of the payload is left.\<close>

theorem row_decode_exact:
  "row_parse t bs n = Inr v \<longleftrightarrow> n = row_width t \<and> n < 32768 \<and>
     (\<exists>cols. bs = row_bytes cols \<and> (\<forall>c \<in> set cols. field_fits c) \<and> row_view t cols = Some (v, []))"
  by (rule row_parse_exact)

definition demo_row_type :: row_type where
  "demo_row_type = RowPair (RowField ScI32) (RowPair (RowOption ScText) RowUnit)"

theorem row_decode_exact_witness:
  "row_parse demo_row_type (row_bytes [Some [0, 0, 0, 7], None]) 2 =
     Inr (ViewPair (ViewField (FvI32 7)) (ViewPair (ViewOption None) ViewUnit))"
proof -
  have "from_be_word [0, 0, 0, 7] = (7 :: 32 word)" by (simp add: from_be_word_def from_be_def)
  then have "row_view demo_row_type [Some [0, 0, 0, 7], None] =
      Some (ViewPair (ViewField (FvI32 7)) (ViewPair (ViewOption None) ViewUnit), [])"
    by (simp add: demo_row_type_def view_then_def cell_view_def)
  then show ?thesis unfolding row_decode_exact
    by (intro conjI exI[of _ "[Some [0, 0, 0, 7], None]"]) (simp_all add: demo_row_type_def field_fits_def)
qed

text \<open>C23: Once a collection of rows was validated, viewing it without checks never reads outside a row nor
  takes a text that is not UTF-8, and gives for every row what decoding it gives.\<close>

theorem validated_views_safe:
  assumes "checked_fields t" and "collection_validate t n rows = Inr ()"
  shows "\<exists>vs. map (\<lambda>row. row_parse t row n) rows = map Inr vs \<and> views t rows = map Some vs"
  using assms by (rule collection_views)

definition demo_checked :: row_type where
  "demo_checked = RowPair (RowField ScI64) (RowPair (RowField ScString) RowUnit)"

definition demo_checked_row :: bytes where
  "demo_checked_row = row_bytes [Some [0, 0, 0, 0, 0, 0, 0, 9], Some [104, 105]]"

lemma demo_checked_valid: "row_validate demo_checked demo_checked_row 2 = Inr ()"
  unfolding row_validate_parse row_parse_exact demo_checked_row_def
  by (intro exI conjI) (auto simp: demo_checked_def view_then_def cell_view_def field_fits_def demo_utf8)

theorem validated_views_safe_witness:
  "\<exists>v. views demo_checked [demo_checked_row] = [Some v] \<and> row_parse demo_checked demo_checked_row 2 = Inr v"
proof -
  have "checked_fields demo_checked" by (simp add: demo_checked_def)
  moreover have "collection_validate demo_checked 2 [demo_checked_row] = Inr ()" by (simp add: demo_checked_valid)
  ultimately show ?thesis using validated_views_safe[of demo_checked 2 "[demo_checked_row]"] by auto
qed

text \<open>C24: Reading an array lazily gives exactly the elements that collecting it gives and then ends for good;
  where collecting fails, the iterator gives the elements before the failure, the same error once, and ends.\<close>

theorem array_lazy_collect:
  "case try_collect (\<lambda>_. None) t a of
     Inr vs \<Rightarrow> length vs = av_len a \<and>
       iter_answers (av_len a + 1 + k) t (array_iter a) = map (\<lambda>v. Some (Inr v)) vs @ replicate (k + 1) None
   | Inl e \<Rightarrow> \<exists>vs. length vs \<le> av_len a \<and>
       iter_answers (av_len a + 1 + k) t (array_iter a) =
         map (\<lambda>v. Some (Inr v)) vs @ Some (Inl e) # replicate (av_len a + k - length vs) None"
  unfolding try_collect_def allocate_def array_iter_def option.case bindr.simps by (rule iter_collect)

section \<open>Parameters\<close>

text \<open>C25: When every parameter is admitted at its place and fits, and there is room, the parameters are written
  whole; and what was written, behind its count, is a row that decodes to the parameters.\<close>

theorem parameters_round_trip:
  assumes "spare_laws W" and "params_admitted oids formats 0 ps" and "\<forall>p \<in> set ps. param_typed p"
    and "length (params_text ps) \<le> sp_room W s" and "length ps < 32768"
  shows "\<exists>s'. bind_values W oids formats ps s = Inr (s', ()) \<and> sp_content W s' = sp_content W s @ params_text ps \<and>
    row_into_owned (\<lambda>_. None) (params_type ps) (be16 (length ps) @ params_text ps) (length ps) = Inr (params_view ps)"
proof -
  have "\<forall>p \<in> set ps. param_typed p \<and> field_fits (param_payload p)"
    using assms(2,3) by (auto simp: params_admitted_def in_set_conv_nth)
  from params_read_back[OF this assms(5)] writes_room[OF writes_bind_values[OF assms(1,2)] assms(4)] show ?thesis by blast
qed

theorem parameters_round_trip_witness:
  "\<exists>s'. bind_values list_spare demo_oids [1] demo_params (100, []) = Inr (s', ()) \<and>
    snd s' = params_text demo_params \<and>
    row_into_owned (\<lambda>_. None) (params_type demo_params) (be16 4 @ params_text demo_params) 4 = Inr (params_view demo_params)"
proof -
  have "length demo_params = 4" by (simp add: demo_params_def)
  then show ?thesis
    using parameters_round_trip[OF list_spare_laws demo_admitted demo_typed, of "(100, [])"] demo_params_size
    by (simp add: list_spare_def)
qed

text \<open>C26: Parameters are written exactly when there is one for every declared place, each null or of the type
  and format declared for its place, each short enough for its length, and there is room for them all;
  in every other case an error is returned.\<close>

theorem parameters_admitted_exact:
  assumes "spare_laws W"
  shows "if params_admitted oids formats 0 ps \<and> length (params_text ps) \<le> sp_room W s
    then \<exists>s'. bind_values W oids formats ps s = Inr (s', ()) \<and> sp_content W s' = sp_content W s @ params_text ps
    else \<exists>e. bind_values W oids formats ps s = Inl e"
  using write_params_exact[OF assms, of oids formats 0 ps s]
  by (auto simp: bind_values_def bind_writer_new_def split: if_splits)

theorem parameters_admitted_exact_witness:
  "\<exists>e. bind_values list_spare [20] [1] [ParamScalar (PI32 7)] (100, []) = Inl e"
proof -
  have "\<not> params_admitted [20] [1] 0 [ParamScalar (PI32 7)]"
    unfolding params_admitted_Cons by (simp add: param_admitted_def declared_format_def)
  then show ?thesis using parameters_admitted_exact[OF list_spare_laws, of "[20]" "[1]" "[ParamScalar (PI32 7)]" "(100, [])"] by simp
qed

section \<open>Descriptions\<close>

text \<open>C27: A server's description of a query is accepted exactly when the query returns rows and the description
  lists one column for every field of its row type, in order, each with an identifier that the field reads.\<close>

theorem description_exact:
  "types_query q payload reg = Inr () \<longleftrightarrow>
     tq_kind q = KindRows \<and> tq_columns q = row_width (tq_row q) \<and> tq_columns q < 32768 \<and>
     (\<exists>ds. payload = description_bytes ds \<and> described_rows reg (map cell_target (row_cells (tq_row q))) ds)"
  by (rule types_query_exact)

text \<open>C28: Rows are as their description says: when a query's description was accepted, a row whose columns are
  null or any values of the described types, arrays of every dimension, lower bound and with or without nulls among
  them, decodes at the query's row type exactly when null stands only where the field is optional and every array
  has at most one dimension and is not marked as holding nulls; every other such row is refused.\<close>

theorem described_rows_typed:
  assumes "types_query q (description_bytes ds) reg = Inr ()"
    and "\<forall>d \<in> set ds. described_ok d" and "length ds < 32768" and "registry_assigned reg" and "length vals = length ds"
    and "\<forall>i < length ds. pred_option (described_value reg (ds_oid (ds ! i))) (vals ! i)"
  shows "(\<exists>v. row_parse (tq_row q) (row_bytes (map (map_option value_bytes) vals)) (tq_columns q) = Inr v) \<longleftrightarrow>
    (\<forall>i < length ds. cell_admits (row_cells (tq_row q) ! i) (vals ! i))"
  using assms by (rule described_rows_decode)

definition demo_query :: typed_query where
  "demo_query = \<lparr>tq_name = [113], tq_sql = [83], tq_oids = demo_oids, tq_params = 4, tq_columns = 2,
     tq_param_formats = [1], tq_result_formats = [1], tq_kind = KindRows, tq_scalar = False, tq_row = demo_row_type\<rparr>"

definition demo_description :: "described list" where
  "demo_description = [\<lparr>ds_name = [97], ds_table = [0, 0, 0, 0, 0, 1], ds_oid = 23, ds_size = [0, 4, 0, 0, 0, 0]\<rparr>,
     \<lparr>ds_name = [98], ds_table = [0, 0, 0, 0, 0, 2], ds_oid = 25, ds_size = [255, 255, 0, 0, 0, 0]\<rparr>]"

lemma demo_described: "types_query demo_query (description_bytes demo_description) registry_default = Inr ()"
  unfolding types_query_exact
  by (intro conjI exI[of _ demo_description])
     (simp_all add: demo_query_def demo_row_type_def described_rows_def demo_description_def described_ok_def target_accepts_def)

text \<open>A column of text that may be null and one of integers in an array.\<close>

definition demo_arrays :: typed_query where
  "demo_arrays = demo_query\<lparr>tq_row := RowPair (RowOption ScText) (RowVec ElI32)\<rparr>"

definition demo_array_columns :: "described list" where
  "demo_array_columns = [\<lparr>ds_name = [97], ds_table = [0, 0, 0, 0, 0, 1], ds_oid = 25, ds_size = [255, 255, 0, 0, 0, 0]\<rparr>,
     \<lparr>ds_name = [98], ds_table = [0, 0, 0, 0, 0, 2], ds_oid = 1007, ds_size = [255, 255, 0, 0, 0, 0]\<rparr>]"

definition demo_array :: "bytes option list \<Rightarrow> server_value" where
  "demo_array items = ArrayValue 23 \<lparr>sa_dims = [(length items, 3)], sa_nulls = None \<in> set items, sa_items = items\<rparr>"

lemma demo_array_described:
  assumes "length items \<le> 10" and "\<forall>f \<in> set items. f = None \<or> f = Some [0, 0, 0, 7]"
  shows "described_value registry_default 1007 (demo_array items)"
proof -
  have "length (concat (map field_bytes items)) \<le> 8 * length items" using assms(2)
    by (induction items) (auto simp: field_bytes_def)
  then show ?thesis using assms
    by (auto simp: described_value_def demo_array_def server_array_ok_def server_array_bytes_def array_element_oid_def field_fits_def
        simp del: be_bytes_0 length_concat)
qed

theorem described_rows_typed_witness:
  "(\<exists>v. row_parse (tq_row demo_arrays) (row_bytes (map (map_option value_bytes) [None, Some (demo_array [Some [0, 0, 0, 7]])])) 2 = Inr v) \<and>
   \<not> (\<exists>v. row_parse (tq_row demo_arrays) (row_bytes (map (map_option value_bytes) [None, Some (demo_array [Some [0, 0, 0, 7], None])])) 2 = Inr v)"
proof -
  have q: "types_query demo_arrays (description_bytes demo_array_columns) registry_default = Inr ()"
    unfolding types_query_exact
    by (intro conjI exI[of _ demo_array_columns])
       (simp_all add: demo_arrays_def demo_query_def described_rows_def demo_array_columns_def described_ok_def target_accepts_def vec_target_def)
  have d: "\<forall>d \<in> set demo_array_columns. described_ok d" "length demo_array_columns = 2" "registry_assigned registry_default"
    "ds_oid (demo_array_columns ! Suc 0) = 1007" "tq_columns demo_arrays = 2"
    by (simp_all add: demo_array_columns_def described_ok_def registry_assigned_def registry_default_def demo_arrays_def demo_query_def)
  have "(\<exists>v. row_parse (tq_row demo_arrays) (row_bytes (map (map_option value_bytes) [None, Some (demo_array items)])) 2 = Inr v) \<longleftrightarrow>
      None \<notin> set items" if "length items \<le> 10" "\<forall>f \<in> set items. f = None \<or> f = Some [0, 0, 0, 7]" for items
  proof -
    have "\<forall>i < 2. pred_option (described_value registry_default (ds_oid (demo_array_columns ! i))) ([None, Some (demo_array items)] ! i)"
      using demo_array_described[OF that] d(4) by (auto simp: numeral_2_eq_2 less_Suc_eq)
    with described_rows_typed[OF q d(1) _ d(3), of "[None, Some (demo_array items)]"] d(2,5)
    show ?thesis by (simp add: numeral_2_eq_2 All_less_Suc demo_arrays_def demo_array_def array_flat_def)
  qed
  from this[of "[Some [0, 0, 0, 7]]"] this[of "[Some [0, 0, 0, 7], None]"] show ?thesis by simp
qed

text \<open>C29: A query is admitted exactly when its metadata are consistent and each result column's declared format
  is the one its field reads; every format that encoding or decoding an admitted query then looks up lies
  inside the declared list.\<close>

theorem query_admission:
  "(query_validate q = Inr () \<longleftrightarrow> query_ok q) \<and>
   (query_validate q = Inr () \<longrightarrow>
     (\<forall>i < length (tq_oids q). length (tq_param_formats q) \<le> 1 \<or> i < length (tq_param_formats q)) \<and>
     (\<forall>i < tq_columns q. length (tq_result_formats q) \<le> 1 \<or> i < length (tq_result_formats q)))"
  unfolding query_validate_exact by (auto simp: query_ok_def is_format_count_def)

theorem query_admission_witness: "query_validate demo_query = Inr ()"
proof -
  have "query_ok demo_query"
    by (auto simp: query_ok_def demo_query_def demo_row_type_def demo_oids_def is_format_count_def declared_format_def
        scalar_format_def ltree_probe_name_def ascii_def less_2_cases_iff)
  then show ?thesis using query_admission[of demo_query] by blast
qed

section \<open>Groups of commands\<close>

text \<open>C30: A synchronized group gives the rows of its commands exactly when every command completed with a row and
  nothing else went wrong; otherwise the failure it gives has every outcome, with no row lost.\<close>

theorem group_rows_or_all_outcomes:
  "group_required from g =
     (if group_clean g \<and> (\<forall>x \<in> set (gf_outcomes g). \<exists>p. x = GroupCompleted (Some p))
      then Inr (map (\<lambda>x. the (fst (group_take x))) (gf_outcomes g))
      else Inl \<lparr>gf_outcomes = map (group_convert from) (gf_outcomes g), gf_diagnostics = gf_diagnostics g,
            gf_sync = gf_sync g, gf_sync_error = gf_sync_error g, gf_cause = gf_cause g\<rparr>)"
  by (rule group_required_exact)

theorem group_rows_or_all_outcomes_witness:
  "group_required id \<lparr>gf_outcomes = [GroupCompleted (Some (1::nat)), GroupSkipped], gf_diagnostics = [] :: nat list,
      gf_sync = SyncComplete, gf_sync_error = None, gf_cause = None\<rparr> =
    Inl \<lparr>gf_outcomes = [GroupCompleted 1, GroupSkipped], gf_diagnostics = [], gf_sync = SyncComplete,
      gf_sync_error = None, gf_cause = None\<rparr>"
  unfolding group_rows_or_all_outcomes by simp

end
