(* ===== verification/Pg_Prepare.thy ===== *)
theory Pg_Prepare
  imports Pg_Desc_Spec Pg_Frame
begin

text \<open>
  \<open>pg/src/schema/prepare/\<close> and \<open>pg/src/schema/groups/\<close>: the wire that prepares every statement of a query
  set, built once into a buffer of exactly its length, and the catalog of the set with its cursors.  Writing
  outside the buffer, which the source answers with a panic, is \<open>None\<close>.
\<close>

section \<open>Lengths\<close>

record lengths =
  ln_parse :: nat
  ln_describe :: nat
  ln_wire :: nat

definition frame_add :: "encode_scope \<Rightarrow> nat \<Rightarrow> nat \<Rightarrow> encode_error + nat" where
  "frame_add scope current added =
     (case checked_add64 current added of Some n \<Rightarrow> Inr n | None \<Rightarrow> Inl (EnLengthOverflow scope current added))"

definition parse_message_len :: "bytes \<Rightarrow> bytes \<Rightarrow> nat list \<Rightarrow> encode_error + nat" where
  "parse_message_len name sql oids =
     (let bs = length oids * 4 in
      bindr (frame_add ScopeFrame (length name) 1) (\<lambda>name.
      bindr (frame_add ScopeFrame (length sql) 1) (\<lambda>sql.
      bindr (frame_add ScopeFrame 4 name) (\<lambda>len.
      bindr (frame_add ScopeFrame len sql) (\<lambda>len.
      bindr (frame_add ScopeFrame len 2) (\<lambda>len.
      bindr (frame_add ScopeFrame len bs) (\<lambda>len.
      if i32_max < len then Inl (EnFrameLength len) else Inr len)))))))"

definition statement_lengths :: "bytes \<Rightarrow> bytes \<Rightarrow> nat list \<Rightarrow> encode_error + lengths" where
  "statement_lengths name sql oids =
     bindr (parse_message_len name sql oids) (\<lambda>parse.
     let describe = length name + 6 in
     Inr \<lparr>ln_parse = parse, ln_describe = describe, ln_wire = parse + describe + 2\<rparr>)"

section \<open>Writing\<close>

type_synonym out = "bytes \<times> nat"

fun write_slice :: "bytes \<Rightarrow> out \<Rightarrow> out option" where
  "write_slice [] o' = Some o'"
| "write_slice (b # bs) (out, at) = (if at < length out then write_slice bs (out[at := b], at + 1) else None)"

fun write_oids :: "nat list \<Rightarrow> out \<Rightarrow> out option" where
  "write_oids [] o' = Some o'"
| "write_oids (oid # oids) o' = Option.bind (write_slice (be32 oid) o') (write_oids oids)"

definition write_statement :: "bytes \<Rightarrow> bytes \<Rightarrow> nat list \<Rightarrow> lengths \<Rightarrow> out \<Rightarrow> out option" where
  "write_statement name sql oids ln o' =
     Option.bind (write_slice [80] o') (\<lambda>o'.
     Option.bind (write_slice (be32 (ln_parse ln)) o') (\<lambda>o'.
     Option.bind (write_slice name o') (\<lambda>o'.
     Option.bind (write_slice [0] o') (\<lambda>o'.
     Option.bind (write_slice sql o') (\<lambda>o'.
     Option.bind (write_slice [0] o') (\<lambda>o'.
     Option.bind (write_slice (be16 (length oids mod 65536)) o') (\<lambda>o'.
     Option.bind (write_oids oids o') (\<lambda>o'.
     Option.bind (write_slice [68] o') (\<lambda>o'.
     Option.bind (write_slice (be32 (ln_describe ln)) o') (\<lambda>o'.
     Option.bind (write_slice [83] o') (\<lambda>o'.
     Option.bind (write_slice name o') (write_slice [0]))))))))))))"

definition write_query :: "query_meta \<Rightarrow> lengths \<Rightarrow> out \<Rightarrow> out option" where
  "write_query q ln = write_statement (qm_name q) (qm_sql q) (qm_oids q) ln"

section \<open>The query set\<close>

type_synonym query_groups = "query_meta list list"

fun prepare_count :: "nat \<Rightarrow> query_groups \<Rightarrow> encode_error + nat" where
  "prepare_count total' [] = Inr total'"
| "prepare_count total' (g # gs) =
     (if u32_max < length g then Inl (EnStatementCount total' (length g))
      else case checked_add32 total' (length g) of
          None \<Rightarrow> Inl (EnStatementCount total' (length g))
        | Some next' \<Rightarrow> prepare_count next' gs)"

definition prepare_dynamic :: "query_groups \<Rightarrow> nat" where
  "prepare_dynamic groups = foldl (\<lambda>d g. foldl (\<lambda>d q. or d (qm_dynamic q)) d g) 0 groups"

text \<open>The positions of a set in the order of the two loops, and the first statement whose name comes again.\<close>

definition positions :: "query_groups \<Rightarrow> (query_position \<times> query_meta) list" where
  "positions groups = concat (map (\<lambda>(g, qs). map (\<lambda>(q, m). (\<lparr>qp_group = g, qp_query = q\<rparr>, m)) (enumerate 0 qs)) (enumerate 0 groups))"

fun unique_from :: "(query_position \<times> query_meta) list \<Rightarrow> encode_error + unit" where
  "unique_from [] = Inr ()"
| "unique_from ((p, m) # rest) =
     (case find (\<lambda>(p', m'). parts_matches [qm_name m] (qm_name m')) rest of
        Some (p', _) \<Rightarrow> Inl (EnDuplicateStatement p p')
      | None \<Rightarrow> unique_from rest)"

definition prepare_unique :: "query_groups \<Rightarrow> encode_error + unit" where
  "prepare_unique groups = unique_from (positions groups)"

definition has_ltree :: "nat \<Rightarrow> bool" where
  "has_ltree flags \<longleftrightarrow> and flags 1 \<noteq> 0"

definition prepare_details :: "query_groups \<Rightarrow> encode_error + nat \<times> nat" where
  "prepare_details groups =
     (if u32_max < length groups then Inl (EnGroupCount (length groups))
      else bindr (prepare_count 0 groups) (\<lambda>stmts.
        bindr (prepare_unique groups) (\<lambda>_.
        let flags = prepare_dynamic groups in
        if has_ltree flags then
          (case checked_add32 stmts 1 of None \<Rightarrow> Inl (EnStatementCount stmts 1) | Some n \<Rightarrow> Inr (n, flags))
        else Inr (stmts, flags))))"

definition ltree_probe_sql :: bytes where
  "ltree_probe_sql = ascii ''SELECT NULL::ltree''"

fun wire_len_queries :: "query_meta list \<Rightarrow> nat \<Rightarrow> encode_error + nat" where
  "wire_len_queries [] n = Inr n"
| "wire_len_queries (q # qs) n =
     bindr (statement_lengths (qm_name q) (qm_sql q) (qm_oids q)) (\<lambda>ln.
     bindr (frame_add ScopePreparation n (ln_wire ln)) (wire_len_queries qs))"

fun wire_len_groups :: "query_groups \<Rightarrow> nat \<Rightarrow> encode_error + nat" where
  "wire_len_groups [] n = Inr n"
| "wire_len_groups (g # gs) n = bindr (wire_len_queries g n) (wire_len_groups gs)"

definition try_wire_len :: "query_groups \<Rightarrow> encode_error + nat" where
  "try_wire_len groups =
     bindr (if has_ltree (prepare_dynamic groups) then
              bindr (statement_lengths ltree_probe_name ltree_probe_sql []) (\<lambda>ln.
              frame_add ScopePreparation (length sync_message) (ln_wire ln))
            else Inr (length sync_message)) (wire_len_groups groups)"

fun build_queries :: "query_meta list \<Rightarrow> out \<Rightarrow> (encode_error + out) option" where
  "build_queries [] o' = Some (Inr o')"
| "build_queries (q # qs) o' =
     (case statement_lengths (qm_name q) (qm_sql q) (qm_oids q) of
        Inl e \<Rightarrow> Some (Inl e)
      | Inr ln \<Rightarrow> Option.bind (write_query q ln o') (build_queries qs))"

fun build_groups :: "query_groups \<Rightarrow> out \<Rightarrow> (encode_error + out) option" where
  "build_groups [] o' = Some (Inr o')"
| "build_groups (g # gs) o' =
     Option.bind (build_queries g o') (\<lambda>r. case r of Inl e \<Rightarrow> Some (Inl e) | Inr o' \<Rightarrow> build_groups gs o')"

record prepare =
  pr_wire :: bytes
  pr_statements :: nat
  pr_groups :: query_groups
  pr_flags :: nat

definition try_build :: "nat \<Rightarrow> query_groups \<Rightarrow> (encode_error + prepare) option" where
  "try_build n groups =
     (case prepare_details groups of Inl e \<Rightarrow> Some (Inl e) | Inr (stmts, flags) \<Rightarrow>
      (case try_wire_len groups of Inl e \<Rightarrow> Some (Inl e) | Inr expected \<Rightarrow>
       if n \<noteq> expected then Some (Inl (EnPreparationSize expected n))
       else
         Option.bind
           (if has_ltree flags then
              (case statement_lengths ltree_probe_name ltree_probe_sql [] of
                 Inl e \<Rightarrow> Some (Inl e)
               | Inr ln \<Rightarrow> map_option Inr (write_statement ltree_probe_name ltree_probe_sql [] ln (replicate n 0, 0)))
            else Some (Inr (replicate n 0, 0))) (\<lambda>r.
         case r of Inl e \<Rightarrow> Some (Inl e) | Inr o' \<Rightarrow>
         Option.bind (build_groups groups o') (\<lambda>r.
         case r of Inl e \<Rightarrow> Some (Inl e) | Inr o' \<Rightarrow>
         map_option (\<lambda>(out, _). Inr \<lparr>pr_wire = out, pr_statements = stmts, pr_groups = groups, pr_flags = flags\<rparr>)
           (write_slice sync_message o')))))"

definition prepare_empty :: prepare where
  "prepare_empty = \<lparr>pr_wire = sync_message, pr_statements = 0, pr_groups = [], pr_flags = 0\<rparr>"

section \<open>The catalog\<close>

record cursor_at =
  cu_group :: nat
  cu_query :: nat

datatype catalog_step = StepQuery cursor_at | StepComplete

text \<open>The search for the next query, from a group and a place in it.\<close>

function catalog_at :: "query_groups \<Rightarrow> nat \<Rightarrow> nat \<Rightarrow> catalog_step" where
  "catalog_at groups grp query =
     (if grp < length groups then
        if query < length (groups ! grp) then StepQuery \<lparr>cu_group = grp, cu_query = query\<rparr>
        else catalog_at groups (grp + 1) 0
      else StepComplete)"
  by pat_completeness auto
termination
  by (relation "measure (\<lambda>(groups, grp, query). length groups - grp)") auto

declare catalog_at.simps [simp del]

definition catalog_first :: "query_groups \<Rightarrow> catalog_step" where
  "catalog_first groups = catalog_at groups 0 0"

definition catalog_next :: "query_groups \<Rightarrow> cursor_at \<Rightarrow> catalog_step" where
  "catalog_next groups c = catalog_at groups (cu_group c) (cu_query c + 1)"

text \<open>The unchecked lookup of a cursor's metadata; \<open>None\<close> is a position outside the set.\<close>

definition cursor_metadata :: "query_groups \<Rightarrow> cursor_at \<Rightarrow> query_meta option" where
  "cursor_metadata groups c = Option.bind (get groups (cu_group c)) (\<lambda>g. get g (cu_query c))"

text \<open>A query set as its types give it: for each group the declared metadata and the queries themselves.\<close>

record query_group =
  qg_queries :: "query_meta list"
  qg_items :: "typed_query list"

fun items_matches :: "typed_query list \<Rightarrow> query_meta list \<Rightarrow> bool" where
  "items_matches [] ms \<longleftrightarrow> ms = []"
| "items_matches (q # qs) ms \<longleftrightarrow> (case ms of [] \<Rightarrow> False | m # ms \<Rightarrow> query_matches m q \<and> items_matches qs ms)"

fun items_validate :: "typed_query list \<Rightarrow> nat \<Rightarrow> bytes \<Rightarrow> registry \<Rightarrow> pg_error + unit" where
  "items_validate [] query payload reg = Inl PgQueryMetadata"
| "items_validate (q # qs) query payload reg =
     (if query = 0 then types_query q payload reg else items_validate qs (query - 1) payload reg)"

fun list_matches :: "query_group list \<Rightarrow> query_groups \<Rightarrow> bool" where
  "list_matches [] gs \<longleftrightarrow> gs = []"
| "list_matches (h # hs) gs \<longleftrightarrow>
     (case gs of [] \<Rightarrow> False | g # gs \<Rightarrow> g = qg_queries h \<and> items_matches (qg_items h) g \<and> list_matches hs gs)"

fun list_validate :: "query_group list \<Rightarrow> nat \<Rightarrow> nat \<Rightarrow> bytes \<Rightarrow> registry \<Rightarrow> pg_error + unit" where
  "list_validate [] grp query payload reg = Inl PgQueryMetadata"
| "list_validate (h # hs) grp query payload reg =
     (if grp = 0 then items_validate (qg_items h) query payload reg else list_validate hs (grp - 1) query payload reg)"

definition catalog_try_new :: "query_group list \<Rightarrow> query_groups \<Rightarrow> pg_error + unit" where
  "catalog_try_new hs groups = (if list_matches hs groups then Inr () else Inl PgQueryMetadata)"

end
