(* ===== verification/Pg_Prepare_Spec.thy ===== *)
theory Pg_Prepare_Spec
  imports Pg_Prepare
begin

text \<open>
  What the preparation wire of a query set is: the statements of the set in order, each announced and described,
  after the probe for the types that need one and before the synchronization; and the walk of the catalog over
  the set, one query per step.
\<close>

section \<open>The wire as text\<close>

definition statement_text :: "bytes \<Rightarrow> bytes \<Rightarrow> nat list \<Rightarrow> bytes" where
  "statement_text name sql oids =
     message_text fe_parse (cstr name @ cstr sql @ be16 (length oids mod 65536) @ concat (map be32 oids)) @
     message_text 68 (83 # cstr name)"

definition query_text :: "query_meta \<Rightarrow> bytes" where
  "query_text q = statement_text (qm_name q) (qm_sql q) (qm_oids q)"

definition probe_text :: "query_groups \<Rightarrow> bytes" where
  "probe_text groups =
     (if has_ltree (prepare_dynamic groups) then statement_text ltree_probe_name ltree_probe_sql [] else [])"

definition set_text :: "query_groups \<Rightarrow> bytes" where
  "set_text groups = probe_text groups @ concat (map query_text (concat groups)) @ sync_message"

definition statement_fits :: "bytes \<Rightarrow> bytes \<Rightarrow> nat list \<Rightarrow> bool" where
  "statement_fits name sql oids \<longleftrightarrow> length name + length sql + 8 + 4 * length oids \<le> i32_max"

definition set_statements :: "query_groups \<Rightarrow> nat" where
  "set_statements groups = length (concat groups) + of_bool (has_ltree (prepare_dynamic groups))"

text \<open>A set that can be prepared: counts and lengths fit, and no two statements have one name.\<close>

definition set_fits :: "query_groups \<Rightarrow> bool" where
  "set_fits groups \<longleftrightarrow> length groups \<le> u32_max \<and> set_statements groups \<le> u32_max \<and>
     distinct (map qm_name (concat groups)) \<and>
     (\<forall>q \<in> set (concat groups). statement_fits (qm_name q) (qm_sql q) (qm_oids q)) \<and> length (set_text groups) \<le> u64_max"

section \<open>Filling a buffer\<close>

definition filled :: "bytes \<Rightarrow> nat \<Rightarrow> out" where
  "filled pre k = (pre @ replicate k 0, length pre)"

definition fills :: "(out \<Rightarrow> out option) \<Rightarrow> bytes \<Rightarrow> bool" where
  "fills f t \<longleftrightarrow> (\<forall>pre k. f (filled pre (length t + k)) = Some (filled (pre @ t) k))"

lemma fillsI: "(\<And>pre k. f (filled pre (length t + k)) = Some (filled (pre @ t) k)) \<Longrightarrow> fills f t"
  by (simp add: fills_def)

lemma fillsD: "fills f t \<Longrightarrow> f (filled pre (length t + k)) = Some (filled (pre @ t) k)"
  by (simp add: fills_def)

lemma fills_bind: "fills f s \<Longrightarrow> fills g t \<Longrightarrow> fills (\<lambda>o'. Option.bind (f o') g) (s @ t)"
  by (rule fillsI) (simp add: fillsD add.assoc)

lemma fills_skip: "fills Some []"
  by (simp add: fills_def)

lemma filled_step: "write_slice (b # bs) (filled pre (Suc k)) = write_slice bs (filled (pre @ [b]) k)"
  by (simp add: filled_def list_update_append)

lemma fills_slice: "fills (write_slice bs) bs"
proof (rule fillsI)
  show "write_slice bs (filled pre (length bs + k)) = Some (filled (pre @ bs) k)" for pre k
    by (induction bs arbitrary: pre) (simp_all add: filled_step del: write_slice.simps(2))
qed

lemma fills_oids: "fills (write_oids oids) (concat (map be32 oids))"
proof (induction oids)
  case Nil
  have "write_oids [] = Some" by (rule ext) simp
  then show ?case by (simp add: fills_skip)
next
  case (Cons oid oids)
  have "write_oids (oid # oids) = (\<lambda>o'. Option.bind (write_slice (be32 oid) o') (write_oids oids))" by (rule ext) simp
  with fills_bind[OF fills_slice Cons.IH] show ?case by simp
qed

section \<open>Lengths\<close>

lemma frame_add_Inr: "frame_add sc a b = Inr n \<longleftrightarrow> n = a + b \<and> n \<le> u64_max"
  by (auto simp: frame_add_def checked_add64_def)

lemma parse_message_len_Inr:
  "parse_message_len name sql oids = Inr n \<longleftrightarrow>
     n = length name + length sql + 8 + 4 * length oids \<and> statement_fits name sql oids"
  by (auto simp: parse_message_len_def bindr_Inr_iff frame_add_Inr statement_fits_def Let_def)

lemma statement_lengths_Inr:
  "statement_lengths name sql oids = Inr ln \<longleftrightarrow> statement_fits name sql oids \<and>
     ln = \<lparr>ln_parse = length name + length sql + 8 + 4 * length oids, ln_describe = length name + 6,
           ln_wire = length (statement_text name sql oids)\<rparr>"
proof -
  have "length (concat (map be32 oids)) = 4 * length oids" by (induction oids) auto
  then have "length (statement_text name sql oids) = length name + length sql + 8 + 4 * length oids + (length name + 6) + 2"
    by (simp add: statement_text_def message_text_def cstr_def)
  then show ?thesis
    by (auto simp: statement_lengths_def bindr_Inr_iff parse_message_len_Inr Let_def)
qed

lemma fills_statement:
  assumes "statement_lengths name sql oids = Inr ln"
  shows "fills (write_statement name sql oids ln) (statement_text name sql oids)"
proof -
  have l: "length (concat (map be32 oids)) = 4 * length oids" by (induction oids) auto
  have "fills (write_statement name sql oids ln)
      ([80] @ be32 (ln_parse ln) @ name @ [0] @ sql @ [0] @ be16 (length oids mod 65536) @ concat (map be32 oids) @
       [68] @ be32 (ln_describe ln) @ [83] @ name @ [0])"
    unfolding write_statement_def by (intro fills_bind fills_slice fills_oids)
  also have "[80] @ be32 (ln_parse ln) @ name @ [0] @ sql @ [0] @ be16 (length oids mod 65536) @ concat (map be32 oids) @
       [68] @ be32 (ln_describe ln) @ [83] @ name @ [0] = statement_text name sql oids"
    using assms l by (auto simp: statement_lengths_Inr statement_text_def message_text_def cstr_def fe_parse_def algebra_simps)
  finally show ?thesis .
qed

lemma wire_len_queries_Inr:
  "wire_len_queries qs n = Inr m \<longleftrightarrow> m = n + length (concat (map query_text qs)) \<and> (qs = [] \<or> m \<le> u64_max) \<and>
     (\<forall>q \<in> set qs. statement_fits (qm_name q) (qm_sql q) (qm_oids q))"
proof (induction qs arbitrary: n)
  case (Cons q qs)
  show ?case
    by (auto simp: bindr_Inr_iff Cons.IH statement_lengths_Inr frame_add_Inr query_text_def)
qed auto

lemma wire_len_groups_Inr:
  "wire_len_groups gs n = Inr m \<longleftrightarrow> m = n + length (concat (map query_text (concat gs))) \<and> (concat gs = [] \<or> m \<le> u64_max) \<and>
     (\<forall>q \<in> set (concat gs). statement_fits (qm_name q) (qm_sql q) (qm_oids q))"
proof (induction gs arbitrary: n)
  case (Cons g gs)
  have step: "wire_len_groups (g # gs) n = Inr m \<longleftrightarrow> (\<exists>k. wire_len_queries g n = Inr k \<and> wire_len_groups gs k = Inr m)"
    by (simp add: bindr_Inr_iff)
  obtain X where X: "concat gs = X" by simp
  then have gX: "concat (g # gs) = g @ X" by simp
  show ?case unfolding step Cons.IH wire_len_queries_Inr gX unfolding X by (cases "X = []") auto
qed auto

lemma probe_fits: "statement_fits ltree_probe_name ltree_probe_sql []"
  by (simp add: statement_fits_def ltree_probe_name_def ltree_probe_sql_def ascii_def)

lemma probe_short: "length (probe_text groups) + 5 \<le> u64_max"
  by (simp add: probe_text_def statement_text_def message_text_def cstr_def ltree_probe_name_def ltree_probe_sql_def ascii_def)

lemma try_wire_len_Inr:
  "try_wire_len groups = Inr n \<longleftrightarrow> n = length (set_text groups) \<and> n \<le> u64_max \<and>
     (\<forall>q \<in> set (concat groups). statement_fits (qm_name q) (qm_sql q) (qm_oids q))"
proof -
  have "(if has_ltree (prepare_dynamic groups) then
      bindr (statement_lengths ltree_probe_name ltree_probe_sql []) (\<lambda>ln. frame_add ScopePreparation (length sync_message) (ln_wire ln))
      else Inr (length sync_message)) = Inr (length sync_message + length (probe_text groups))"
    using probe_short[of groups] probe_fits
    by (auto simp: bindr_Inr_iff statement_lengths_Inr frame_add_Inr probe_text_def sync_message_def)
  moreover define X where "X = concat groups"
  moreover have "length sync_message = 5" by (simp add: sync_message_def)
  ultimately show ?thesis
    using probe_short[of groups]
    unfolding try_wire_len_def set_text_def X_def[symmetric] by (auto simp: wire_len_groups_Inr X_def[symmetric] add_ac)
qed

section \<open>Counting and names\<close>

lemma prepare_count_Inr:
  "prepare_count t gs = Inr n \<longleftrightarrow> n = t + length (concat gs) \<and> (gs = [] \<or> n \<le> u32_max)"
proof (induction gs arbitrary: t)
  case (Cons g gs)
  show ?case by (auto simp: checked_add32_def Cons.IH)
qed auto

lemma map_snd_enumerate_concat:
  "map snd (concat (map (\<lambda>(g, qs). map (\<lambda>(q, m). (\<lparr>qp_group = g, qp_query = q\<rparr>, m)) (enumerate 0 qs)) (enumerate n groups)))
     = concat groups"
proof (induction groups arbitrary: n)
  case (Cons g gs)
  have "map (snd \<circ> (\<lambda>(q, m). (\<lparr>qp_group = n, qp_query = q\<rparr>, m))) (enumerate 0 g) = map snd (enumerate 0 g)"
    by (rule map_cong) auto
  then have "map (snd \<circ> (\<lambda>(q, m). (\<lparr>qp_group = n, qp_query = q\<rparr>, m))) (enumerate 0 g) = g" by simp
  with Cons show ?case by simp
qed simp

lemma map_snd_positions: "map snd (positions groups) = concat groups"
  unfolding positions_def by (rule map_snd_enumerate_concat)

lemma unique_from_Inr: "unique_from ps = Inr () \<longleftrightarrow> distinct (map (qm_name \<circ> snd) ps)"
proof (induction ps rule: unique_from.induct)
  case (2 p m rest)
  have "find (\<lambda>(p', m'). parts_matches [qm_name m] (qm_name m')) rest = None \<longleftrightarrow> qm_name m \<notin> (qm_name \<circ> snd) ` set rest"
    by (force simp: find_None_iff parts_matches_iff)
  with 2 show ?case by (auto split: option.split)
qed simp

lemma prepare_unique_Inr: "prepare_unique groups = Inr () \<longleftrightarrow> distinct (map qm_name (concat groups))"
  unfolding prepare_unique_def unique_from_Inr by (simp flip: map_snd_positions)

lemma prepare_details_Inr:
  "prepare_details groups = Inr (n, f) \<longleftrightarrow> length groups \<le> u32_max \<and> n = set_statements groups \<and> n \<le> u32_max \<and>
     distinct (map qm_name (concat groups)) \<and> f = prepare_dynamic groups"
proof -
  have "(\<exists>s. prepare_count 0 groups = Inr s \<and> P s) \<longleftrightarrow> length (concat groups) \<le> u32_max \<and> P (length (concat groups))" for P
    unfolding prepare_count_Inr by auto
  then show ?thesis
    by (auto simp: prepare_details_def bindr_Inr_iff prepare_unique_Inr set_statements_def Let_def checked_add32_def
        simp del: length_concat)
qed

section \<open>Building\<close>

lemma build_queries_fills:
  assumes "\<forall>q \<in> set qs. statement_fits (qm_name q) (qm_sql q) (qm_oids q)"
  shows "build_queries qs (filled pre (length (concat (map query_text qs)) + k)) =
    Some (Inr (filled (pre @ concat (map query_text qs)) k))"
  using assms
proof (induction qs arbitrary: pre)
  case (Cons q qs)
  then obtain ln where ln: "statement_lengths (qm_name q) (qm_sql q) (qm_oids q) = Inr ln" by (simp add: statement_lengths_Inr)
  have "write_query q ln (filled pre (length (query_text q) + (length (concat (map query_text qs)) + k))) =
      Some (filled (pre @ query_text q) (length (concat (map query_text qs)) + k))"
    unfolding write_query_def query_text_def by (rule fillsD[OF fills_statement[OF ln]])
  with Cons ln show ?case by (simp add: add.assoc)
qed simp

lemma build_groups_fills:
  assumes "\<forall>q \<in> set (concat gs). statement_fits (qm_name q) (qm_sql q) (qm_oids q)"
  shows "build_groups gs (filled pre (length (concat (map query_text (concat gs))) + k)) =
    Some (Inr (filled (pre @ concat (map query_text (concat gs))) k))"
  using assms
proof (induction gs arbitrary: pre)
  case (Cons g gs)
  then have "build_queries g (filled pre (length (concat (map query_text g)) + (length (concat (map query_text (concat gs))) + k))) =
      Some (Inr (filled (pre @ concat (map query_text g)) (length (concat (map query_text (concat gs))) + k)))"
    by (intro build_queries_fills) simp
  with Cons show ?case by (simp add: add.assoc)
qed simp

lemma filled_start: "(replicate n 0, 0) = filled [] n"
  by (simp add: filled_def)

lemma try_build_fits:
  assumes "set_fits groups" and n: "n = length (set_text groups)"
  shows "try_build n groups = Some (Inr \<lparr>pr_wire = set_text groups, pr_statements = set_statements groups,
     pr_groups = groups, pr_flags = prepare_dynamic groups\<rparr>)"
proof -
  let ?t = "concat (map query_text (concat groups))"
  have d: "prepare_details groups = Inr (set_statements groups, prepare_dynamic groups)"
    and w: "try_wire_len groups = Inr n" using assms by (auto simp: prepare_details_Inr try_wire_len_Inr set_fits_def)
  obtain ln where ln: "statement_lengths ltree_probe_name ltree_probe_sql [] = Inr ln" using probe_fits by (simp add: statement_lengths_Inr)
  have len: "length sync_message = 5" by (simp add: sync_message_def)
  have n': "n = length (probe_text groups) + (length ?t + (5 + 0))" using n by (simp add: set_text_def sync_message_def)
  have 1: "(if has_ltree (prepare_dynamic groups) then
      (case statement_lengths ltree_probe_name ltree_probe_sql [] of
         Inl e \<Rightarrow> Some (Inl e)
       | Inr ln \<Rightarrow> map_option Inr (write_statement ltree_probe_name ltree_probe_sql [] ln (replicate n 0, 0)))
      else Some (Inr (replicate n 0, 0))) = Some (Inr (filled (probe_text groups) (length ?t + (5 + 0))) :: encode_error + out)"
    using fillsD[OF fills_statement[OF ln], of "[]" "length ?t + (5 + 0)"] ln
    unfolding filled_start n' probe_text_def by (simp add: length_concat)
  have 2: "build_groups groups (filled (probe_text groups) (length ?t + (5 + 0))) = Some (Inr (filled (probe_text groups @ ?t) (5 + 0)))"
    using assms(1) by (intro build_groups_fills) (simp add: set_fits_def)
  have 3: "write_slice sync_message (filled (probe_text groups @ ?t) (5 + 0)) = Some (filled (set_text groups) 0)"
    using fillsD[OF fills_slice[of sync_message], of "probe_text groups @ ?t" 0]
    by (simp add: set_text_def len)
  show ?thesis
    unfolding try_build_def d w using 1 2 3 by (simp add: filled_def)
qed

lemma try_build_result:
  "try_build n groups = Some (Inr p) \<longleftrightarrow> set_fits groups \<and> n = length (set_text groups) \<and>
     p = \<lparr>pr_wire = set_text groups, pr_statements = set_statements groups, pr_groups = groups, pr_flags = prepare_dynamic groups\<rparr>"
  (is "?l \<longleftrightarrow> ?r")
proof
  assume l: ?l
  then obtain m where d: "prepare_details groups = Inr m" and w: "try_wire_len groups = Inr n"
    by (cases "prepare_details groups"; cases "try_wire_len groups") (auto simp: try_build_def split: if_splits)
  then have "set_fits groups" "n = length (set_text groups)"
    by (cases m, auto simp: prepare_details_Inr try_wire_len_Inr set_fits_def)+
  with l show ?r by (auto simp: try_build_fits)
qed (auto simp: try_build_fits)

lemma try_build_returns: "\<exists>r. try_build n groups = Some r"
proof (cases "set_fits groups \<and> n = length (set_text groups)")
  case True
  then show ?thesis by (auto simp: try_build_fits)
next
  case False
  then have "(\<exists>e. prepare_details groups = Inl e) \<or> (\<exists>e. try_wire_len groups = Inl e) \<or> (\<exists>m. try_wire_len groups = Inr m \<and> n \<noteq> m)"
    by (cases "prepare_details groups"; cases "try_wire_len groups")
      (auto simp: prepare_details_Inr try_wire_len_Inr set_fits_def)
  then show ?thesis
    by (cases "prepare_details groups"; cases "try_wire_len groups") (auto simp: try_build_def)
qed

section \<open>The walk of the catalog\<close>

definition valid_at :: "query_groups \<Rightarrow> cursor_at \<Rightarrow> bool" where
  "valid_at groups c \<longleftrightarrow> cu_group c < length groups \<and> cu_query c < length (groups ! cu_group c)"

definition offset_of :: "query_groups \<Rightarrow> cursor_at \<Rightarrow> nat" where
  "offset_of groups c = length (concat (take (cu_group c) groups)) + cu_query c"

definition catalog_advance :: "query_groups \<Rightarrow> catalog_step \<Rightarrow> catalog_step" where
  "catalog_advance groups s = (case s of StepQuery c \<Rightarrow> catalog_next groups c | StepComplete \<Rightarrow> StepComplete)"

lemma catalog_advance_simps [simp]:
  "catalog_advance groups (StepQuery c) = catalog_next groups c"
  "catalog_advance groups StepComplete = StepComplete"
  by (simp_all add: catalog_advance_def)

text \<open>Where a step stands in the list of all queries.\<close>

definition step_at :: "query_groups \<Rightarrow> catalog_step \<Rightarrow> nat \<Rightarrow> bool" where
  "step_at groups s k \<longleftrightarrow>
     (case s of StepQuery c \<Rightarrow> valid_at groups c \<and> offset_of groups c = k | StepComplete \<Rightarrow> k = length (concat groups))"

lemma catalog_at_step:
  assumes "gi < length groups \<and> qi \<le> length (groups ! gi) \<or> gi = length groups \<and> qi = 0"
  shows "step_at groups (catalog_at groups gi qi) (length (concat (take gi groups)) + qi)"
  using assms
proof (induction groups gi qi rule: catalog_at.induct)
  case (1 groups gi qi)
  show ?case
  proof (cases "gi < length groups \<and> \<not> qi < length (groups ! gi)")
    case True
    then have "length (concat (take gi groups)) + qi = length (concat (take (gi + 1) groups)) + 0"
      using 1(2) by (simp add: take_Suc_conv_app_nth)
    moreover have "catalog_at groups gi qi = catalog_at groups (gi + 1) 0" using True by (subst catalog_at.simps) simp
    moreover have "step_at groups (catalog_at groups (gi + 1) 0) (length (concat (take (gi + 1) groups)) + 0)"
      using True by (intro 1(1)) auto
    ultimately show ?thesis by simp
  next
    case False
    with 1(2) show ?thesis
      by (auto simp: catalog_at.simps[of groups gi qi] step_at_def valid_at_def offset_of_def)
  qed
qed

lemma valid_at_concat:
  assumes "valid_at groups c"
  shows "offset_of groups c < length (concat groups) \<and> cursor_metadata groups c = Some (concat groups ! offset_of groups c)"
proof -
  let ?g = "cu_group c"
  have g: "?g < length groups" "cu_query c < length (groups ! ?g)" using assms by (auto simp: valid_at_def)
  have "concat groups = concat (take ?g groups @ groups ! ?g # drop (Suc ?g) groups)"
    using id_take_nth_drop[OF g(1)] by simp
  then have c: "concat groups = concat (take ?g groups) @ groups ! ?g @ concat (drop (Suc ?g) groups)" by simp
  show ?thesis unfolding c offset_of_def using g
    by (simp add: cursor_metadata_def get_def nth_append del: length_concat concat_append)
qed

lemma catalog_next_step: "valid_at groups c \<Longrightarrow> step_at groups (catalog_next groups c) (offset_of groups c + 1)"
  using catalog_at_step[of "cu_group c" groups "cu_query c + 1"]
  by (simp add: catalog_next_def valid_at_def offset_of_def del: length_concat)

lemma catalog_first_step: "step_at groups (catalog_first groups) 0"
  using catalog_at_step[of 0 groups 0] by (cases groups) (auto simp: catalog_first_def)

lemma catalog_walk_step:
  "step_at groups ((catalog_advance groups ^^ k) (catalog_first groups)) (min k (length (concat groups)))"
proof (induction k)
  case 0
  then show ?case using catalog_first_step by simp
next
  case (Suc k)
  let ?s = "(catalog_advance groups ^^ k) (catalog_first groups)"
  show ?case
  proof (cases ?s)
    case (StepQuery c)
    with Suc have v: "valid_at groups c" and o: "offset_of groups c = min k (length (concat groups))" by (auto simp: step_at_def)
    then have "k < length (concat groups)" using valid_at_concat[OF v] by (simp add: min_def del: length_concat split: if_splits)
    with o have "offset_of groups c + 1 = min (Suc k) (length (concat groups))" by (simp del: length_concat)
    with catalog_next_step[OF v] StepQuery show ?thesis by (simp del: length_concat)
  next
    case StepComplete
    with Suc show ?thesis by (auto simp: step_at_def simp del: length_concat)
  qed
qed

section \<open>Validation against the types of the set\<close>

lemma items_matches_iff: "items_matches qs ms \<longleftrightarrow> list_all2 query_matches ms qs"
  by (induction qs ms rule: items_matches.induct) (auto split: list.splits)

lemma items_validate_nth: "qi < length qs \<Longrightarrow> items_validate qs qi payload reg = types_query (qs ! qi) payload reg"
  by (induction qs qi payload reg rule: items_validate.induct) (auto simp: nth_Cons')

lemma list_matches_iff:
  "list_matches hs gs \<longleftrightarrow> list_all2 (\<lambda>g h. g = qg_queries h \<and> list_all2 query_matches g (qg_items h)) gs hs"
  by (induction hs gs rule: list_matches.induct) (auto simp: items_matches_iff split: list.splits)

lemma list_validate_nth:
  "gi < length hs \<Longrightarrow> list_validate hs gi qi payload reg = items_validate (qg_items (hs ! gi)) qi payload reg"
  by (induction hs gi qi payload reg rule: list_validate.induct) (auto simp: nth_Cons')

lemma list_validate_at:
  assumes "list_matches hs groups" and "valid_at groups c"
  shows "query_matches (groups ! cu_group c ! cu_query c) (qg_items (hs ! cu_group c) ! cu_query c) \<and>
    list_validate hs (cu_group c) (cu_query c) payload reg = types_query (qg_items (hs ! cu_group c) ! cu_query c) payload reg"
proof -
  have l: "cu_group c < length hs" "length (groups ! cu_group c) = length (qg_items (hs ! cu_group c))"
    "list_all2 query_matches (groups ! cu_group c) (qg_items (hs ! cu_group c))"
    using assms by (auto simp: list_matches_iff valid_at_def list_all2_conv_all_nth)
  with assms(2) show ?thesis
    by (simp add: list_validate_nth items_validate_nth valid_at_def list_all2_conv_all_nth)
qed

end
