(* ===== verification/Pg_Prepare_Claims.thy ===== *)
theory Pg_Prepare_Claims
  imports Pg_Prepare_Spec Pg_Value_Claims
begin

text \<open>
  The properties of preparing a query set: the wire that is built for it, and the walk of its catalog against
  which the server's descriptions are checked.
\<close>

text \<open>C31: Building the preparation wire always returns, never writing outside its buffer; it succeeds exactly
  for a buffer of the wire's length and a set whose counts and lengths fit and whose statements have distinct
  names, and the wire is then the probe, when one is needed, the statements in order, and the synchronization.\<close>

theorem preparation_exact:
  "(\<exists>r. try_build n groups = Some r) \<and>
   (try_build n groups = Some (Inr p) \<longleftrightarrow> set_fits groups \<and> n = length (set_text groups) \<and>
     p = \<lparr>pr_wire = set_text groups, pr_statements = set_statements groups, pr_groups = groups, pr_flags = prepare_dynamic groups\<rparr>)"
  using try_build_returns try_build_result by simp

text \<open>C32: The walk of a catalog gives every query of the set once, in order, each cursor inside the set, and
  completes after as many steps as there are queries.\<close>

theorem catalog_walk_complete:
  "case (catalog_advance groups ^^ k) (catalog_first groups) of
     StepQuery c \<Rightarrow> k < length (concat groups) \<and> cursor_metadata groups c = Some (concat groups ! k)
   | StepComplete \<Rightarrow> length (concat groups) \<le> k"
proof (cases "(catalog_advance groups ^^ k) (catalog_first groups)")
  case (StepQuery c)
  with catalog_walk_step[of groups k] have "valid_at groups c" "offset_of groups c = min k (length (concat groups))"
    by (auto simp: step_at_def)
  with valid_at_concat[of groups c] StepQuery show ?thesis by (simp add: min_def del: length_concat split: if_splits)
next
  case StepComplete
  with catalog_walk_step[of groups k] show ?thesis by (simp add: step_at_def min_def del: length_concat split: if_splits)
qed

text \<open>C33: When a catalog was matched with the types of its set, the description that the walk is at is checked
  against the type of the very query whose statement was prepared there.\<close>

theorem catalog_validates:
  assumes "catalog_try_new hs groups = Inr ()" and "k < length (concat groups)"
  shows "\<exists>c q. (catalog_advance groups ^^ k) (catalog_first groups) = StepQuery c \<and>
    cursor_metadata groups c = Some (concat groups ! k) \<and> query_matches (concat groups ! k) q \<and>
    list_validate hs (cu_group c) (cu_query c) payload reg = types_query q payload reg"
proof -
  have m: "list_matches hs groups" using assms(1) by (simp add: catalog_try_new_def split: if_splits)
  obtain c where c: "(catalog_advance groups ^^ k) (catalog_first groups) = StepQuery c" and v: "valid_at groups c"
    and o: "offset_of groups c = k"
    using catalog_walk_step[of groups k] assms(2) by (auto simp: step_at_def simp del: length_concat split: catalog_step.splits)
  have s: "cursor_metadata groups c = Some (groups ! cu_group c ! cu_query c)"
    using v by (simp add: cursor_metadata_def get_def valid_at_def)
  with valid_at_concat[OF v] o have "concat groups ! k = groups ! cu_group c ! cu_query c" by (simp del: length_concat)
  with list_validate_at[OF m v, of payload reg] s c show ?thesis by metis
qed

definition demo_meta :: query_meta where
  "demo_meta = \<lparr>qm_name = tq_name demo_query, qm_sql = tq_sql demo_query, qm_oids = tq_oids demo_query,
     qm_columns = tq_columns demo_query, qm_kind = tq_kind demo_query, qm_dynamic = row_dynamic (tq_row demo_query)\<rparr>"

definition demo_set :: "query_group list" where
  "demo_set = [\<lparr>qg_queries = [], qg_items = []\<rparr>, \<lparr>qg_queries = [demo_meta], qg_items = [demo_query]\<rparr>]"

theorem catalog_validates_witness:
  "\<exists>c q. catalog_first [[], [demo_meta]] = StepQuery c \<and> query_matches demo_meta q \<and>
     list_validate demo_set (cu_group c) (cu_query c) (description_bytes demo_description) registry_default =
       types_query q (description_bytes demo_description) registry_default"
proof -
  have "query_matches demo_meta demo_query" by (simp add: query_matches_def demo_meta_def)
  then have "catalog_try_new demo_set [[], [demo_meta]] = Inr ()" by (simp add: catalog_try_new_def demo_set_def)
  from catalog_validates[OF this, of 0 "description_bytes demo_description" registry_default] show ?thesis by auto
qed

end
