(* ===== verification/Pg_Slot.thy ===== *)
theory Pg_Slot
  imports Pg_Wire
begin

text \<open>
  The state of one pooled connection: \<open>pg/src/port/pool/\<close> with \<open>slot.rs\<close>, \<open>phases.rs\<close>, \<open>phases/access.rs\<close>,
  \<open>backend/mod.rs\<close> and \<open>key.rs\<close>.  The identity of a connection, the target that wakes its driver and the
  failure it is closed with are opaque values of the runtime and stay type variables \<open>'t\<close>, \<open>'w\<close> and \<open>'f\<close>.
\<close>

section \<open>Phases and access\<close>

datatype disposition = Reconnect | Permanent

record ('t, 'w) binding =
  bd_token :: 't
  bd_ready :: 'w

text \<open>Generations are nonzero \<open>u64\<close>, sequences any.\<close>

datatype access_state =
    AcShared nat
  | AcReserved nat
  | AcHeld nat
  | AcFinalizing nat
  | AcDraining

definition sequence_next :: "nat \<Rightarrow> nat option" where
  "sequence_next s = (let n = wrapping_add64 s 1 in if n = 0 then None else Some n)"

datatype 'f lifecycle =
    LfVacant
  | LfHandshaking
  | LfReady access_state bool
  | LfClosing 'f disposition

text \<open>The binding of a slot is uninitialized memory, \<open>None\<close>, until the first \<open>phase_set\<close> of a live phase.\<close>

record ('t, 'w, 'f) phase_state =
  ps_bound :: "('t, 'w) binding option"
  ps_life :: "'f lifecycle"

datatype ('t, 'w, 'f) slot_phase =
    PhVacant
  | PhHandshaking "('t, 'w) binding"
  | PhReady "('t, 'w) binding" access_state
  | PhClosing "('t, 'w) binding" 'f disposition

definition phase_new :: "('t, 'w, 'f) phase_state" where
  "phase_new = \<lparr>ps_bound = None, ps_life = LfVacant\<rparr>"

definition phase_get :: "('t, 'w, 'f) phase_state \<Rightarrow> ('t, 'w, 'f) slot_phase" where
  "phase_get p =
     (case ps_life p of
        LfVacant \<Rightarrow> PhVacant
      | LfHandshaking \<Rightarrow> PhHandshaking (the (ps_bound p))
      | LfReady access _ \<Rightarrow> PhReady (the (ps_bound p)) access
      | LfClosing failure fate \<Rightarrow> PhClosing (the (ps_bound p)) failure fate)"

definition phase_receiving :: "('t, 'w, 'f) phase_state \<Rightarrow> bool" where
  "phase_receiving p = (case ps_life p of LfReady _ receiving \<Rightarrow> receiving | _ \<Rightarrow> False)"

definition phase_set :: "('t, 'w, 'f) phase_state \<Rightarrow> ('t, 'w, 'f) slot_phase \<Rightarrow> ('t, 'w, 'f) phase_state" where
  "phase_set p phase =
     (case phase of
        PhVacant \<Rightarrow> p\<lparr>ps_life := LfVacant\<rparr>
      | PhHandshaking b \<Rightarrow> \<lparr>ps_bound = Some b, ps_life = LfHandshaking\<rparr>
      | PhReady b access \<Rightarrow> \<lparr>ps_bound = Some b, ps_life = LfReady access (phase_receiving p)\<rparr>
      | PhClosing b failure fate \<Rightarrow> \<lparr>ps_bound = Some b, ps_life = LfClosing failure fate\<rparr>)"

definition phase_set_access :: "('t, 'w, 'f) phase_state \<Rightarrow> access_state \<Rightarrow> ('t, 'w, 'f) phase_state" where
  "phase_set_access p access = p\<lparr>ps_life := LfReady access (phase_receiving p)\<rparr>"

definition phase_set_receiving :: "('t, 'w, 'f) phase_state \<Rightarrow> 't \<Rightarrow> bool \<Rightarrow> ('t, 'w, 'f) phase_state \<times> bool" where
  "phase_set_receiving p token receiving =
     (case ps_life p of
        LfReady access current \<Rightarrow>
          if current = receiving then (p, False)
          else if bd_token (the (ps_bound p)) \<noteq> token then (p, False)
          else (p\<lparr>ps_life := LfReady access receiving\<rparr>, True)
      | _ \<Rightarrow> (p, False))"

section \<open>Batches, boundaries and synchronization\<close>

definition batch_next :: "nat \<Rightarrow> nat" where
  "batch_next b = wrapping_add64 b 1"

datatype batch_order = BatchEqual | BatchGreater | BatchLess

definition batch_relative :: "nat \<Rightarrow> nat \<Rightarrow> batch_order" where
  "batch_relative b expected =
     (let distance = wrapping_sub64 b expected in
      if distance = 0 then BatchEqual else if distance \<le> u64_max div 2 then BatchGreater else BatchLess)"

datatype boundary = BdClose | BdBegin | BdCommit | BdGroup | BdOpen | BdExternal

datatype sync_state =
    SySynced
  | SyAutomatic nat
  | SyExplicit nat

text \<open>The variants of the crate's error that these operations return.\<close>

datatype retirement = RetHandshaking | RetShared | RetReserved | RetHeld | RetFinalizing | RetDraining

datatype slot_error =
    SeGroupOpen nat
  | SeRequestDepthOverflow nat
  | SeRequestCloseDuringCopy nat
  | SeRequestOpenDuringCopy nat
  | SeCopyDuringPipeline nat
  | SeCopyAlreadyOpen nat
  | SeCopyFinishWithoutStart
  | SeCopyFinishDuringPipeline nat
  | SeClosed
  | SeRetirement nat retirement

fun sync_try_next :: "sync_state \<Rightarrow> boundary \<Rightarrow> slot_error + sync_state" where
  "sync_try_next SySynced BdOpen = Inr (SyAutomatic 1)"
| "sync_try_next SySynced BdExternal = Inr (SyExplicit 1)"
| "sync_try_next SySynced _ = Inr SySynced"
| "sync_try_next (SyAutomatic depth) BdGroup = Inl (SeGroupOpen depth)"
| "sync_try_next (SyExplicit depth) BdGroup = Inl (SeGroupOpen depth)"
| "sync_try_next (SyAutomatic depth) BdOpen =
     (case checked_add32 depth 1 of Some d \<Rightarrow> Inr (SyAutomatic d) | None \<Rightarrow> Inl (SeRequestDepthOverflow depth))"
| "sync_try_next (SyAutomatic depth) BdExternal = Inl (SeCopyDuringPipeline depth)"
| "sync_try_next (SyAutomatic depth) _ = Inr SySynced"
| "sync_try_next (SyExplicit depth) BdOpen = Inl (SeRequestOpenDuringCopy depth)"
| "sync_try_next (SyExplicit depth) BdExternal = Inl (SeCopyAlreadyOpen depth)"
| "sync_try_next (SyExplicit depth) _ = Inl (SeRequestCloseDuringCopy depth)"

section \<open>The slot\<close>

record backend_key =
  ky_pid :: int
  ky_secret :: bytes

definition key_empty :: backend_key where
  "key_empty = \<lparr>ky_pid = 0, ky_secret = [0, 0, 0, 0]\<rparr>"

definition key_decode :: "bytes \<Rightarrow> reason + backend_key" where
  "key_decode bs =
     (case bs of
        [p0, p1, p2, p3, s0, s1, s2, s3] \<Rightarrow>
          Inr \<lparr>ky_pid = (let n = int (from_be [p0, p1, p2, p3]) in if n \<le> int i32_max then n else n - 4294967296),
               ky_secret = [s0, s1, s2, s3]\<rparr>
      | _ \<Rightarrow> Inl (ReasonMessage (BackendKeyWidth (length bs))))"

record ('t, 'w, 'f) conn_slot =
  sl_phase :: "('t, 'w, 'f) phase_state"
  sl_key :: backend_key
  sl_pid :: "int option"
  sl_sync :: sync_state
  sl_batch :: nat
  sl_pending :: nat

definition slot_new :: "('t, 'w, 'f) conn_slot" where
  "slot_new = \<lparr>sl_phase = phase_new, sl_key = key_empty, sl_pid = None, sl_sync = SySynced, sl_batch = 0, sl_pending = 0\<rparr>"

definition slot_synced :: "('t, 'w, 'f) conn_slot \<Rightarrow> bool" where
  "slot_synced s \<longleftrightarrow> sl_sync s = SySynced"

definition slot_can_begin :: "('t, 'w, 'f) conn_slot \<Rightarrow> bool" where
  "slot_can_begin s = (case sl_sync s of SyAutomatic _ \<Rightarrow> False | _ \<Rightarrow> True)"

definition slot_receiving :: "('t, 'w, 'f) conn_slot \<Rightarrow> bool" where
  "slot_receiving s = phase_receiving (sl_phase s)"

definition slot_set_receiving :: "('t, 'w, 'f) conn_slot \<Rightarrow> 't \<Rightarrow> bool \<Rightarrow> ('t, 'w, 'f) conn_slot \<times> bool" where
  "slot_set_receiving s token receiving =
     (case phase_set_receiving (sl_phase s) token receiving of (p, r) \<Rightarrow> (s\<lparr>sl_phase := p\<rparr>, r))"

text \<open>\<open>None\<close> is an occupied slot.\<close>

definition slot_bind :: "('t, 'w, 'f) conn_slot \<Rightarrow> 't \<Rightarrow> 'w \<Rightarrow> ('t, 'w, 'f) conn_slot option" where
  "slot_bind s token target =
     (if phase_get (sl_phase s) \<noteq> PhVacant then None
      else Some (s\<lparr>sl_batch := 0, sl_phase := phase_set (sl_phase s) (PhHandshaking \<lparr>bd_token = token, bd_ready = target\<rparr>)\<rparr>))"

definition slot_try_ready :: "('t, 'w, 'f) conn_slot \<Rightarrow> 't \<Rightarrow> reason + ('t, 'w, 'f) conn_slot" where
  "slot_try_ready s token =
     (case phase_get (sl_phase s) of
        PhHandshaking b \<Rightarrow>
          if bd_token b = token then Inr (s\<lparr>sl_phase := phase_set (sl_phase s) (PhReady b (AcShared 0))\<rparr>)
          else Inl (ReasonSession PrepareReady)
      | _ \<Rightarrow> Inl (ReasonSession PrepareReady))"

definition phase_bound :: "('t, 'w, 'f) slot_phase \<Rightarrow> ('t, 'w) binding option" where
  "phase_bound p =
     (case p of PhVacant \<Rightarrow> None | PhHandshaking b \<Rightarrow> Some b | PhReady b _ \<Rightarrow> Some b | PhClosing b _ _ \<Rightarrow> Some b)"

definition slot_matches :: "('t, 'w, 'f) conn_slot \<Rightarrow> 't \<Rightarrow> bool" where
  "slot_matches s token = (case phase_bound (phase_get (sl_phase s)) of None \<Rightarrow> False | Some b \<Rightarrow> bd_token b = token)"

definition slot_ready :: "('t, 'w, 'f) conn_slot \<Rightarrow> 't \<Rightarrow> slot_error + unit" where
  "slot_ready s token =
     (case phase_get (sl_phase s) of
        PhReady b access \<Rightarrow> if bd_token b = token \<and> access \<noteq> AcDraining then Inr () else Inl SeClosed
      | _ \<Rightarrow> Inl SeClosed)"

definition slot_select :: "('t, 'w, 'f) conn_slot \<Rightarrow> 't \<Rightarrow> nat option \<Rightarrow> bool" where
  "slot_select s token generation =
     (case phase_get (sl_phase s) of
        PhReady b access \<Rightarrow>
          if bd_token b \<noteq> token then False
          else (case (access, generation) of
              (AcShared _, None) \<Rightarrow> True
            | (AcHeld current, Some generation) \<Rightarrow> current = generation
            | _ \<Rightarrow> False)
      | _ \<Rightarrow> False)"

definition slot_barriers :: "('t, 'w, 'f) conn_slot \<Rightarrow> nat" where
  "slot_barriers s = sl_pending s + (if slot_synced s then 0 else 1)"

datatype settle_result = SettleApplied | SettleClosing | SettleEmpty | SettleStale

definition slot_settle :: "('t, 'w, 'f) conn_slot \<Rightarrow> 't \<Rightarrow> ('t, 'w, 'f) conn_slot \<times> settle_result" where
  "slot_settle s token =
     (let apply = (if sl_pending s = 0 then (s, SettleEmpty) else (s\<lparr>sl_pending := sl_pending s - 1\<rparr>, SettleApplied)) in
      case phase_get (sl_phase s) of
        PhReady b _ \<Rightarrow> if bd_token b = token then apply else (s, SettleStale)
      | PhClosing b _ _ \<Rightarrow> (s, if bd_token b = token then SettleClosing else SettleStale)
      | _ \<Rightarrow> (s, SettleStale))"

datatype 'r egress = EgressOpen | EgressCutRetry 'r | EgressCutFinal 'r

definition slot_egress :: "('f \<Rightarrow> 'r) \<Rightarrow> ('t, 'w, 'f) conn_slot \<Rightarrow> 'r egress" where
  "slot_egress close_reason s =
     (case phase_get (sl_phase s) of
        PhClosing _ cause Reconnect \<Rightarrow> EgressCutRetry (close_reason cause)
      | PhClosing _ cause Permanent \<Rightarrow> EgressCutFinal (close_reason cause)
      | _ \<Rightarrow> EgressOpen)"

definition slot_wake :: "('t, 'w, 'f) conn_slot \<Rightarrow> 'w option" where
  "slot_wake s = map_option bd_ready (phase_bound (phase_get (sl_phase s)))"

record 't transaction =
  tx_conn :: 't
  tx_generation :: nat

datatype 't closed =
    ClosedHandshaking
  | ClosedShared
  | ClosedReserved "'t transaction"
  | ClosedHeld "'t transaction"
  | ClosedFinalizing "'t transaction"
  | ClosedDraining
  | ClosedClosing

definition closed_of :: "'t \<Rightarrow> access_state \<Rightarrow> 't closed" where
  "closed_of token access =
     (case access of
        AcShared _ \<Rightarrow> ClosedShared
      | AcReserved g \<Rightarrow> ClosedReserved \<lparr>tx_conn = token, tx_generation = g\<rparr>
      | AcHeld g \<Rightarrow> ClosedHeld \<lparr>tx_conn = token, tx_generation = g\<rparr>
      | AcFinalizing g \<Rightarrow> ClosedFinalizing \<lparr>tx_conn = token, tx_generation = g\<rparr>
      | AcDraining \<Rightarrow> ClosedDraining)"

definition slot_try_close ::
    "('t, 'w, 'f) conn_slot \<Rightarrow> 't \<Rightarrow> 'f \<Rightarrow> disposition \<Rightarrow> (('t, 'w, 'f) conn_slot \<times> 't closed \<times> 'f) option" where
  "slot_try_close s token cause fate =
     (let finish = (\<lambda>b state cause fate.
            if bd_token b = token then
              Some (s\<lparr>sl_sync := SySynced, sl_pending := 0, sl_pid := None, sl_key := key_empty,
                      sl_phase := phase_set (sl_phase s) (PhClosing b cause fate)\<rparr>, state, cause)
            else None)
      in case phase_get (sl_phase s) of
           PhHandshaking b \<Rightarrow> finish b ClosedHandshaking cause fate
         | PhReady b access \<Rightarrow> finish b (closed_of token access) cause fate
         | PhClosing b failure old \<Rightarrow> finish b ClosedClosing failure (if fate = Permanent then Permanent else old)
         | PhVacant \<Rightarrow> None)"

definition slot_try_retire :: "nat \<Rightarrow> ('t, 'w, 'f) conn_slot \<Rightarrow> 't \<Rightarrow> slot_error + ('t, 'w, 'f) conn_slot" where
  "slot_try_retire index s token =
     (case phase_get (sl_phase s) of
        PhClosing b _ _ \<Rightarrow> Inr (if bd_token b = token then s\<lparr>sl_phase := phase_set (sl_phase s) PhVacant\<rparr> else s)
      | PhHandshaking b \<Rightarrow> if bd_token b = token then Inl (SeRetirement index RetHandshaking) else Inr s
      | PhReady b access \<Rightarrow>
          if bd_token b = token then
            Inl (SeRetirement index
              (case access of AcShared _ \<Rightarrow> RetShared | AcReserved _ \<Rightarrow> RetReserved | AcHeld _ \<Rightarrow> RetHeld
               | AcFinalizing _ \<Rightarrow> RetFinalizing | AcDraining \<Rightarrow> RetDraining))
          else Inr s
      | PhVacant \<Rightarrow> Inr s)"

section \<open>Permits for requests\<close>

record permit =
  pm_next :: sync_state
  pm_current :: nat
  pm_boundary :: boundary

definition slot_permit :: "('t, 'w, 'f) conn_slot \<Rightarrow> sync_state \<Rightarrow> boundary \<Rightarrow> permit" where
  "slot_permit s next b = \<lparr>pm_next = next, pm_current = sl_batch s, pm_boundary = b\<rparr>"

definition ready_try_reply :: "('t, 'w, 'f) conn_slot \<Rightarrow> boundary \<Rightarrow> slot_error + permit" where
  "ready_try_reply s b = bindr (sync_try_next (sl_sync s) b) (\<lambda>next. Inr (slot_permit s next b))"

definition ready_try_finish :: "('t, 'w, 'f) conn_slot \<Rightarrow> slot_error + permit" where
  "ready_try_finish s =
     (case sl_sync s of
        SyExplicit _ \<Rightarrow> Inr (slot_permit s SySynced BdClose)
      | SySynced \<Rightarrow> Inl SeCopyFinishWithoutStart
      | SyAutomatic depth \<Rightarrow> Inl (SeCopyFinishDuringPipeline depth))"

definition slot_flush :: "('t, 'w, 'f) conn_slot \<Rightarrow> 't \<Rightarrow> permit option" where
  "slot_flush s token =
     (case phase_get (sl_phase s) of
        PhReady b _ \<Rightarrow>
          if bd_token b \<noteq> token then None
          else (case sl_sync s of SyAutomatic _ \<Rightarrow> Some (slot_permit s SySynced BdClose) | _ \<Rightarrow> None)
      | _ \<Rightarrow> None)"

text \<open>The counter of pending synchronizations is a \<open>u32\<close>; the source bounds it by the replies in flight.\<close>

definition permit_commit :: "('t, 'w, 'f) conn_slot \<Rightarrow> permit \<Rightarrow> ('t, 'w, 'f) conn_slot \<times> bool" where
  "permit_commit s p =
     (let unchanged = (pm_next p \<noteq> SySynced \<or> sl_sync s = SySynced);
          s = s\<lparr>sl_sync := pm_next p\<rparr>
      in (case pm_boundary p of
            BdOpen \<Rightarrow> s
          | BdExternal \<Rightarrow> s
          | _ \<Rightarrow> s\<lparr>sl_batch := batch_next (pm_current p), sl_pending := as_u32 (sl_pending s + 1)\<rparr>, unchanged))"

section \<open>Transactions\<close>

definition is_current :: "bool \<Rightarrow> ('t, 'w, 'f) conn_slot \<Rightarrow> nat \<Rightarrow> bool" where
  "is_current final s value =
     (case phase_get (sl_phase s) of
        PhReady _ (AcFinalizing current) \<Rightarrow> final \<and> current = value
      | PhReady _ (AcReserved current) \<Rightarrow> \<not> final \<and> current = value
      | PhReady _ (AcHeld current) \<Rightarrow> \<not> final \<and> current = value
      | _ \<Rightarrow> False)"

definition set_access :: "('t, 'w, 'f) conn_slot \<Rightarrow> access_state \<Rightarrow> ('t, 'w, 'f) conn_slot" where
  "set_access s access = s\<lparr>sl_phase := phase_set_access (sl_phase s) access\<rparr>"

text \<open>The reservation of a listed slot; \<open>None\<close> for a slot that is not shared, which the source calls
  unreachable.\<close>

definition access_reserve :: "('t, 'w, 'f) conn_slot \<Rightarrow> (('t, 'w, 'f) conn_slot \<times> 't transaction option) option" where
  "access_reserve s =
     (case phase_get (sl_phase s) of
        PhReady b (AcShared seq) \<Rightarrow>
          Some (case sequence_next seq of
              None \<Rightarrow> (set_access s AcDraining, None)
            | Some next \<Rightarrow> (set_access s (AcReserved next), Some \<lparr>tx_conn = bd_token b, tx_generation = next\<rparr>))
      | _ \<Rightarrow> None)"

definition reservation_activate :: "('t, 'w, 'f) conn_slot \<Rightarrow> 't transaction \<Rightarrow> ('t, 'w, 'f) conn_slot \<times> 't transaction" where
  "reservation_activate s tx = (set_access s (AcHeld (tx_generation tx)), tx)"

definition reservation_release :: "('t, 'w, 'f) conn_slot \<Rightarrow> 't transaction \<Rightarrow> ('t, 'w, 'f) conn_slot \<times> 't transaction" where
  "reservation_release s tx = (set_access s (AcShared (tx_generation tx)), tx)"

definition finalizing_finish :: "('t, 'w, 'f) conn_slot \<Rightarrow> 't transaction \<Rightarrow> ('t, 'w, 'f) conn_slot \<times> 't transaction" where
  "finalizing_finish s tx = (set_access s (AcShared (tx_generation tx)), tx)"

datatype 't finalization =
    FinPending "'t transaction"
  | FinReusable "'t transaction"
  | FinLost "'t transaction"

definition access_finalize :: "('t, 'w, 'f) conn_slot \<Rightarrow> 't transaction \<Rightarrow> ('t, 'w, 'f) conn_slot \<times> 't finalization" where
  "access_finalize s tx =
     (case phase_get (sl_phase s) of
        PhReady b access \<Rightarrow>
          if bd_token b \<noteq> tx_conn tx then (s, FinLost tx)
          else if access \<noteq> AcHeld (tx_generation tx) then (s, FinReusable tx)
          else (set_access s (AcFinalizing (tx_generation tx)), FinPending tx)
      | _ \<Rightarrow> (s, FinLost tx))"

datatype 't current =
    CurStale
  | CurHandshaking
  | CurShared
  | CurReserved "'t transaction"
  | CurHeld "'t transaction"
  | CurFinalizing "'t transaction"
  | CurDraining
  | CurClosing

definition access_current :: "('t, 'w, 'f) conn_slot \<Rightarrow> 't \<Rightarrow> 't current" where
  "access_current s token =
     (case phase_get (sl_phase s) of
        PhVacant \<Rightarrow> CurStale
      | PhHandshaking b \<Rightarrow> if bd_token b = token then CurHandshaking else CurStale
      | PhReady b access \<Rightarrow>
          if bd_token b \<noteq> token then CurStale
          else (case access of
              AcShared _ \<Rightarrow> CurShared
            | AcReserved g \<Rightarrow> CurReserved \<lparr>tx_conn = token, tx_generation = g\<rparr>
            | AcHeld g \<Rightarrow> CurHeld \<lparr>tx_conn = token, tx_generation = g\<rparr>
            | AcFinalizing g \<Rightarrow> CurFinalizing \<lparr>tx_conn = token, tx_generation = g\<rparr>
            | AcDraining \<Rightarrow> CurDraining)
      | PhClosing b _ _ \<Rightarrow> if bd_token b = token then CurClosing else CurStale)"

section \<open>The key that cancels a backend\<close>

definition backend_try_install :: "('t, 'w, 'f) conn_slot \<Rightarrow> 't \<Rightarrow> backend_key \<Rightarrow> reason + ('t, 'w, 'f) conn_slot" where
  "backend_try_install s token key =
     (case phase_get (sl_phase s) of
        PhHandshaking b \<Rightarrow>
          if bd_token b \<noteq> token then Inl (ReasonMessage BackendKeyStale)
          else if sl_pid s \<noteq> None then Inl (ReasonMessage DuplicateBackendKey)
          else Inr (s\<lparr>sl_pid := Some (ky_pid key), sl_key := key\<rparr>)
      | _ \<Rightarrow> Inl (ReasonMessage BackendKeyStale))"

definition backend_pid :: "('t, 'w, 'f) conn_slot \<Rightarrow> 't \<Rightarrow> int option" where
  "backend_pid s token =
     (case phase_get (sl_phase s) of
        PhReady b _ \<Rightarrow> if bd_token b \<noteq> token then None else sl_pid s
      | _ \<Rightarrow> None)"

datatype ('t, 'f) backend_rejected =
    RejVacant
  | RejHandshaking 't
  | RejClosing 't 'f disposition
  | RejEpoch 't
  | RejCapacity

text \<open>The cancel request of a bound backend; \<open>acquire\<close> is the storage of cancel requests, which may be full.
  The key is taken out of the slot while the request is built and put back.\<close>

definition backend_try_current ::
    "(int \<Rightarrow> bytes \<Rightarrow> 'q option) \<Rightarrow> ('t, 'w, 'f) conn_slot \<Rightarrow> 't \<Rightarrow> ('t, 'w, 'f) conn_slot \<times> (('t, 'f) backend_rejected + 'q)" where
  "backend_try_current acquire s target =
     (case phase_get (sl_phase s) of
        PhVacant \<Rightarrow> (s, Inl RejVacant)
      | PhHandshaking b \<Rightarrow> (s, Inl (RejHandshaking (bd_token b)))
      | PhClosing b failure fate \<Rightarrow> (s, Inl (RejClosing (bd_token b) failure fate))
      | PhReady b _ \<Rightarrow>
          if bd_token b \<noteq> target then (s, Inl (RejEpoch (bd_token b)))
          else
            let key = sl_key s;
                s = s\<lparr>sl_key := key_empty\<rparr>;
                intent = acquire (ky_pid key) (ky_secret key);
                s = s\<lparr>sl_key := key\<rparr>
            in (s, case intent of Some q \<Rightarrow> Inr q | None \<Rightarrow> Inl RejCapacity))"

end
