(* ===== verification/Pg_Pool.thy ===== *)
theory Pg_Pool
  imports Pg_Slot
begin

text \<open>
  The pool of connections that are ready for requests: \<open>pg/src/protocol/runtime/ready/\<close> with \<open>set.rs\<close>,
  \<open>storage/entry.rs\<close> and \<open>storage/index.rs\<close>, and what \<open>runtime/mod.rs\<close> and \<open>runtime/tx/mod.rs\<close> do with it.
  The ring of listed connections, the lists of connections with one load and the bitmap of the loads present
  belong to the crate \<open>o3\<close>, outside the repository: they are the record \<open>links_ops\<close> over an opaque state.
\<close>

section \<open>Linked structures\<close>

text \<open>\<open>lk_ring\<close>, \<open>bk_list\<close> and \<open>bm_bit\<close> are what the structures contain; the pool calls only the others.\<close>

record 'p links_ops =
  lk_first :: "'p \<Rightarrow> nat option"
  lk_push :: "'p \<Rightarrow> nat \<Rightarrow> 'p"
  lk_unlink :: "'p \<Rightarrow> nat \<Rightarrow> 'p"
  lk_step :: "'p \<Rightarrow> nat \<Rightarrow> 'p \<times> nat"
  bk_empty :: "'p \<Rightarrow> nat \<Rightarrow> bool"
  bk_front :: "'p \<Rightarrow> nat \<Rightarrow> nat option"
  bk_next :: "'p \<Rightarrow> nat \<Rightarrow> nat option"
  bk_link :: "'p \<Rightarrow> nat \<Rightarrow> nat \<Rightarrow> 'p"
  bk_unlink :: "'p \<Rightarrow> nat \<Rightarrow> nat \<Rightarrow> 'p"
  bm_update :: "'p \<Rightarrow> nat \<Rightarrow> bool \<Rightarrow> 'p"
  bm_find :: "'p \<Rightarrow> nat \<Rightarrow> nat option"
  bm_clamp :: "nat \<Rightarrow> nat"
  bm_rows :: nat
  lk_ring :: "'p \<Rightarrow> nat list"
  bk_list :: "'p \<Rightarrow> nat \<Rightarrow> nat list"
  bm_bit :: "'p \<Rightarrow> nat \<Rightarrow> bool"

record ('t, 'w, 'f, 'p) ready_pool =
  pl_slots :: "('t, 'w, 'f) conn_slot list"
  pl_prio :: "nat option list"
  pl_links :: 'p
  pl_min :: "nat option"
  pl_live :: nat
  pl_blockers :: nat

definition ready_new :: "nat \<Rightarrow> 'p \<Rightarrow> ('t, 'w, 'f, 'p) ready_pool" where
  "ready_new n links = \<lparr>pl_slots = replicate n slot_new, pl_prio = replicate n None, pl_links = links, pl_min = None,
     pl_live = 0, pl_blockers = 0\<rparr>"

text \<open>The counters are \<open>u32\<close> that the source changes by one without a check.\<close>

definition raw_inc :: "nat \<Rightarrow> nat" where
  "raw_inc n = as_u32 (n + 1)"

definition raw_dec :: "nat \<Rightarrow> nat" where
  "raw_dec n = as_u32 (n + u32_max)"

definition put_slot :: "('t, 'w, 'f, 'p) ready_pool \<Rightarrow> nat \<Rightarrow> ('t, 'w, 'f) conn_slot \<Rightarrow> ('t, 'w, 'f, 'p) ready_pool" where
  "put_slot p i s = p\<lparr>pl_slots := (pl_slots p)[i := s]\<rparr>"

section \<open>Entries\<close>

definition entry_listed :: "('t, 'w, 'f, 'p) ready_pool \<Rightarrow> nat \<Rightarrow> (nat \<times> nat) option" where
  "entry_listed p i = map_option (\<lambda>rank. (i, rank)) (pl_prio p ! i)"

definition entry_attach :: "'p links_ops \<Rightarrow> ('t, 'w, 'f, 'p) ready_pool \<Rightarrow> nat \<Rightarrow> nat \<Rightarrow> ('t, 'w, 'f, 'p) ready_pool" where
  "entry_attach L p i rank =
     (let p = (if bk_empty L (pl_links p) rank
               then p\<lparr>pl_links := bm_update L (pl_links p) rank True,
                      pl_min := (case pl_min p of None \<Rightarrow> Some rank | Some c \<Rightarrow> if rank < c then Some rank else Some c)\<rparr>
               else p)
      in p\<lparr>pl_links := bk_link L (pl_links p) rank i, pl_prio := (pl_prio p)[i := Some rank]\<rparr>)"

definition entry_detach :: "'p links_ops \<Rightarrow> ('t, 'w, 'f, 'p) ready_pool \<Rightarrow> nat \<Rightarrow> nat \<Rightarrow> ('t, 'w, 'f, 'p) ready_pool" where
  "entry_detach L p i rank =
     (let p = p\<lparr>pl_links := bk_unlink L (pl_links p) rank i, pl_prio := (pl_prio p)[i := None]\<rparr>
      in if bk_empty L (pl_links p) rank
         then let p = p\<lparr>pl_links := bm_update L (pl_links p) rank False\<rparr>
              in if pl_min p = Some rank then p\<lparr>pl_min := bm_find L (pl_links p) (rank + 1)\<rparr> else p
         else p)"

definition entry_insert_rank :: "'p links_ops \<Rightarrow> ('t, 'w, 'f, 'p) ready_pool \<Rightarrow> nat \<Rightarrow> nat \<Rightarrow> ('t, 'w, 'f, 'p) ready_pool" where
  "entry_insert_rank L p i rank = entry_attach L (p\<lparr>pl_links := lk_push L (pl_links p) i\<rparr>) i rank"

definition entry_insert :: "'p links_ops \<Rightarrow> ('t, 'w, 'f, 'p) ready_pool \<Rightarrow> nat \<Rightarrow> nat \<Rightarrow> ('t, 'w, 'f, 'p) ready_pool" where
  "entry_insert L p i depth = entry_insert_rank L p i (bm_clamp L depth)"

definition listed_remove :: "'p links_ops \<Rightarrow> ('t, 'w, 'f, 'p) ready_pool \<Rightarrow> nat \<times> nat \<Rightarrow> ('t, 'w, 'f, 'p) ready_pool" where
  "listed_remove L p l = (case l of (i, rank) \<Rightarrow> entry_detach L (p\<lparr>pl_links := lk_unlink L (pl_links p) i\<rparr>) i rank)"

definition listed_reprioritize :: "'p links_ops \<Rightarrow> ('t, 'w, 'f, 'p) ready_pool \<Rightarrow> nat \<times> nat \<Rightarrow> nat \<Rightarrow> ('t, 'w, 'f, 'p) ready_pool" where
  "listed_reprioritize L p l depth =
     (case l of (i, rank) \<Rightarrow>
        let row = bm_clamp L depth in
        if rank = row \<and> bk_front L (pl_links p) row = Some i then p
        else entry_attach L (entry_detach L p i rank) i row)"

definition entry_reprioritize :: "'p links_ops \<Rightarrow> ('t, 'w, 'f, 'p) ready_pool \<Rightarrow> nat \<Rightarrow> nat \<Rightarrow> ('t, 'w, 'f, 'p) ready_pool" where
  "entry_reprioritize L p i depth = (case entry_listed p i of None \<Rightarrow> p | Some l \<Rightarrow> listed_reprioritize L p l depth)"

section \<open>Selection\<close>

text \<open>The front of the ring; the ring moves on by one.\<close>

definition ready_next :: "'p links_ops \<Rightarrow> ('t, 'w, 'f, 'p) ready_pool \<Rightarrow> ('t, 'w, 'f, 'p) ready_pool \<times> (nat \<times> nat) option" where
  "ready_next L p =
     (case lk_first L (pl_links p) of
        None \<Rightarrow> (p, None)
      | Some i \<Rightarrow> (p\<lparr>pl_links := fst (lk_step L (pl_links p) i)\<rparr>, entry_listed p i))"

text \<open>The outer \<open>None\<close> is the unchecked front of an empty list, or a search that does not return.\<close>

definition ready_minimum :: "'p links_ops \<Rightarrow> ('t, 'w, 'f, 'p) ready_pool \<Rightarrow> (nat \<times> nat) option option" where
  "ready_minimum L p =
     (case pl_min p of
        None \<Rightarrow> Some None
      | Some row \<Rightarrow> (case bk_front L (pl_links p) row of None \<Rightarrow> None | Some i \<Rightarrow> Some (Some (i, row))))"

partial_function (option) next_where_loop ::
    "'p links_ops \<Rightarrow> (('t, 'w, 'f) conn_slot \<Rightarrow> bool) \<Rightarrow> nat \<Rightarrow> nat \<Rightarrow> ('t, 'w, 'f, 'p) ready_pool \<Rightarrow>
       (('t, 'w, 'f, 'p) ready_pool \<times> (nat \<times> nat) option) option" where
  "next_where_loop L eligible first i p =
     (let (links, next) = lk_step L (pl_links p) i;
          p = p\<lparr>pl_links := links\<rparr>
      in if eligible (pl_slots p ! i) then Some (p, entry_listed p i)
         else if next = first then Some (p, None)
         else next_where_loop L eligible first next p)"

definition ready_next_where ::
    "'p links_ops \<Rightarrow> (('t, 'w, 'f) conn_slot \<Rightarrow> bool) \<Rightarrow> ('t, 'w, 'f, 'p) ready_pool \<Rightarrow>
       (('t, 'w, 'f, 'p) ready_pool \<times> (nat \<times> nat) option) option" where
  "ready_next_where L eligible p =
     (case lk_first L (pl_links p) of None \<Rightarrow> Some (p, None) | Some first \<Rightarrow> next_where_loop L eligible first first p)"

partial_function (option) least_where_loop ::
    "'p links_ops \<Rightarrow> (('t, 'w, 'f) conn_slot \<Rightarrow> bool) \<Rightarrow> ('t, 'w, 'f, 'p) ready_pool \<Rightarrow> nat \<Rightarrow> nat \<Rightarrow> (nat \<times> nat) option option" where
  "least_where_loop L eligible p row i =
     (if eligible (pl_slots p ! i) then Some (Some (i, row))
      else case bk_next L (pl_links p) i of
          Some next \<Rightarrow> least_where_loop L eligible p row next
        | None \<Rightarrow>
            (case bm_find L (pl_links p) (row + 1) of
               None \<Rightarrow> Some None
             | Some row \<Rightarrow>
                 (case bk_front L (pl_links p) row of
                    None \<Rightarrow> None
                  | Some i \<Rightarrow> least_where_loop L eligible p row i)))"

definition ready_least_where ::
    "'p links_ops \<Rightarrow> (('t, 'w, 'f) conn_slot \<Rightarrow> bool) \<Rightarrow> ('t, 'w, 'f, 'p) ready_pool \<Rightarrow> (nat \<times> nat) option option" where
  "ready_least_where L eligible p =
     (case pl_min p of
        None \<Rightarrow> Some None
      | Some row \<Rightarrow>
          (case bk_front L (pl_links p) row of
             None \<Rightarrow> None
           | Some i \<Rightarrow> least_where_loop L eligible p row i))"

datatype pick_policy = RoundRobin | LeastInflight

definition ready_pick_where ::
    "'p links_ops \<Rightarrow> pick_policy \<Rightarrow> (('t, 'w, 'f) conn_slot \<Rightarrow> bool) \<Rightarrow> ('t, 'w, 'f, 'p) ready_pool \<Rightarrow>
       (('t, 'w, 'f, 'p) ready_pool \<times> (nat \<times> nat) option) option" where
  "ready_pick_where L policy eligible p =
     (case policy of
        RoundRobin \<Rightarrow> ready_next_where L eligible p
      | LeastInflight \<Rightarrow> map_option (\<lambda>r. (p, r)) (ready_least_where L eligible p))"

definition ready_pick ::
    "'p links_ops \<Rightarrow> pick_policy \<Rightarrow> bool \<Rightarrow> ('t, 'w, 'f, 'p) ready_pool \<Rightarrow> (('t, 'w, 'f, 'p) ready_pool \<times> (nat \<times> nat) option) option" where
  "ready_pick L policy grouped p =
     (if grouped then ready_pick_where L policy slot_synced p
      else case policy of
          RoundRobin \<Rightarrow> Some (ready_next L p)
        | LeastInflight \<Rightarrow> map_option (\<lambda>r. (p, r)) (ready_minimum L p))"

definition ready_pick_begin ::
    "'p links_ops \<Rightarrow> pick_policy \<Rightarrow> ('t, 'w, 'f, 'p) ready_pool \<Rightarrow> (('t, 'w, 'f, 'p) ready_pool \<times> (nat \<times> nat) option) option" where
  "ready_pick_begin L policy p = ready_pick_where L policy slot_can_begin p"

section \<open>The life of a connection in the pool\<close>

text \<open>\<open>idx\<close> is the index that the runtime's identity of a connection carries.\<close>

definition ready_connection :: "('t \<Rightarrow> nat) \<Rightarrow> ('t, 'w, 'f, 'p) ready_pool \<Rightarrow> 't \<Rightarrow> ('t, 'w, 'f) conn_slot option" where
  "ready_connection idx p t =
     Option.bind (get (pl_slots p) (idx t)) (\<lambda>s. if slot_matches s t then Some s else None)"

definition ready_current :: "('t \<Rightarrow> nat) \<Rightarrow> ('t, 'w, 'f, 'p) ready_pool \<Rightarrow> 't \<Rightarrow> 't current" where
  "ready_current idx p t = (case get (pl_slots p) (idx t) of None \<Rightarrow> CurStale | Some s \<Rightarrow> access_current s t)"

definition ready_is_current :: "('t \<Rightarrow> nat) \<Rightarrow> bool \<Rightarrow> ('t, 'w, 'f, 'p) ready_pool \<Rightarrow> 't transaction \<Rightarrow> bool" where
  "ready_is_current idx final p tx =
     (case ready_connection idx p (tx_conn tx) of None \<Rightarrow> False | Some s \<Rightarrow> is_current final s (tx_generation tx))"

text \<open>\<open>None\<close> is the rejection of an activation.\<close>

definition ready_bind :: "('t \<Rightarrow> nat) \<Rightarrow> ('t, 'w, 'f, 'p) ready_pool \<Rightarrow> 't \<Rightarrow> 'w \<Rightarrow> ('t, 'w, 'f, 'p) ready_pool option" where
  "ready_bind idx p t w =
     Option.bind (get (pl_slots p) (idx t)) (\<lambda>s. map_option (put_slot p (idx t)) (slot_bind s t w))"

definition ready_try_ready ::
    "'p links_ops \<Rightarrow> ('t \<Rightarrow> nat) \<Rightarrow> ('t, 'w, 'f, 'p) ready_pool \<Rightarrow> 't \<Rightarrow> reason + ('t, 'w, 'f, 'p) ready_pool" where
  "ready_try_ready L idx p t =
     (case get (pl_slots p) (idx t) of
        None \<Rightarrow> Inl (ReasonSession PrepareReady)
      | Some s \<Rightarrow>
          bindr (slot_try_ready s t) (\<lambda>s.
          let p = entry_insert L (put_slot p (idx t) s) (idx t) 0 in
          Inr (p\<lparr>pl_live := raw_inc (pl_live p)\<rparr>)))"

text \<open>Reserving a listed entry: the outer \<open>None\<close> is the listed slot that is not shared.\<close>

definition ready_reserve ::
    "'p links_ops \<Rightarrow> ('t, 'w, 'f, 'p) ready_pool \<Rightarrow> nat \<times> nat \<Rightarrow> (('t, 'w, 'f, 'p) ready_pool \<times> 't transaction option) option" where
  "ready_reserve L p l =
     (case access_reserve (pl_slots p ! fst l) of
        None \<Rightarrow> None
      | Some (s, tx) \<Rightarrow>
          let p = listed_remove L (put_slot p (fst l) s) l in
          Some (case tx of None \<Rightarrow> (p, None) | Some tx \<Rightarrow> (p\<lparr>pl_blockers := raw_inc (pl_blockers p)\<rparr>, Some tx)))"

definition ready_release ::
    "'p links_ops \<Rightarrow> ('t, 'w, 'f, 'p) ready_pool \<Rightarrow> nat \<times> nat \<Rightarrow> 't transaction \<Rightarrow> ('t, 'w, 'f, 'p) ready_pool \<times> 't transaction" where
  "ready_release L p l tx =
     (case reservation_release (pl_slots p ! fst l) tx of (s, tx) \<Rightarrow>
        let p = entry_insert_rank L (put_slot p (fst l) s) (fst l) (snd l) in
        (p\<lparr>pl_blockers := raw_dec (pl_blockers p)\<rparr>, tx))"

datatype tx_status = TxIdle | TxOpen

datatype readiness = ReadyNow | ReadyPending

definition ready_poll_ready ::
    "'p links_ops \<Rightarrow> ('t \<Rightarrow> nat) \<Rightarrow> ('t, 'w, 'f, 'p) ready_pool \<Rightarrow> 't \<Rightarrow> tx_status \<Rightarrow> nat \<Rightarrow>
       ('t, 'w, 'f, 'p) ready_pool \<times> readiness \<times> 't transaction option" where
  "ready_poll_ready L idx p t status depth =
     (case get (pl_slots p) (idx t) of
        None \<Rightarrow> (p, ReadyNow, None)
      | Some s \<Rightarrow>
          (case (access_current s t, status) of
             (CurReserved tx, TxIdle) \<Rightarrow> (p, ReadyNow, Some tx)
           | (CurReserved tx, TxOpen) \<Rightarrow>
               (case reservation_activate s tx of (s, tx) \<Rightarrow> (put_slot p (idx t) s, ReadyNow, Some tx))
           | (CurHeld tx, _) \<Rightarrow> (p, ReadyNow, Some tx)
           | (CurFinalizing _, TxOpen) \<Rightarrow> (p, ReadyPending, None)
           | (CurFinalizing tx, TxIdle) \<Rightarrow>
               (case finalizing_finish s tx of (s, tx) \<Rightarrow>
                  let p = put_slot p (idx t) s in
                  (if slot_receiving s then p else entry_insert L p (idx t) depth, ReadyNow, Some tx))
           | _ \<Rightarrow> (p, ReadyNow, None)))"

definition ready_finalize ::
    "('t \<Rightarrow> nat) \<Rightarrow> ('t, 'w, 'f, 'p) ready_pool \<Rightarrow> 't transaction \<Rightarrow> ('t, 'w, 'f, 'p) ready_pool \<times> 't finalization" where
  "ready_finalize idx p tx =
     (case get (pl_slots p) (idx (tx_conn tx)) of
        None \<Rightarrow> (p, FinLost tx)
      | Some s \<Rightarrow>
          (case access_finalize s tx of
             (s, FinPending tx) \<Rightarrow>
               let p = put_slot p (idx (tx_conn tx)) s in (p\<lparr>pl_blockers := raw_dec (pl_blockers p)\<rparr>, FinPending tx)
           | (s, f) \<Rightarrow> (put_slot p (idx (tx_conn tx)) s, f)))"

definition ready_close ::
    "'p links_ops \<Rightarrow> ('t \<Rightarrow> nat) \<Rightarrow> ('t, 'w, 'f, 'p) ready_pool \<Rightarrow> 't \<Rightarrow> 'f \<Rightarrow> disposition \<Rightarrow>
       (('t, 'w, 'f, 'p) ready_pool \<times> 't closed \<times> 'f) option" where
  "ready_close L idx p t cause fate =
     (case get (pl_slots p) (idx t) of
        None \<Rightarrow> None
      | Some s \<Rightarrow>
          let listed = entry_listed p (idx t) in
          (case slot_try_close s t cause fate of
             None \<Rightarrow> None
           | Some (s, state, cause) \<Rightarrow>
               let p = put_slot p (idx t) s;
                   p = (case listed of None \<Rightarrow> p | Some l \<Rightarrow> listed_remove L p l)
               in Some (case state of
                    ClosedReserved _ \<Rightarrow> p\<lparr>pl_blockers := raw_dec (pl_blockers p), pl_live := raw_dec (pl_live p)\<rparr>
                  | ClosedHeld _ \<Rightarrow> p\<lparr>pl_blockers := raw_dec (pl_blockers p), pl_live := raw_dec (pl_live p)\<rparr>
                  | ClosedHandshaking \<Rightarrow> p
                  | ClosedClosing \<Rightarrow> p
                  | _ \<Rightarrow> p\<lparr>pl_live := raw_dec (pl_live p)\<rparr>, state, cause)))"

text \<open>The result is the connection that is to be closed because it is drained and idle.\<close>

definition ready_reindex ::
    "'p links_ops \<Rightarrow> ('t \<Rightarrow> nat) \<Rightarrow> ('t, 'w, 'f, 'p) ready_pool \<Rightarrow> 't \<Rightarrow> nat \<Rightarrow> ('t, 'w, 'f, 'p) ready_pool \<times> 't option" where
  "ready_reindex L idx p t depth =
     (case get (pl_slots p) (idx t) of
        None \<Rightarrow> (p, None)
      | Some s \<Rightarrow>
          (case access_current s t of
             CurShared \<Rightarrow> (entry_reprioritize L p (idx t) (depth + slot_barriers s), None)
           | CurDraining \<Rightarrow> (p, if depth = 0 \<and> slot_barriers s = 0 then Some t else None)
           | _ \<Rightarrow> (p, None)))"

text \<open>The result says whether the waiters for a connection are notified.\<close>

definition ready_set_receiving ::
    "'p links_ops \<Rightarrow> ('t \<Rightarrow> nat) \<Rightarrow> ('t, 'w, 'f, 'p) ready_pool \<Rightarrow> 't \<Rightarrow> bool \<Rightarrow> nat \<Rightarrow> ('t, 'w, 'f, 'p) ready_pool \<times> bool" where
  "ready_set_receiving L idx p t receiving depth =
     (case get (pl_slots p) (idx t) of
        None \<Rightarrow> (p, False)
      | Some s \<Rightarrow>
          (case slot_set_receiving s t receiving of
             (s, False) \<Rightarrow> (put_slot p (idx t) s, False)
           | (s, True) \<Rightarrow>
               let p = put_slot p (idx t) s in
               if receiving then (case entry_listed p (idx t) of None \<Rightarrow> (p, False) | Some l \<Rightarrow> (listed_remove L p l, False))
               else if access_current s t = CurShared then (entry_insert L p (idx t) (depth + slot_barriers s), True)
               else (p, True)))"

datatype request_source = SourceShared "nat \<times> nat" | SourceExclusive nat

text \<open>The connection that a request goes to: \<open>Inl\<close> is a target that is no longer there.\<close>

definition ready_select ::
    "'p links_ops \<Rightarrow> ('t \<Rightarrow> nat) \<Rightarrow> pick_policy \<Rightarrow> ('t, 'w, 'f, 'p) ready_pool \<Rightarrow> ('t \<times> nat option) option \<Rightarrow> boundary \<Rightarrow>
       (('t, 'w, 'f, 'p) ready_pool \<times> (unit + request_source option)) option" where
  "ready_select L idx policy p target b =
     (case target of
        Some (t, generation) \<Rightarrow>
          Some (p,
            case get (pl_slots p) (idx t) of
              None \<Rightarrow> Inl ()
            | Some s \<Rightarrow>
                if \<not> slot_select s t generation then Inl ()
                else if slot_receiving s then Inr None
                else (case generation of
                    Some _ \<Rightarrow> Inr (Some (SourceExclusive (idx t)))
                  | None \<Rightarrow> Inr (map_option SourceShared (entry_listed p (idx t)))))
      | None \<Rightarrow>
          map_option (\<lambda>(p, l). (p, Inr (map_option SourceShared l))) (ready_pick L policy (b = BdGroup) p))"

section \<open>What the runtime does with the pool\<close>

definition wake_close ::
    "'p links_ops \<Rightarrow> ('t \<Rightarrow> nat) \<Rightarrow> ('t, 'w, 'f, 'p) ready_pool \<Rightarrow> 't \<Rightarrow> 'f \<Rightarrow> disposition \<Rightarrow> ('t, 'w, 'f, 'p) ready_pool \<times> 'f" where
  "wake_close L idx p t cause mode =
     (case ready_connection idx p t of
        None \<Rightarrow> (p, cause)
      | Some _ \<Rightarrow>
          (case ready_close L idx p t cause mode of None \<Rightarrow> (p, cause) | Some (p, _, cause) \<Rightarrow> (p, cause)))"

text \<open>\<open>tx::Access::reserve\<close>: a connection without generations left is closed when it is idle.\<close>

definition tx_reserve ::
    "'p links_ops \<Rightarrow> ('t \<Rightarrow> nat) \<Rightarrow> 'f \<Rightarrow> ('t \<Rightarrow> nat option) \<Rightarrow> ('t, 'w, 'f, 'p) ready_pool \<Rightarrow> nat \<times> nat \<Rightarrow>
       (('t, 'w, 'f, 'p) ready_pool \<times> 't transaction option) option" where
  "tx_reserve L idx closed load p l =
     (let t = bd_token (the (ps_bound (sl_phase (pl_slots p ! fst l)))) in
      map_option (\<lambda>(p, state).
        if state = None \<and> load t = Some 0 then (fst (wake_close L idx p t closed Reconnect), state) else (p, state))
        (ready_reserve L p l))"

definition shared_reindex ::
    "'p links_ops \<Rightarrow> ('t \<Rightarrow> nat) \<Rightarrow> 'f \<Rightarrow> ('t, 'w, 'f, 'p) ready_pool \<Rightarrow> 't \<Rightarrow> nat \<Rightarrow> ('t, 'w, 'f, 'p) ready_pool" where
  "shared_reindex L idx closed p t depth =
     (case ready_reindex L idx p t depth of
        (p, None) \<Rightarrow> p
      | (p, Some t) \<Rightarrow> fst (wake_close L idx p t closed Reconnect))"

end
