(* ===== verification/Pg_Pool_Index.thy ===== *)
theory Pg_Pool_Index
  imports Pg_Pool
begin

text \<open>
  The index of the pool: what the linked structures promise, and that listing, removing and moving an entry keep
  the ring, the lists by load, the bitmap and the least load in agreement with the loads of the entries.
\<close>

section \<open>What the linked structures promise\<close>

text \<open>Where a new element goes in a ring or a list is left open.\<close>

definition links_laws :: "'p links_ops \<Rightarrow> bool" where
  "links_laws L \<longleftrightarrow>
     (\<forall>p. lk_first L p = (case lk_ring L p of [] \<Rightarrow> None | i # _ \<Rightarrow> Some i)) \<and>
     (\<forall>p i. i \<notin> set (lk_ring L p) \<longrightarrow> (\<exists>xs ys. lk_ring L p = xs @ ys \<and> lk_ring L (lk_push L p i) = xs @ i # ys)) \<and>
     (\<forall>p i. i \<in> set (lk_ring L p) \<longrightarrow> lk_ring L (lk_unlink L p i) = remove1 i (lk_ring L p)) \<and>
     (\<forall>p i xs. lk_ring L p = i # xs \<longrightarrow>
        lk_ring L (fst (lk_step L p i)) = xs @ [i] \<and> snd (lk_step L p i) = hd (xs @ [i])) \<and>
     (\<forall>p i. bk_list L (lk_push L p i) = bk_list L p \<and> bk_list L (lk_unlink L p i) = bk_list L p \<and>
        bk_list L (fst (lk_step L p i)) = bk_list L p) \<and>
     (\<forall>p i. bm_bit L (lk_push L p i) = bm_bit L p \<and> bm_bit L (lk_unlink L p i) = bm_bit L p \<and>
        bm_bit L (fst (lk_step L p i)) = bm_bit L p) \<and>
     (\<forall>p r. bk_empty L p r = (bk_list L p r = [])) \<and>
     (\<forall>p r. bk_front L p r = (case bk_list L p r of [] \<Rightarrow> None | i # _ \<Rightarrow> Some i)) \<and>
     (\<forall>p r i xs ys. bk_list L p r = xs @ i # ys \<and> distinct (bk_list L p r) \<and> (\<forall>r'. r' \<noteq> r \<longrightarrow> i \<notin> set (bk_list L p r')) \<longrightarrow>
        bk_next L p i = (case ys of [] \<Rightarrow> None | j # _ \<Rightarrow> Some j)) \<and>
     (\<forall>p r i. (\<forall>r. i \<notin> set (bk_list L p r)) \<longrightarrow>
        (\<exists>xs ys. bk_list L p r = xs @ ys \<and> bk_list L (bk_link L p r i) = (bk_list L p)(r := xs @ i # ys))) \<and>
     (\<forall>p r i. i \<in> set (bk_list L p r) \<longrightarrow>
        bk_list L (bk_unlink L p r i) = (bk_list L p)(r := remove1 i (bk_list L p r))) \<and>
     (\<forall>p r b. bm_bit L (bm_update L p r b) = (bm_bit L p)(r := b) \<and> bk_list L (bm_update L p r b) = bk_list L p) \<and>
     (\<forall>p r i. bm_bit L (bk_link L p r i) = bm_bit L p \<and> bm_bit L (bk_unlink L p r i) = bm_bit L p) \<and>
     (\<forall>p r i b. lk_ring L (bk_link L p r i) = lk_ring L p \<and> lk_ring L (bk_unlink L p r i) = lk_ring L p \<and>
        lk_ring L (bm_update L p r b) = lk_ring L p) \<and>
     (\<forall>p from. case bm_find L p from of
          None \<Rightarrow> \<forall>r \<ge> from. \<not> bm_bit L p r
        | Some r \<Rightarrow> from \<le> r \<and> bm_bit L p r \<and> (\<forall>j. from \<le> j \<and> j < r \<longrightarrow> \<not> bm_bit L p j)) \<and>
     0 < bm_rows L \<and> (\<forall>d. bm_clamp L d = min d (bm_rows L - 1))"

lemma links_simps:
  assumes "links_laws L"
  shows "lk_first L p = (case lk_ring L p of [] \<Rightarrow> None | i # _ \<Rightarrow> Some i)"
    and "i \<in> set (lk_ring L p) \<Longrightarrow> lk_ring L (lk_unlink L p i) = remove1 i (lk_ring L p)"
    and "bk_list L (lk_push L p i) = bk_list L p" and "bk_list L (lk_unlink L p i) = bk_list L p"
    and "bk_list L (fst (lk_step L p i)) = bk_list L p"
    and "bm_bit L (lk_push L p i) = bm_bit L p" and "bm_bit L (lk_unlink L p i) = bm_bit L p"
    and "bm_bit L (fst (lk_step L p i)) = bm_bit L p"
    and "bk_empty L p r = (bk_list L p r = [])"
    and "bk_front L p r = (case bk_list L p r of [] \<Rightarrow> None | i # _ \<Rightarrow> Some i)"
    and "i \<in> set (bk_list L p r) \<Longrightarrow> bk_list L (bk_unlink L p r i) = (bk_list L p)(r := remove1 i (bk_list L p r))"
    and "bm_bit L (bm_update L p r b) = (bm_bit L p)(r := b)" and "bk_list L (bm_update L p r b) = bk_list L p"
    and "bm_bit L (bk_link L p r i) = bm_bit L p" and "bm_bit L (bk_unlink L p r i) = bm_bit L p"
    and "lk_ring L (bk_link L p r i) = lk_ring L p" and "lk_ring L (bk_unlink L p r i) = lk_ring L p"
    and "lk_ring L (bm_update L p r b) = lk_ring L p"
    and "bm_clamp L d < bm_rows L" and "bm_clamp L d = min d (bm_rows L - 1)"
  using assms unfolding links_laws_def by (force | simp)+

lemma links_push:
  assumes "links_laws L" and "i \<notin> set (lk_ring L p)"
  obtains xs ys where "lk_ring L p = xs @ ys" and "lk_ring L (lk_push L p i) = xs @ i # ys"
  using assms(1)[unfolded links_laws_def, THEN conjunct2, THEN conjunct1, rule_format, OF assms(2)] by blast

lemma links_step:
  assumes "links_laws L" and "lk_ring L p = i # xs"
  shows "lk_ring L (fst (lk_step L p i)) = xs @ [i]" and "snd (lk_step L p i) = hd (xs @ [i])"
  using assms(1)[unfolded links_laws_def, THEN conjunct2, THEN conjunct2, THEN conjunct2, THEN conjunct1, rule_format, OF assms(2)] by simp_all

lemma links_next:
  assumes "links_laws L" and "bk_list L p r = xs @ i # ys" and "distinct (bk_list L p r)"
    and "\<And>r'. r' \<noteq> r \<Longrightarrow> i \<notin> set (bk_list L p r')"
  shows "bk_next L p i = (case ys of [] \<Rightarrow> None | j # _ \<Rightarrow> Some j)"
  using assms(1)[unfolded links_laws_def, THEN conjunct2, THEN conjunct2, THEN conjunct2, THEN conjunct2, THEN conjunct2, THEN conjunct2, THEN conjunct2, THEN conjunct2, THEN conjunct1, THEN spec[of _ p], THEN spec[of _ r], THEN spec[of _ i],
      THEN spec[of _ xs], THEN spec[of _ ys]] assms(2-) by simp

lemma links_link:
  assumes "links_laws L" and "\<And>r. i \<notin> set (bk_list L p r)"
  obtains xs ys where "bk_list L p r = xs @ ys" and "bk_list L (bk_link L p r i) = (bk_list L p)(r := xs @ i # ys)"
  using assms(1)[unfolded links_laws_def, THEN conjunct2, THEN conjunct2, THEN conjunct2, THEN conjunct2, THEN conjunct2, THEN conjunct2, THEN conjunct2, THEN conjunct2, THEN conjunct2, THEN conjunct1, THEN spec[of _ p], THEN spec[of _ r], THEN spec[of _ i]] assms(2)
  by blast

lemma links_find:
  assumes "links_laws L"
  shows "case bm_find L p from of
      None \<Rightarrow> \<forall>r \<ge> from. \<not> bm_bit L p r
    | Some r \<Rightarrow> from \<le> r \<and> bm_bit L p r \<and> (\<forall>j. from \<le> j \<and> j < r \<longrightarrow> \<not> bm_bit L p j)"
  using assms[unfolded links_laws_def, THEN conjunct2, THEN conjunct2, THEN conjunct2, THEN conjunct2, THEN conjunct2, THEN conjunct2, THEN conjunct2, THEN conjunct2, THEN conjunct2, THEN conjunct2, THEN conjunct2, THEN conjunct2, THEN conjunct2, THEN conjunct2, THEN conjunct1, THEN spec[of _ p], THEN spec[of _ "from"]] .

section \<open>Agreement of the index\<close>

definition ring_inv :: "'p links_ops \<Rightarrow> 'p \<Rightarrow> nat set \<Rightarrow> bool" where
  "ring_inv L k S \<longleftrightarrow> distinct (lk_ring L k) \<and> set (lk_ring L k) = S"

definition lists_inv :: "'p links_ops \<Rightarrow> 'p \<Rightarrow> nat option list \<Rightarrow> bool" where
  "lists_inv L k prio \<longleftrightarrow>
     (\<forall>r. distinct (bk_list L k r) \<and> set (bk_list L k r) = {i. i < length prio \<and> prio ! i = Some r}) \<and>
     (\<forall>r. bk_list L k r \<noteq> [] \<longrightarrow> r < bm_rows L)"

definition least_inv :: "'p links_ops \<Rightarrow> 'p \<Rightarrow> nat option \<Rightarrow> bool" where
  "least_inv L k mn \<longleftrightarrow>
     (\<forall>r. bm_bit L k r = (bk_list L k r \<noteq> [])) \<and>
     (case mn of None \<Rightarrow> \<forall>r. bk_list L k r = [] | Some m \<Rightarrow> bk_list L k m \<noteq> [] \<and> (\<forall>r < m. bk_list L k r = []))"

definition listed_set :: "nat option list \<Rightarrow> nat set" where
  "listed_set prio = {i. i < length prio \<and> prio ! i \<noteq> None}"

definition index_inv :: "'p links_ops \<Rightarrow> ('t, 'w, 'f, 'p) ready_pool \<Rightarrow> bool" where
  "index_inv L p \<longleftrightarrow> ring_inv L (pl_links p) (listed_set (pl_prio p)) \<and> lists_inv L (pl_links p) (pl_prio p) \<and>
     least_inv L (pl_links p) (pl_min p)"

text \<open>The parts of the pool that the index does not touch.\<close>

definition same_rest :: "('t, 'w, 'f, 'p) ready_pool \<Rightarrow> ('t, 'w, 'f, 'p) ready_pool \<Rightarrow> bool" where
  "same_rest p q \<longleftrightarrow> pl_slots q = pl_slots p \<and> pl_live q = pl_live p \<and> pl_blockers q = pl_blockers p"

lemma same_rest_refl [simp]: "same_rest p p"
  by (simp add: same_rest_def)

lemma listed_set_update: "i < length prio \<Longrightarrow> listed_set (prio[i := v]) = (if v = None then listed_set prio - {i} else insert i (listed_set prio))"
  by (auto simp: listed_set_def nth_list_update)

lemma attach_index:
  assumes L: "links_laws L" and i: "i < length (pl_prio p)" "pl_prio p ! i = None" and r: "r < bm_rows L"
    and inv: "lists_inv L (pl_links p) (pl_prio p)" "least_inv L (pl_links p) (pl_min p)"
  shows "lists_inv L (pl_links (entry_attach L p i r)) (pl_prio (entry_attach L p i r)) \<and>
    least_inv L (pl_links (entry_attach L p i r)) (pl_min (entry_attach L p i r)) \<and>
    lk_ring L (pl_links (entry_attach L p i r)) = lk_ring L (pl_links p) \<and>
    pl_prio (entry_attach L p i r) = (pl_prio p)[i := Some r] \<and> same_rest p (entry_attach L p i r)"
proof -
  note S = links_simps[OF L]
  define k where "k = (if bk_empty L (pl_links p) r then bm_update L (pl_links p) r True else pl_links p)"
  have k: "bk_list L k = bk_list L (pl_links p)" "lk_ring L k = lk_ring L (pl_links p)" by (simp_all add: k_def S)
  have "\<And>r. i \<notin> set (bk_list L k r)" using inv(1) i by (simp add: k lists_inv_def)
  from links_link[OF L this] obtain xs ys where xy: "bk_list L k r = xs @ ys"
    and l: "bk_list L (bk_link L k r i) = (bk_list L k)(r := xs @ i # ys)" by blast
  define q where "q = entry_attach L p i r"
  have q: "pl_links q = bk_link L k r i" "pl_prio q = (pl_prio p)[i := Some r]" "same_rest p q"
    by (simp_all add: q_def entry_attach_def k_def same_rest_def Let_def)
  have mn: "pl_min q = (if bk_list L (pl_links p) r = []
      then (case pl_min p of None \<Rightarrow> Some r | Some c \<Rightarrow> if r < c then Some r else Some c) else pl_min p)"
    by (simp add: q_def entry_attach_def S Let_def)
  have set_new: "set (xs @ i # ys) = insert i (set (bk_list L (pl_links p) r))" using xy k by simp
  have "distinct (bk_list L (pl_links p) r)" "i \<notin> set (bk_list L (pl_links p) r)" using inv(1) i by (simp_all add: lists_inv_def)
  then have d: "distinct (xs @ ys)" "i \<notin> set (xs @ ys)" unfolding xy[unfolded k] by simp_all
  have lists: "lists_inv L (pl_links q) (pl_prio q)"
    unfolding lists_inv_def
  proof (intro conjI allI)
    fix r'
    show "distinct (bk_list L (pl_links q) r')" using inv(1) d by (auto simp: q l k lists_inv_def)
    show "set (bk_list L (pl_links q) r') = {j. j < length (pl_prio q) \<and> pl_prio q ! j = Some r'}"
      using inv(1) set_new i by (auto simp: q l k lists_inv_def nth_list_update)
    show "bk_list L (pl_links q) r' \<noteq> [] \<longrightarrow> r' < bm_rows L" using inv(1) r by (auto simp: q l k lists_inv_def)
  qed
  have lst: "bk_list L (pl_links q) r' = (if r' = r then xs @ i # ys else bk_list L (pl_links p) r')" for r'
    by (simp add: q l k)
  have old: "bm_bit L (pl_links p) r' = (bk_list L (pl_links p) r' \<noteq> [])" for r' using inv(2) by (simp add: least_inv_def)
  have kb: "bm_bit L k r' = (r' = r \<or> bm_bit L (pl_links p) r')" for r'
    by (cases "bk_list L (pl_links p) r = []") (auto simp: k_def S(9) S(12) old)
  have bits: "\<forall>r'. bm_bit L (pl_links q) r' = (bk_list L (pl_links q) r' \<noteq> [])"
    unfolding q(1) S(14) kb old using lst[unfolded q(1)] by simp
  have "least_inv L (pl_links q) (pl_min q)"
  proof (cases "pl_min p")
    case None
    with inv(2) have "bk_list L (pl_links p) r' = []" for r' by (simp add: least_inv_def)
    with None bits show ?thesis by (simp add: least_inv_def mn lst)
  next
    case (Some c)
    with inv(2) have c: "bk_list L (pl_links p) c \<noteq> []" "\<And>r'. r' < c \<Longrightarrow> bk_list L (pl_links p) r' = []" by (simp_all add: least_inv_def)
    then have "bk_list L (pl_links p) r \<noteq> [] \<Longrightarrow> c \<le> r" by (meson not_le_imp_less)
    with Some bits c show ?thesis by (auto simp: least_inv_def mn lst)
  qed
  then show ?thesis unfolding q_def[symmetric] using lists q k(2) by (simp add: S(16))
qed

lemma detach_index:
  assumes L: "links_laws L" and i: "i < length (pl_prio p)" "pl_prio p ! i = Some r"
    and inv: "lists_inv L (pl_links p) (pl_prio p)" "least_inv L (pl_links p) (pl_min p)"
  shows "lists_inv L (pl_links (entry_detach L p i r)) (pl_prio (entry_detach L p i r)) \<and>
    least_inv L (pl_links (entry_detach L p i r)) (pl_min (entry_detach L p i r)) \<and>
    lk_ring L (pl_links (entry_detach L p i r)) = lk_ring L (pl_links p) \<and>
    pl_prio (entry_detach L p i r) = (pl_prio p)[i := None] \<and> same_rest p (entry_detach L p i r) \<and>
    r < bm_rows L"
proof -
  note S = links_simps[OF L]
  have mem: "i \<in> set (bk_list L (pl_links p) r)" and dis: "distinct (bk_list L (pl_links p) r)"
    using inv(1) i by (simp_all add: lists_inv_def)
  then have "bk_list L (pl_links p) r \<noteq> []" by auto
  then have rr: "r < bm_rows L" using inv(1) by (simp add: lists_inv_def)
  define k where "k = bk_unlink L (pl_links p) r i"
  have k: "bk_list L k = (bk_list L (pl_links p))(r := remove1 i (bk_list L (pl_links p) r))"
    "lk_ring L k = lk_ring L (pl_links p)" "bm_bit L k = bm_bit L (pl_links p)" by (simp_all add: k_def S mem)
  define e where "e = (bk_list L k r = [])"
  define k' where "k' = (if e then bm_update L k r False else k)"
  have k': "bk_list L k' = bk_list L k" "lk_ring L k' = lk_ring L k" by (simp_all add: k'_def S)
  define q where "q = entry_detach L p i r"
  have q: "pl_links q = k'" "pl_prio q = (pl_prio p)[i := None]" "same_rest p q"
    by (simp_all add: q_def entry_detach_def k_def e_def k'_def same_rest_def Let_def S)
  have mn: "pl_min q = (if e \<and> pl_min p = Some r then bm_find L k' (r + 1) else pl_min p)"
    by (simp add: q_def entry_detach_def k_def e_def k'_def S Let_def)
  have lists: "lists_inv L (pl_links q) (pl_prio q)"
    unfolding lists_inv_def
  proof (intro conjI allI)
    fix r'
    show "distinct (bk_list L (pl_links q) r')" using inv(1) by (auto simp: q k' k lists_inv_def)
    have "set (bk_list L (pl_links q) r') = (if r' = r then set (bk_list L (pl_links p) r) - {i} else set (bk_list L (pl_links p) r'))"
      using dis by (simp add: q k' k)
    then show "set (bk_list L (pl_links q) r') = {j. j < length (pl_prio q) \<and> pl_prio q ! j = Some r'}"
      using inv(1) i by (auto simp: q lists_inv_def nth_list_update)
    show "bk_list L (pl_links q) r' \<noteq> [] \<longrightarrow> r' < bm_rows L" using inv(1) rr by (simp add: q k' k lists_inv_def)
  qed
  have old: "bm_bit L (pl_links p) r' = (bk_list L (pl_links p) r' \<noteq> [])" for r' using inv(2) by (simp add: least_inv_def)
  have bits: "bm_bit L k' r' = (bk_list L k' r' \<noteq> [])" for r'
    using old[of r'] mem by (auto simp: k'_def k S e_def)
  have "least_inv L k' (pl_min q)"
  proof (cases "e \<and> pl_min p = Some r")
    case True
    then have below: "bk_list L k' r' = []" if "r' \<le> r" for r' using inv(2) that by (auto simp: least_inv_def e_def k' k)
    from links_find[OF L, of "r + 1" k'] show ?thesis
      using True below by (auto simp: least_inv_def mn bits split: option.splits) (metis Suc_leI not_le_imp_less)+
  next
    case False
    with inv(2) show ?thesis unfolding least_inv_def mn
      by (auto simp: bits k' k e_def split: option.splits)
  qed
  then show ?thesis unfolding q_def[symmetric] using lists q k'(2) k(2) rr by simp
qed

lemma insert_rank_index:
  assumes L: "links_laws L" and i: "i < length (pl_prio p)" "pl_prio p ! i = None" and r: "r < bm_rows L" and inv: "index_inv L p"
  shows "index_inv L (entry_insert_rank L p i r) \<and> pl_prio (entry_insert_rank L p i r) = (pl_prio p)[i := Some r] \<and>
    same_rest p (entry_insert_rank L p i r)"
proof -
  define p' where "p' = p\<lparr>pl_links := lk_push L (pl_links p) i\<rparr>"
  have p': "pl_prio p' = pl_prio p" "pl_min p' = pl_min p" "same_rest p p'" "pl_links p' = lk_push L (pl_links p) i"
    by (simp_all add: p'_def same_rest_def)
  have ni: "i \<notin> set (lk_ring L (pl_links p))" using inv i by (simp add: index_inv_def ring_inv_def listed_set_def)
  from links_push[OF L ni] obtain xs ys where xy: "lk_ring L (pl_links p) = xs @ ys"
    "lk_ring L (pl_links p') = xs @ i # ys" unfolding p' by blast
  have "lists_inv L (pl_links p') (pl_prio p')" "least_inv L (pl_links p') (pl_min p')"
    using inv by (simp_all add: index_inv_def lists_inv_def least_inv_def p' links_simps[OF L] split: option.splits)
  note a = attach_index[OF L _ _ r this, unfolded p'(1), OF i]
  have e: "entry_insert_rank L p i r = entry_attach L p' i r" by (simp add: entry_insert_rank_def p'_def)
  have "ring_inv L (pl_links (entry_attach L p' i r)) (listed_set ((pl_prio p)[i := Some r]))"
    using a inv xy i ni[unfolded xy(1)] by (auto simp: index_inv_def ring_inv_def listed_set_update)
  with a p'(3) show ?thesis by (auto simp: e index_inv_def same_rest_def)
qed

lemma insert_index:
  assumes "links_laws L" and "i < length (pl_prio p)" "pl_prio p ! i = None" and "index_inv L p"
  shows "index_inv L (entry_insert L p i depth) \<and>
    pl_prio (entry_insert L p i depth) = (pl_prio p)[i := Some (bm_clamp L depth)] \<and> same_rest p (entry_insert L p i depth)"
  unfolding entry_insert_def by (rule insert_rank_index[OF assms(1-3) links_simps(19)[OF assms(1)] assms(4)])

lemma remove_index:
  assumes L: "links_laws L" and i: "i < length (pl_prio p)" "pl_prio p ! i = Some r" and inv: "index_inv L p"
  shows "index_inv L (listed_remove L p (i, r)) \<and> pl_prio (listed_remove L p (i, r)) = (pl_prio p)[i := None] \<and>
    same_rest p (listed_remove L p (i, r)) \<and> r < bm_rows L"
proof -
  define p' where "p' = p\<lparr>pl_links := lk_unlink L (pl_links p) i\<rparr>"
  have p': "pl_prio p' = pl_prio p" "pl_min p' = pl_min p" "same_rest p p'" "pl_links p' = lk_unlink L (pl_links p) i"
    by (simp_all add: p'_def same_rest_def)
  have "i \<in> set (lk_ring L (pl_links p))" using inv i by (simp add: index_inv_def ring_inv_def listed_set_def)
  then have ring: "lk_ring L (pl_links p') = remove1 i (lk_ring L (pl_links p))" by (simp add: p' links_simps[OF L])
  have "lists_inv L (pl_links p') (pl_prio p')" "least_inv L (pl_links p') (pl_min p')"
    using inv by (simp_all add: index_inv_def lists_inv_def least_inv_def p' links_simps[OF L] split: option.splits)
  note a = detach_index[OF L _ _ this, unfolded p'(1), OF i]
  have e: "listed_remove L p (i, r) = entry_detach L p' i r" by (simp add: listed_remove_def p'_def)
  have "ring_inv L (pl_links (entry_detach L p' i r)) (listed_set ((pl_prio p)[i := None]))"
    using a inv ring i by (auto simp: index_inv_def ring_inv_def listed_set_update)
  with a p'(3) show ?thesis by (auto simp: e index_inv_def same_rest_def)
qed

lemma reprioritize_index:
  assumes L: "links_laws L" and i: "i < length (pl_prio p)" "pl_prio p ! i = Some r" and inv: "index_inv L p"
  shows "index_inv L (listed_reprioritize L p (i, r) depth) \<and>
    pl_prio (listed_reprioritize L p (i, r) depth) = (pl_prio p)[i := Some (bm_clamp L depth)] \<and>
    same_rest p (listed_reprioritize L p (i, r) depth)"
proof (cases "r = bm_clamp L depth \<and> bk_front L (pl_links p) r = Some i")
  case True
  moreover from this i have "(pl_prio p)[i := Some (bm_clamp L depth)] = pl_prio p" by (metis list_update_id)
  ultimately show ?thesis using inv by (auto simp: listed_reprioritize_def Let_def)
next
  case False
  let ?d = "entry_detach L p i r"
  have lists: "lists_inv L (pl_links p) (pl_prio p)" "least_inv L (pl_links p) (pl_min p)" using inv by (simp_all add: index_inv_def)
  note d = detach_index[OF L i lists]
  then have "i < length (pl_prio ?d)" "pl_prio ?d ! i = None" "lists_inv L (pl_links ?d) (pl_prio ?d)"
    "least_inv L (pl_links ?d) (pl_min ?d)" using i by (elim conjE, simp)+
  note a = attach_index[OF L this(1,2) links_simps(19)[OF L, of depth] this(3,4)]
  have e: "listed_reprioritize L p (i, r) depth = entry_attach L ?d i (bm_clamp L depth)"
    using False by (auto simp: listed_reprioritize_def Let_def)
  have pr: "pl_prio (entry_attach L ?d i (bm_clamp L depth)) = (pl_prio p)[i := Some (bm_clamp L depth)]" using a d by simp
  have "ring_inv L (pl_links (entry_attach L ?d i (bm_clamp L depth))) (listed_set ((pl_prio p)[i := Some (bm_clamp L depth)]))"
    using a d inv i unfolding index_inv_def ring_inv_def listed_set_update[OF i(1)] by (auto simp: listed_set_def)
  with a d pr show ?thesis by (auto simp: e index_inv_def same_rest_def)
qed

lemma entry_reprioritize_index:
  assumes L: "links_laws L" and i: "i < length (pl_prio p)" and inv: "index_inv L p"
  shows "index_inv L (entry_reprioritize L p i depth) \<and> same_rest p (entry_reprioritize L p i depth) \<and>
    pl_prio (entry_reprioritize L p i depth) = (pl_prio p)[i := map_option (\<lambda>_. bm_clamp L depth) (pl_prio p ! i)]"
proof (cases "pl_prio p ! i")
  case None
  then have "(pl_prio p)[i := None] = pl_prio p" by (metis list_update_id)
  with inv None show ?thesis by (simp add: entry_reprioritize_def entry_listed_def)
next
  case (Some r)
  with reprioritize_index[OF L i Some inv, of depth] show ?thesis by (simp add: entry_reprioritize_def entry_listed_def)
qed

end
