(* ===== verification/Pg_Pool_Inv.thy ===== *)
theory Pg_Pool_Inv
  imports Pg_Pool_Index
begin

text \<open>
  The invariant of the pool and its preservation by every operation: the listed connections are those that are
  ready, shared and not receiving, the index agrees with their loads, and the counters, which the source changes
  without checks, are the numbers of ready connections and of connections in transactions.
\<close>

named_theorems phases "what the phase of a slot is after an operation"

section \<open>Slots\<close>

definition life_of :: "('t, 'w, 'f) conn_slot \<Rightarrow> 'f lifecycle" where
  "life_of s = ps_life (sl_phase s)"

definition selectable :: "('t, 'w, 'f) conn_slot \<Rightarrow> bool" where
  "selectable s = (case life_of s of LfReady (AcShared _) False \<Rightarrow> True | _ \<Rightarrow> False)"

definition is_ready :: "('t, 'w, 'f) conn_slot \<Rightarrow> bool" where
  "is_ready s = (case life_of s of LfReady _ _ \<Rightarrow> True | _ \<Rightarrow> False)"

definition is_blocked :: "('t, 'w, 'f) conn_slot \<Rightarrow> bool" where
  "is_blocked s = (case life_of s of LfReady (AcReserved _) _ \<Rightarrow> True | LfReady (AcHeld _) _ \<Rightarrow> True | _ \<Rightarrow> False)"

definition bound_at :: "('t \<Rightarrow> nat) \<Rightarrow> nat \<Rightarrow> ('t, 'w, 'f) conn_slot \<Rightarrow> bool" where
  "bound_at idx i s \<longleftrightarrow> life_of s = LfVacant \<or> (\<exists>b. ps_bound (sl_phase s) = Some b \<and> idx (bd_token b) = i)"

lemma phase_get_iff [phases]:
  "phase_get p = PhVacant \<longleftrightarrow> ps_life p = LfVacant"
  "phase_get p = PhHandshaking b \<longleftrightarrow> ps_life p = LfHandshaking \<and> b = the (ps_bound p)"
  "phase_get p = PhReady b a \<longleftrightarrow> (\<exists>r. ps_life p = LfReady a r) \<and> b = the (ps_bound p)"
  "phase_get p = PhClosing b f d \<longleftrightarrow> ps_life p = LfClosing f d \<and> b = the (ps_bound p)"
  by (auto simp: phase_get_def split: lifecycle.splits)

lemma set_access_phase [phases]:
  "life_of (set_access s a) = LfReady a (phase_receiving (sl_phase s))"
  "ps_bound (sl_phase (set_access s a)) = ps_bound (sl_phase s)"
  by (simp_all add: set_access_def phase_set_access_def life_of_def)

lemma phase_receiving_iff [phases]: "life_of s = LfReady a r \<Longrightarrow> phase_receiving (sl_phase s) = r"
  by (simp add: phase_receiving_def life_of_def)

section \<open>The invariant\<close>

definition ready_inv :: "'p links_ops \<Rightarrow> ('t \<Rightarrow> nat) \<Rightarrow> ('t, 'w, 'f, 'p) ready_pool \<Rightarrow> bool" where
  "ready_inv L idx p \<longleftrightarrow>
     length (pl_prio p) = length (pl_slots p) \<and> length (pl_slots p) \<le> u32_max \<and> index_inv L p \<and>
     (\<forall>i < length (pl_slots p). bound_at idx i (pl_slots p ! i) \<and> (pl_prio p ! i \<noteq> None) = selectable (pl_slots p ! i)) \<and>
     pl_live p = length (filter is_ready (pl_slots p)) \<and> pl_blockers p = length (filter is_blocked (pl_slots p))"

lemma length_filter_update:
  "i < length xs \<Longrightarrow> length (filter P (xs[i := x])) + of_bool (P (xs ! i)) = length (filter P xs) + of_bool (P x)"
proof (induction xs arbitrary: i)
  case (Cons y ys)
  then show ?case by (cases i) auto
qed simp

lemma length_filter_pos: "i < length xs \<Longrightarrow> P (xs ! i) \<Longrightarrow> 0 < length (filter P xs)"
  by (metis filter_empty_conv length_greater_0_conv nth_mem)

lemma length_filter_small: "i < length xs \<Longrightarrow> \<not> P (xs ! i) \<Longrightarrow> length (filter P xs) < length xs"
  by (meson length_filter_less nth_mem)

lemma raw_inc_id: "n < u32_max \<Longrightarrow> raw_inc n = n + 1"
  by (simp add: raw_inc_def)

lemma raw_dec_id: "0 < n \<Longrightarrow> n \<le> u32_max \<Longrightarrow> raw_dec n = n - 1"
  by (simp add: raw_dec_def as_u32_def mod_if)

lemma index_inv_put [simp]: "index_inv L (put_slot p i s) = index_inv L p"
  by (simp add: index_inv_def put_slot_def)

lemma put_slot_simps [simp]:
  "pl_slots (put_slot p i s) = (pl_slots p)[i := s]" "pl_prio (put_slot p i s) = pl_prio p"
  "pl_live (put_slot p i s) = pl_live p" "pl_blockers (put_slot p i s) = pl_blockers p"
  by (simp_all add: put_slot_def)

lemma index_inv_counters [simp]:
  "index_inv L (p\<lparr>pl_live := n\<rparr>) = index_inv L p" "index_inv L (p\<lparr>pl_blockers := n\<rparr>) = index_inv L p"
  by (simp_all add: index_inv_def)

lemma ready_update:
  assumes inv: "ready_inv L idx p" and i: "i < length (pl_slots p)"
    and q: "pl_slots q = (pl_slots p)[i := s]" "pl_prio q = (pl_prio p)[i := v]" "index_inv L q"
    and s: "(v \<noteq> None) = selectable s" "bound_at idx i s"
    and live: "pl_live q + of_bool (is_ready (pl_slots p ! i)) = pl_live p + of_bool (is_ready s)"
    and blockers: "pl_blockers q + of_bool (is_blocked (pl_slots p ! i)) = pl_blockers p + of_bool (is_blocked s)"
  shows "ready_inv L idx q"
proof -
  have "pl_live q = length (filter is_ready (pl_slots q))"
    using length_filter_update[OF i, of is_ready s] live inv by (simp add: ready_inv_def q)
  moreover have "pl_blockers q = length (filter is_blocked (pl_slots q))"
    using length_filter_update[OF i, of is_blocked s] blockers inv by (simp add: ready_inv_def q)
  ultimately show ?thesis using inv q s i by (auto simp: ready_inv_def nth_list_update)
qed

text \<open>An update of a slot that keeps_hist its phase, or moves it between phases that are neither listed nor counted.\<close>

lemma ready_put:
  assumes inv: "ready_inv L idx p" and i: "i < length (pl_slots p)"
    and "selectable s = selectable (pl_slots p ! i)" "is_ready s = is_ready (pl_slots p ! i)"
      "is_blocked s = is_blocked (pl_slots p ! i)" "bound_at idx i s"
  shows "ready_inv L idx (put_slot p i s)"
proof (rule ready_update[OF inv i, where v = "pl_prio p ! i"])
  show "(pl_prio p ! i \<noteq> None) = selectable s" using inv i assms(3) by (simp add: ready_inv_def)
qed (use assms inv in \<open>simp_all add: ready_inv_def\<close>)

lemma ready_inv_facts:
  assumes "ready_inv L idx p" and "i < length (pl_slots p)"
  shows "i < length (pl_prio p)" "index_inv L p" "bound_at idx i (pl_slots p ! i)"
    "(pl_prio p ! i \<noteq> None) = selectable (pl_slots p ! i)"
    "is_ready (pl_slots p ! i) \<Longrightarrow> 0 < pl_live p" "is_blocked (pl_slots p ! i) \<Longrightarrow> 0 < pl_blockers p"
    "\<not> is_ready (pl_slots p ! i) \<Longrightarrow> pl_live p < u32_max" "\<not> is_blocked (pl_slots p ! i) \<Longrightarrow> pl_blockers p < u32_max"
    "pl_live p \<le> u32_max" "pl_blockers p \<le> u32_max"
proof -
  have l: "length (filter P (pl_slots p)) \<le> u32_max" for P
    using assms(1) unfolding ready_inv_def by (meson le_trans length_filter_le)
  have "\<not> P (pl_slots p ! i) \<Longrightarrow> length (filter P (pl_slots p)) < u32_max" for P
    using assms length_filter_small[OF assms(2), of P] by (simp add: ready_inv_def)
  then show "\<not> is_ready (pl_slots p ! i) \<Longrightarrow> pl_live p < u32_max" "\<not> is_blocked (pl_slots p ! i) \<Longrightarrow> pl_blockers p < u32_max"
    using assms(1) by (simp_all add: ready_inv_def)
  show "is_ready (pl_slots p ! i) \<Longrightarrow> 0 < pl_live p" "is_blocked (pl_slots p ! i) \<Longrightarrow> 0 < pl_blockers p"
    using assms length_filter_pos[OF assms(2)] by (simp_all add: ready_inv_def)
  show "pl_live p \<le> u32_max" "pl_blockers p \<le> u32_max" using assms(1) l by (simp_all add: ready_inv_def)
qed (use assms in \<open>simp_all add: ready_inv_def\<close>)

lemma ready_counters_same: "pl_live p = l \<Longrightarrow> pl_blockers p = b \<Longrightarrow> p\<lparr>pl_live := l, pl_blockers := b\<rparr> = p"
  by simp

lemma list_update_same: "xs ! i = v \<Longrightarrow> xs[i := v] = xs"
  by auto

lemma entry_rest [simp]:
  "pl_live (entry_attach L p i r) = pl_live p" "pl_blockers (entry_attach L p i r) = pl_blockers p"
  "pl_slots (entry_attach L p i r) = pl_slots p" "pl_live (entry_detach L p i r) = pl_live p"
  "pl_blockers (entry_detach L p i r) = pl_blockers p" "pl_slots (entry_detach L p i r) = pl_slots p"
  "pl_live (entry_insert_rank L p i r) = pl_live p" "pl_blockers (entry_insert_rank L p i r) = pl_blockers p"
  "pl_slots (entry_insert_rank L p i r) = pl_slots p" "pl_live (entry_insert L p i d) = pl_live p"
  "pl_blockers (entry_insert L p i d) = pl_blockers p" "pl_slots (entry_insert L p i d) = pl_slots p"
  "pl_live (listed_remove L p l) = pl_live p" "pl_blockers (listed_remove L p l) = pl_blockers p"
  "pl_slots (listed_remove L p l) = pl_slots p"
  by (simp_all add: entry_attach_def entry_detach_def entry_insert_rank_def entry_insert_def listed_remove_def Let_def split: prod.split)

lemma get_Some_iff: "get xs i = Some x \<longleftrightarrow> i < length xs \<and> xs ! i = x"
  by (auto simp: get_def)

section \<open>Preservation\<close>

text \<open>Listing an entry whose slot has become selectable, and removing one whose slot no longer is.\<close>

lemma ready_insert:
  assumes L: "links_laws L" and inv: "ready_inv L idx p" and i: "i < length (pl_slots p)" "pl_prio p ! i = None"
    and s: "selectable s" "bound_at idx i s" and r: "r < bm_rows L"
    and live: "live + of_bool (is_ready (pl_slots p ! i)) = pl_live p + of_bool (is_ready s)"
    and blockers: "blockers + of_bool (is_blocked (pl_slots p ! i)) = pl_blockers p + of_bool (is_blocked s)"
  shows "ready_inv L idx ((entry_insert_rank L (put_slot p i s) i r)\<lparr>pl_live := live, pl_blockers := blockers\<rparr>)"
proof -
  have "i < length (pl_prio (put_slot p i s))" "pl_prio (put_slot p i s) ! i = None" "index_inv L (put_slot p i s)"
    using ready_inv_facts[OF inv i(1)] i by simp_all
  note a = insert_rank_index[OF L this(1,2) r this(3)]
  show ?thesis
    by (rule ready_update[OF inv i(1), where s = s and v = "Some r"]) (use a s live blockers in \<open>simp_all add: same_rest_def\<close>)
qed

lemma ready_remove:
  assumes L: "links_laws L" and inv: "ready_inv L idx p" and i: "i < length (pl_slots p)" "pl_prio p ! i = Some r"
    and s: "\<not> selectable s" "bound_at idx i s"
    and live: "live + of_bool (is_ready (pl_slots p ! i)) = pl_live p + of_bool (is_ready s)"
    and blockers: "blockers + of_bool (is_blocked (pl_slots p ! i)) = pl_blockers p + of_bool (is_blocked s)"
  shows "ready_inv L idx ((listed_remove L (put_slot p i s) (i, r))\<lparr>pl_live := live, pl_blockers := blockers\<rparr>)"
proof -
  have "i < length (pl_prio (put_slot p i s))" "pl_prio (put_slot p i s) ! i = Some r" "index_inv L (put_slot p i s)"
    using ready_inv_facts[OF inv i(1)] i by simp_all
  note a = remove_index[OF L this]
  show ?thesis
    by (rule ready_update[OF inv i(1), where s = s and v = None]) (use a s live blockers in \<open>simp_all add: same_rest_def\<close>)
qed

lemma ready_new_inv:
  assumes "links_laws L" and "n \<le> u32_max" and "lk_ring L k = []" and "\<And>r. bk_list L k r = []" and "\<And>r. \<not> bm_bit L k r"
  shows "ready_inv L idx (ready_new n k)"
  using assms(2-)
  by (simp add: ready_inv_def ready_new_def index_inv_def ring_inv_def lists_inv_def least_inv_def listed_set_def slot_new_def
      phase_new_def bound_at_def selectable_def is_ready_def is_blocked_def life_of_def)

lemma bind_inv:
  assumes inv: "ready_inv L idx p" and b: "ready_bind idx p t w = Some p'"
  shows "ready_inv L idx p'"
proof -
  obtain s s' where s: "idx t < length (pl_slots p)" "pl_slots p ! idx t = s" "slot_bind s t w = Some s'" "p' = put_slot p (idx t) s'"
    using b by (auto simp: ready_bind_def get_Some_iff bind_eq_Some_conv)
  show ?thesis unfolding s(4)
    by (rule ready_put[OF inv s(1)])
      (use s(2,3) in \<open>auto simp: slot_bind_def phases phase_set_def selectable_def is_ready_def is_blocked_def bound_at_def
        life_of_def split: if_splits\<close>)
qed

lemma try_ready_inv:
  assumes L: "links_laws L" and inv: "ready_inv L idx p" and b: "ready_try_ready L idx p t = Inr p'"
  shows "ready_inv L idx p'"
proof -
  define s where "s = pl_slots p ! idx t"
  obtain s' where s: "idx t < length (pl_slots p)" "slot_try_ready s t = Inr s'"
    and p': "p' = (entry_insert L (put_slot p (idx t) s') (idx t) 0)\<lparr>pl_live := raw_inc (pl_live (entry_insert L (put_slot p (idx t) s') (idx t) 0))\<rparr>"
    using b by (auto simp: ready_try_ready_def get_Some_iff bindr_Inr_iff Let_def s_def split: option.splits)
  have h: "life_of s = LfHandshaking" and h': "life_of s' = LfReady (AcShared 0) False" "bound_at idx (idx t) s'"
    using s(2) ready_inv_facts(3)[OF inv s(1)]
    by (auto simp: slot_try_ready_def phases phase_set_def life_of_def phase_receiving_def bound_at_def s_def split: slot_phase.splits if_splits)
  note f = ready_inv_facts[OF inv s(1), folded s_def]
  have "pl_prio p ! idx t = None" using f h by (simp add: selectable_def)
  have "p' = (entry_insert_rank L (put_slot p (idx t) s') (idx t) (bm_clamp L 0))\<lparr>pl_live := pl_live p + 1, pl_blockers := pl_blockers p\<rparr>"
    using f(7) h unfolding p' by (simp add: entry_insert_def raw_inc_id is_ready_def)
  then show ?thesis
    using ready_insert[OF L inv s(1) \<open>pl_prio p ! idx t = None\<close> _ h'(2) links_simps(19)[OF L, of 0], of "pl_live p + 1" "pl_blockers p"] h h'
    by (simp add: selectable_def is_ready_def is_blocked_def flip: s_def)
qed

lemma access_reserve_shared:
  "life_of s = LfReady (AcShared q) r \<Longrightarrow> access_reserve s = Some (case sequence_next q of
      None \<Rightarrow> (set_access s AcDraining, None)
    | Some g \<Rightarrow> (set_access s (AcReserved g), Some \<lparr>tx_conn = bd_token (the (ps_bound (sl_phase s))), tx_generation = g\<rparr>))"
  by (simp add: access_reserve_def phase_get_def life_of_def)

lemma set_access_bound_at [simp]: "bound_at idx i (set_access s a) = (\<exists>b. ps_bound (sl_phase s) = Some b \<and> idx (bd_token b) = i)"
  by (simp add: bound_at_def phases)

lemma set_access_life:
  "life_of s = LfReady a r \<Longrightarrow> life_of (set_access s a') = LfReady a' r"
  by (simp add: phases)

lemma selectableE: "selectable s \<Longrightarrow> (\<And>q. life_of s = LfReady (AcShared q) False \<Longrightarrow> thesis) \<Longrightarrow> thesis"
  by (auto simp: selectable_def split: lifecycle.splits access_state.splits bool.splits)

text \<open>The slot and the transaction of a reservation.\<close>

definition reserved_slot :: "('t, 'w, 'f) conn_slot \<Rightarrow> ('t, 'w, 'f) conn_slot" where
  "reserved_slot s = fst (the (access_reserve s))"

lemma reserve_inv:
  assumes L: "links_laws L" and inv: "ready_inv L idx p" and i: "i < length (pl_slots p)" "pl_prio p ! i = Some r"
  shows "\<exists>p' tx. ready_reserve L p (i, r) = Some (p', tx) \<and> ready_inv L idx p' \<and> pl_prio p' = (pl_prio p)[i := None] \<and>
    pl_slots p' = (pl_slots p)[i := reserved_slot (pl_slots p ! i)] \<and> r < bm_rows L \<and>
    access_reserve (pl_slots p ! i) = Some (reserved_slot (pl_slots p ! i), tx)"
proof -
  let ?s = "pl_slots p ! i"
  note f = ready_inv_facts[OF inv i(1)]
  from f(4) i(2) have sel: "selectable ?s" by simp
  then obtain q where q: "life_of ?s = LfReady (AcShared q) False" by (rule selectableE)
  then have b: "\<exists>b. ps_bound (sl_phase ?s) = Some b \<and> idx (bd_token b) = i" using f(3) by (simp add: bound_at_def)
  obtain s' tx where a: "access_reserve ?s = Some (s', tx)" using access_reserve_shared[OF q] by (cases "sequence_next q") auto
  then have rs: "reserved_slot ?s = s'" by (simp add: reserved_slot_def)
  let ?m = "listed_remove L (put_slot p i s') (i, r)"
  have "i < length (pl_prio (put_slot p i s'))" "pl_prio (put_slot p i s') ! i = Some r" "index_inv L (put_slot p i s')"
    using f i by simp_all
  note rem = remove_index[OF L this]
  show ?thesis
  proof (cases tx)
    case None
    then have s': "s' = set_access ?s AcDraining" using a access_reserve_shared[OF q] by (auto split: option.splits)
    have "ready_inv L idx (?m\<lparr>pl_live := pl_live p, pl_blockers := pl_blockers p\<rparr>)"
      by (rule ready_remove[OF L inv i]) (use q b in \<open>simp_all add: s' set_access_life[OF q] selectable_def is_ready_def is_blocked_def\<close>)
    moreover have "?m\<lparr>pl_live := pl_live p, pl_blockers := pl_blockers p\<rparr> = ?m" by simp
    ultimately show ?thesis using a None rem rs by (simp add: ready_reserve_def Let_def)
  next
    case (Some x)
    then obtain g where s': "s' = set_access ?s (AcReserved g)" using a access_reserve_shared[OF q] by (auto split: option.splits)
    have "ready_inv L idx (?m\<lparr>pl_live := pl_live p, pl_blockers := raw_inc (pl_blockers p)\<rparr>)"
      by (rule ready_remove[OF L inv i])
        (use q b f(8) in \<open>simp_all add: s' set_access_life[OF q] selectable_def is_ready_def is_blocked_def raw_inc_id\<close>)
    moreover have "?m\<lparr>pl_live := pl_live p, pl_blockers := raw_inc (pl_blockers p)\<rparr> = ?m\<lparr>pl_blockers := raw_inc (pl_blockers p)\<rparr>" by simp
    ultimately show ?thesis using a Some rem rs by (simp add: ready_reserve_def Let_def)
  qed
qed

lemma release_inv:
  assumes L: "links_laws L" and inv: "ready_inv L idx p" and i: "i < length (pl_slots p)" and r: "r < bm_rows L"
    and s: "life_of (pl_slots p ! i) = LfReady (AcReserved g) False" and rel: "ready_release L p (i, r) tx = (p', tx')"
  shows "ready_inv L idx p' \<and> tx' = tx \<and> pl_slots p' = (pl_slots p)[i := set_access (pl_slots p ! i) (AcShared (tx_generation tx))]"
proof -
  let ?s = "pl_slots p ! i" and ?s' = "set_access (pl_slots p ! i) (AcShared (tx_generation tx))"
  note f = ready_inv_facts[OF inv i]
  have b: "\<exists>b. ps_bound (sl_phase ?s) = Some b \<and> idx (bd_token b) = i" using f(3) s by (simp add: bound_at_def)
  have "pl_prio p ! i = None" using f(4) s by (simp add: selectable_def)
  from ready_insert[OF L inv i this _ _ r, where s = ?s' and live = "pl_live p" and blockers = "raw_dec (pl_blockers p)"]
  have "ready_inv L idx ((entry_insert_rank L (put_slot p i ?s') i r)\<lparr>pl_live := pl_live p, pl_blockers := raw_dec (pl_blockers p)\<rparr>)"
    using f(6,10) s b by (simp add: set_access_life[OF s] selectable_def is_ready_def is_blocked_def raw_dec_id)
  moreover have "(entry_insert_rank L (put_slot p i ?s') i r)\<lparr>pl_live := pl_live p, pl_blockers := raw_dec (pl_blockers p)\<rparr> = p'"
    using rel by (auto simp: ready_release_def reservation_release_def Let_def)
  ultimately show ?thesis using rel by (auto simp: ready_release_def reservation_release_def Let_def)
qed

lemma access_current_iff [phases]:
  "access_current s t = CurShared \<longleftrightarrow> (\<exists>q r. life_of s = LfReady (AcShared q) r) \<and> bd_token (the (ps_bound (sl_phase s))) = t"
  "access_current s t = CurReserved tx \<longleftrightarrow> (\<exists>r. life_of s = LfReady (AcReserved (tx_generation tx)) r) \<and>
     bd_token (the (ps_bound (sl_phase s))) = t \<and> tx_conn tx = t"
  "access_current s t = CurHeld tx \<longleftrightarrow> (\<exists>r. life_of s = LfReady (AcHeld (tx_generation tx)) r) \<and>
     bd_token (the (ps_bound (sl_phase s))) = t \<and> tx_conn tx = t"
  "access_current s t = CurFinalizing tx \<longleftrightarrow> (\<exists>r. life_of s = LfReady (AcFinalizing (tx_generation tx)) r) \<and>
     bd_token (the (ps_bound (sl_phase s))) = t \<and> tx_conn tx = t"
  "access_current s t = CurDraining \<longleftrightarrow> (\<exists>r. life_of s = LfReady AcDraining r) \<and> bd_token (the (ps_bound (sl_phase s))) = t"
  by (cases tx; auto simp: access_current_def phase_get_def life_of_def split: lifecycle.splits access_state.splits)+

lemma poll_ready_inv:
  assumes L: "links_laws L" and inv: "ready_inv L idx p"
  shows "ready_inv L idx (fst (ready_poll_ready L idx p t status depth))"
proof (cases "idx t < length (pl_slots p)")
  case False
  with inv show ?thesis by (simp add: ready_poll_ready_def get_def)
next
  case True
  let ?i = "idx t" and ?s = "pl_slots p ! idx t"
  note f = ready_inv_facts[OF inv True]
  show ?thesis
  proof (cases "\<exists>tx. access_current ?s t = CurReserved tx \<and> status = TxOpen \<or> access_current ?s t = CurFinalizing tx \<and> status = TxIdle")
    case False
    with inv True show ?thesis
      by (auto simp: ready_poll_ready_def get_def split: current.splits tx_status.splits)
  next
    case True': True
    then obtain tx r where "access_current ?s t = CurReserved tx \<and> status = TxOpen \<and> life_of ?s = LfReady (AcReserved (tx_generation tx)) r \<or>
      access_current ?s t = CurFinalizing tx \<and> status = TxIdle \<and> life_of ?s = LfReady (AcFinalizing (tx_generation tx)) r"
      by (auto simp: access_current_iff(2,4))
    then show ?thesis
    proof (elim disjE conjE)
      assume c: "access_current ?s t = CurReserved tx" "status = TxOpen" and l: "life_of ?s = LfReady (AcReserved (tx_generation tx)) r"
      have "ready_inv L idx (put_slot p ?i (set_access ?s (AcHeld (tx_generation tx))))"
        by (rule ready_put[OF inv True]) (use f(3)[unfolded bound_at_def] l in \<open>simp_all add: set_access_life[OF l] selectable_def is_ready_def is_blocked_def\<close>)
      with c True show ?thesis by (simp add: ready_poll_ready_def get_def reservation_activate_def)
    next
      assume c: "access_current ?s t = CurFinalizing tx" "status = TxIdle" and l: "life_of ?s = LfReady (AcFinalizing (tx_generation tx)) r"
      let ?s' = "set_access ?s (AcShared (tx_generation tx))"
      note l' = set_access_life[OF l, of "AcShared (tx_generation tx)"]
      have b: "bound_at idx ?i ?s'" using f(3) l by (simp add: bound_at_def phases)
      have rc: "slot_receiving ?s' = r" using l' by (simp add: slot_receiving_def phases)
      have np: "pl_prio p ! ?i = None" using f(4) l by (simp add: selectable_def)
      have res: "fst (ready_poll_ready L idx p t status depth) = (if r then put_slot p ?i ?s' else entry_insert L (put_slot p ?i ?s') ?i depth)"
        using c True by (simp add: ready_poll_ready_def get_def finalizing_finish_def rc Let_def)
      show ?thesis
      proof (cases r)
        case True'': True
        have "ready_inv L idx (put_slot p ?i ?s')"
          by (rule ready_put[OF inv True]) (use b l l' True'' in \<open>simp_all add: selectable_def is_ready_def is_blocked_def\<close>)
        with res True'' show ?thesis by simp
      next
        case False
        from ready_insert[OF L inv True np _ b links_simps(19)[OF L, of depth], of "pl_live p" "pl_blockers p"]
        have "ready_inv L idx ((entry_insert_rank L (put_slot p ?i ?s') ?i (bm_clamp L depth))\<lparr>pl_live := pl_live p, pl_blockers := pl_blockers p\<rparr>)"
          using l l' False by (simp add: selectable_def is_ready_def is_blocked_def)
        with res False show ?thesis by (simp add: entry_insert_def ready_counters_same)
      qed
    qed
  qed
qed

lemma finalize_inv:
  assumes inv: "ready_inv L idx p"
  shows "ready_inv L idx (fst (ready_finalize idx p tx))"
proof (cases "idx (tx_conn tx) < length (pl_slots p)")
  case False
  with inv show ?thesis by (simp add: ready_finalize_def get_def)
next
  case True
  let ?i = "idx (tx_conn tx)" and ?s = "pl_slots p ! idx (tx_conn tx)"
  note f = ready_inv_facts[OF inv True]
  have same: "ready_inv L idx (put_slot p ?i ?s)"
    by (rule ready_put[OF inv True]) (use f in simp_all)
  show ?thesis
  proof (cases "\<exists>s'. access_finalize ?s tx = (s', FinPending tx)")
    case False
    then obtain fin where "access_finalize ?s tx = (?s, fin)" "\<nexists>x. fin = FinPending x"
      by (auto simp: access_finalize_def split: slot_phase.splits if_splits)
    with same True show ?thesis by (cases fin) (simp_all add: ready_finalize_def get_def)
  next
    case True': True
    then obtain r where l: "life_of ?s = LfReady (AcHeld (tx_generation tx)) r"
      and a: "access_finalize ?s tx = (set_access ?s (AcFinalizing (tx_generation tx)), FinPending tx)"
      by (auto simp: access_finalize_def phases life_of_def split: slot_phase.splits if_splits)
    let ?s' = "set_access ?s (AcFinalizing (tx_generation tx))"
    note l' = set_access_life[OF l, of "AcFinalizing (tx_generation tx)"]
    have b: "bound_at idx ?i ?s'" using f(3) l by (simp add: bound_at_def phases)
    have "ready_inv L idx ((put_slot p ?i ?s')\<lparr>pl_blockers := raw_dec (pl_blockers p)\<rparr>)"
      by (rule ready_update[OF inv True, where s = ?s' and v = "pl_prio p ! ?i"])
        (use f b l l' in \<open>simp_all add: selectable_def is_ready_def is_blocked_def raw_dec_id list_update_same\<close>)
    with a True show ?thesis by (simp add: ready_finalize_def get_def Let_def)
  qed
qed

text \<open>Closing a slot: what its phase was, and that it is closing then.\<close>

lemma try_close_Some:
  assumes "slot_try_close s t cause fate = Some (s', state, cause')" and "bound_at idx i s"
  shows "\<not> selectable s' \<and> \<not> is_ready s' \<and> \<not> is_blocked s' \<and> bound_at idx i s' \<and>
    (is_ready s \<longleftrightarrow> state \<noteq> ClosedHandshaking \<and> state \<noteq> ClosedClosing) \<and>
    (is_blocked s \<longleftrightarrow> (\<exists>tx. state = ClosedReserved tx \<or> state = ClosedHeld tx))"
  using assms
  by (auto simp: slot_try_close_def phases phase_set_def closed_of_def selectable_def is_ready_def is_blocked_def bound_at_def life_of_def Let_def
      split: slot_phase.splits if_splits access_state.splits lifecycle.splits)

lemma close_inv:
  assumes L: "links_laws L" and inv: "ready_inv L idx p" and c: "ready_close L idx p t cause fate = Some (p', state, cause')"
  shows "ready_inv L idx p'"
proof -
  let ?i = "idx t" and ?s = "pl_slots p ! idx t"
  obtain s' where i: "?i < length (pl_slots p)" and s': "slot_try_close ?s t cause fate = Some (s', state, cause')"
    using c by (auto simp: ready_close_def get_def Let_def split: option.splits if_splits)
  note f = ready_inv_facts[OF inv i] and cl = try_close_Some[OF s' ready_inv_facts(3)[OF inv i]]
  define live where "live = (if is_ready ?s then pl_live p - 1 else pl_live p)"
  define bl where "bl = (if is_blocked ?s then pl_blockers p - 1 else pl_blockers p)"
  have counts: "live + of_bool (is_ready ?s) = pl_live p + of_bool (is_ready s')" "bl + of_bool (is_blocked ?s) = pl_blockers p + of_bool (is_blocked s')"
    using f(5,6) cl by (auto simp: live_def bl_def)
  define q where "q = (case pl_prio p ! ?i of None \<Rightarrow> put_slot p ?i s' | Some r \<Rightarrow> listed_remove L (put_slot p ?i s') (?i, r))"
  have q_rest: "pl_live q = pl_live p" "pl_blockers q = pl_blockers p" by (simp_all add: q_def split: option.split)
  have "ready_inv L idx (q\<lparr>pl_live := live, pl_blockers := bl\<rparr>)"
  proof (cases "pl_prio p ! ?i")
    case None
    show ?thesis
      by (rule ready_update[OF inv i, where s = s' and v = None])
        (use None f cl counts in \<open>simp_all add: q_def list_update_same\<close>)
  next
    case (Some r)
    show ?thesis unfolding q_def Some option.case
      by (rule ready_remove[OF L inv i Some _ _ counts]) (use cl in simp_all)
  qed
  moreover have "p' = (case state of
        ClosedReserved _ \<Rightarrow> q\<lparr>pl_blockers := raw_dec (pl_blockers q), pl_live := raw_dec (pl_live q)\<rparr>
      | ClosedHeld _ \<Rightarrow> q\<lparr>pl_blockers := raw_dec (pl_blockers q), pl_live := raw_dec (pl_live q)\<rparr>
      | ClosedHandshaking \<Rightarrow> q
      | ClosedClosing \<Rightarrow> q
      | _ \<Rightarrow> q\<lparr>pl_live := raw_dec (pl_live q)\<rparr>)"
    using c i s' by (cases "pl_prio p ! idx t"; cases state; simp add: q_def entry_listed_def ready_close_def get_def)
  moreover have "p' = q\<lparr>pl_live := live, pl_blockers := bl\<rparr>"
    unfolding calculation(2) using cl f(5,6,9,10)
    by (cases state) (auto simp: live_def bl_def q_rest raw_dec_id)
  ultimately show ?thesis by simp
qed

lemma reindex_inv:
  assumes L: "links_laws L" and inv: "ready_inv L idx p"
  shows "ready_inv L idx (fst (ready_reindex L idx p t depth))"
proof (cases "idx t < length (pl_slots p) \<and> access_current (pl_slots p ! idx t) t = CurShared")
  case False
  with inv show ?thesis by (auto simp: ready_reindex_def get_def split: current.splits)
next
  case True
  then have i: "idx t < length (pl_slots p)" by simp
  let ?d = "depth + slot_barriers (pl_slots p ! idx t)"
  note f = ready_inv_facts[OF inv i] and e = entry_reprioritize_index[OF L ready_inv_facts(1,2)[OF inv i], of ?d]
  have "ready_inv L idx (entry_reprioritize L p (idx t) ?d)"
    by (rule ready_update[OF inv i, where s = "pl_slots p ! idx t" and v = "map_option (\<lambda>_. bm_clamp L ?d) (pl_prio p ! idx t)"])
      (use e f in \<open>simp_all add: same_rest_def\<close>)
  with True show ?thesis by (simp add: ready_reindex_def get_def)
qed

lemma set_receiving_life:
  assumes "slot_set_receiving s t b = (s', True)"
  shows "\<exists>a. life_of s = LfReady a (\<not> b) \<and> life_of s' = LfReady a b \<and> ps_bound (sl_phase s') = ps_bound (sl_phase s) \<and>
    bd_token (the (ps_bound (sl_phase s))) = t"
  using assms by (auto simp: slot_set_receiving_def phase_set_receiving_def life_of_def split: prod.splits lifecycle.splits if_splits)

lemma set_receiving_same: "slot_set_receiving s t b = (s', False) \<Longrightarrow> s' = s"
  by (auto simp: slot_set_receiving_def phase_set_receiving_def split: prod.splits lifecycle.splits if_splits)

lemma set_receiving_inv:
  assumes L: "links_laws L" and inv: "ready_inv L idx p"
  shows "ready_inv L idx (fst (ready_set_receiving L idx p t b depth))"
proof (cases "idx t < length (pl_slots p) \<and> snd (slot_set_receiving (pl_slots p ! idx t) t b)")
  case False
  moreover have "put_slot p (idx t) (pl_slots p ! idx t) = p" by (simp add: put_slot_def)
  ultimately show ?thesis using inv set_receiving_same[of "pl_slots p ! idx t" t b]
    by (cases "slot_set_receiving (pl_slots p ! idx t) t b") (auto simp: ready_set_receiving_def get_def)
next
  case True
  let ?i = "idx t" and ?s = "pl_slots p ! idx t"
  obtain s' where i: "?i < length (pl_slots p)" and s': "slot_set_receiving ?s t b = (s', True)"
    using True by (cases "slot_set_receiving ?s t b") auto
  then obtain a where l: "life_of ?s = LfReady a (\<not> b)" "life_of s' = LfReady a b" "ps_bound (sl_phase s') = ps_bound (sl_phase ?s)"
    "bd_token (the (ps_bound (sl_phase ?s))) = t" using set_receiving_life[OF s'] by auto
  note f = ready_inv_facts[OF inv i]
  have bo: "bound_at idx ?i s'" using f(3) l by (simp add: bound_at_def)
  have cnt: "is_ready s' = is_ready ?s" "is_blocked s' = is_blocked ?s" 
    by (simp_all add: is_ready_def is_blocked_def l(1,2) split: access_state.split)
  have sh: "access_current s' t = CurShared \<longleftrightarrow> (\<exists>q. a = AcShared q)" using l by (auto simp: access_current_iff)
  have plain: "ready_inv L idx (put_slot p ?i s')" if "\<nexists>q. a = AcShared q"
    by (rule ready_put[OF inv i]) (use that l bo cnt in \<open>auto simp: selectable_def split: access_state.split\<close>)
  show ?thesis
  proof (cases "\<exists>q. a = AcShared q")
    case False
    then have "pl_prio p ! ?i = None" using f(4) l by (auto simp: selectable_def split: access_state.splits)
    with False plain show ?thesis using i s' sh
      by (auto simp: ready_set_receiving_def get_def Let_def entry_listed_def)
  next
    case True
    then obtain q where q: "a = AcShared q" by blast
    show ?thesis
    proof (cases b)
      case True
      then have "pl_prio p ! ?i \<noteq> None" using f(4) l q by (simp add: selectable_def)
      then obtain r where r: "pl_prio p ! ?i = Some r" by auto
      from ready_remove[OF L inv i r _ bo, of "pl_live p" "pl_blockers p"] have "ready_inv L idx (listed_remove L (put_slot p ?i s') (?i, r))"
        using True l q cnt by (simp add: selectable_def ready_inv_def index_inv_def)
      with True i s' r show ?thesis by (simp add: ready_set_receiving_def get_def Let_def entry_listed_def)
    next
      case False
      then have np: "pl_prio p ! ?i = None" using f(4) l q by (simp add: selectable_def)
      from ready_insert[OF L inv i np _ bo links_simps(19)[OF L, of "depth + slot_barriers s'"], of "pl_live p" "pl_blockers p"]
      have "ready_inv L idx (entry_insert L (put_slot p ?i s') ?i (depth + slot_barriers s'))"
        using False l q cnt by (simp add: selectable_def ready_inv_def index_inv_def entry_insert_def)
      with False i s' sh q show ?thesis by (simp add: ready_set_receiving_def get_def Let_def)
    qed
  qed
qed

end
