(* ===== verification/Pg_Pool_Select.thy ===== *)
theory Pg_Pool_Select
  imports Pg_Pool_Inv
begin

text \<open>
  Selection: on a pool that satisfies its invariant the searches return, never take the front of an empty list,
  and find what they look for: the front of the ring, the first eligible connection of the ring, a connection
  with the least load, an eligible one with the least load.
\<close>

section \<open>The ring\<close>

lemma ring_facts:
  assumes "ready_inv L idx p"
  shows "distinct (lk_ring L (pl_links p))" "set (lk_ring L (pl_links p)) = listed_set (pl_prio p)"
  using assms by (simp_all add: ready_inv_def index_inv_def ring_inv_def)

text \<open>The pool after \<open>n\<close> entries of its ring have moved to the end.\<close>

lemma step_inv:
  assumes L: "links_laws L" and inv: "ready_inv L idx p" and r: "lk_ring L (pl_links p) = i # xs"
  shows "ready_inv L idx (p\<lparr>pl_links := fst (lk_step L (pl_links p) i)\<rparr>)"
  using inv links_step[OF L r] r
  by (auto simp: ready_inv_def index_inv_def ring_inv_def lists_inv_def least_inv_def links_simps[OF L] split: option.splits)

lemma entry_listed_links [simp]: "entry_listed (p\<lparr>pl_links := k\<rparr>) i = entry_listed p i"
  by (simp add: entry_listed_def)

lemma next_spec:
  assumes L: "links_laws L" and inv: "ready_inv L idx p" and nx: "ready_next L p = (p', l)"
  shows "ready_inv L idx p' \<and> pl_slots p' = pl_slots p \<and> pl_prio p' = pl_prio p \<and>
    (case lk_ring L (pl_links p) of
       [] \<Rightarrow> l = None \<and> p' = p
     | i # xs \<Rightarrow> l \<noteq> None \<and> l = entry_listed p i \<and> lk_ring L (pl_links p') = xs @ [i])"
proof (cases "lk_ring L (pl_links p)")
  case Nil
  with nx inv show ?thesis by (auto simp: ready_next_def links_simps(1)[OF L])
next
  case (Cons i xs)
  then have "i \<in> listed_set (pl_prio p)" using ring_facts[OF inv] by auto
  with Cons nx step_inv[OF L inv Cons] links_step[OF L Cons] show ?thesis
    by (auto simp: ready_next_def links_simps(1)[OF L] entry_listed_def listed_set_def)
qed

text \<open>The search over the ring: \<open>zs\<close> has been passed, \<open>i # xs\<close> is left.\<close>

lemma next_where_loop_spec:
  assumes L: "links_laws L" and "distinct (zs @ i # xs)" and "ready_inv L idx p"
    and "lk_ring L (pl_links p) = (i # xs) @ zs" and "first = hd (zs @ i # xs)"
  shows "\<exists>p' l. next_where_loop L ok first i p = Some (p', l) \<and> ready_inv L idx p' \<and> (\<exists>k. p' = p\<lparr>pl_links := k\<rparr>) \<and>
      (case find (\<lambda>j. ok (pl_slots p ! j)) (i # xs) of None \<Rightarrow> l = None | Some j \<Rightarrow> l = entry_listed p j)"
  using assms(2-)
proof (induction xs arbitrary: i zs p)
  case Nil
  note s = links_step[OF L Nil(3)[simplified]]
  obtain k where k: "lk_step L (pl_links p) i = (k, first)" using s Nil(4) by (cases zs; cases "lk_step L (pl_links p) i") auto
  with step_inv[OF L Nil(2) Nil(3)[simplified]] show ?case
    by (subst next_where_loop.simps) (auto simp: Let_def)
next
  case (Cons j xs)
  note s = links_step[OF L Cons(4)[simplified]] and si = step_inv[OF L Cons(3) Cons(4)[simplified]]
  obtain k where st: "lk_step L (pl_links p) i = (k, j)" using s by (cases "lk_step L (pl_links p) i") simp
  let ?q = "p\<lparr>pl_links := k\<rparr>"
  have "j \<noteq> first" using Cons(2,5) by (cases zs) auto
  show ?case
  proof (cases "ok (pl_slots p ! i)")
    case True
    with si show ?thesis by (subst next_where_loop.simps) (auto simp: st)
  next
    case False
    have e: "pl_slots ?q = pl_slots p" "entry_listed ?q = entry_listed p" by (auto intro!: ext)
    have "\<exists>p' l. next_where_loop L ok first j ?q = Some (p', l) \<and> ready_inv L idx p' \<and> (\<exists>k. p' = ?q\<lparr>pl_links := k\<rparr>) \<and>
      (case find (\<lambda>j. ok (pl_slots ?q ! j)) (j # xs) of None \<Rightarrow> l = None | Some j \<Rightarrow> l = entry_listed ?q j)"
      by (rule Cons.IH[where zs = "zs @ [i]"]) (use s si st Cons(2,5) in \<open>auto simp: hd_append\<close>)
    then obtain p' l k' where n: "next_where_loop L ok first j ?q = Some (p', l)" "ready_inv L idx p'" "p' = ?q\<lparr>pl_links := k'\<rparr>"
      and l: "case find (\<lambda>j. ok (pl_slots p ! j)) (j # xs) of None \<Rightarrow> l = None | Some j \<Rightarrow> l = entry_listed p j"
      unfolding e by blast
    have "\<exists>k. p' = p\<lparr>pl_links := k\<rparr>" using n(3) by auto
    moreover have "next_where_loop L ok first i p = Some (p', l)"
      using False \<open>j \<noteq> first\<close> n(1) by (subst next_where_loop.simps) (simp add: st)
    moreover have "find (\<lambda>j. ok (pl_slots p ! j)) (i # j # xs) = find (\<lambda>j. ok (pl_slots p ! j)) (j # xs)" using False by simp
    ultimately show ?thesis using n(2) l by metis
  qed
qed

lemma next_where_spec:
  assumes L: "links_laws L" and inv: "ready_inv L idx p"
  shows "\<exists>p' l. ready_next_where L ok p = Some (p', l) \<and> ready_inv L idx p' \<and> (\<exists>k. p' = p\<lparr>pl_links := k\<rparr>) \<and>
      (case find (\<lambda>j. ok (pl_slots p ! j)) (lk_ring L (pl_links p)) of None \<Rightarrow> l = None | Some j \<Rightarrow> l = entry_listed p j)"
proof (cases "lk_ring L (pl_links p)")
  case Nil
  have "\<exists>k. p = p\<lparr>pl_links := k\<rparr>" by (rule exI[of _ "pl_links p"]) simp
  with Nil inv show ?thesis by (simp add: ready_next_where_def links_simps(1)[OF L])
next
  case (Cons i xs)
  then show ?thesis using next_where_loop_spec[OF L, of "[]" i xs idx p i ok] ring_facts[OF inv] inv
    by (simp add: ready_next_where_def links_simps(1)[OF L])
qed

section \<open>The least load\<close>

lemma lists_facts:
  assumes "ready_inv L idx p"
  shows "distinct (bk_list L (pl_links p) r)"
    "i \<in> set (bk_list L (pl_links p) r) \<longleftrightarrow> i < length (pl_prio p) \<and> pl_prio p ! i = Some r"
    "bk_list L (pl_links p) r \<noteq> [] \<Longrightarrow> r < bm_rows L" "bm_bit L (pl_links p) r = (bk_list L (pl_links p) r \<noteq> [])"
  using assms by (simp_all add: ready_inv_def index_inv_def lists_inv_def least_inv_def)

lemma minimum_spec:
  assumes L: "links_laws L" and inv: "ready_inv L idx p"
  shows "\<exists>l. ready_minimum L p = Some l \<and> (case l of
      None \<Rightarrow> \<forall>i < length (pl_prio p). pl_prio p ! i = None
    | Some (i, r) \<Rightarrow> i < length (pl_prio p) \<and> pl_prio p ! i = Some r \<and>
        (\<forall>j < length (pl_prio p). \<forall>r'. pl_prio p ! j = Some r' \<longrightarrow> r \<le> r'))"
proof -
  have least: "case pl_min p of None \<Rightarrow> \<forall>r. bk_list L (pl_links p) r = []
      | Some m \<Rightarrow> bk_list L (pl_links p) m \<noteq> [] \<and> (\<forall>r < m. bk_list L (pl_links p) r = [])"
    using inv by (simp add: ready_inv_def index_inv_def least_inv_def)
  note m = lists_facts(2)[OF inv]
  show ?thesis
  proof (cases "pl_min p")
    case None
    then have "\<not> (j < length (pl_prio p) \<and> pl_prio p ! j = Some r)" for j r using least m[of j r] by auto
    then show ?thesis using None by (simp add: ready_minimum_def) (meson not_None_eq)
  next
    case (Some r)
    then obtain i xs where l: "bk_list L (pl_links p) r = i # xs" using least by (cases "bk_list L (pl_links p) r") auto
    have low: "bk_list L (pl_links p) r' = []" if "r' < r" for r' using least Some that by simp
    have "r \<le> r'" if "j < length (pl_prio p)" "pl_prio p ! j = Some r'" for j r'
      using low[of r'] m[of j r'] that by (cases "r' < r") auto
    moreover have "i < length (pl_prio p)" "pl_prio p ! i = Some r" using m[of i r] l by auto
    ultimately show ?thesis using Some l by (simp add: ready_minimum_def links_simps(10)[OF L])
  qed
qed

text \<open>The search below the entry \<open>i\<close> of the list \<open>row\<close>, after which \<open>ys\<close> is left.\<close>

definition least_of :: "(nat \<Rightarrow> bool) \<Rightarrow> nat option list \<Rightarrow> (nat \<times> nat) option \<Rightarrow> bool" where
  "least_of ok prio l =
     (case l of
        None \<Rightarrow> \<forall>j < length prio. prio ! j \<noteq> None \<longrightarrow> \<not> ok j
      | Some (i, r) \<Rightarrow> i < length prio \<and> prio ! i = Some r \<and> ok i \<and>
          (\<forall>j < length prio. \<forall>r'. prio ! j = Some r' \<and> ok j \<longrightarrow> r \<le> r'))"

lemma least_where_loop_spec:
  assumes L: "links_laws L" and inv: "ready_inv L idx p"
  shows "bk_list L (pl_links p) row = zs @ i # ys \<Longrightarrow>
    (\<And>j r'. j < length (pl_prio p) \<Longrightarrow> pl_prio p ! j = Some r' \<Longrightarrow> ok (pl_slots p ! j) \<Longrightarrow> row < r' \<or> r' = row \<and> j \<in> set (i # ys)) \<Longrightarrow>
    \<exists>l. least_where_loop L ok p row i = Some l \<and> least_of (\<lambda>j. ok (pl_slots p ! j)) (pl_prio p) l"
proof (induction "bm_rows L - row" arbitrary: row zs i ys rule: less_induct)
  case less
  note outer = less(1)
  show ?case using less(2,3)
  proof (induction ys arbitrary: zs i)
    case Nil
    note m = lists_facts[OF inv]
    have i: "i < length (pl_prio p)" "pl_prio p ! i = Some row" using m(2)[of i row] Nil(1) by auto
    have nx: "bk_next L (pl_links p) i = None"
      using links_next[OF L Nil(1) m(1)] m(2)[of i] i by auto
    show ?case
    proof (cases "ok (pl_slots p ! i)")
      case True
      with i Nil(2) show ?thesis by (subst least_where_loop.simps) (fastforce simp: least_of_def)
    next
      case False
      have beyond: "row < r'" if "j < length (pl_prio p)" "pl_prio p ! j = Some r'" "ok (pl_slots p ! j)" for j r'
        using Nil(2)[OF that] that False by auto
      note fd = links_find[OF L, of "row + 1" "pl_links p"]
      show ?thesis
      proof (cases "bm_find L (pl_links p) (row + 1)")
        case None
        have "\<not> ok (pl_slots p ! j)" if "j < length (pl_prio p)" "pl_prio p ! j = Some r'" for j r'
          using beyond[OF that] fd None m(4)[of r'] m(2)[of j r'] that by force
        then show ?thesis using False nx None by (subst least_where_loop.simps) (auto simp: least_of_def)
      next
        case (Some r)
        then have r: "row + 1 \<le> r" "bm_bit L (pl_links p) r" "\<And>j. row + 1 \<le> j \<Longrightarrow> j < r \<Longrightarrow> \<not> bm_bit L (pl_links p) j"
          using fd by auto
        then obtain h xs where h: "bk_list L (pl_links p) r = h # xs" using m(4)[of r] by (cases "bk_list L (pl_links p) r") auto
        have "row < bm_rows L" using m(3) Nil(1) by auto
        with r(1) have "bm_rows L - r < bm_rows L - row" by simp
        moreover have "r < r' \<or> r' = r \<and> j \<in> set (h # xs)"
          if j: "j < length (pl_prio p)" "pl_prio p ! j = Some r'" "ok (pl_slots p ! j)" for j r'
        proof -
          have "bm_bit L (pl_links p) r'" using j m(2)[of j r'] m(4)[of r'] by auto
          with beyond[OF j] r(3)[of r'] have "r \<le> r'" by force
          then show ?thesis using j m(2)[of j r] h by auto
        qed
        ultimately obtain l where "least_where_loop L ok p r h = Some l" "least_of (\<lambda>j. ok (pl_slots p ! j)) (pl_prio p) l"
          using outer[of r "[]" h xs] h by auto
        then show ?thesis using False nx Some h
          by (subst least_where_loop.simps) (auto simp: links_simps(10)[OF L])
      qed
    qed
  next
    case (Cons j ys)
    note m = lists_facts[OF inv]
    have i: "i < length (pl_prio p)" "pl_prio p ! i = Some row" using m(2)[of i row] Cons(2) by auto
    have nx: "bk_next L (pl_links p) i = Some j"
      using links_next[OF L Cons(2) m(1)] m(2)[of i] i by auto
    show ?case
    proof (cases "ok (pl_slots p ! i)")
      case True
      with i Cons(3) show ?thesis by (subst least_where_loop.simps) (fastforce simp: least_of_def)
    next
      case False
      have "\<exists>l. least_where_loop L ok p row j = Some l \<and> least_of (\<lambda>j. ok (pl_slots p ! j)) (pl_prio p) l"
      proof (rule Cons.IH)
        show "bk_list L (pl_links p) row = (zs @ [i]) @ j # ys" using Cons(2) by simp
        show "row < r' \<or> r' = row \<and> k \<in> set (j # ys)"
          if "k < length (pl_prio p)" "pl_prio p ! k = Some r'" "ok (pl_slots p ! k)" for k r'
          using Cons(3)[OF that] that False by auto
      qed
      then show ?thesis using False nx by (subst least_where_loop.simps) simp
    qed
  qed
qed

lemma least_where_spec:
  assumes L: "links_laws L" and inv: "ready_inv L idx p"
  shows "\<exists>l. ready_least_where L ok p = Some l \<and> least_of (\<lambda>j. ok (pl_slots p ! j)) (pl_prio p) l"
proof -
  have least: "case pl_min p of None \<Rightarrow> \<forall>r. bk_list L (pl_links p) r = []
      | Some m \<Rightarrow> bk_list L (pl_links p) m \<noteq> [] \<and> (\<forall>r < m. bk_list L (pl_links p) r = [])"
    using inv by (simp add: ready_inv_def index_inv_def least_inv_def)
  note m = lists_facts(2)[OF inv]
  show ?thesis
  proof (cases "pl_min p")
    case None
    then have "pl_prio p ! j \<noteq> Some r" if "j < length (pl_prio p)" for j r using least m[of j r] that by auto
    then have "least_of (\<lambda>j. ok (pl_slots p ! j)) (pl_prio p) None" by (auto simp: least_of_def)
    then show ?thesis using None by (simp add: ready_least_where_def)
  next
    case (Some r)
    then obtain i xs where l: "bk_list L (pl_links p) r = i # xs" using least by (cases "bk_list L (pl_links p) r") auto
    have low: "bk_list L (pl_links p) r' = []" if "r' < r" for r' using least Some that by simp
    have "r < r' \<or> r' = r \<and> j \<in> set (i # xs)" if "j < length (pl_prio p)" "pl_prio p ! j = Some r'" for j r'
      using low[of r'] m[of j r'] m[of j r] l that by (cases "r' < r") auto
    then show ?thesis using least_where_loop_spec[OF L inv, of r "[]" i xs ok] Some l
      by (simp add: ready_least_where_def links_simps(10)[OF L])
  qed
qed

end
