(* ===== verification/Pg_Pool_Run.thy ===== *)
theory Pg_Pool_Run
  imports Pg_Pool_Select
begin

text \<open>
  Runs of the pool: every order of the operations that the client makes on it, as a step relation whose labels
  record the connections bound and the transactions issued.  The invariant holds after every step, and the
  generations of the transactions of one connection increase.  The retirement of a connection and the loop that
  finds a connection for a transaction come from \<open>port/pool/control.rs\<close> and \<open>api/task/tx/begin.rs\<close>.
\<close>

section \<open>Retirement, counts and the search for a transaction\<close>

definition ready_retire :: "('t \<Rightarrow> nat) \<Rightarrow> ('t, 'w, 'f, 'p) ready_pool \<Rightarrow> 't \<Rightarrow> ('t, 'w, 'f, 'p) ready_pool \<times> slot_error option" where
  "ready_retire idx p t =
     (case ready_connection idx p t of
        None \<Rightarrow> (p, None)
      | Some s \<Rightarrow>
          (case slot_try_retire (idx t) s t of
             Inl e \<Rightarrow> (p, Some e)
           | Inr s \<Rightarrow> (put_slot p (idx t) s, None)))"

definition ready_install ::
    "('t \<Rightarrow> nat) \<Rightarrow> ('t, 'w, 'f, 'p) ready_pool \<Rightarrow> 't \<Rightarrow> backend_key \<Rightarrow> reason + ('t, 'w, 'f, 'p) ready_pool" where
  "ready_install idx p t key =
     (case ready_connection idx p t of
        None \<Rightarrow> Inl (ReasonMessage BackendKeyStale)
      | Some s \<Rightarrow> map_sum id (put_slot p (idx t)) (backend_try_install s t key))"

definition ready_blocking :: "('t, 'w, 'f, 'p) ready_pool \<Rightarrow> nat option" where
  "ready_blocking p = (if pl_blockers p = 0 then None else Some (pl_blockers p))"

partial_function (option) begin_hold ::
    "'p links_ops \<Rightarrow> ('t \<Rightarrow> nat) \<Rightarrow> pick_policy \<Rightarrow> 'f \<Rightarrow> ('t \<Rightarrow> nat option) \<Rightarrow> ('t, 'w, 'f, 'p) ready_pool \<Rightarrow>
       (('t, 'w, 'f, 'p) ready_pool \<times> ((nat \<times> nat) \<times> 't transaction) option) option" where
  "begin_hold L idx policy closed load p =
     Option.bind (ready_pick_begin L policy p) (\<lambda>(p, listed).
       case listed of
         None \<Rightarrow> Some (p, None)
       | Some l \<Rightarrow>
           Option.bind (tx_reserve L idx closed load p l) (\<lambda>(p, tx).
             case tx of
               Some tx \<Rightarrow> Some (p, Some (l, tx))
             | None \<Rightarrow> begin_hold L idx policy closed load p))"

section \<open>Steps and runs\<close>

datatype 't ready_event =
    EvBind 't
  | EvIssue "'t transaction"
  | EvOther

inductive ready_step :: "'p links_ops \<Rightarrow> ('t \<Rightarrow> nat) \<Rightarrow> ('t, 'w, 'f, 'p) ready_pool \<Rightarrow> 't ready_event \<Rightarrow> ('t, 'w, 'f, 'p) ready_pool \<Rightarrow> bool"
  for L idx where
  activate: "ready_bind idx p t w = Some p' \<Longrightarrow> ready_step L idx p (EvBind t) p'"
| install: "ready_install idx p t key = Inr p' \<Longrightarrow> ready_step L idx p EvOther p'"
| prepared: "ready_try_ready L idx p t = Inr p' \<Longrightarrow> ready_step L idx p EvOther p'"
| reserve: "i < length (pl_slots p) \<Longrightarrow> entry_listed p i = Some l \<Longrightarrow> ready_reserve L p l = Some (p', Some tx) \<Longrightarrow>
    ready_step L idx p (EvIssue tx) p'"
| drain: "i < length (pl_slots p) \<Longrightarrow> entry_listed p i = Some l \<Longrightarrow> ready_reserve L p l = Some (p', None) \<Longrightarrow>
    ready_step L idx p EvOther p'"
| withdraw: "i < length (pl_slots p) \<Longrightarrow> entry_listed p i = Some l \<Longrightarrow> ready_reserve L p l = Some (q, Some tx) \<Longrightarrow>
    ready_release L q l tx = (p', tx') \<Longrightarrow> ready_step L idx p (EvIssue tx) p'"
| status: "ready_step L idx p EvOther (fst (ready_poll_ready L idx p t st depth))"
| finalize: "ready_step L idx p EvOther (fst (ready_finalize idx p tx))"
| close: "ready_close L idx p t cause fate = Some (p', state, cause') \<Longrightarrow> ready_step L idx p EvOther p'"
| retire: "ready_step L idx p EvOther (fst (ready_retire idx p t))"
| reindex: "ready_step L idx p EvOther (fst (ready_reindex L idx p t depth))"
| receiving: "ready_step L idx p EvOther (fst (ready_set_receiving L idx p t b depth))"
| pick: "ready_pick L policy grouped p = Some (p', l) \<Longrightarrow> ready_step L idx p EvOther p'"
| pick_begin: "ready_pick_begin L policy p = Some (p', l) \<Longrightarrow> ready_step L idx p EvOther p'"
| commit: "i < length (pl_slots p) \<Longrightarrow> permit_commit (pl_slots p ! i) m = (s', u) \<Longrightarrow> ready_step L idx p EvOther (put_slot p i s')"
| settle: "i < length (pl_slots p) \<Longrightarrow> slot_settle (pl_slots p ! i) t = (s', r) \<Longrightarrow> ready_step L idx p EvOther (put_slot p i s')"

inductive ready_run :: "'p links_ops \<Rightarrow> ('t \<Rightarrow> nat) \<Rightarrow> ('t, 'w, 'f, 'p) ready_pool \<Rightarrow> 't ready_event list \<Rightarrow> ('t, 'w, 'f, 'p) ready_pool \<Rightarrow> bool"
  for L idx p where
  start: "ready_run L idx p [] p"
| extend: "ready_run L idx p tr q \<Longrightarrow> ready_step L idx q e q' \<Longrightarrow> ready_run L idx p (tr @ [e]) q'"

definition bound_of :: "'t ready_event list \<Rightarrow> 't list" where
  "bound_of tr = List.map_filter (\<lambda>e. case e of EvBind t \<Rightarrow> Some t | _ \<Rightarrow> None) tr"

definition issued_of :: "'t ready_event list \<Rightarrow> 't transaction list" where
  "issued_of tr = List.map_filter (\<lambda>e. case e of EvIssue tx \<Rightarrow> Some tx | _ \<Rightarrow> None) tr"

lemma trace_simps [simp]:
  "bound_of [] = []" "issued_of [] = []"
  "bound_of (tr @ [EvBind t]) = bound_of tr @ [t]" "bound_of (tr @ [EvIssue tx]) = bound_of tr" "bound_of (tr @ [EvOther]) = bound_of tr"
  "issued_of (tr @ [EvBind t]) = issued_of tr" "issued_of (tr @ [EvIssue tx]) = issued_of tr @ [tx]" "issued_of (tr @ [EvOther]) = issued_of tr"
  by (simp_all add: bound_of_def issued_of_def List.map_filter_def)

section \<open>The invariant over a run\<close>

lemma same_phase:
  assumes "sl_phase s' = sl_phase s"
  shows "selectable s' = selectable s" "is_ready s' = is_ready s" "is_blocked s' = is_blocked s" "bound_at idx i s' = bound_at idx i s"
  using assms by (simp_all add: selectable_def is_ready_def is_blocked_def bound_at_def life_of_def)

lemma commit_phase: "permit_commit s m = (s', u) \<Longrightarrow> sl_phase s' = sl_phase s"
  by (auto simp: permit_commit_def Let_def split: boundary.splits)

lemma settle_phase: "slot_settle s t = (s', u) \<Longrightarrow> sl_phase s' = sl_phase s"
  by (auto simp: slot_settle_def Let_def split: slot_phase.splits if_splits)

lemma install_phase: "backend_try_install s t key = Inr s' \<Longrightarrow> sl_phase s' = sl_phase s"
  by (auto simp: backend_try_install_def split: slot_phase.splits if_splits)

lemma put_same_phase:
  assumes "ready_inv L idx p" and "i < length (pl_slots p)" and "sl_phase s' = sl_phase (pl_slots p ! i)"
  shows "ready_inv L idx (put_slot p i s')"
  by (rule ready_put[OF assms(1,2)]) (use same_phase[OF assms(3)] ready_inv_facts(3)[OF assms(1,2)] in simp_all)

lemma connection_Some:
  "ready_connection idx p t = Some s \<Longrightarrow> idx t < length (pl_slots p) \<and> s = pl_slots p ! idx t \<and> slot_matches s t"
  by (auto simp: ready_connection_def get_Some_iff bind_eq_Some_conv split: if_splits)

lemma install_inv:
  assumes "ready_inv L idx p" and "ready_install idx p t key = Inr p'"
  shows "\<exists>s'. idx t < length (pl_slots p) \<and> p' = put_slot p (idx t) s' \<and> sl_phase s' = sl_phase (pl_slots p ! idx t) \<and> ready_inv L idx p'"
proof -
  obtain s where s: "ready_connection idx p t = Some s" using assms(2) by (auto simp: ready_install_def split: option.splits)
  then obtain s' where "backend_try_install s t key = Inr s'" "p' = put_slot p (idx t) s'"
    using assms(2) by (cases "backend_try_install s t key") (auto simp: ready_install_def)
  with connection_Some[OF s(1)] install_phase[OF this(1)] put_same_phase[OF assms(1), of "idx t" s'] show ?thesis by auto
qed

lemma retire_phase:
  assumes "slot_try_retire i s t = Inr s'"
  shows "s' = s \<or> (\<exists>f d. life_of s = LfClosing f d) \<and> life_of s' = LfVacant"
  using assms by (auto simp: slot_try_retire_def phases phase_set_def life_of_def split: slot_phase.splits if_splits)

lemma retire_cases:
  obtains "fst (ready_retire idx p t) = p" |
    s' where "idx t < length (pl_slots p)" "fst (ready_retire idx p t) = put_slot p (idx t) s'"
      "s' = pl_slots p ! idx t \<or> (\<exists>f d. life_of (pl_slots p ! idx t) = LfClosing f d) \<and> life_of s' = LfVacant"
proof (cases "ready_connection idx p t")
  case None
  with that(1) show thesis by (simp add: ready_retire_def)
next
  case (Some s)
  note c = connection_Some[OF Some]
  show thesis
  proof (cases "slot_try_retire (idx t) s t")
    case (Inl e)
    with that(1) Some show thesis by (simp add: ready_retire_def)
  next
    case (Inr s')
    from retire_phase[OF Inr] c that(2)[of s'] Some Inr show thesis by (auto simp: ready_retire_def)
  qed
qed

lemma retire_inv: "ready_inv L idx p \<Longrightarrow> ready_inv L idx (fst (ready_retire idx p t))"
proof (rule retire_cases[of idx p t])
  fix s' assume inv: "ready_inv L idx p" and i: "idx t < length (pl_slots p)" "fst (ready_retire idx p t) = put_slot p (idx t) s'"
    and s: "s' = pl_slots p ! idx t \<or> (\<exists>f d. life_of (pl_slots p ! idx t) = LfClosing f d) \<and> life_of s' = LfVacant"
  show "ready_inv L idx (fst (ready_retire idx p t))" unfolding i(2)
    by (rule ready_put[OF inv i(1)]) (use s ready_inv_facts(3)[OF inv i(1)] in \<open>auto simp: selectable_def is_ready_def is_blocked_def bound_at_def\<close>)
qed simp

lemma pick_where_inv:
  assumes "links_laws L" and "ready_inv L idx p" and "ready_pick_where L policy ok p = Some (p', l)"
  shows "ready_inv L idx p' \<and> pl_slots p' = pl_slots p \<and> pl_prio p' = pl_prio p"
  using next_where_spec[OF assms(1,2), of ok] assms(2,3)
  by (cases policy) (auto simp: ready_pick_where_def)

lemma pick_inv:
  assumes "links_laws L" and "ready_inv L idx p" and "ready_pick L policy grouped p = Some (p', l)"
  shows "ready_inv L idx p' \<and> pl_slots p' = pl_slots p \<and> pl_prio p' = pl_prio p"
proof (cases "grouped \<or> policy = LeastInflight")
  case True
  with pick_where_inv[OF assms(1,2)] assms(2,3) show ?thesis
    by (cases policy) (auto simp: ready_pick_def split: if_splits)
next
  case False
  then have "ready_next L p = (p', l)" using assms(3) by (cases policy) (auto simp: ready_pick_def)
  from next_spec[OF assms(1,2) this] show ?thesis by simp
qed

lemma reserve_slot:
  assumes "access_reserve s = Some (s', tx)" and "life_of s = LfReady (AcShared q) r"
  shows "tx = None \<Longrightarrow> life_of s' = LfReady AcDraining r"
    and "tx = Some x \<Longrightarrow> life_of s' = LfReady (AcReserved (tx_generation x)) r \<and> sequence_next q = Some (tx_generation x) \<and>
      tx_conn x = bd_token (the (ps_bound (sl_phase s)))"
    and "ps_bound (sl_phase s') = ps_bound (sl_phase s)"
  using assms by (auto simp: access_reserve_shared[OF assms(2)] phases split: option.splits)

lemma step_inv_pool:
  assumes L: "links_laws L" and st: "ready_step L idx p e q"
  shows "ready_inv L idx p \<Longrightarrow> ready_inv L idx q"
  using st
proof (induction rule: ready_step.induct)
  case (withdraw i p l q' tx p' tx')
  note inv = withdraw(5)
  obtain r where l: "l = (i, r)" "pl_prio p ! i = Some r" using withdraw(2) by (auto simp: entry_listed_def)
  obtain p1 tx1 where r: "ready_reserve L p (i, r) = Some (p1, tx1)" "ready_inv L idx p1"
    "pl_slots p1 = (pl_slots p)[i := reserved_slot (pl_slots p ! i)]" "r < bm_rows L"
    "access_reserve (pl_slots p ! i) = Some (reserved_slot (pl_slots p ! i), tx1)"
    using reserve_inv[OF L inv withdraw(1) l(2)] by blast
  have e: "p1 = q'" "tx1 = Some tx" using r(1) withdraw(3) l by auto
  from ready_inv_facts(4)[OF inv withdraw(1)] l(2) have "selectable (pl_slots p ! i)" by simp
  then obtain sq where sq: "life_of (pl_slots p ! i) = LfReady (AcShared sq) False" by (rule selectableE)
  from reserve_slot(2)[OF r(5) sq e(2)]
  have "life_of (reserved_slot (pl_slots p ! i)) = LfReady (AcReserved (tx_generation tx)) False" by simp
  then have lf: "life_of (pl_slots q' ! i) = LfReady (AcReserved (tx_generation tx)) False"
    and len: "i < length (pl_slots q')" using r(3) e(1) withdraw(1) by simp_all
  have rel: "ready_release L q' (i, r) tx = (p', tx')" using withdraw(4) l(1) by simp
  from release_inv[OF L r(2)[unfolded e(1)] len r(4) lf rel] show ?case by simp
next
  case (reserve i p l p' tx)
  then show ?case using reserve_inv[OF L, of idx p i] by (auto simp: entry_listed_def)
next
  case (drain i p l p')
  then show ?case using reserve_inv[OF L, of idx p i] by (auto simp: entry_listed_def)
next
  case (activate p t w p')
  then show ?case by (simp add: bind_inv)
next
  case (install p t key p')
  from install_inv[OF install(2,1)] show ?case by auto
next
  case (prepared p t p')
  then show ?case by (simp add: try_ready_inv[OF L])
next
  case (close p t cause fate p' state cause')
  from close_inv[OF L close(2,1)] show ?case .
next
  case (pick policy grouped p p' l)
  from pick_inv[OF L pick(2,1)] show ?case by simp
next
  case (pick_begin policy p p' l)
  from pick_where_inv[OF L pick_begin(2) pick_begin(1)[unfolded ready_pick_begin_def]] show ?case by simp
next
  case (commit i p m s' u)
  then show ?case by (simp add: put_same_phase commit_phase)
next
  case (settle i p t s' r)
  then show ?case by (simp add: put_same_phase settle_phase)
qed (simp_all add: poll_ready_inv[OF L] finalize_inv retire_inv reindex_inv[OF L] set_receiving_inv[OF L])

lemma run_inv:
  assumes "ready_run L idx p tr q" and "links_laws L" and "ready_inv L idx p"
  shows "ready_inv L idx q"
  using assms by induction (auto intro: step_inv_pool)

section \<open>Generations\<close>

definition token_of :: "('t, 'w, 'f) conn_slot \<Rightarrow> 't" where
  "token_of s = bd_token (the (ps_bound (sl_phase s)))"

definition generation_of :: "access_state \<Rightarrow> nat option" where
  "generation_of a =
     (case a of AcShared g \<Rightarrow> Some g | AcReserved g \<Rightarrow> Some g | AcHeld g \<Rightarrow> Some g | AcFinalizing g \<Rightarrow> Some g | AcDraining \<Rightarrow> None)"

text \<open>\<open>H\<close> are the transactions issued and \<open>B\<close> the connections bound so far.\<close>

definition slot_hist :: "'t transaction set \<Rightarrow> 't set \<Rightarrow> ('t, 'w, 'f) conn_slot \<Rightarrow> bool" where
  "slot_hist H B s =
     (case life_of s of
        LfHandshaking \<Rightarrow> token_of s \<in> B \<and> (\<forall>x \<in> H. tx_conn x \<noteq> token_of s)
      | LfReady a _ \<Rightarrow> token_of s \<in> B \<and>
          (\<forall>g. generation_of a = Some g \<longrightarrow> g \<le> u64_max \<and> (\<forall>x \<in> H. tx_conn x = token_of s \<longrightarrow> tx_generation x \<le> g))
      | _ \<Rightarrow> True)"

definition keeps_hist :: "('t, 'w, 'f) conn_slot \<Rightarrow> ('t, 'w, 'f) conn_slot \<Rightarrow> bool" where
  "keeps_hist s s' \<longleftrightarrow> (\<forall>H B. slot_hist H B s \<longrightarrow> slot_hist H B s')"

lemma keeps_hist_refl [simp]: "keeps_hist s s"
  by (simp add: keeps_hist_def)

lemma keeps_phase: "sl_phase s' = sl_phase s \<Longrightarrow> keeps_hist s s'"
  by (simp add: keeps_hist_def slot_hist_def life_of_def token_of_def cong: lifecycle.case_cong)

lemma keeps_ready:
  assumes "life_of s = LfReady a r" and "life_of s' = LfReady a' r'" and "ps_bound (sl_phase s') = ps_bound (sl_phase s)"
    and "generation_of a' = None \<or> generation_of a' = generation_of a"
  shows "keeps_hist s s'"
  using assms by (auto simp: keeps_hist_def slot_hist_def token_of_def)

lemma keeps_gone: "life_of s' = LfVacant \<or> (\<exists>f d. life_of s' = LfClosing f d) \<Longrightarrow> keeps_hist s s'"
  by (auto simp: keeps_hist_def slot_hist_def)

definition slots_keep :: "('t, 'w, 'f) conn_slot list \<Rightarrow> ('t, 'w, 'f) conn_slot list \<Rightarrow> bool" where
  "slots_keep ss ss' \<longleftrightarrow> ss' = ss \<or> (\<exists>i s'. i < length ss \<and> ss' = ss[i := s'] \<and> keeps_hist (ss ! i) s')"

lemma slots_keep_refl [simp]: "slots_keep ss ss"
  by (simp add: slots_keep_def)

lemma slots_keep_put: "i < length ss \<Longrightarrow> keeps_hist (ss ! i) s' \<Longrightarrow> slots_keep ss (ss[i := s'])"
  by (auto simp: slots_keep_def)

lemma slots_keep_hist:
  assumes "slots_keep ss ss'" and "\<forall>s \<in> set ss. slot_hist H B s"
  shows "\<forall>s \<in> set ss'. slot_hist H B s"
  using assms by (auto simp: slots_keep_def keeps_hist_def dest: subsetD[OF set_update_subset_insert])

text \<open>Every step but a binding and a reservation keeps_hist the history of the slots.\<close>

lemma bind_slots:
  assumes "ready_bind idx p t w = Some p'"
  shows "\<exists>s'. idx t < length (pl_slots p) \<and> pl_slots p' = (pl_slots p)[idx t := s'] \<and> life_of s' = LfHandshaking \<and> token_of s' = t"
  using assms by (auto simp: ready_bind_def bind_eq_Some_conv get_Some_iff slot_bind_def phase_set_def life_of_def token_of_def split: if_splits)

lemma try_ready_slots:
  assumes "ready_try_ready L idx p t = Inr p'"
  shows "slots_keep (pl_slots p) (pl_slots p')"
proof -
  obtain s' where s: "idx t < length (pl_slots p)" "slot_try_ready (pl_slots p ! idx t) t = Inr s'" "pl_slots p' = (pl_slots p)[idx t := s']"
    using assms by (auto simp: ready_try_ready_def get_Some_iff bindr_Inr_iff Let_def split: option.splits)
  then have "life_of (pl_slots p ! idx t) = LfHandshaking" "life_of s' = LfReady (AcShared 0) False" "token_of s' = token_of (pl_slots p ! idx t)"
    by (auto simp: slot_try_ready_def phases phase_set_def life_of_def phase_receiving_def token_of_def split: slot_phase.splits if_splits)
  then have "keeps_hist (pl_slots p ! idx t) s'" by (auto simp: keeps_hist_def slot_hist_def generation_of_def)
  with s show ?thesis by (simp add: slots_keep_put)
qed

lemma set_access_keeps:
  assumes "life_of s = LfReady a r" and "generation_of a' = None \<or> generation_of a' = generation_of a"
  shows "keeps_hist s (set_access s a')"
  by (rule keeps_ready[OF assms(1) set_access_life[OF assms(1)] _ assms(2)]) (simp add: phases)

lemma poll_ready_slots: "slots_keep (pl_slots p) (pl_slots (fst (ready_poll_ready L idx p t st depth)))"
proof (cases "idx t < length (pl_slots p)")
  case True
  let ?s = "pl_slots p ! idx t"
  have "keeps_hist ?s (set_access ?s (AcHeld (tx_generation tx)))" if "access_current ?s t = CurReserved tx" for tx
    using that by (auto simp: access_current_iff(2) generation_of_def intro!: set_access_keeps)
  moreover have "keeps_hist ?s (set_access ?s (AcShared (tx_generation tx)))" if "access_current ?s t = CurFinalizing tx" for tx
    using that by (auto simp: access_current_iff(4) generation_of_def intro!: set_access_keeps)
  ultimately show ?thesis using True
    by (auto simp: ready_poll_ready_def get_def reservation_activate_def finalizing_finish_def Let_def slots_keep_put
        split: current.splits tx_status.splits)
qed (simp add: ready_poll_ready_def get_def)

lemma finalize_slots: "slots_keep (pl_slots p) (pl_slots (fst (ready_finalize idx p tx)))"
proof (cases "idx (tx_conn tx) < length (pl_slots p)")
  case True
  let ?s = "pl_slots p ! idx (tx_conn tx)"
  obtain s' fin where a: "access_finalize ?s tx = (s', fin)" by (cases "access_finalize ?s tx")
  then have "keeps_hist ?s s'"
    by (auto simp: access_finalize_def phases generation_of_def life_of_def split: slot_phase.splits if_splits intro!: set_access_keeps)
  moreover have "x = tx" if "fin = FinPending x" for x
    using a that by (auto simp: access_finalize_def split: slot_phase.splits if_splits)
  ultimately show ?thesis using True a
    by (cases fin) (simp_all add: ready_finalize_def get_def Let_def slots_keep_put)
qed (simp add: ready_finalize_def get_def)

lemma close_slots:
  assumes "ready_close L idx p t cause fate = Some (p', state, cause')"
  shows "slots_keep (pl_slots p) (pl_slots p')"
proof -
  obtain s' where s: "idx t < length (pl_slots p)" "slot_try_close (pl_slots p ! idx t) t cause fate = Some (s', state, cause')"
    using assms by (auto simp: ready_close_def get_def Let_def split: option.splits if_splits)
  then have "\<exists>f d. life_of s' = LfClosing f d"
    by (auto simp: slot_try_close_def phase_set_def life_of_def Let_def split: slot_phase.splits if_splits)
  moreover have "pl_slots p' = (pl_slots p)[idx t := s']"
    using assms s by (cases "entry_listed p (idx t)"; cases state) (auto simp: ready_close_def get_def Let_def)
  ultimately show ?thesis using s(1) by (simp add: slots_keep_put keeps_gone)
qed

lemma retire_slots: "slots_keep (pl_slots p) (pl_slots (fst (ready_retire idx p t)))"
  by (rule retire_cases[of idx p t]) (auto simp: slots_keep_put keeps_gone)

lemma reindex_slots: "pl_slots (fst (ready_reindex L idx p t depth)) = pl_slots p"
  by (auto simp: ready_reindex_def entry_reprioritize_def listed_reprioritize_def Let_def get_def entry_listed_def split: option.splits current.splits)

lemma set_receiving_slots: "slots_keep (pl_slots p) (pl_slots (fst (ready_set_receiving L idx p t b depth)))"
proof (cases "idx t < length (pl_slots p)")
  case True
  let ?s = "pl_slots p ! idx t"
  obtain s' r where a: "slot_set_receiving ?s t b = (s', r)" by (cases "slot_set_receiving ?s t b")
  have "keeps_hist ?s s'"
  proof (cases r)
    case False
    with a set_receiving_same show ?thesis by fastforce
  next
    case True': True
    with a set_receiving_life[of ?s t b s'] show ?thesis by (auto intro: keeps_ready)
  qed
  then show ?thesis using True a
    by (cases r) (auto simp: ready_set_receiving_def get_def Let_def slots_keep_put split: option.splits)
qed (simp add: ready_set_receiving_def get_def)

definition run_hist :: "'t transaction list \<Rightarrow> 't list \<Rightarrow> ('t, 'w, 'f, 'p) ready_pool \<Rightarrow> bool" where
  "run_hist H B p \<longleftrightarrow> distinct H \<and> tx_conn ` set H \<subseteq> set B \<and> (\<forall>s \<in> set (pl_slots p). slot_hist (set H) (set B) s)"

lemma sequence_next_Some: "sequence_next q = Some g \<Longrightarrow> q \<le> u64_max \<Longrightarrow> g = q + 1 \<and> g \<le> u64_max"
  by (auto simp: sequence_next_def wrapping_add64_def as_u64_def Let_def mod_if split: if_splits)

lemma token_index: "bound_at idx i s \<Longrightarrow> life_of s \<noteq> LfVacant \<Longrightarrow> idx (token_of s) = i"
  by (auto simp: bound_at_def token_of_def)

text \<open>A reservation of the entry \<open>i\<close>, after which its slot has the generation issued.\<close>

lemma reserve_hist:
  assumes inv: "ready_inv L idx p" and h: "run_hist H B p" and i: "i < length (pl_slots p)"
    and q: "life_of (pl_slots p ! i) = LfReady (AcShared q) r" "sequence_next q = Some (tx_generation tx)" "tx_conn tx = token_of (pl_slots p ! i)"
    and s': "pl_slots p' = (pl_slots p)[i := s']" "life_of s' = LfReady a r'" "generation_of a = Some (tx_generation tx)"
      "token_of s' = token_of (pl_slots p ! i)"
  shows "run_hist (H @ [tx]) B p'"
proof -
  let ?s = "pl_slots p ! i"
  have hs: "slot_hist (set H) (set B) (pl_slots p ! j)" if "j < length (pl_slots p)" for j
    using h that by (simp add: run_hist_def)
  from hs[OF i] have g: "token_of ?s \<in> set B" "q \<le> u64_max" "\<And>x. x \<in> set H \<Longrightarrow> tx_conn x = token_of ?s \<Longrightarrow> tx_generation x \<le> q"
    by (simp_all add: slot_hist_def q generation_of_def)
  note n = sequence_next_Some[OF q(2) g(2)]
  have "tx \<notin> set H" using g(3)[of tx] q(3) n by auto
  moreover have "slot_hist (set (H @ [tx])) (set B) s'"
  proof -
    have "tx_generation x \<le> tx_generation tx" if "x \<in> set (H @ [tx])" "tx_conn x = token_of ?s" for x
      using g(3)[of x] n that by auto
    then show ?thesis using g(1) n by (simp add: slot_hist_def s'(2,3,4))
  qed
  moreover have "slot_hist (set (H @ [tx])) (set B) (pl_slots p ! j)" if j: "j < length (pl_slots p)" "j \<noteq> i" for j
  proof -
    have "token_of (pl_slots p ! j) \<noteq> token_of ?s" if "life_of (pl_slots p ! j) \<noteq> LfVacant"
      using token_index[OF ready_inv_facts(3)[OF inv j(1)] that] token_index[OF ready_inv_facts(3)[OF inv i]] q(1) j(2) by force
    then have ne: "tx_conn tx \<noteq> token_of (pl_slots p ! j)" if "life_of (pl_slots p ! j) \<noteq> LfVacant" using that q(3) by simp
    show ?thesis
    proof (cases "life_of (pl_slots p ! j)")
      case (LfReady a r)
      with hs[OF j(1)] ne show ?thesis by (simp add: slot_hist_def)
    qed (use hs[OF j(1)] ne in \<open>simp_all add: slot_hist_def\<close>)
  qed
  ultimately have slots: "slot_hist (set (H @ [tx])) (set B) s" if "s \<in> set (pl_slots p')" for s
    using that unfolding s'(1) in_set_conv_nth by (metis length_list_update nth_list_update_eq nth_list_update_neq)
  have "distinct (H @ [tx])" using \<open>tx \<notin> set H\<close> h by (simp add: run_hist_def)
  moreover have "tx_conn ` set (H @ [tx]) \<subseteq> set B" using h g(1) q(3) by (simp add: run_hist_def)
  ultimately show ?thesis using slots unfolding run_hist_def by blast
qed

lemma keep_hist: "run_hist H B p \<Longrightarrow> slots_keep (pl_slots p) (pl_slots q) \<Longrightarrow> run_hist H B q"
  by (simp add: run_hist_def slots_keep_hist)

lemma slot_hist_mono: "slot_hist H B s \<Longrightarrow> B \<subseteq> B' \<Longrightarrow> slot_hist H B' s"
  by (auto simp: slot_hist_def split: lifecycle.splits)

lemma reserve_steps:
  assumes L: "links_laws L" and inv: "ready_inv L idx p" and i: "i < length (pl_slots p)" "entry_listed p i = Some l"
    and res: "ready_reserve L p l = Some (p', tx)"
  obtains q s' where "life_of (pl_slots p ! i) = LfReady (AcShared q) False" "pl_slots p' = (pl_slots p)[i := s']"
    "token_of s' = token_of (pl_slots p ! i)" "tx = None \<Longrightarrow> life_of s' = LfReady AcDraining False"
    "\<And>x. tx = Some x \<Longrightarrow> life_of s' = LfReady (AcReserved (tx_generation x)) False \<and> sequence_next q = Some (tx_generation x) \<and>
      tx_conn x = token_of (pl_slots p ! i)"
proof -
  obtain r where l: "l = (i, r)" "pl_prio p ! i = Some r" using i(2) by (auto simp: entry_listed_def)
  obtain p1 tx1 where r: "ready_reserve L p (i, r) = Some (p1, tx1)"
    "pl_slots p1 = (pl_slots p)[i := reserved_slot (pl_slots p ! i)]"
    "access_reserve (pl_slots p ! i) = Some (reserved_slot (pl_slots p ! i), tx1)"
    using reserve_inv[OF L inv i(1) l(2)] by blast
  have e: "p1 = p'" "tx1 = tx" using r(1) res l(1) by simp_all
  from ready_inv_facts(4)[OF inv i(1)] l(2) have "selectable (pl_slots p ! i)" by simp
  then obtain q where q: "life_of (pl_slots p ! i) = LfReady (AcShared q) False" by (rule selectableE)
  from that[OF q r(2)[unfolded e]] reserve_slot[OF r(3)[unfolded e] q] show thesis by (simp add: token_of_def)
qed

lemma step_hist:
  assumes L: "links_laws L"
  shows "ready_step L idx p e q \<Longrightarrow> ready_inv L idx p \<Longrightarrow> run_hist (issued_of tr) (bound_of tr) p \<Longrightarrow>
    distinct (bound_of (tr @ [e])) \<Longrightarrow> run_hist (issued_of (tr @ [e])) (bound_of (tr @ [e])) q"
proof (induction rule: ready_step.induct)
  case (activate p t w p')
  from bind_slots[OF activate(1)] obtain s' where s': "idx t < length (pl_slots p)" "pl_slots p' = (pl_slots p)[idx t := s']"
    "life_of s' = LfHandshaking" "token_of s' = t" by blast
  have "tx_conn ` set (issued_of tr) \<subseteq> set (bound_of tr)" "t \<notin> set (bound_of tr)"
    using activate(3,4) by (simp_all add: run_hist_def)
  then have "\<forall>x \<in> set (issued_of tr). tx_conn x \<noteq> t" by auto
  moreover have "slot_hist (set (issued_of tr)) (set (bound_of tr @ [t])) s" if "s \<in> set (pl_slots p)" for s
  proof (rule slot_hist_mono)
    show "slot_hist (set (issued_of tr)) (set (bound_of tr)) s" using activate(3) that by (simp add: run_hist_def)
  qed auto
  moreover have "slot_hist (set (issued_of tr)) (set (bound_of tr @ [t])) s'" using calculation(1) s' by (simp add: slot_hist_def)
  ultimately have "slot_hist (set (issued_of tr)) (set (bound_of tr @ [t])) s" if "s \<in> set (pl_slots p')" for s
    using that set_update_subset_insert[of "pl_slots p" "idx t" s'] unfolding s'(2) by blast
  moreover have "distinct (issued_of tr)" "tx_conn ` set (issued_of tr) \<subseteq> set (bound_of tr @ [t])"
    using activate(3) by (auto simp: run_hist_def)
  ultimately show ?case by (simp add: run_hist_def)
next
  case (reserve i p l p' tx)
  obtain q s' where s: "life_of (pl_slots p ! i) = LfReady (AcShared q) False" "pl_slots p' = (pl_slots p)[i := s']"
    "token_of s' = token_of (pl_slots p ! i)" "life_of s' = LfReady (AcReserved (tx_generation tx)) False" "sequence_next q = Some (tx_generation tx)"
    "tx_conn tx = token_of (pl_slots p ! i)"
    by (rule reserve_steps[OF L reserve(4,1,2,3)]) simp
  from reserve_hist[OF reserve(4,5,1) s(1,5,6,2,4) _ s(3)] show ?case by (simp add: generation_of_def)
next
  case (withdraw i p l q' tx p' tx')
  obtain q s' where s: "life_of (pl_slots p ! i) = LfReady (AcShared q) False" "pl_slots q' = (pl_slots p)[i := s']"
    "token_of s' = token_of (pl_slots p ! i)" "life_of s' = LfReady (AcReserved (tx_generation tx)) False" "sequence_next q = Some (tx_generation tx)"
    "tx_conn tx = token_of (pl_slots p ! i)"
    by (rule reserve_steps[OF L withdraw(5,1,2,3)]) simp
  have l: "fst l = i" using withdraw(2) by (auto simp: entry_listed_def)
  have "pl_slots p' = (pl_slots p)[i := set_access s' (AcShared (tx_generation tx))]"
    using withdraw(1,4) l s(2) by (auto simp: ready_release_def reservation_release_def Let_def)
  from reserve_hist[OF withdraw(5,6,1) s(1,5,6) this set_access_life[OF s(4)]] s(3) show ?case
    by (simp add: generation_of_def token_of_def phases)
next
  case (drain i p l p')
  obtain q s' where s: "life_of (pl_slots p ! i) = LfReady (AcShared q) False" "pl_slots p' = (pl_slots p)[i := s']"
    "token_of s' = token_of (pl_slots p ! i)" "life_of s' = LfReady AcDraining False"
    by (rule reserve_steps[OF L drain(4,1,2,3)]) simp
  then have "keeps_hist (pl_slots p ! i) s'" by (simp add: keeps_hist_def slot_hist_def generation_of_def)
  with drain(1,5) s(2) show ?case by (simp add: keep_hist slots_keep_put)
next
  case (install p t key p')
  then obtain s' where "idx t < length (pl_slots p)" "p' = put_slot p (idx t) s'" "sl_phase s' = sl_phase (pl_slots p ! idx t)"
    using install_inv[OF install(2,1)] by auto
  with install(3) show ?case by (simp add: keep_hist slots_keep_put keeps_phase)
next
  case (prepared p t p')
  from keep_hist[OF prepared(3) try_ready_slots[OF prepared(1)]] show ?case by simp
next
  case (close p t cause fate p' state cause')
  from keep_hist[OF close(3) close_slots[OF close(1)]] show ?case by simp
next
  case (pick policy grouped p p' l)
  from keep_hist[OF pick(3), of p'] pick_inv[OF L pick(2,1)] show ?case by simp
next
  case (pick_begin policy p p' l)
  from keep_hist[OF pick_begin(3), of p'] pick_where_inv[OF L pick_begin(2) pick_begin(1)[unfolded ready_pick_begin_def]] show ?case by simp
next
  case (commit i p m s' u)
  from keep_hist[OF commit(4), of "put_slot p i s'"] commit(1,2) show ?case by (simp add: slots_keep_put keeps_phase commit_phase)
next
  case (settle i p t s' r)
  from keep_hist[OF settle(4), of "put_slot p i s'"] settle(1,2) show ?case by (simp add: slots_keep_put keeps_phase settle_phase)
next
  case (status p t st depth)
  from keep_hist[OF status(2) poll_ready_slots] show ?case by simp
next
  case (finalize p tx)
  from keep_hist[OF finalize(2) finalize_slots] show ?case by simp
next
  case (retire p t)
  from keep_hist[OF retire(2) retire_slots] show ?case by simp
next
  case (reindex p t depth)
  from keep_hist[OF reindex(2), of "fst (ready_reindex L idx p t depth)"] show ?case by (simp add: reindex_slots)
next
  case (receiving p t b depth)
  from keep_hist[OF receiving(2) set_receiving_slots] show ?case by simp
qed

lemma run_histories:
  assumes "ready_run L idx p tr q" and "links_laws L" and "ready_inv L idx p" and "run_hist [] [] p" and "distinct (bound_of tr)"
  shows "run_hist (issued_of tr) (bound_of tr) q"
  using assms
proof (induction)
  case (extend tr q e q')
  have "distinct (bound_of tr)" using extend.prems(4) by (cases e) auto
  with extend show ?case by (meson run_inv step_hist)
qed simp

section \<open>The search for a transaction returns\<close>

definition listed_count :: "('t, 'w, 'f, 'p) ready_pool \<Rightarrow> nat" where
  "listed_count p = length (filter (\<lambda>v. v \<noteq> None) (pl_prio p))"

lemma pick_where_listed:
  assumes "links_laws L" and "ready_inv L idx p"
  shows "\<exists>p' l. ready_pick_where L policy ok p = Some (p', l) \<and> ready_inv L idx p' \<and> pl_slots p' = pl_slots p \<and> pl_prio p' = pl_prio p \<and>
    (case l of
       None \<Rightarrow> \<forall>j < length (pl_prio p). pl_prio p ! j \<noteq> None \<longrightarrow> \<not> ok (pl_slots p ! j)
     | Some (i, r) \<Rightarrow> i < length (pl_prio p) \<and> pl_prio p ! i = Some r \<and> ok (pl_slots p ! i))"
proof (cases policy)
  case RoundRobin
  obtain p' l k where n: "ready_next_where L ok p = Some (p', l)" "ready_inv L idx p'" "p' = p\<lparr>pl_links := k\<rparr>"
    and l: "case find (\<lambda>j. ok (pl_slots p ! j)) (lk_ring L (pl_links p)) of None \<Rightarrow> l = None | Some j \<Rightarrow> l = entry_listed p j"
    using next_where_spec[OF assms, of ok] by blast
  have "case l of
       None \<Rightarrow> \<forall>j < length (pl_prio p). pl_prio p ! j \<noteq> None \<longrightarrow> \<not> ok (pl_slots p ! j)
     | Some (i, r) \<Rightarrow> i < length (pl_prio p) \<and> pl_prio p ! i = Some r \<and> ok (pl_slots p ! i)"
  proof (cases "find (\<lambda>j. ok (pl_slots p ! j)) (lk_ring L (pl_links p))")
    case None
    with l ring_facts(2)[OF assms(2)] show ?thesis by (auto simp: find_None_iff listed_set_def)
  next
    case (Some j)
    then have "ok (pl_slots p ! j)" "j \<in> listed_set (pl_prio p)"
      using ring_facts(2)[OF assms(2)] by (auto simp: find_Some_iff)
    with l Some show ?thesis by (auto simp: listed_set_def entry_listed_def)
  qed
  with n RoundRobin show ?thesis by (simp add: ready_pick_where_def)
next
  case LeastInflight
  obtain l where l: "ready_least_where L ok p = Some l" "least_of (\<lambda>j. ok (pl_slots p ! j)) (pl_prio p) l"
    using least_where_spec[OF assms, of ok] by blast
  then have "case l of
       None \<Rightarrow> \<forall>j < length (pl_prio p). pl_prio p ! j \<noteq> None \<longrightarrow> \<not> ok (pl_slots p ! j)
     | Some (i, r) \<Rightarrow> i < length (pl_prio p) \<and> pl_prio p ! i = Some r \<and> ok (pl_slots p ! i)"
    by (cases l) (auto simp: least_of_def)
  with l LeastInflight assms(2) show ?thesis by (simp add: ready_pick_where_def)
qed

lemma close_prio:
  assumes "ready_close L idx p t cause fate = Some (p', state, cause')"
  shows "pl_prio p' = pl_prio p \<or> pl_prio p' = (pl_prio p)[idx t := None]"
  using assms
  by (cases "entry_listed p (idx t)"; cases state)
    (auto simp: ready_close_def get_def Let_def entry_listed_def listed_remove_def entry_detach_def split: option.splits if_splits)

lemma count_remove: "listed_count p' \<le> listed_count p" if "pl_prio p' = pl_prio p \<or> pl_prio p' = (pl_prio p)[i := None]"
proof (cases "i < length (pl_prio p)")
  case True
  with length_filter_update[of i "pl_prio p" "\<lambda>v. v \<noteq> None" None] that show ?thesis by (auto simp: listed_count_def)
qed (use that in \<open>auto simp: listed_count_def list_update_beyond\<close>)

lemma wake_close_inv:
  assumes "links_laws L" and "ready_inv L idx p"
  shows "ready_inv L idx (fst (wake_close L idx p t cause mode)) \<and> listed_count (fst (wake_close L idx p t cause mode)) \<le> listed_count p"
proof (cases "ready_close L idx p t cause mode")
  case (Some r)
  then obtain q st c where q: "ready_close L idx p t cause mode = Some (q, st, c)" by (cases r) auto
  from close_inv[OF assms q] count_remove[OF close_prio[OF q]] assms(2) q show ?thesis
    by (auto simp: wake_close_def split: option.split)
qed (use assms in \<open>auto simp: wake_close_def split: option.split\<close>)

lemma tx_reserve_inv:
  assumes L: "links_laws L" and inv: "ready_inv L idx p" and i: "i < length (pl_prio p)" "pl_prio p ! i = Some r"
  shows "\<exists>p' tx. tx_reserve L idx closed load p (i, r) = Some (p', tx) \<and> ready_inv L idx p' \<and> listed_count p' < listed_count p \<and>
    (\<forall>x. tx = Some x \<longrightarrow> life_of (pl_slots p' ! i) = LfReady (AcReserved (tx_generation x)) False \<and> token_of (pl_slots p' ! i) = tx_conn x)"
proof -
  have i': "i < length (pl_slots p)" using i(1) inv by (simp add: ready_inv_def)
  obtain q tx where q: "ready_reserve L p (i, r) = Some (q, tx)" "ready_inv L idx q" "pl_prio q = (pl_prio p)[i := None]"
    using reserve_inv[OF L inv i' i(2)] by blast
  have "listed_count q < listed_count p"
    using q(3) i length_filter_update[OF i(1), of "\<lambda>v. v \<noteq> None" None] by (simp add: listed_count_def)
  obtain s' where s: "pl_slots q = (pl_slots p)[i := s']"
    "\<And>x. tx = Some x \<Longrightarrow> life_of s' = LfReady (AcReserved (tx_generation x)) False \<and> token_of s' = tx_conn x"
    by (rule reserve_steps[OF L inv i' _ q(1)]) (use i in \<open>auto simp: entry_listed_def\<close>)
  let ?t = "bd_token (the (ps_bound (sl_phase (pl_slots p ! i))))"
  show ?thesis
  proof (cases "tx = None \<and> load ?t = Some 0")
    case True
    with wake_close_inv[OF L q(2), of ?t closed Reconnect] q(1) \<open>listed_count q < listed_count p\<close> show ?thesis
      by (auto simp: tx_reserve_def)
  next
    case False
    with q \<open>listed_count q < listed_count p\<close> s i' show ?thesis by (auto simp: tx_reserve_def)
  qed
qed

lemma begin_hold_spec:
  assumes L: "links_laws L" and inv: "ready_inv L idx p"
  shows "\<exists>p' r. begin_hold L idx policy closed load p = Some (p', r) \<and> ready_inv L idx p' \<and>
    (case r of
       None \<Rightarrow> \<forall>j < length (pl_prio p'). pl_prio p' ! j \<noteq> None \<longrightarrow> \<not> slot_can_begin (pl_slots p' ! j)
     | Some ((i, row), x) \<Rightarrow> life_of (pl_slots p' ! i) = LfReady (AcReserved (tx_generation x)) False \<and> token_of (pl_slots p' ! i) = tx_conn x)"
  using inv
proof (induction "listed_count p" arbitrary: p rule: less_induct)
  case less
  obtain q l where q: "ready_pick_begin L policy p = Some (q, l)" "ready_inv L idx q" "pl_slots q = pl_slots p" "pl_prio q = pl_prio p"
    and l: "case l of
       None \<Rightarrow> \<forall>j < length (pl_prio p). pl_prio p ! j \<noteq> None \<longrightarrow> \<not> slot_can_begin (pl_slots p ! j)
     | Some (i, r) \<Rightarrow> i < length (pl_prio p) \<and> pl_prio p ! i = Some r \<and> slot_can_begin (pl_slots p ! i)"
    using pick_where_listed[OF L less(2), of policy slot_can_begin] unfolding ready_pick_begin_def by blast
  show ?case
  proof (cases l)
    case None
    with q l show ?thesis by (subst begin_hold.simps) simp
  next
    case (Some e)
    then obtain i r where e: "l = Some (i, r)" "i < length (pl_prio q)" "pl_prio q ! i = Some r" using l q(4) by (cases e) auto
    obtain q' tx where t: "tx_reserve L idx closed load q (i, r) = Some (q', tx)" "ready_inv L idx q'" "listed_count q' < listed_count q"
      "\<And>x. tx = Some x \<Longrightarrow> life_of (pl_slots q' ! i) = LfReady (AcReserved (tx_generation x)) False \<and> token_of (pl_slots q' ! i) = tx_conn x"
      using tx_reserve_inv[OF L q(2) e(2,3), of closed load] by auto
    have "listed_count q = listed_count p" using q(4) by (simp add: listed_count_def)
    show ?thesis
    proof (cases tx)
      case (Some x)
      with q(1) e(1) t show ?thesis by (subst begin_hold.simps) auto
    next
      case None
      from less(1)[of q'] t(2,3) \<open>listed_count q = listed_count p\<close> q(1) e(1) t(1) None show ?thesis
        by (subst begin_hold.simps) simp
    qed
  qed
qed

end
