(* ===== verification/Pg_Pool_Claims.thy ===== *)
theory Pg_Pool_Claims
  imports Pg_Pool_Run
begin

text \<open>
  The properties of the pool over every run of its operations, and an instance of the linked structures on lists
  that the witnesses evaluate.
\<close>

section \<open>An instance of the linked structures\<close>

text \<open>The ring, the pairs of load and entry, and the loads present.\<close>

type_synonym list_links = "nat list \<times> (nat \<times> nat) list \<times> nat list"

definition rows_of :: "(nat \<times> nat) list \<Rightarrow> nat \<Rightarrow> nat list" where
  "rows_of ps r = map snd (filter (\<lambda>(r', _). r' = r) ps)"

fun next_after :: "nat \<Rightarrow> nat list \<Rightarrow> nat option" where
  "next_after i (x # y # ys) = (if x = i then Some y else next_after i (y # ys))"
| "next_after _ _ = None"

definition list_ops :: "nat \<Rightarrow> list_links links_ops" where
  "list_ops rows = \<lparr>
     lk_first = (\<lambda>(ring, _, _). case ring of [] \<Rightarrow> None | i # _ \<Rightarrow> Some i),
     lk_push = (\<lambda>(ring, ps, bits) i. (ring @ [i], ps, bits)),
     lk_unlink = (\<lambda>(ring, ps, bits) i. (remove1 i ring, ps, bits)),
     lk_step = (\<lambda>(ring, ps, bits) i. let ring = rotate1 ring in ((ring, ps, bits), hd ring)),
     bk_empty = (\<lambda>(_, ps, _) r. rows_of ps r = []),
     bk_front = (\<lambda>(_, ps, _) r. case rows_of ps r of [] \<Rightarrow> None | i # _ \<Rightarrow> Some i),
     bk_next = (\<lambda>(_, ps, _) i. case find (\<lambda>(_, j). j = i) ps of None \<Rightarrow> None | Some (r, _) \<Rightarrow> next_after i (rows_of ps r)),
     bk_link = (\<lambda>(ring, ps, bits) r i. (ring, ps @ [(r, i)], bits)),
     bk_unlink = (\<lambda>(ring, ps, bits) r i. (ring, remove1 (r, i) ps, bits)),
     bm_update = (\<lambda>(ring, ps, bits) r b. (ring, ps, if b then r # bits else removeAll r bits)),
     bm_find = (\<lambda>(_, _, bits) from. find (\<lambda>r. from \<le> r) (sort bits)),
     bm_clamp = (\<lambda>d. min d (rows - 1)),
     bm_rows = rows,
     lk_ring = (\<lambda>(ring, _, _). ring),
     bk_list = (\<lambda>(_, ps, _). rows_of ps),
     bm_bit = (\<lambda>(_, _, bits) r. r \<in> set bits)\<rparr>"

lemma rows_of_append: "rows_of (ps @ [(r, i)]) = (rows_of ps)(r := rows_of ps r @ [i])"
  by (rule ext) (auto simp: rows_of_def)

lemma rows_of_remove: "(r, i) \<in> set ps \<Longrightarrow> rows_of (remove1 (r, i) ps) = (rows_of ps)(r := remove1 i (rows_of ps r))"
proof (rule ext)
  show "rows_of (remove1 (r, i) ps) x = ((rows_of ps)(r := remove1 i (rows_of ps r))) x" for x
    by (induction ps) (auto simp: rows_of_def)
qed

lemma rows_of_member: "i \<in> set (rows_of ps r) \<longleftrightarrow> (r, i) \<in> set ps"
  by (force simp: rows_of_def)

lemma next_after_append: "distinct (xs @ i # ys) \<Longrightarrow> next_after i (xs @ i # ys) = (case ys of [] \<Rightarrow> None | j # _ \<Rightarrow> Some j)"
proof (induction xs)
  case Nil
  then show ?case by (cases ys) auto
next
  case (Cons x xs)
  then show ?case by (cases xs) auto
qed

lemma find_sorted:
  "sorted xs \<Longrightarrow> case find (\<lambda>r. b \<le> r) xs of None \<Rightarrow> \<forall>r \<ge> b. r \<notin> set xs
     | Some r \<Rightarrow> b \<le> r \<and> r \<in> set xs \<and> (\<forall>j. b \<le> j \<and> j < r \<longrightarrow> j \<notin> set xs)" for b :: nat
  by (induction xs) (auto split: option.splits)

lemma list_next:
  assumes "rows_of ps r = xs @ i # ys" and "distinct (rows_of ps r)" and "\<forall>r'. r' \<noteq> r \<longrightarrow> i \<notin> set (rows_of ps r')"
  shows "bk_next (list_ops n) (ring, ps, bits) i = (case ys of [] \<Rightarrow> None | j # _ \<Rightarrow> Some j)"
proof -
  have "(r, i) \<in> set ps" using assms(1) rows_of_member[of i ps r] by simp
  then have "find (\<lambda>(_, j). j = i) ps \<noteq> None" by (auto simp: find_None_iff)
  then obtain r' j where f: "find (\<lambda>(_, j). j = i) ps = Some (r', j)" by auto
  then have "(r', i) \<in> set ps" "j = i" by (auto simp: find_Some_iff) (metis nth_mem)
  then have "r' = r" using assms(3) rows_of_member[of i ps r'] by blast
  with f assms(1,2) show ?thesis by (simp add: list_ops_def next_after_append)
qed

lemma list_links_laws:
  assumes "0 < n"
  shows "links_laws (list_ops n)"
  unfolding links_laws_def
proof (intro conjI)
  show "\<forall>p from. case bm_find (list_ops n) p from of
          None \<Rightarrow> \<forall>r \<ge> from. \<not> bm_bit (list_ops n) p r
        | Some r \<Rightarrow> from \<le> r \<and> bm_bit (list_ops n) p r \<and> (\<forall>j. from \<le> j \<and> j < r \<longrightarrow> \<not> bm_bit (list_ops n) p j)"
  proof (intro allI)
    fix p :: list_links and b
    show "case bm_find (list_ops n) p b of
          None \<Rightarrow> \<forall>r \<ge> b. \<not> bm_bit (list_ops n) p r
        | Some r \<Rightarrow> b \<le> r \<and> bm_bit (list_ops n) p r \<and> (\<forall>j. b \<le> j \<and> j < r \<longrightarrow> \<not> bm_bit (list_ops n) p j)"
      using find_sorted[OF sorted_sort, of b "snd (snd p)"] by (simp add: list_ops_def case_prod_unfold cong: option.case_cong)
  qed
  show "\<forall>p r i xs ys. bk_list (list_ops n) p r = xs @ i # ys \<and> distinct (bk_list (list_ops n) p r) \<and>
      (\<forall>r'. r' \<noteq> r \<longrightarrow> i \<notin> set (bk_list (list_ops n) p r')) \<longrightarrow>
      bk_next (list_ops n) p i = (case ys of [] \<Rightarrow> None | j # _ \<Rightarrow> Some j)"
    using list_next by (fastforce simp: list_ops_def)
  show "\<forall>p r b. bm_bit (list_ops n) (bm_update (list_ops n) p r b) = (bm_bit (list_ops n) p)(r := b) \<and>
      bk_list (list_ops n) (bm_update (list_ops n) p r b) = bk_list (list_ops n) p"
  proof (intro allI conjI ext)
    fix p :: list_links and r b x
    show "bm_bit (list_ops n) (bm_update (list_ops n) p r b) x = ((bm_bit (list_ops n) p)(r := b)) x"
      by (cases p; cases b; cases "x = r") (simp_all add: list_ops_def)
  qed (simp add: list_ops_def case_prod_unfold)
qed (use assms in \<open>auto simp: list_ops_def Let_def rows_of_append rows_of_remove rows_of_member intro!: ext split: list.splits\<close>)

text \<open>A pool of two slots with the connection \<open>0\<close> bound, prepared and reserved.\<close>

abbreviation demo_links :: "list_links links_ops" where
  "demo_links \<equiv> list_ops 4"

definition demo_slot :: "unit lifecycle \<Rightarrow> (nat, unit, unit) conn_slot" where
  "demo_slot life = slot_new\<lparr>sl_phase := \<lparr>ps_bound = Some \<lparr>bd_token = 0, bd_ready = ()\<rparr>, ps_life = life\<rparr>\<rparr>"

definition demo_bound :: "(nat, unit, unit, list_links) ready_pool" where
  "demo_bound = \<lparr>pl_slots = [demo_slot LfHandshaking, slot_new], pl_prio = [None, None], pl_links = ([], [], []), pl_min = None,
     pl_live = 0, pl_blockers = 0\<rparr>"

definition demo_ready :: "(nat, unit, unit, list_links) ready_pool" where
  "demo_ready = \<lparr>pl_slots = [demo_slot (LfReady (AcShared 0) False), slot_new], pl_prio = [Some 0, None],
     pl_links = ([0], [(0, 0)], [0]), pl_min = Some 0, pl_live = 1, pl_blockers = 0\<rparr>"

definition demo_reserved :: "(nat, unit, unit, list_links) ready_pool" where
  "demo_reserved = \<lparr>pl_slots = [demo_slot (LfReady (AcReserved 1) False), slot_new], pl_prio = [None, None],
     pl_links = ([], [], []), pl_min = None, pl_live = 1, pl_blockers = 1\<rparr>"

lemmas demo_defs = demo_slot_def slot_new_def phase_new_def list_ops_def rows_of_def

lemma demo_prepared: "ready_try_ready demo_links id demo_bound 0 = Inr demo_ready"
  by (simp add: ready_try_ready_def demo_bound_def demo_ready_def get_def slot_try_ready_def put_slot_def phase_get_def phase_set_def
      phase_receiving_def entry_insert_def entry_insert_rank_def entry_attach_def raw_inc_def as_u32_def Let_def demo_defs)

lemma demo_pool_run:
  "ready_run demo_links id (ready_new 2 ([], [], [])) [EvBind 0, EvOther] demo_ready"
  "ready_run demo_links id (ready_new 2 ([], [], [])) [EvBind 0, EvOther, EvIssue \<lparr>tx_conn = 0, tx_generation = 1\<rparr>] demo_reserved"
proof -
  have 1: "ready_bind id (ready_new 2 ([], [], [])) 0 () = Some demo_bound"
    by (simp add: ready_bind_def ready_new_def demo_bound_def get_def slot_bind_def put_slot_def phase_get_def phase_set_def demo_defs numeral_2_eq_2)
  have 3: "ready_reserve demo_links demo_ready (0, 0) = Some (demo_reserved, Some \<lparr>tx_conn = 0, tx_generation = 1\<rparr>)"
    by (simp add: ready_reserve_def demo_ready_def demo_reserved_def access_reserve_def put_slot_def phase_get_def phase_set_access_def
        phase_receiving_def set_access_def sequence_next_def wrapping_add64_def as_u64_def listed_remove_def entry_detach_def raw_inc_def
        as_u32_def Let_def demo_defs)
  have l: "entry_listed demo_ready 0 = Some (0, 0)" "0 < length (pl_slots demo_ready)" by (simp_all add: entry_listed_def demo_ready_def)
  note b = ready_run.extend[OF ready_run.start ready_step.activate[OF 1]]
  note c = ready_run.extend[OF b ready_step.prepared[OF demo_prepared]]
  note d = ready_run.extend[OF c ready_step.reserve[OF l(2,1) 3]]
  from c d show "ready_run demo_links id (ready_new 2 ([], [], [])) [EvBind 0, EvOther] demo_ready"
    "ready_run demo_links id (ready_new 2 ([], [], [])) [EvBind 0, EvOther, EvIssue \<lparr>tx_conn = 0, tx_generation = 1\<rparr>] demo_reserved"
    by simp_all
qed

section \<open>Fresh structures\<close>

definition links_fresh :: "'p links_ops \<Rightarrow> 'p \<Rightarrow> bool" where
  "links_fresh L k \<longleftrightarrow> lk_ring L k = [] \<and> (\<forall>r. bk_list L k r = [] \<and> \<not> bm_bit L k r)"

lemma demo_fresh: "links_fresh demo_links ([], [], [])"
  by (simp add: links_fresh_def list_ops_def rows_of_def)

lemma fresh_run:
  assumes "links_laws L" and "links_fresh L k" and "n \<le> u32_max" and "ready_run L idx (ready_new n k) tr p"
  shows "ready_inv L idx p"
  using run_inv[OF assms(4,1) ready_new_inv[OF assms(1,3)]] assms(2) by (simp add: links_fresh_def)

lemma fresh_hist: "run_hist [] [] (ready_new n k)"
  by (simp add: run_hist_def ready_new_def slot_hist_def slot_new_def phase_new_def life_of_def)

lemma pick_spec:
  assumes L: "links_laws L" and inv: "ready_inv L idx p"
  shows "\<exists>p' l. ready_pick L policy grouped p = Some (p', l) \<and> pl_slots p' = pl_slots p \<and> pl_prio p' = pl_prio p \<and>
    (let ok = (\<lambda>j. j < length (pl_slots p) \<and> selectable (pl_slots p ! j) \<and> (grouped \<longrightarrow> slot_synced (pl_slots p ! j))) in
     case l of
       None \<Rightarrow> \<forall>j. \<not> ok j
     | Some (i, r) \<Rightarrow> ok i \<and> entry_listed p i = Some (i, r) \<and>
         (policy = LeastInflight \<longrightarrow> (\<forall>j r'. ok j \<and> entry_listed p j = Some (j, r') \<longrightarrow> r \<le> r')) \<and>
         (policy = RoundRobin \<and> \<not> grouped \<longrightarrow>
            i = hd (lk_ring L (pl_links p)) \<and> lk_ring L (pl_links p') = rotate1 (lk_ring L (pl_links p))))"
proof -
  have len: "length (pl_prio p) = length (pl_slots p)" using inv by (simp add: ready_inv_def)
  note sel = ready_inv_facts(4)[OF inv]
  show ?thesis
  proof (cases policy)
    case LeastInflight
    show ?thesis
    proof (cases grouped)
      case True
      obtain l where "ready_least_where L slot_synced p = Some l" "least_of (\<lambda>j. slot_synced (pl_slots p ! j)) (pl_prio p) l"
        using least_where_spec[OF L inv, of slot_synced] by blast
      then show ?thesis using True LeastInflight len sel
        by (cases l) (auto simp: ready_pick_def ready_pick_where_def Let_def least_of_def entry_listed_def)
    next
      case False
      obtain l where "ready_minimum L p = Some l" "case l of
          None \<Rightarrow> \<forall>i < length (pl_prio p). pl_prio p ! i = None
        | Some (i, r) \<Rightarrow> i < length (pl_prio p) \<and> pl_prio p ! i = Some r \<and>
            (\<forall>j < length (pl_prio p). \<forall>r'. pl_prio p ! j = Some r' \<longrightarrow> r \<le> r')"
        using minimum_spec[OF L inv] by blast
      then show ?thesis using False LeastInflight len sel
        by (cases l) (auto simp: ready_pick_def Let_def entry_listed_def)
    qed
  next
    case RoundRobin
    show ?thesis
    proof (cases grouped)
      case True
      obtain p' l where "ready_pick_where L RoundRobin slot_synced p = Some (p', l)" "pl_slots p' = pl_slots p" "pl_prio p' = pl_prio p"
        "case l of
           None \<Rightarrow> \<forall>j < length (pl_prio p). pl_prio p ! j \<noteq> None \<longrightarrow> \<not> slot_synced (pl_slots p ! j)
         | Some (i, r) \<Rightarrow> i < length (pl_prio p) \<and> pl_prio p ! i = Some r \<and> slot_synced (pl_slots p ! i)"
        using pick_where_listed[OF L inv, of RoundRobin slot_synced] by blast
      then show ?thesis using True RoundRobin len sel
        by (cases l) (auto simp: ready_pick_def Let_def entry_listed_def)
    next
      case False
      obtain p' l where n: "ready_next L p = (p', l)" by (cases "ready_next L p")
      note sp = next_spec[OF L inv n]
      show ?thesis
      proof (cases "lk_ring L (pl_links p)")
        case Nil
        then have "listed_set (pl_prio p) = {}" using ring_facts(2)[OF inv] by simp
        with Nil sp n False RoundRobin len sel show ?thesis
          by (auto simp: ready_pick_def Let_def listed_set_def)
      next
        case (Cons i xs)
        then have i: "i \<in> listed_set (pl_prio p)" using ring_facts(2)[OF inv] by auto
        then obtain r where r: "pl_prio p ! i = Some r" by (auto simp: listed_set_def)
        from i have "selectable (pl_slots p ! i)" "i < length (pl_slots p)" using len sel[of i] by (auto simp: listed_set_def)
        with Cons sp n False RoundRobin r show ?thesis
          by (auto simp: ready_pick_def Let_def entry_listed_def)
      qed
    qed
  qed
qed

section \<open>The properties\<close>

text \<open>C34: in every state that the pool's operations reach from a new pool, in any order, the unchecked counters
  are the numbers of ready connections and of connections in transactions; a connection is listed exactly when it
  is ready, shared and not receiving; the ring holds each listed connection once, and the lists by load hold each
  listed connection under its load.\<close>

theorem pool_consistent:
  assumes "links_laws L" and "links_fresh L k" and "n \<le> u32_max" and "ready_run L idx (ready_new n k) tr p"
  shows "pl_live p = length (filter is_ready (pl_slots p)) \<and> pl_blockers p = length (filter is_blocked (pl_slots p)) \<and>
    (\<forall>i < length (pl_slots p). (entry_listed p i \<noteq> None) = selectable (pl_slots p ! i)) \<and>
    distinct (lk_ring L (pl_links p)) \<and> set (lk_ring L (pl_links p)) = {i. i < length (pl_slots p) \<and> selectable (pl_slots p ! i)} \<and>
    (\<forall>r. set (bk_list L (pl_links p) r) = {i. i < length (pl_slots p) \<and> entry_listed p i = Some (i, r)})"
proof -
  note inv = fresh_run[OF assms]
  have "pl_live p = length (filter is_ready (pl_slots p)) \<and> pl_blockers p = length (filter is_blocked (pl_slots p))"
    "length (pl_prio p) = length (pl_slots p)"
    using inv by (simp_all add: ready_inv_def)
  moreover have "entry_listed p i \<noteq> None \<longleftrightarrow> selectable (pl_slots p ! i)" if "i < length (pl_slots p)" for i
    using ready_inv_facts(4)[OF inv that] by (simp add: entry_listed_def)
  moreover have "set (lk_ring L (pl_links p)) = {i. i < length (pl_slots p) \<and> selectable (pl_slots p ! i)}"
    using ring_facts(2)[OF inv] calculation(2) ready_inv_facts(4)[OF inv] by (auto simp: listed_set_def)
  moreover have "set (bk_list L (pl_links p) r) = {i. i < length (pl_slots p) \<and> entry_listed p i = Some (i, r)}" for r
    using lists_facts(2)[OF inv] calculation(2) by (auto simp: entry_listed_def)
  ultimately show ?thesis using ring_facts(1)[OF inv] by blast
qed

theorem pool_consistent_witness:
  "pl_live demo_reserved = length (filter is_ready (pl_slots demo_reserved)) \<and>
   pl_blockers demo_reserved = length (filter is_blocked (pl_slots demo_reserved)) \<and> pl_blockers demo_reserved = 1"
  using pool_consistent[OF list_links_laws demo_fresh _ demo_pool_run(2)] by (simp add: demo_reserved_def)

text \<open>C35: picking a connection for a request returns and never takes the front of an empty list.  The connection
  picked is ready, shared, not receiving and, for a group, synchronized; there is none only when no connection is
  such; with \<open>LeastInflight\<close> its load is the least among them; and with \<open>RoundRobin\<close> outside groups it is the first of
  the ring, which moves to the end.\<close>

theorem pick_selects:
  assumes "links_laws L" and "links_fresh L k" and "n \<le> u32_max" and "ready_run L idx (ready_new n k) tr p"
  shows "\<exists>p' l. ready_pick L policy grouped p = Some (p', l) \<and> pl_slots p' = pl_slots p \<and> pl_prio p' = pl_prio p \<and>
    (let ok = (\<lambda>j. j < length (pl_slots p) \<and> selectable (pl_slots p ! j) \<and> (grouped \<longrightarrow> slot_synced (pl_slots p ! j))) in
     case l of
       None \<Rightarrow> \<forall>j. \<not> ok j
     | Some (i, r) \<Rightarrow> ok i \<and> entry_listed p i = Some (i, r) \<and>
         (policy = LeastInflight \<longrightarrow> (\<forall>j r'. ok j \<and> entry_listed p j = Some (j, r') \<longrightarrow> r \<le> r')) \<and>
         (policy = RoundRobin \<and> \<not> grouped \<longrightarrow>
            i = hd (lk_ring L (pl_links p)) \<and> lk_ring L (pl_links p') = rotate1 (lk_ring L (pl_links p))))"
  using pick_spec[OF assms(1) fresh_run[OF assms]] .

theorem pick_selects_witness:
  "\<exists>p' l. ready_pick demo_links LeastInflight False demo_ready = Some (p', l) \<and> pl_slots p' = pl_slots demo_ready"
  using pick_selects[OF list_links_laws demo_fresh _ demo_pool_run(1), of LeastInflight False] by auto

text \<open>C36: over every run in which no identity is bound twice, the transactions issued are distinct, and a
  transaction that is current for its connection is the latest one issued for it: a stale handle never passes.\<close>

theorem transactions_fresh:
  assumes "links_laws L" and "links_fresh L k" and "n \<le> u32_max" and "ready_run L idx (ready_new n k) tr p"
    and "distinct (bound_of tr)"
  shows "distinct (issued_of tr) \<and>
    (\<forall>tx final. ready_is_current idx final p tx \<longrightarrow>
       (\<forall>x \<in> set (issued_of tr). tx_conn x = tx_conn tx \<longrightarrow> tx_generation x \<le> tx_generation tx))"
proof -
  have "run_hist (issued_of tr) (bound_of tr) p"
    using run_histories[OF assms(4,1) ready_new_inv[OF assms(1,3)] fresh_hist assms(5)] assms(2) by (simp add: links_fresh_def)
  then have h: "distinct (issued_of tr)" "\<And>s. s \<in> set (pl_slots p) \<Longrightarrow> slot_hist (set (issued_of tr)) (set (bound_of tr)) s"
    by (simp_all add: run_hist_def)
  have "tx_generation x \<le> tx_generation tx"
    if c: "ready_is_current idx final p tx" and x: "x \<in> set (issued_of tr)" "tx_conn x = tx_conn tx" for tx final x
  proof -
    obtain s where s: "ready_connection idx p (tx_conn tx) = Some s" "is_current final s (tx_generation tx)"
      using c by (auto simp: ready_is_current_def split: option.splits)
    from connection_Some[OF s(1)] have "s \<in> set (pl_slots p)" "slot_matches s (tx_conn tx)" by auto
    with s(2) have "\<exists>a r. life_of s = LfReady a r \<and> generation_of a = Some (tx_generation tx) \<and> token_of s = tx_conn tx"
      by (auto simp: is_current_def slot_matches_def phase_bound_def phases life_of_def generation_of_def token_of_def
          split: slot_phase.splits access_state.splits)
    with h(2)[OF \<open>s \<in> set (pl_slots p)\<close>] x show ?thesis by (auto simp: slot_hist_def)
  qed
  with h(1) show ?thesis by blast
qed

theorem transactions_fresh_witness:
  "distinct (issued_of [EvBind (0::nat), EvOther, EvIssue \<lparr>tx_conn = 0, tx_generation = 1\<rparr>]) \<and>
   ready_is_current id False demo_reserved \<lparr>tx_conn = 0, tx_generation = 1\<rparr>"
proof -
  have "distinct (bound_of [EvBind (0::nat), EvOther, EvIssue \<lparr>tx_conn = 0, tx_generation = 1\<rparr>])"
    by (simp add: bound_of_def List.map_filter_def)
  from transactions_fresh[OF list_links_laws demo_fresh _ demo_pool_run(2) this] show ?thesis
    by (simp add: demo_reserved_def demo_defs ready_is_current_def ready_connection_def get_def slot_matches_def is_current_def phase_get_def phase_bound_def)
qed

text \<open>C37: the search for a connection that can begin a transaction returns in every reachable state: each round
  that fails removes a connection without generations left from the list.  It returns a connection reserved for
  the transaction issued, or none when no listed connection can begin one.\<close>

theorem begin_hold_returns:
  assumes "links_laws L" and "links_fresh L k" and "n \<le> u32_max" and "ready_run L idx (ready_new n k) tr p"
  shows "\<exists>p' r. begin_hold L idx policy closed load p = Some (p', r) \<and>
    (case r of
       None \<Rightarrow> \<forall>j < length (pl_slots p'). selectable (pl_slots p' ! j) \<longrightarrow> \<not> slot_can_begin (pl_slots p' ! j)
     | Some ((i, row), x) \<Rightarrow> life_of (pl_slots p' ! i) = LfReady (AcReserved (tx_generation x)) False \<and> token_of (pl_slots p' ! i) = tx_conn x)"
proof -
  obtain p' r where b: "begin_hold L idx policy closed load p = Some (p', r)" "ready_inv L idx p'"
    and r: "case r of
       None \<Rightarrow> \<forall>j < length (pl_prio p'). pl_prio p' ! j \<noteq> None \<longrightarrow> \<not> slot_can_begin (pl_slots p' ! j)
     | Some ((i, row), x) \<Rightarrow> life_of (pl_slots p' ! i) = LfReady (AcReserved (tx_generation x)) False \<and> token_of (pl_slots p' ! i) = tx_conn x"
    using begin_hold_spec[OF assms(1) fresh_run[OF assms], of policy closed load] by blast
  have "length (pl_prio p') = length (pl_slots p')" using b(2) by (simp add: ready_inv_def)
  with r ready_inv_facts(4)[OF b(2)] have "case r of
       None \<Rightarrow> \<forall>j < length (pl_slots p'). selectable (pl_slots p' ! j) \<longrightarrow> \<not> slot_can_begin (pl_slots p' ! j)
     | Some ((i, row), x) \<Rightarrow> life_of (pl_slots p' ! i) = LfReady (AcReserved (tx_generation x)) False \<and> token_of (pl_slots p' ! i) = tx_conn x"
    by (cases r) auto
  with b(1) show ?thesis by blast
qed

theorem begin_hold_returns_witness:
  "\<exists>p' r. begin_hold demo_links id RoundRobin () (\<lambda>_. Some 0) demo_ready = Some (p', r)"
  using begin_hold_returns[OF list_links_laws demo_fresh _ demo_pool_run(1), of RoundRobin "()" "\<lambda>_. Some 0"] by auto

end
