(* ===== verification/Pg_Diag.thy ===== *)
theory Pg_Diag
  imports Pg_Text Digits
begin

text \<open>
  Error and notice responses: \<open>pg/src/reply/server.rs\<close>, \<open>code.rs\<close>, \<open>context.rs\<close>, the retained numbers of
  \<open>raw.rs\<close> and the classification of \<open>plan.rs\<close>.  A diagnostic is parsed once with checks and, from the retained
  bytes, again without: \<open>None\<close> stands there for a read behind the end or a value that was never written.
\<close>

section \<open>The context of a diagnostic\<close>

record origin =
  or_schema :: "bytes option"
  or_table :: "bytes option"
  or_column :: "bytes option"
  or_data_type :: "bytes option"
  or_constraint :: "bytes option"
  or_file :: "bytes option"
  or_line :: "nat option"
  or_routine :: "bytes option"

record diag_context =
  dc_detail :: "bytes option"
  dc_hint :: "bytes option"
  dc_position :: "nat option"
  dc_inner_position :: "nat option"
  dc_inner_query :: "bytes option"
  dc_location :: "bytes option"
  dc_origin :: origin

definition context_empty :: diag_context where
  "context_empty = \<lparr>dc_detail = None, dc_hint = None, dc_position = None, dc_inner_position = None, dc_inner_query = None,
     dc_location = None, dc_origin = \<lparr>or_schema = None, or_table = None, or_column = None, or_data_type = None,
     or_constraint = None, or_file = None, or_line = None, or_routine = None\<rparr>\<rparr>"

text \<open>The cell of a number that the caller fills.\<close>

datatype number_cell = CellPosition | CellInner | CellLine

definition context_number :: "diag_context \<Rightarrow> number_cell \<Rightarrow> nat \<Rightarrow> diag_context" where
  "context_number c cell n =
     (case cell of
        CellPosition \<Rightarrow> c\<lparr>dc_position := Some n\<rparr>
      | CellInner \<Rightarrow> c\<lparr>dc_inner_position := Some n\<rparr>
      | CellLine \<Rightarrow> c\<lparr>dc_origin := (dc_origin c)\<lparr>or_line := Some n\<rparr>\<rparr>)"

definition context_field :: "diag_context \<Rightarrow> byte \<Rightarrow> bytes \<Rightarrow> diag_context \<times> number_cell option" where
  "context_field c kind v =
     (if kind = 0x44 then (c\<lparr>dc_detail := Some v\<rparr>, None)
      else if kind = 0x48 then (c\<lparr>dc_hint := Some v\<rparr>, None)
      else if kind = 0x50 then (c, Some CellPosition)
      else if kind = 0x70 then (c, Some CellInner)
      else if kind = 0x71 then (c\<lparr>dc_inner_query := Some v\<rparr>, None)
      else if kind = 0x57 then (c\<lparr>dc_location := Some v\<rparr>, None)
      else if kind = 0x73 then (c\<lparr>dc_origin := (dc_origin c)\<lparr>or_schema := Some v\<rparr>\<rparr>, None)
      else if kind = 0x74 then (c\<lparr>dc_origin := (dc_origin c)\<lparr>or_table := Some v\<rparr>\<rparr>, None)
      else if kind = 0x63 then (c\<lparr>dc_origin := (dc_origin c)\<lparr>or_column := Some v\<rparr>\<rparr>, None)
      else if kind = 0x64 then (c\<lparr>dc_origin := (dc_origin c)\<lparr>or_data_type := Some v\<rparr>\<rparr>, None)
      else if kind = 0x6E then (c\<lparr>dc_origin := (dc_origin c)\<lparr>or_constraint := Some v\<rparr>\<rparr>, None)
      else if kind = 0x46 then (c\<lparr>dc_origin := (dc_origin c)\<lparr>or_file := Some v\<rparr>\<rparr>, None)
      else if kind = 0x4C then (c, Some CellLine)
      else if kind = 0x52 then (c\<lparr>dc_origin := (dc_origin c)\<lparr>or_routine := Some v\<rparr>\<rparr>, None)
      else (c, None))"

fun number_loop :: "byte \<Rightarrow> nat \<Rightarrow> nat \<Rightarrow> bytes \<Rightarrow> pg_error + nat" where
  "number_loop kind len n [] = Inr n"
| "number_loop kind len n (b # bs) =
     (if \<not> (48 \<le> unat b \<and> unat b \<le> 57) then
        Inl (PgProtocol (ReasonMessage (DiagnosticPosition kind (NInvalid (len - length (b # bs)) b))))
      else case Option.bind (checked_mul32 n 10) (\<lambda>n. checked_add32 n (unat b - 48)) of
          None \<Rightarrow> Inl (PgProtocol (ReasonMessage (DiagnosticPosition kind (NOverflow (len - length (b # bs)) b))))
        | Some n \<Rightarrow> number_loop kind len n bs)"

definition try_number :: "byte \<Rightarrow> bytes \<Rightarrow> pg_error + nat" where
  "try_number kind v =
     (if v = [] then Inl (PgProtocol (ReasonMessage (DiagnosticPosition kind NEmpty)))
      else bindr (number_loop kind (length v) 0 v) (\<lambda>n.
        if n = 0 then Inl (PgProtocol (ReasonMessage (DiagnosticPosition kind NZero))) else Inr n))"

text \<open>The same number replayed without checks; the arithmetic is that of a \<open>u32\<close>.\<close>

definition raw_number :: "bytes \<Rightarrow> nat" where
  "raw_number v = foldl (\<lambda>n b. as_u32 (n * 10 + digit b)) 0 v"

definition context_try_set :: "diag_context \<Rightarrow> byte \<Rightarrow> bytes \<Rightarrow> pg_error + diag_context" where
  "context_try_set c kind v =
     (case context_field c kind v of
        (c, None) \<Rightarrow> Inr c
      | (c, Some cell) \<Rightarrow> bindr (try_number kind v) (\<lambda>n. Inr (context_number c cell n)))"

section \<open>Codes\<close>

fun code_loop :: "nat \<Rightarrow> bytes \<Rightarrow> reason + unit" where
  "code_loop actual [] = Inr ()"
| "code_loop actual (b # bs) =
     (if \<not> (65 \<le> unat b \<and> unat b \<le> 90) \<and> \<not> (48 \<le> unat b \<and> unat b \<le> 57) then
        Inl (ReasonMessage (DiagnosticSqlstateByte actual (actual - length (b # bs)) b))
      else code_loop actual bs)"

definition code_try_new :: "bytes \<Rightarrow> reason + bytes" where
  "code_try_new v =
     bindr (code_loop (length v) v) (\<lambda>_.
       if length v \<noteq> 5 then Inl (ReasonMessage (DiagnosticSqlstateLength (length v))) else Inr v)"

datatype code_class = ClassPermanent | ClassTransient

fun code_class_of :: "bytes \<Rightarrow> code_class" where
  "code_class_of (a # b # _) =
     (if a = 0x30 \<and> b = 0x38 \<or> a = 0x35 \<and> (b = 0x33 \<or> b = 0x37 \<or> b = 0x38) then ClassTransient else ClassPermanent)"
| "code_class_of _ = ClassPermanent"

section \<open>Parsing\<close>

record diag_fields =
  df_severity :: bytes
  df_code :: bytes
  df_message :: bytes
  df_context :: diag_context

record parts =
  pa_severity :: "bytes option"
  pa_nonlocalized :: "bytes option"
  pa_code :: "bytes option"
  pa_message :: "bytes option"
  pa_context :: diag_context

definition parts_default :: parts where
  "parts_default = \<lparr>pa_severity = None, pa_nonlocalized = None, pa_code = None, pa_message = None, pa_context = context_empty\<rparr>"

definition parts_try_set :: "parts \<Rightarrow> byte \<Rightarrow> bytes \<Rightarrow> pg_error + parts" where
  "parts_try_set p kind v =
     (if kind = 0x53 then Inr (p\<lparr>pa_severity := Some v\<rparr>)
      else if kind = 0x56 then Inr (p\<lparr>pa_nonlocalized := Some v\<rparr>)
      else if kind = 0x43 then Inr (p\<lparr>pa_code := Some v\<rparr>)
      else if kind = 0x4D then Inr (p\<lparr>pa_message := Some v\<rparr>)
      else bindr (context_try_set (pa_context p) kind v) (\<lambda>c. Inr (p\<lparr>pa_context := c\<rparr>)))"

definition parts_try_finish :: "parts \<Rightarrow> pg_error + diag_fields" where
  "parts_try_finish p =
     (case (case (case pa_nonlocalized p of Some s \<Rightarrow> Some s | None \<Rightarrow> pa_severity p) of
              Some s \<Rightarrow> if s \<noteq> [] then Some s else None | None \<Rightarrow> None) of
        None \<Rightarrow> Inl (PgProtocol (ReasonMessage DiagnosticSeverity))
      | Some severity \<Rightarrow>
          (case pa_code p of
             None \<Rightarrow> Inl (PgProtocol (ReasonMessage (DiagnosticSqlstateLength 0)))
           | Some code \<Rightarrow>
               bindr (map_err PgProtocol (code_try_new code)) (\<lambda>code.
               case pa_message p of
                 None \<Rightarrow> Inl (PgProtocol (ReasonMessage DiagnosticMessage))
               | Some message \<Rightarrow>
                   Inr \<lparr>df_severity = severity, df_code = code, df_message = message, df_context = pa_context p\<rparr>)))"

definition recognized_bit :: "byte \<Rightarrow> nat option" where
  "recognized_bit kind =
     (if kind = 0x53 then Some 0 else if kind = 0x56 then Some 1 else if kind = 0x43 then Some 2
      else if kind = 0x4D then Some 3 else if kind = 0x44 then Some 4 else if kind = 0x48 then Some 5
      else if kind = 0x50 then Some 6 else if kind = 0x70 then Some 7 else if kind = 0x71 then Some 8
      else if kind = 0x57 then Some 9 else if kind = 0x73 then Some 10 else if kind = 0x74 then Some 11
      else if kind = 0x63 then Some 12 else if kind = 0x64 then Some 13 else if kind = 0x6E then Some 14
      else if kind = 0x46 then Some 15 else if kind = 0x4C then Some 16 else if kind = 0x52 then Some 17
      else None)"

text \<open>The set of the kinds seen is a \<open>u32\<close>.\<close>

function diag_loop :: "nat \<Rightarrow> parts \<Rightarrow> 32 word \<Rightarrow> bytes \<Rightarrow> pg_error + parts" where
  "diag_loop len p seen cursor =
     (case cursor of
        [] \<Rightarrow> Inl (PgProtocol (ReasonMessage (DiagnosticResponseTerminator (len - length cursor))))
      | kind # tail \<Rightarrow>
          if kind = 0 then
            (if tail \<noteq> [] then Inl (PgProtocol (ReasonMessage (DiagnosticTrailing (len - length tail) (length tail)))) else Inr p)
          else
            (case split_byte 0 tail of
               None \<Rightarrow> Inl (PgProtocol (ReasonMessage (DiagnosticTerminator kind (len - length tail) (length tail))))
             | Some (v, rest) \<Rightarrow>
                 (case try_text v of
                    Inl (valid, e) \<Rightarrow>
                      Inl (PgProtocol (ReasonMessage (DiagnosticUtf8 kind (len - (length tail - valid)) e)))
                  | Inr v \<Rightarrow>
                      (case recognized_bit kind of
                         Some b \<Rightarrow>
                           if and seen (push_bit b 1) \<noteq> 0 then Inl (PgProtocol (ReasonMessage (DuplicateDiagnostic kind)))
                           else bindr (parts_try_set p kind v) (\<lambda>p. diag_loop len p (or seen (push_bit b 1)) rest)
                       | None \<Rightarrow> bindr (parts_try_set p kind v) (\<lambda>p. diag_loop len p seen rest)))))"
  by pat_completeness auto
termination
  by (relation "measure (\<lambda>(_, _, _, cursor). length cursor)") (auto simp: split_byte_Some)

definition diag_try_parse :: "bytes \<Rightarrow> pg_error + diag_fields" where
  "diag_try_parse payload = bindr (diag_loop (length payload) parts_default 0 payload) parts_try_finish"

section \<open>Reading without checks\<close>

definition build_set :: "parts \<Rightarrow> byte \<Rightarrow> bytes \<Rightarrow> parts" where
  "build_set p kind v =
     (if kind = 0x53 then p\<lparr>pa_severity := Some v\<rparr>
      else if kind = 0x56 then p\<lparr>pa_nonlocalized := Some v\<rparr>
      else if kind = 0x43 then p\<lparr>pa_code := Some v\<rparr>
      else if kind = 0x4D then p\<lparr>pa_message := Some v\<rparr>
      else case context_field (pa_context p) kind v of
          (c, None) \<Rightarrow> p\<lparr>pa_context := c\<rparr>
        | (c, Some cell) \<Rightarrow> p\<lparr>pa_context := context_number c cell (raw_number v)\<rparr>)"

fun build_finish :: "parts \<Rightarrow> diag_fields option" where
  "build_finish p =
     Option.bind (case pa_nonlocalized p of Some s \<Rightarrow> Some s | None \<Rightarrow> pa_severity p) (\<lambda>severity.
     Option.bind (pa_code p) (\<lambda>code.
     Option.bind (pa_message p) (\<lambda>message.
     Some \<lparr>df_severity = severity, df_code = code, df_message = message, df_context = pa_context p\<rparr>)))"

function build_loop :: "parts \<Rightarrow> bytes \<Rightarrow> parts option" where
  "build_loop p cursor =
     (case cursor of
        [] \<Rightarrow> None
      | kind # tail \<Rightarrow>
          if kind = 0 then Some p
          else
            (case split_byte 0 tail of
               None \<Rightarrow> None
             | Some (v, rest) \<Rightarrow> build_loop (build_set p kind v) rest))"
  by pat_completeness auto
termination
  by (relation "measure (\<lambda>(_, cursor). length cursor)") (auto simp: split_byte_Some)

definition from_valid :: "bytes \<Rightarrow> diag_fields option" where
  "from_valid payload = Option.bind (build_loop parts_default payload) build_finish"

section \<open>What a diagnostic does to the session\<close>

datatype diag_scope = ScopeCommand | ScopeConnection | ScopeUnknown

definition severity_scope :: "bytes \<Rightarrow> diag_scope" where
  "severity_scope s =
     (if s = [0x45, 0x52, 0x52, 0x4F, 0x52] then ScopeCommand
      else if s = [0x46, 0x41, 0x54, 0x41, 0x4C] \<or> s = [0x50, 0x41, 0x4E, 0x49, 0x43] then ScopeConnection
      else ScopeUnknown)"

record diag_plan =
  dp_payload :: bytes
  dp_class :: code_class
  dp_scope :: diag_scope

definition plan_parse :: "bytes \<Rightarrow> pg_error + diag_plan" where
  "plan_parse payload =
     bindr (diag_try_parse payload) (\<lambda>fields.
       Inr \<lparr>dp_payload = payload, dp_class = code_class_of (df_code fields), dp_scope = severity_scope (df_severity fields)\<rparr>)"

declare diag_loop.simps [simp del] build_loop.simps [simp del]

end
