(* ===== verification/Pg_Diag_Spec.thy ===== *)
theory Pg_Diag_Spec
  imports Pg_Diag
begin

text \<open>
  A diagnostic as a list of fields: which lists are accepted, what they say, and that both readings of the bytes
  give it.
\<close>

section \<open>Fields\<close>

definition fields_text :: "(byte \<times> bytes) list \<Rightarrow> bytes" where
  "fields_text fs = concat (map (\<lambda>(kind, v). kind # v @ [0]) fs) @ [0]"

definition field_map :: "(byte \<rightharpoonup> bytes) \<Rightarrow> (byte \<times> bytes) list \<Rightarrow> (byte \<rightharpoonup> bytes)" where
  "field_map m fs = foldl (\<lambda>m (kind, v). m(kind \<mapsto> v)) m fs"

definition number_ok :: "bytes \<Rightarrow> bool" where
  "number_ok v \<longleftrightarrow> v \<noteq> [] \<and> (\<forall>b \<in> set v. digit b \<le> 9) \<and> 0 < undecimal v \<and> undecimal v \<le> u32_max"

definition is_number :: "byte \<Rightarrow> bool" where
  "is_number kind \<longleftrightarrow> kind = 0x50 \<or> kind = 0x70 \<or> kind = 0x4C"

definition field_ok :: "byte \<times> bytes \<Rightarrow> bool" where
  "field_ok f \<longleftrightarrow> fst f \<noteq> 0 \<and> 0 \<notin> set (snd f) \<and> utf8_ok (snd f) \<and> (is_number (fst f) \<longrightarrow> number_ok (snd f))"

text \<open>What the fields say.\<close>

definition context_of :: "(byte \<rightharpoonup> bytes) \<Rightarrow> diag_context" where
  "context_of m = \<lparr>dc_detail = m 0x44, dc_hint = m 0x48, dc_position = map_option undecimal (m 0x50),
     dc_inner_position = map_option undecimal (m 0x70), dc_inner_query = m 0x71, dc_location = m 0x57,
     dc_origin = \<lparr>or_schema = m 0x73, or_table = m 0x74, or_column = m 0x63, or_data_type = m 0x64, or_constraint = m 0x6E,
       or_file = m 0x46, or_line = map_option undecimal (m 0x4C), or_routine = m 0x52\<rparr>\<rparr>"

definition parts_of :: "(byte \<rightharpoonup> bytes) \<Rightarrow> parts" where
  "parts_of m = \<lparr>pa_severity = m 0x53, pa_nonlocalized = m 0x56, pa_code = m 0x43, pa_message = m 0x4D, pa_context = context_of m\<rparr>"

definition code_ok :: "bytes \<Rightarrow> bool" where
  "code_ok v \<longleftrightarrow> length v = 5 \<and> (\<forall>b \<in> set v. 65 \<le> unat b \<and> unat b \<le> 90 \<or> 48 \<le> unat b \<and> unat b \<le> 57)"

text \<open>The diagnostic that a list of fields states, if its parts are there and right: the severity is the one that
  is not localized, when it is given.\<close>

definition diag_of :: "(byte \<times> bytes) list \<Rightarrow> diag_fields option" where
  "diag_of fs =
     (let m = field_map Map.empty fs in
      case (if m 0x56 = None then m 0x53 else m 0x56, m 0x43, m 0x4D) of
        (Some severity, Some code, Some message) \<Rightarrow>
          if severity \<noteq> [] \<and> code_ok code then
            Some \<lparr>df_severity = severity, df_code = code, df_message = message, df_context = context_of m\<rparr>
          else None
      | _ \<Rightarrow> None)"

definition fields_ok :: "(byte \<times> bytes) list \<Rightarrow> bool" where
  "fields_ok fs \<longleftrightarrow> (\<forall>f \<in> set fs. field_ok f) \<and> distinct (filter (\<lambda>kind. recognized_bit kind \<noteq> None) (map fst fs))"

section \<open>Numbers\<close>

lemma digit_ascii: "48 \<le> unat b \<and> unat b \<le> 57 \<Longrightarrow> digit b = unat b - 48"
  using unsigned_less[of b] by (auto simp: digit_def mod_if)

lemma foldl_digits_ge: "n \<le> foldl (\<lambda>a b. a * 10 + digit b) n bs"
proof (induction bs arbitrary: n)
  case (Cons b bs)
  from Cons[of "n * 10 + digit b"] show ?case by simp
qed simp

lemma number_loop_Inr:
  "n \<le> u32_max \<Longrightarrow> number_loop kind len n bs = Inr m \<longleftrightarrow>
     (\<forall>b \<in> set bs. digit b \<le> 9) \<and> m = foldl (\<lambda>a b. a * 10 + digit b) n bs \<and> m \<le> u32_max"
proof (induction kind len n bs rule: number_loop.induct)
  case (2 kind len n b bs)
  show ?case
  proof (cases "48 \<le> unat b \<and> unat b \<le> 57")
    case True
    note d = digit_ascii[OF True]
    show ?thesis
    proof (cases "n * 10 + digit b \<le> u32_max")
      case True': True
      then have "Option.bind (checked_mul32 n 10) (\<lambda>n. checked_add32 n (unat b - 48)) = Some (n * 10 + digit b)"
        using d by (simp add: checked_mul32_def checked_add32_def)
      with 2(1)[OF _ this] True' True digit_le_9_iff[of b] show ?thesis by simp
    next
      case False
      then have "Option.bind (checked_mul32 n 10) (\<lambda>n. checked_add32 n (unat b - 48)) = None"
        unfolding d by (auto simp: checked_mul32_def checked_add32_def)
      moreover have "\<not> foldl (\<lambda>a b. a * 10 + digit b) (n * 10 + digit b) bs \<le> u32_max"
        using False foldl_digits_ge[of "n * 10 + digit b" bs] by linarith
      ultimately show ?thesis using True by auto
    qed
  next
    case False
    with digit_le_9_iff[of b] show ?thesis by auto
  qed
qed auto

lemma try_number_Inr: "try_number kind v = Inr n \<longleftrightarrow> number_ok v \<and> n = undecimal v"
  using number_loop_Inr[of 0 kind "length v" v]
  by (auto simp: try_number_def number_ok_def undecimal_def bindr_Inr_iff)

lemma raw_foldl:
  "foldl (\<lambda>a b. a * 10 + digit b) n bs \<le> u32_max \<Longrightarrow> foldl (\<lambda>n b. as_u32 (n * 10 + digit b)) n bs = foldl (\<lambda>a b. a * 10 + digit b) n bs"
proof (induction bs arbitrary: n)
  case (Cons b bs)
  have "n * 10 + digit b \<le> u32_max" using Cons(2) foldl_digits_ge[of "n * 10 + digit b" bs] by simp
  then have "as_u32 (n * 10 + digit b) = n * 10 + digit b" by (simp add: as_u32_def)
  with Cons show ?case by simp
qed simp

lemma raw_number_ok: "number_ok v \<Longrightarrow> raw_number v = undecimal v"
  using raw_foldl[of 0 v] by (simp add: number_ok_def raw_number_def undecimal_def)

section \<open>Codes\<close>

lemma code_loop_Inr: "code_loop n v = Inr () \<longleftrightarrow> (\<forall>b \<in> set v. 65 \<le> unat b \<and> unat b \<le> 90 \<or> 48 \<le> unat b \<and> unat b \<le> 57)"
  by (induction n v rule: code_loop.induct) auto

lemma code_try_new_Inr: "code_try_new v = Inr c \<longleftrightarrow> code_ok v \<and> c = v"
  using code_loop_Inr[of "length v" v] by (auto simp: code_try_new_def code_ok_def bindr_Inr_iff)

section \<open>Setting fields\<close>

lemma parts_set:
  "parts_try_set (parts_of m) kind v = Inr p \<longleftrightarrow> (is_number kind \<longrightarrow> number_ok v) \<and> p = parts_of (m(kind \<mapsto> v))"
  by (auto simp: parts_try_set_def parts_of_def context_try_set_def context_field_def context_of_def context_number_def
      bindr_Inr_iff try_number_Inr is_number_def)

lemma build_set_parts:
  "(is_number kind \<longrightarrow> number_ok v) \<Longrightarrow> build_set (parts_of m) kind v = parts_of (m(kind \<mapsto> v))"
  by (auto simp: build_set_def parts_of_def context_field_def context_of_def context_number_def raw_number_ok is_number_def)

lemma parts_default_of: "parts_default = parts_of Map.empty"
  by (simp add: parts_default_def parts_of_def context_of_def context_empty_def)

section \<open>The loops\<close>

lemma field_map_Cons [simp]: "field_map m ((kind, v) # fs) = field_map (m(kind \<mapsto> v)) fs" "field_map m [] = m"
  by (simp_all add: field_map_def)

lemma fields_text_Cons: "fields_text ((kind, v) # fs) = kind # v @ 0 # fields_text fs" "fields_text [] = [0]"
  by (simp_all add: fields_text_def)

lemma seen_bit: "b < 32 \<Longrightarrow> (and (seen :: 32 word) (push_bit b 1) \<noteq> 0) = bit seen b"
  by (metis and_exp_eq_0_iff_not_bit mult.left_neutral push_bit_eq_mult)

lemma seen_set: "b < 32 \<Longrightarrow> c < 32 \<Longrightarrow> bit (or (seen :: 32 word) (push_bit b 1)) c \<longleftrightarrow> bit seen c \<or> c = b"
  by (auto simp: bit_or_iff bit_exp_iff)

lemma recognized_small: "recognized_bit kind = Some b \<Longrightarrow> b < 32"
  by (auto simp: recognized_bit_def split: if_splits)

lemma recognized_inject: "recognized_bit k = Some b \<Longrightarrow> recognized_bit k' = Some b \<Longrightarrow> k = k'"
  by (simp add: recognized_bit_def split: if_splits)

definition fresh_kinds :: "32 word \<Rightarrow> byte list \<Rightarrow> bool" where
  "fresh_kinds seen kinds \<longleftrightarrow> distinct (filter (\<lambda>k. recognized_bit k \<noteq> None) kinds) \<and>
     (\<forall>k \<in> set kinds. \<forall>b. recognized_bit k = Some b \<longrightarrow> \<not> bit seen b)"

lemma fresh_kinds_Cons:
  "fresh_kinds seen (k # ks) \<longleftrightarrow> (case recognized_bit k of
      None \<Rightarrow> fresh_kinds seen ks
    | Some b \<Rightarrow> \<not> bit seen b \<and> fresh_kinds (or seen (push_bit b 1)) ks)"
proof (cases "recognized_bit k")
  case None
  then show ?thesis by (auto simp: fresh_kinds_def)
next
  case (Some b)
  have bits: "bit (or seen (push_bit b 1)) c \<longleftrightarrow> bit seen c \<or> c = b" if "recognized_bit k' = Some c" for k' c
    using seen_set recognized_small[OF Some] recognized_small[OF that] by blast
  have "(\<forall>k' \<in> set ks. \<forall>c. recognized_bit k' = Some c \<longrightarrow> \<not> bit (or seen (push_bit b 1)) c) \<longleftrightarrow>
      k \<notin> set ks \<and> (\<forall>k' \<in> set ks. \<forall>c. recognized_bit k' = Some c \<longrightarrow> \<not> bit seen c)"
    using bits recognized_inject[OF Some] Some by metis
  then show ?thesis using Some by (auto simp: fresh_kinds_def)
qed

lemma diag_loop_Inr:
  "diag_loop len (parts_of m) seen cursor = Inr p \<longleftrightarrow>
     (\<exists>fs. cursor = fields_text fs \<and> (\<forall>f \<in> set fs. field_ok f) \<and> fresh_kinds seen (map fst fs) \<and> p = parts_of (field_map m fs))"
  (is "_ = (\<exists>fs. ?R cursor m seen fs)")
proof (induction "length cursor" arbitrary: cursor m seen rule: less_induct)
  case less
  show ?case
  proof (cases cursor)
    case Nil
    have "\<not> ?R cursor m seen fs" for fs using Nil by (auto simp: fields_text_def)
    with Nil show ?thesis by (subst diag_loop.simps) simp
  next
    case (Cons kind tail)
    show ?thesis
    proof (cases "kind = 0")
      case True
      have "fs = []" if "cursor = fields_text fs" "\<forall>f \<in> set fs. field_ok f" for fs
        using that Cons True by (cases fs) (auto simp: fields_text_Cons field_ok_def)
      then have "(\<exists>fs. ?R cursor m seen fs) \<longleftrightarrow> tail = [] \<and> p = parts_of m"
        using Cons True by (fastforce simp: fields_text_Cons fresh_kinds_def intro: exI[of _ "[]"])
      then show ?thesis using Cons True by (subst diag_loop.simps) auto
    next
      case False
      have head: "(\<exists>fs. ?R cursor m seen fs) \<longleftrightarrow> (\<exists>v rest fs. split_byte 0 tail = Some (v, rest) \<and> utf8_ok v \<and>
          (is_number kind \<longrightarrow> number_ok v) \<and> fresh_kinds seen (kind # map fst fs) \<and> rest = fields_text fs \<and>
          (\<forall>f \<in> set fs. field_ok f) \<and> p = parts_of (field_map (m(kind \<mapsto> v)) fs))" (is "?A \<longleftrightarrow> ?B")
      proof
        assume ?A
        then obtain fs where fs: "?R cursor m seen fs" by blast
        then obtain v fs' where e: "fs = (kind, v) # fs'" using Cons False by (cases fs) (auto simp: fields_text_Cons)
        with fs Cons have "split_byte 0 tail = Some (v, fields_text fs')" by (simp add: fields_text_Cons split_byte_Some field_ok_def)
        with fs e show ?B by (auto simp: field_ok_def)
      next
        assume ?B
        then obtain v fs where "split_byte 0 tail = Some (v, fields_text fs)" "utf8_ok v" "is_number kind \<longrightarrow> number_ok v"
          "fresh_kinds seen (kind # map fst fs)" "\<forall>f \<in> set fs. field_ok f" "p = parts_of (field_map (m(kind \<mapsto> v)) fs)" by blast
        then have "?R cursor m seen ((kind, v) # fs)"
          using Cons False by (simp add: fields_text_Cons split_byte_Some field_ok_def)
        then show ?A by blast
      qed
      show ?thesis
      proof (cases "split_byte 0 tail")
        case None
        then show ?thesis unfolding head using Cons False by (subst diag_loop.simps) simp
      next
        case (Some vr)
        then obtain v rest where s: "split_byte 0 tail = Some (v, rest)" by (cases vr) auto
        then have len: "length rest < length cursor" using Cons by (auto simp: split_byte_Some)
        note ih = less[OF len, of "m(kind \<mapsto> v)"]
        show ?thesis
        proof (cases "utf8_ok v")
          case False': False
          then obtain e where "try_text v = Inl e" by (cases "try_text v") (auto simp: try_text_Inr)
          then show ?thesis unfolding head using Cons False False' s
            by (subst diag_loop.simps) (simp split: prod.split)
        next
          case True
          then have t: "try_text v = Inr v" by (simp add: try_text_Inr)
          have step: "diag_loop len (parts_of m) seen cursor = (case recognized_bit kind of
              Some b \<Rightarrow>
                if and seen (push_bit b 1) \<noteq> 0 then Inl (PgProtocol (ReasonMessage (DuplicateDiagnostic kind)))
                else bindr (parts_try_set (parts_of m) kind v) (\<lambda>p. diag_loop len p (or seen (push_bit b 1)) rest)
            | None \<Rightarrow> bindr (parts_try_set (parts_of m) kind v) (\<lambda>p. diag_loop len p seen rest))"
            unfolding Cons by (subst diag_loop.simps) (simp add: False s t)
          show ?thesis
          proof (cases "recognized_bit kind")
            case None
            then have "diag_loop len (parts_of m) seen cursor = Inr p \<longleftrightarrow> (is_number kind \<longrightarrow> number_ok v) \<and> diag_loop len (parts_of (m(kind \<mapsto> v))) seen rest = Inr p"
              unfolding step by (auto simp: bindr_Inr_iff parts_set)
            then show ?thesis unfolding head ih using s True None by (auto simp: fresh_kinds_Cons)
          next
            case (Some b)
            then have "diag_loop len (parts_of m) seen cursor = Inr p \<longleftrightarrow> \<not> bit seen b \<and> (is_number kind \<longrightarrow> number_ok v) \<and>
                diag_loop len (parts_of (m(kind \<mapsto> v))) (or seen (push_bit b 1)) rest = Inr p"
              unfolding step Some option.case seen_bit[OF recognized_small[OF Some], of seen] by (auto simp: bindr_Inr_iff parts_set)
            then show ?thesis unfolding head ih using s True Some by (auto simp: fresh_kinds_Cons)
          qed
        qed
      qed
    qed
  qed
qed

lemma parts_finish: "parts_try_finish (parts_of (field_map Map.empty fs)) = Inr f \<longleftrightarrow> diag_of fs = Some f"
  by (auto simp: parts_try_finish_def parts_of_def diag_of_def Let_def bindr_Inr_iff map_err_Inr_iff code_try_new_Inr split: option.splits if_splits)

lemma diag_try_parse_Inr:
  "diag_try_parse payload = Inr f \<longleftrightarrow> (\<exists>fs. payload = fields_text fs \<and> fields_ok fs \<and> diag_of fs = Some f)"
proof -
  have "fresh_kinds 0 ks \<longleftrightarrow> distinct (filter (\<lambda>k. recognized_bit k \<noteq> None) ks)" for ks by (simp add: fresh_kinds_def)
  then show ?thesis
    by (auto simp: diag_try_parse_def bindr_Inr_iff parts_default_of diag_loop_Inr parts_finish fields_ok_def)
qed

lemma build_loop_fields:
  "\<forall>f \<in> set fs. field_ok f \<Longrightarrow> build_loop (parts_of m) (fields_text fs) = Some (parts_of (field_map m fs))"
proof (induction fs arbitrary: m)
  case Nil
  show ?case by (subst build_loop.simps) (simp add: fields_text_Cons)
next
  case (Cons f fs)
  obtain kind v where f: "f = (kind, v)" by (cases f)
  have "split_byte 0 (v @ 0 # fields_text fs) = Some (v, fields_text fs)" using Cons(2) f by (simp add: split_byte_Some field_ok_def)
  with Cons f show ?case
    by (subst build_loop.simps) (auto simp: fields_text_Cons build_set_parts field_ok_def)
qed

lemma build_finish_parts: "diag_of fs = Some f \<Longrightarrow> build_finish (parts_of (field_map Map.empty fs)) = Some f"
  by (auto simp: diag_of_def parts_of_def Let_def split: option.splits if_splits)

lemma from_valid_parsed: "fields_ok fs \<Longrightarrow> diag_of fs = Some f \<Longrightarrow> from_valid (fields_text fs) = Some f"
  by (simp add: from_valid_def parts_default_of build_loop_fields fields_ok_def build_finish_parts del: build_finish.simps)

end
