(* ===== verification/Pg_Reply_Claims.thy ===== *)
theory Pg_Reply_Claims
  imports Pg_Diag_Spec
begin

text \<open>The property of diagnostics, the error and notice replies of a server.\<close>

text \<open>C38: A diagnostic is accepted exactly when its payload is a sequence of tagged, terminated fields of valid
  text in which no known field repeats, every required one is present and the positions are numbers, and what is
  kept of it are those fields; the pass over a payload validated before then gives the very same result.\<close>

theorem diagnostic_exact:
  "diag_try_parse payload = Inr f \<longleftrightarrow>
     (\<exists>fs. payload = fields_text fs \<and> fields_ok fs \<and> diag_of fs = Some f \<and> from_valid payload = Some f)"
  using from_valid_parsed by (auto simp: diag_try_parse_Inr)

end
