(* ===== verification/Pg_Payload.thy ===== *)
theory Pg_Payload
  imports Pg_Text Pg_Pool Scram
begin

text \<open>
  \<open>pg/src/protocol/logic/payloads.rs\<close>: the payloads of control messages, and the notifications with what
  \<open>reply/raw.rs\<close> and \<open>reply/notice.rs\<close> make of them.
\<close>

section \<open>Control messages\<close>

definition payload_ready_status :: "bytes \<Rightarrow> pg_error + tx_status" where
  "payload_ready_status bs =
     (if bs = [0x49] then Inr TxIdle
      else if bs = [0x54] \<or> bs = [0x45] then Inr TxOpen
      else Inl (PgProtocol (ReasonSession ReadyUnknown)))"

definition payload_empty :: "byte \<Rightarrow> bytes \<Rightarrow> pg_error + unit" where
  "payload_empty tag bs =
     (if bs = [] then Inr () else Inl (PgProtocol (ReasonSession (ControlPayload tag (length bs)))))"

definition payload_command :: "byte \<Rightarrow> bytes \<Rightarrow> pg_error + unit" where
  "payload_command tag bs =
     (if bs \<noteq> [] \<and> last bs = 0 \<and> butlast bs \<noteq> [] \<and> 0 \<notin> set (butlast bs) then Inr ()
      else Inl (PgProtocol (ReasonSession (ControlPayload tag (length bs)))))"

fun format_pairs_ok :: "bytes \<Rightarrow> bool" where
  "format_pairs_ok (a # b # bs) \<longleftrightarrow> from_be [a, b] \<le> 1 \<and> format_pairs_ok bs"
| "format_pairs_ok _ \<longleftrightarrow> True"

definition payload_copy_format :: "bytes \<Rightarrow> pg_error + unit" where
  "payload_copy_format bs =
     (let copy_error = Inl (PgProtocol (ReasonSession (CopyFormat (length bs)))) in
      case bs of
        overall # count0 # count1 # formats \<Rightarrow>
          let count = (let n = int (from_be [count0, count1]) in if n \<le> 32767 then n else n - 65536) in
          if 1 < unat overall \<or> count < 0 \<or> int (length formats) \<noteq> count * 2 then copy_error
          else if \<not> format_pairs_ok formats then copy_error
          else Inr ()
      | _ \<Rightarrow> copy_error)"

text \<open>The bytes up to a zero byte and the rest; the error is the number of bytes without one.\<close>

definition cstr_bytes :: "bytes \<Rightarrow> nat + bytes \<times> bytes" where
  "cstr_bytes bs = ok_or (split_byte 0 bs) (length bs)"

definition payload_parameter :: "bytes \<Rightarrow> pg_error + unit" where
  "payload_parameter bs =
     bindr (map_err (\<lambda>actual. PgProtocol (ReasonMessage (ParameterNameTerminator actual))) (cstr_bytes bs)) (\<lambda>(name, rest).
     if name = [] then Inl (PgProtocol (ReasonMessage ParameterNameEmpty))
     else
       let at = length bs - length rest in
       bindr (map_err (\<lambda>actual. PgProtocol (ReasonMessage (ParameterValueTerminator at actual))) (cstr_bytes rest)) (\<lambda>(_, trailing).
       if trailing \<noteq> [] then
         Inl (PgProtocol (ReasonMessage (ParameterTrailing (length bs - length trailing) (length trailing))))
       else Inr ()))"

datatype cstring_error = CsTerminator nat | CsUtf8 nat utf8

definition cstring_sasl :: "cstring_error \<Rightarrow> pg_error" where
  "cstring_sasl e =
     PgProtocol (ReasonSession (case e of CsTerminator actual \<Rightarrow> SaslMechanismTerminator actual | CsUtf8 valid e \<Rightarrow> SaslMechanismUtf8 valid e))"

definition cstring_note :: "byte \<Rightarrow> cstring_error \<Rightarrow> pg_error" where
  "cstring_note field e =
     PgProtocol (ReasonMessage (case e of CsTerminator actual \<Rightarrow> NotificationTerminator field actual | CsUtf8 valid e \<Rightarrow> NotificationUtf8 field valid e))"

definition payload_cstr :: "bytes \<Rightarrow> cstring_error + bytes \<times> bytes" where
  "payload_cstr bs =
     bindr (map_err CsTerminator (cstr_bytes bs)) (\<lambda>(value, rest).
     bindr (map_err (\<lambda>(valid, e). CsUtf8 valid e) (try_text value)) (\<lambda>value. Inr (value, rest)))"

section \<open>Authentication requests\<close>

datatype auth_request =
    AuthOk
  | AuthSasl mechanisms
  | AuthSaslContinue bytes
  | AuthSaslFinal bytes
  | AuthOther nat

lemma payload_cstr_shrinks: "payload_cstr bs = Inr (v, rest) \<Longrightarrow> length rest < length bs"
  by (auto simp: payload_cstr_def cstr_bytes_def bindr_Inr_iff map_err_Inr_iff ok_or_Inr_iff split_byte_Some)

function sasl_loop :: "nat \<Rightarrow> mechanisms \<Rightarrow> bytes \<Rightarrow> pg_error + mechanisms" where
  "sasl_loop actual offered cursor =
     (case cursor of
        [] \<Rightarrow> Inl (PgProtocol (ReasonSession (SaslTerminator actual)))
      | first # tail \<Rightarrow>
          if first = 0 then
            (if tail \<noteq> [] then Inl (PgProtocol (ReasonSession (SaslTrailing (length tail)))) else Inr offered)
          else
            (case payload_cstr cursor of
               Inl e \<Rightarrow> Inl (cstring_sasl e)
             | Inr (name, next) \<Rightarrow> sasl_loop actual (mechanisms_offer offered name) next))"
  by pat_completeness auto
termination
  by (relation "measure (\<lambda>(_, _, cursor). length cursor)") (auto dest: payload_cstr_shrinks)

definition auth_decode :: "bytes \<Rightarrow> pg_error + auth_request" where
  "auth_decode bs =
     (case split_array 4 bs of
        None \<Rightarrow> Inl (PgProtocol (ReasonSession (AuthTruncated (length bs))))
      | Some (kind, rest) \<Rightarrow>
          let kind = from_be kind in
          if kind = 0 then
            (if rest \<noteq> [] then Inl (PgProtocol (ReasonSession (AuthTrailing (length rest)))) else Inr AuthOk)
          else if kind = 10 then bindr (sasl_loop (length rest) MechNone rest) (\<lambda>offered. Inr (AuthSasl offered))
          else if kind = 11 then Inr (AuthSaslContinue rest)
          else if kind = 12 then Inr (AuthSaslFinal rest)
          else Inr (AuthOther kind))"

section \<open>Notifications\<close>

text \<open>The process and the ranges of the two texts inside the payload; the offsets are \<open>u32\<close>.\<close>

record note_fields =
  nf_pid :: nat
  nf_ranges :: "(nat \<times> nat) list"
  nf_len :: nat

definition note_fields_new :: "nat \<Rightarrow> (nat \<times> nat) list \<Rightarrow> note_fields" where
  "note_fields_new pid ranges =
     \<lparr>nf_pid = pid, nf_ranges = map (\<lambda>(a, b). (as_u32 a, as_u32 b)) ranges,
      nf_len = foldl (\<lambda>len (a, b). as_u32 (len + as_u32 (as_u32 b + (u32_max + 1) - as_u32 a))) 0 ranges\<rparr>"

definition payload_notification :: "bytes \<Rightarrow> pg_error + note_fields" where
  "payload_notification bs =
     (case split_array 4 bs of
        None \<Rightarrow> Inl (PgProtocol (ReasonMessage (NotificationTruncated (length bs))))
      | Some (pid, body) \<Rightarrow>
          bindr (map_err (cstring_note 0) (payload_cstr body)) (\<lambda>(name, rest).
          let start = length bs - length rest in
          bindr (map_err (cstring_note 1) (payload_cstr rest)) (\<lambda>(data, tail).
          if tail \<noteq> [] then Inl (PgProtocol (ReasonMessage (NotificationTrailing (length tail))))
          else Inr (note_fields_new (from_be pid) [(4, 4 + length name), (start, start + length data)]))))"

text \<open>A field of the retained payload; \<open>None\<close> is a range outside it.\<close>

definition note_field :: "bytes \<Rightarrow> note_fields \<Rightarrow> nat \<Rightarrow> bytes option" where
  "note_field payload f i = Option.bind (get (nf_ranges f) i) (\<lambda>(a, b). subslice a b payload)"

record notice =
  no_text :: bytes
  no_cut :: nat
  no_pid :: nat

definition notice_try_new :: "bytes \<Rightarrow> note_fields \<Rightarrow> notice option" where
  "notice_try_new payload f =
     Option.bind (note_field payload f 0) (\<lambda>name.
     Option.bind (note_field payload f 1) (\<lambda>data.
     Some \<lparr>no_text = (if nf_len f = 0 then [] else name @ data), no_cut = as_u32 (length name), no_pid = nf_pid f\<rparr>))"

definition notice_channel :: "notice \<Rightarrow> bytes option" where
  "notice_channel n = subslice 0 (no_cut n) (no_text n)"

definition notice_payload :: "notice \<Rightarrow> bytes option" where
  "notice_payload n = subslice (no_cut n) (length (no_text n)) (no_text n)"

declare sasl_loop.simps [simp del]

section \<open>What is accepted\<close>

lemma payload_cstr_Inr: "payload_cstr bs = Inr (v, rest) \<longleftrightarrow> bs = v @ 0 # rest \<and> 0 \<notin> set v \<and> utf8_ok v"
  by (auto simp: payload_cstr_def cstr_bytes_def bindr_Inr_iff map_err_Inr_iff ok_or_Inr_iff split_byte_Some try_text_Inr)

lemma payload_parameter_Inr:
  "payload_parameter bs = Inr () \<longleftrightarrow> (\<exists>name v. bs = name @ 0 # v @ [0] \<and> name \<noteq> [] \<and> 0 \<notin> set name \<and> 0 \<notin> set v)"
  by (auto simp: payload_parameter_def cstr_bytes_def bindr_Inr_iff map_err_Inr_iff ok_or_Inr_iff split_byte_Some Let_def)

lemma payload_empty_Inr [simp]: "payload_empty tag bs = Inr () \<longleftrightarrow> bs = []"
  by (simp add: payload_empty_def)

lemma ready_status_idle [simp]: "payload_ready_status bs = Inr TxIdle \<longleftrightarrow> bs = [0x49]"
  by (simp add: payload_ready_status_def)

definition names_text :: "bytes list \<Rightarrow> bytes" where
  "names_text names = concat (map (\<lambda>n. n @ [0]) names) @ [0]"

definition name_ok :: "bytes \<Rightarrow> bool" where
  "name_ok n \<longleftrightarrow> n \<noteq> [] \<and> 0 \<notin> set n \<and> utf8_ok n"

lemma sasl_loop_Inr:
  "sasl_loop actual set0 cursor = Inr m \<longleftrightarrow>
     (\<exists>names. cursor = names_text names \<and> (\<forall>n \<in> set names. name_ok n) \<and> m = foldl mechanisms_offer set0 names)"
proof (induction "length cursor" arbitrary: cursor set0 rule: less_induct)
  case less
  show ?case
  proof (cases cursor)
    case Nil
    then show ?thesis by (subst sasl_loop.simps) (auto simp: names_text_def)
  next
    case (Cons first tail)
    have names_Cons: "names_text (n # ns) = n @ 0 # names_text ns" "names_text [] = [0]" for n ns by (simp_all add: names_text_def)
    show ?thesis
    proof (cases "first = 0")
      case True
      have "names = []" if "cursor = names_text names" "\<forall>n \<in> set names. name_ok n" for names
        using that Cons True by (cases names; cases "hd names") (auto simp: names_Cons name_ok_def)
      then have "(\<exists>names. cursor = names_text names \<and> (\<forall>n \<in> set names. name_ok n) \<and> m = foldl mechanisms_offer set0 names) \<longleftrightarrow>
          tail = [] \<and> m = set0"
        using Cons True by (fastforce simp: names_Cons intro: exI[of _ "[]"])
      then show ?thesis unfolding Cons by (subst sasl_loop.simps) (auto simp: True Cons)
    next
      case False
      show ?thesis
      proof (cases "payload_cstr cursor")
        case (Inl e)
        have "\<not> (cursor = names_text names \<and> (\<forall>n \<in> set names. name_ok n))" for names
        proof (cases names)
          case (Cons n ns)
          then show ?thesis using Inl payload_cstr_Inr[of cursor n "names_text ns"] by (auto simp: names_Cons name_ok_def)
        qed (use Cons False in \<open>simp add: names_Cons\<close>)
        moreover have "sasl_loop actual set0 cursor \<noteq> Inr m" using Inl Cons False by (subst sasl_loop.simps) simp
        ultimately show ?thesis by blast
      next
        case (Inr r)
        then obtain n rest where r: "payload_cstr cursor = Inr (n, rest)" by (cases r) auto
        note c = r[unfolded payload_cstr_Inr]
        have "n \<noteq> []" using c Cons False by auto
        have st: "sasl_loop actual set0 cursor = sasl_loop actual (mechanisms_offer set0 n) rest"
          using r Cons False by (subst sasl_loop.simps) simp
        have "(\<exists>names. cursor = names_text names \<and> (\<forall>n \<in> set names. name_ok n) \<and> m = foldl mechanisms_offer set0 names) \<longleftrightarrow>
          (\<exists>names. rest = names_text names \<and> (\<forall>n \<in> set names. name_ok n) \<and> m = foldl mechanisms_offer (mechanisms_offer set0 n) names)"
          (is "?A \<longleftrightarrow> ?B")
        proof
          assume ?A
          then obtain names where a: "cursor = names_text names" "\<forall>n \<in> set names. name_ok n" "m = foldl mechanisms_offer set0 names" by blast
          then obtain n' ns where e: "names = n' # ns" using Cons False by (cases names) (auto simp: names_Cons)
          with a have "payload_cstr cursor = Inr (n', names_text ns)" by (simp add: payload_cstr_Inr names_Cons name_ok_def)
          with r a e show ?B by auto
        next
          assume ?B
          then obtain names where b: "rest = names_text names" "\<forall>n \<in> set names. name_ok n" "m = foldl mechanisms_offer (mechanisms_offer set0 n) names" by blast
          with c \<open>n \<noteq> []\<close> show ?A by (intro exI[of _ "n # names"]) (simp add: names_Cons name_ok_def)
        qed
        with less[OF payload_cstr_shrinks[OF r], of "mechanisms_offer set0 n"] st show ?thesis by simp
      qed
    qed
  qed
qed

end
