(* ===== verification/Pg_Session.thy ===== *)
theory Pg_Session
  imports Pg_Diag Pg_Payload Pg_Pool_Run Pg_Prepare
begin

text \<open>
  The handshake of a connection: \<open>pg/src/protocol/logic/\<close> with \<open>turn.rs\<close>, \<open>state.rs\<close> and \<open>failure.rs\<close>, from the
  startup message over authentication and the preparation of the query set to the moment the connection joins the
  pool.  What a turn needs of its surroundings is the record \<open>session_env\<close>; what the surroundings answer in one
  turn is the record \<open>answers\<close>.  The phases after that moment, where replies are routed, are not part of it:
  the functions give \<open>None\<close> there.
\<close>

section \<open>State\<close>

datatype prepare_phase =
    LtreeParse catalog_step
  | LtreeParameters catalog_step
  | LtreeResult catalog_step
  | QueryParse cursor_at registry
  | QueryParameters cursor_at registry
  | QueryResult cursor_at registry
  | PrepareComplete

definition prepare_resume :: "catalog_step \<Rightarrow> registry \<Rightarrow> prepare_phase" where
  "prepare_resume step reg = (case step of StepQuery cursor \<Rightarrow> QueryParse cursor reg | StepComplete \<Rightarrow> PrepareComplete)"

definition prepare_register :: "catalog_step \<Rightarrow> nat \<Rightarrow> prepare_phase" where
  "prepare_register step oid = prepare_resume step (registry_with_ltree registry_default oid)"

definition prepare_new :: "query_groups \<Rightarrow> nat \<Rightarrow> prepare_phase" where
  "prepare_new groups flags =
     (let step = catalog_first groups in
      if has_ltree flags then LtreeParse step else prepare_resume step registry_default)"

datatype session_phase =
    NeedsStartup
  | StartupSent
  | SaslPhase scram_state
  | AwaitingReady
  | Preparing prepare_phase
  | SessionReady
  | CopyInActive
  | CopyOutActive
  | SessionFailed

text \<open>The errors of a turn: those of the protocol, of a request that does not fit or finds no buffer, and of egress,
  retention and load, whose causes belong to the runtime.\<close>

datatype 'c session_error =
    SnError pg_error
  | SnRequest encode_error
  | SnCapacity
  | SnLoad 'c
  | SnEgress 'c
  | SnRetention 'c
  | SnClosed

record ('t, 'w, 'f, 'p, 'v) session =
  ss_phase :: session_phase
  ss_pool :: "('t, 'w, 'f, 'p) ready_pool"
  ss_kdf :: "'v runtime"
  ss_sent :: "bytes list"

record ('t, 'f, 'p, 'v, 's, 'c) session_env =
  sv_links :: "'p links_ops"
  sv_index :: "'t \<Rightarrow> nat"
  sv_conn :: 't
  sv_slot :: nat
  sv_compress :: compress
  sv_base64 :: base64_ops
  sv_waiters :: "('v, 't) waiters"
  sv_spare :: "'s spare_ops"
  sv_fresh :: 's
  sv_user :: bytes
  sv_database :: bytes
  sv_schema :: "bytes option"
  sv_password :: bytes
  sv_prepare :: prepare
  sv_types :: "query_group list"
  sv_cause :: "'c session_error \<Rightarrow> 'f"
  sv_permanent :: "'c \<Rightarrow> bool"

text \<open>Whether a buffer is free, a frame can be loaded and is queued, the entropy, whether a message and a diagnostic can be retained, and the depth of
  the replies of the connection.\<close>

record 'c answers =
  an_buffer :: bool
  an_load :: "bytes \<Rightarrow> 'c option"
  an_egress :: "bytes \<Rightarrow> 'c option"
  an_entropy :: "pg_error + bytes"
  an_full :: "pg_error option"
  an_retain :: "'c option"
  an_depth :: "nat option"

type_synonym ('t, 'w, 'f, 'p, 'v, 'c) turn = "('t, 'w, 'f, 'p, 'v) session \<times> 'c session_error option"

section \<open>Failure\<close>

text \<open>The class of an error; the causes of the runtime are classified by \<open>sv_permanent\<close>.\<close>

definition error_class :: "('c \<Rightarrow> bool) \<Rightarrow> 'c session_error \<Rightarrow> code_class" where
  "error_class permanent e =
     (case e of
        SnError (PgScram NoResources) \<Rightarrow> ClassTransient
      | SnError PgRandom \<Rightarrow> ClassTransient
      | SnError PgNotFound \<Rightarrow> ClassTransient
      | SnError _ \<Rightarrow> ClassPermanent
      | SnRequest _ \<Rightarrow> ClassPermanent
      | SnCapacity \<Rightarrow> ClassTransient
      | SnLoad _ \<Rightarrow> ClassTransient
      | SnEgress _ \<Rightarrow> ClassTransient
      | SnRetention c \<Rightarrow> if permanent c then ClassPermanent else ClassTransient
      | SnClosed \<Rightarrow> ClassTransient)"

definition session_cancel ::
    "('t, 'f, 'p, 'v, 's, 'c) session_env \<Rightarrow> ('t, 'w, 'f, 'p, 'v) session \<Rightarrow> ('t, 'w, 'f, 'p, 'v) session" where
  "session_cancel env s =
     (case ss_phase s of
        SaslPhase _ \<Rightarrow> s\<lparr>ss_kdf := fst (ticket_cancel (sv_waiters env) (ss_kdf s) (sv_slot env))\<rparr>
      | _ \<Rightarrow> s)"

definition failure_mode :: "session_phase \<Rightarrow> code_class \<Rightarrow> disposition" where
  "failure_mode phase class =
     (case (phase, class) of
        (StartupSent, ClassPermanent) \<Rightarrow> Permanent
      | (SaslPhase _, ClassPermanent) \<Rightarrow> Permanent
      | (AwaitingReady, ClassPermanent) \<Rightarrow> Permanent
      | (Preparing _, ClassPermanent) \<Rightarrow> Permanent
      | _ \<Rightarrow> Reconnect)"

definition finish_failure ::
    "('t, 'f, 'p, 'v, 's, 'c) session_env \<Rightarrow> ('t, 'w, 'f, 'p, 'v) session \<Rightarrow> code_class \<Rightarrow> 'f \<Rightarrow> ('t, 'w, 'f, 'p, 'v) session" where
  "finish_failure env s class cause =
     (let s = session_cancel env s;
          mode = failure_mode (ss_phase s) class;
          s = s\<lparr>ss_phase := SessionFailed\<rparr>
      in s\<lparr>ss_pool := fst (wake_close (sv_links env) (sv_index env) (ss_pool s) (sv_conn env) cause mode)\<rparr>)"

definition session_fail ::
    "('t, 'f, 'p, 'v, 's, 'c) session_env \<Rightarrow> ('t, 'w, 'f, 'p, 'v) session \<Rightarrow> 'c session_error \<Rightarrow> ('t, 'w, 'f, 'p, 'v) session" where
  "session_fail env s e = finish_failure env s (error_class (sv_permanent env) e) (sv_cause env e)"

definition fail_server ::
    "('t, 'f, 'p, 'v, 's, 'c) session_env \<Rightarrow> ('t, 'w, 'f, 'p, 'v) session \<Rightarrow> code_class \<Rightarrow> ('t, 'w, 'f, 'p, 'v) session" where
  "fail_server env s class = finish_failure env s class (sv_cause env SnClosed)"

definition turn_end ::
    "('t, 'f, 'p, 'v, 's, 'c) session_env \<Rightarrow> ('t, 'w, 'f, 'p, 'v, 'c) turn \<Rightarrow> ('t, 'w, 'f, 'p, 'v) session" where
  "turn_end env r = (case r of (s, None) \<Rightarrow> s | (s, Some e) \<Rightarrow> session_fail env s e)"

section \<open>Frames\<close>

text \<open>A control frame is written to a buffer of its own and loaded whole.\<close>

definition build_frame ::
    "('t, 'f, 'p, 'v, 's, 'c) session_env \<Rightarrow> 'c answers \<Rightarrow> ('s, 'a) emitter \<Rightarrow> 'c session_error + bytes \<times> 'a" where
  "build_frame env ans write =
     (if \<not> an_buffer ans then Inl SnCapacity
      else bindr (map_err SnRequest (write (sv_fresh env))) (\<lambda>(s, a).
        case an_load ans (sp_content (sv_spare env) s) of
          Some c \<Rightarrow> Inl (SnLoad c)
        | None \<Rightarrow> Inr (sp_content (sv_spare env) s, a)))"

definition enqueue :: "'c answers \<Rightarrow> bytes \<Rightarrow> ('t, 'w, 'f, 'p, 'v) session \<Rightarrow> ('t, 'w, 'f, 'p, 'v, 'c) turn" where
  "enqueue ans frame s =
     (case an_egress ans frame of
        Some c \<Rightarrow> (s, Some (SnEgress c))
      | None \<Rightarrow> (s\<lparr>ss_sent := ss_sent s @ [frame]\<rparr>, None))"

definition default_timeout :: nat where
  "default_timeout = 30000"

definition connect ::
    "('t, 'f, 'p, 'v, 's, 'c) session_env \<Rightarrow> 'c answers \<Rightarrow> ('t, 'w, 'f, 'p, 'v) session \<Rightarrow> ('t, 'w, 'f, 'p, 'v) session" where
  "connect env ans s =
     (let s = s\<lparr>ss_phase := NeedsStartup\<rparr> in
      case build_frame env ans (wr_startup (sv_spare env) (sv_user env) (sv_database env) (ascii ''cartel-pg'') (sv_schema env) default_timeout) of
        Inl e \<Rightarrow> session_fail env s e
      | Inr (frame, _) \<Rightarrow>
          (case enqueue ans frame s of
             (s, None) \<Rightarrow> s\<lparr>ss_phase := StartupSent\<rparr>
           | (s, Some e) \<Rightarrow> session_fail env s e))"

section \<open>Authentication\<close>

definition drive_scram ::
    "('t, 'f, 'p, 'v, 's, 'c) session_env \<Rightarrow> 'c answers \<Rightarrow> scram_state \<Rightarrow> ('t, 'w, 'f, 'p, 'v) session \<Rightarrow> ('t, 'w, 'f, 'p, 'v, 'c) turn" where
  "drive_scram env ans st s =
     (case scram_deriving st of
        None \<Rightarrow> (s, None)
      | Some d \<Rightarrow>
          (case ticket_poll (sv_compress env) (sv_waiters env) (ss_kdf s) (sv_slot env) (dv_key d) (sv_password env) of
             (rt, _, result) \<Rightarrow>
               let s = s\<lparr>ss_kdf := rt\<rparr> in
               (case result of
                  Pending \<Rightarrow> (s, None)
                | Unreachable \<Rightarrow> (s, Some (SnError PgUnreachable))
                | Keys ks \<Rightarrow>
                    (case build_frame env ans (wr_sasl_final (sv_spare env) (write_final (sv_compress env) (sv_base64 env) (sv_spare env) d ks)) of
                       Inl e \<Rightarrow> (s, Some e)
                     | Inr (_, None) \<Rightarrow> (s, Some (SnError PgUnreachable))
                     | Inr (frame, Some sig) \<Rightarrow> enqueue ans frame (s\<lparr>ss_phase := SaslPhase (await_final sig)\<rparr>)))))"

text \<open>The start of an exchange: the ticket, the nonce and the first message.\<close>

definition start_sasl ::
    "('t, 'f, 'p, 'v, 's, 'c) session_env \<Rightarrow> 'c answers \<Rightarrow> mechanisms \<Rightarrow> ('t, 'w, 'f, 'p, 'v) session \<Rightarrow> ('t, 'w, 'f, 'p, 'v, 'c) turn" where
  "start_sasl env ans offered s =
     (case mechanisms_pick offered of
        Inl e \<Rightarrow> (s, Some (SnError e))
      | Inr mode \<Rightarrow>
          (case try_entry (sv_waiters env) (ss_kdf s) (sv_slot env) (sv_conn env) of
             None \<Rightarrow> (s, Some (SnError PgScramSlot))
           | Some rt \<Rightarrow>
               (case an_entropy ans of
                  Inl e \<Rightarrow> (s, Some (SnError e))
                | Inr raw \<Rightarrow>
                    let nonce = encode_nonce (sv_base64 env) raw in
                    (case build_frame env ans (wr_sasl_first (sv_spare env) mode
                            (andthen (wr_extend (sv_spare env) (ascii ''n,,n=,r='')) (\<lambda>_. wr_extend (sv_spare env) nonce))) of
                       Inl e \<Rightarrow> (s, Some e)
                     | Inr (frame, _) \<Rightarrow>
                         (case enqueue ans frame s of
                            (s, Some e) \<Rightarrow> (s, Some e)
                          | (s, None) \<Rightarrow> (s\<lparr>ss_phase := SaslPhase (AwaitServerFirst nonce), ss_kdf := rt\<rparr>, None))))))"

definition startup ::
    "('t, 'f, 'p, 'v, 's, 'c) session_env \<Rightarrow> 'c answers \<Rightarrow> byte \<Rightarrow> bytes \<Rightarrow> ('t, 'w, 'f, 'p, 'v) session \<Rightarrow> ('t, 'w, 'f, 'p, 'v, 'c) turn" where
  "startup env ans typ data s =
     (if typ = 0x52 then
        if ss_phase s \<noteq> StartupSent then (s, Some (SnError (PgUnexpectedStartupMessage typ)))
        else (case auth_decode data of
            Inl e \<Rightarrow> (s, Some (SnError e))
          | Inr AuthOk \<Rightarrow> (s\<lparr>ss_phase := AwaitingReady\<rparr>, None)
          | Inr (AuthSasl offered) \<Rightarrow> start_sasl env ans offered s
          | Inr (AuthSaslContinue _) \<Rightarrow> (s, Some (SnError (PgAuth (ReasonSession SaslContinue))))
          | Inr (AuthSaslFinal _) \<Rightarrow> (s, Some (SnError (PgAuth (ReasonSession SaslContinue))))
          | Inr (AuthOther m) \<Rightarrow> (s, Some (SnError (PgUnsupportedAuthMethod m))))
      else if typ = 0x53 then
        if ss_phase s \<noteq> AwaitingReady then (s, Some (SnError (PgUnexpectedStartupMessage typ)))
        else (case payload_parameter data of Inl e \<Rightarrow> (s, Some (SnError e)) | Inr _ \<Rightarrow> (s, None))
      else if typ = 0x4B then
        if ss_phase s \<noteq> AwaitingReady then (s, Some (SnError (PgProtocol (ReasonMessage BackendKeyBeforeAuth))))
        else (case bindr (key_decode data) (ready_install (sv_index env) (ss_pool s) (sv_conn env)) of
            Inl e \<Rightarrow> (s, Some (SnError (PgProtocol e)))
          | Inr p \<Rightarrow> (s\<lparr>ss_pool := p\<rparr>, None))
      else if typ = 0x5A then
        if ss_phase s \<noteq> AwaitingReady then (s, Some (SnError (PgProtocol (ReasonSession ReadyUnknown))))
        else (case payload_ready_status data of
            Inl e \<Rightarrow> (s, Some (SnError e))
          | Inr TxOpen \<Rightarrow> (s, Some (SnError (PgProtocol (ReasonSession ReadyUnknown))))
          | Inr TxIdle \<Rightarrow>
              (case catalog_try_new (sv_types env) (pr_groups (sv_prepare env)) of
                 Inl e \<Rightarrow> (s, Some (SnError e))
               | Inr _ \<Rightarrow>
                   (case an_load ans (pr_wire (sv_prepare env)) of
                      Some c \<Rightarrow> (s, Some (SnLoad c))
                    | None \<Rightarrow>
                        (case enqueue ans (pr_wire (sv_prepare env)) s of
                           (s, Some e) \<Rightarrow> (s, Some e)
                         | (s, None) \<Rightarrow>
                             (s\<lparr>ss_phase := Preparing (prepare_new (pr_groups (sv_prepare env)) (pr_flags (sv_prepare env)))\<rparr>, None)))))
      else (s, Some (SnError (PgUnexpectedStartupMessage typ))))"

definition handle_sasl ::
    "('t, 'f, 'p, 'v, 's, 'c) session_env \<Rightarrow> 'c answers \<Rightarrow> byte \<Rightarrow> bytes \<Rightarrow> scram_state \<Rightarrow> ('t, 'w, 'f, 'p, 'v) session \<Rightarrow>
       ('t, 'w, 'f, 'p, 'v, 'c) turn" where
  "handle_sasl env ans typ data st s =
     (if typ \<noteq> 0x52 then (s, Some (SnError (PgUnexpectedSaslMessage typ)))
      else (case auth_decode data of
          Inl e \<Rightarrow> (s, Some (SnError e))
        | Inr (AuthSaslContinue data) \<Rightarrow>
            (case scram_begin (sv_compress env) (sv_base64 env) (an_full ans) st (sv_password env) data of
               Inl e \<Rightarrow> (s, Some (SnError e))
             | Inr st \<Rightarrow> drive_scram env ans st (s\<lparr>ss_phase := SaslPhase st\<rparr>))
        | Inr (AuthSaslFinal data) \<Rightarrow>
            (case verify_final (sv_base64 env) st data of
               Inl e \<Rightarrow> (s, Some (SnError e))
             | Inr st \<Rightarrow> (s\<lparr>ss_phase := SaslPhase st\<rparr>, None))
        | Inr AuthOk \<Rightarrow>
            (case scram_finish st of
               Inl e \<Rightarrow> (s, Some (SnError e))
             | Inr _ \<Rightarrow> (s\<lparr>ss_phase := AwaitingReady\<rparr>, None))
        | Inr _ \<Rightarrow> (s, Some (SnError (PgAuth (ReasonSession SaslState))))))"

section \<open>Preparation\<close>

text \<open>What a message of the server does to the preparation: the next phase, or \<open>None\<close> when the set is complete and
  the server is ready.\<close>

definition prepare_step ::
    "('t, 'f, 'p, 'v, 's, 'c) session_env \<Rightarrow> byte \<Rightarrow> bytes \<Rightarrow> prepare_phase \<Rightarrow> pg_error + prepare_phase option" where
  "prepare_step env typ data prep =
     (let groups = pr_groups (sv_prepare env);
          otherwise = Inl (if typ = 0x5A then PgProtocol (ReasonSession ReadyBeforeDescription) else PgUnexpectedEagerPrepareMessage typ)
      in case prep of
        LtreeParse next \<Rightarrow>
          if typ = 0x31 then bindr (payload_empty typ data) (\<lambda>_. Inr (Some (LtreeParameters next))) else otherwise
      | QueryParse cursor reg \<Rightarrow>
          if typ = 0x31 then bindr (payload_empty typ data) (\<lambda>_. Inr (Some (QueryParameters cursor reg))) else otherwise
      | LtreeParameters next \<Rightarrow>
          if typ = 0x74 then bindr (types_parameters data []) (\<lambda>_. Inr (Some (LtreeResult next))) else otherwise
      | QueryParameters cursor reg \<Rightarrow>
          if typ = 0x74 then
            (case cursor_metadata groups cursor of
               None \<Rightarrow> Inl PgUnreachable
             | Some m \<Rightarrow> bindr (types_parameters data (qm_oids m)) (\<lambda>_. Inr (Some (QueryResult cursor reg))))
          else otherwise
      | LtreeResult next \<Rightarrow>
          if typ = 0x54 then bindr (ltree_oid data) (\<lambda>oid. Inr (Some (prepare_register next oid)))
          else if typ = 0x6E then Inl (PgProtocol (ReasonSession LtreeMissing))
          else otherwise
      | QueryResult cursor reg \<Rightarrow>
          if typ = 0x54 then
            bindr (list_validate (sv_types env) (cu_group cursor) (cu_query cursor) data reg) (\<lambda>_.
            Inr (Some (prepare_resume (catalog_next groups cursor) reg)))
          else if typ = 0x6E then
            (case cursor_metadata groups cursor of
               None \<Rightarrow> Inl PgUnreachable
             | Some m \<Rightarrow>
                 if qm_kind m = KindRows \<or> data \<noteq> [] then Inl (PgProtocol (ReasonSession NoDataMismatch))
                 else Inr (Some (prepare_resume (catalog_next groups cursor) reg)))
          else otherwise
      | PrepareComplete \<Rightarrow>
          if typ = 0x5A then
            bindr (payload_ready_status data) (\<lambda>status.
            if status = TxIdle then Inr None else Inl (PgProtocol (ReasonSession ReadyUnknown)))
          else otherwise)"

definition session_prepare ::
    "('t, 'f, 'p, 'v, 's, 'c) session_env \<Rightarrow> 'c answers \<Rightarrow> byte \<Rightarrow> bytes \<Rightarrow> prepare_phase \<Rightarrow> ('t, 'w, 'f, 'p, 'v) session \<Rightarrow>
       ('t, 'w, 'f, 'p, 'v, 'c) turn" where
  "session_prepare env ans typ data prep s =
     (if typ = 0x53 then (case payload_parameter data of Inl e \<Rightarrow> (s, Some (SnError e)) | Inr _ \<Rightarrow> (s, None))
      else case prepare_step env typ data prep of
          Inl e \<Rightarrow> (s, Some (SnError e))
        | Inr (Some next) \<Rightarrow> (s\<lparr>ss_phase := Preparing next\<rparr>, None)
        | Inr None \<Rightarrow>
            (case an_depth ans of
               None \<Rightarrow> (s, Some (SnError (PgProtocol (ReasonSession PrepareReplies))))
             | Some depth \<Rightarrow>
                 if depth \<noteq> 0 then (s, Some (SnError (PgProtocol (ReasonSession PrepareRetained))))
                 else (case ready_try_ready (sv_links env) (sv_index env) (ss_pool s) (sv_conn env) of
                     Inl e \<Rightarrow> (s, Some (SnError (PgProtocol e)))
                   | Inr p \<Rightarrow> (s\<lparr>ss_pool := p, ss_phase := SessionReady\<rparr>, None))))"

section \<open>Messages\<close>

definition handshake_error ::
    "('t, 'f, 'p, 'v, 's, 'c) session_env \<Rightarrow> 'c answers \<Rightarrow> diag_plan \<Rightarrow> ('t, 'w, 'f, 'p, 'v) session \<Rightarrow> ('t, 'w, 'f, 'p, 'v) session option" where
  "handshake_error env ans plan s =
     (let handshake = Some (case an_retain ans of
            Some c \<Rightarrow> session_fail env s (SnRetention c)
          | None \<Rightarrow> fail_server env s (dp_class plan))
      in case ss_phase s of
           StartupSent \<Rightarrow> handshake
         | AwaitingReady \<Rightarrow> handshake
         | SaslPhase _ \<Rightarrow> handshake
         | Preparing _ \<Rightarrow> handshake
         | NeedsStartup \<Rightarrow> Some s
         | SessionFailed \<Rightarrow> Some s
         | _ \<Rightarrow> None)"

definition response ::
    "('t, 'f, 'p, 'v, 's, 'c) session_env \<Rightarrow> 'c answers \<Rightarrow> byte \<Rightarrow> bytes \<Rightarrow> ('t, 'w, 'f, 'p, 'v) session \<Rightarrow> ('t, 'w, 'f, 'p, 'v) session option" where
  "response env ans typ data s =
     (if typ = 0x45 then
        (case plan_parse data of Inl e \<Rightarrow> Some (session_fail env s (SnError e)) | Inr plan \<Rightarrow> handshake_error env ans plan s)
      else if typ = 0x4E then
        Some (case diag_try_parse data of Inl e \<Rightarrow> session_fail env s (SnError e) | Inr _ \<Rightarrow> s)
      else case ss_phase s of
          StartupSent \<Rightarrow> Some (turn_end env (startup env ans typ data s))
        | AwaitingReady \<Rightarrow> Some (turn_end env (startup env ans typ data s))
        | SaslPhase st \<Rightarrow> Some (turn_end env (handle_sasl env ans typ data st s))
        | Preparing prep \<Rightarrow> Some (turn_end env (session_prepare env ans typ data prep s))
        | NeedsStartup \<Rightarrow> Some s
        | SessionFailed \<Rightarrow> Some s
        | _ \<Rightarrow> None)"

text \<open>The end of a turn: a derivation goes on.\<close>

definition flush ::
    "('t, 'f, 'p, 'v, 's, 'c) session_env \<Rightarrow> 'c answers \<Rightarrow> ('t, 'w, 'f, 'p, 'v) session \<Rightarrow> ('t, 'w, 'f, 'p, 'v) session option" where
  "flush env ans s =
     (case ss_phase s of
        SaslPhase st \<Rightarrow> Some (turn_end env (drive_scram env ans st s))
      | SessionReady \<Rightarrow> None
      | CopyInActive \<Rightarrow> None
      | CopyOutActive \<Rightarrow> None
      | _ \<Rightarrow> Some s)"

end
