(* ===== verification/Pg_Session_Spec.thy ===== *)
theory Pg_Session_Spec
  imports Pg_Session Pg_Prepare_Spec
begin

text \<open>
  What the handshake requires of the server: the messages that a preparation accepts are exactly the replies to
  the statements of the set, in order, behind those to the probe when there is one.
\<close>

type_synonym message = "byte \<times> bytes"

section \<open>The transcript of a preparation\<close>

inductive prepare_msgs :: "('t, 'f, 'p, 'v, 's, 'c) session_env \<Rightarrow> message list \<Rightarrow> prepare_phase \<Rightarrow> bool" for env where
  none: "prepare_msgs env [] (prepare_new (pr_groups (sv_prepare env)) (pr_flags (sv_prepare env)))"
| more: "prepare_msgs env P p \<Longrightarrow> prepare_step env typ data p = Inr (Some q) \<Longrightarrow> prepare_msgs env (P @ [(typ, data)]) q"

definition walk :: "('t, 'f, 'p, 'v, 's, 'c) session_env \<Rightarrow> nat \<Rightarrow> catalog_step" where
  "walk env k = (catalog_advance (pr_groups (sv_prepare env)) ^^ k) (catalog_first (pr_groups (sv_prepare env)))"

definition query_count :: "('t, 'f, 'p, 'v, 's, 'c) session_env \<Rightarrow> nat" where
  "query_count env = length (concat (pr_groups (sv_prepare env)))"

text \<open>The replies to the statement of the query at a cursor: parsed, its parameters, and its rows or none.\<close>

definition reply_ok :: "('t, 'f, 'p, 'v, 's, 'c) session_env \<Rightarrow> registry \<Rightarrow> cursor_at \<Rightarrow> message list \<Rightarrow> bool" where
  "reply_ok env reg c ms \<longleftrightarrow>
     (\<exists>m pd r. cursor_metadata (pr_groups (sv_prepare env)) c = Some m \<and> ms = [(0x31, []), (0x74, pd), r] \<and>
        types_parameters pd (qm_oids m) = Inr () \<and>
        ((\<exists>rd. r = (0x54, rd) \<and> list_validate (sv_types env) (cu_group c) (cu_query c) rd reg = Inr ()) \<or>
         r = (0x6E, []) \<and> qm_kind m \<noteq> KindRows))"

definition replies_ok :: "('t, 'f, 'p, 'v, 's, 'c) session_env \<Rightarrow> registry \<Rightarrow> message list list \<Rightarrow> bool" where
  "replies_ok env reg replies \<longleftrightarrow>
     (\<forall>k < length replies. \<exists>c. walk env k = StepQuery c \<and> reply_ok env reg c (replies ! k))"

definition probe_ok :: "('t, 'f, 'p, 'v, 's, 'c) session_env \<Rightarrow> message list \<Rightarrow> registry \<Rightarrow> bool" where
  "probe_ok env probe reg \<longleftrightarrow>
     (if has_ltree (pr_flags (sv_prepare env)) then
        (\<exists>pd od oid. probe = [(0x31, []), (0x74, pd), (0x54, od)] \<and> types_parameters pd [] = Inr () \<and> ltree_oid od = Inr oid \<and>
           reg = registry_with_ltree registry_default oid)
      else probe = [] \<and> reg = registry_default)"

definition transcript :: "('t, 'f, 'p, 'v, 's, 'c) session_env \<Rightarrow> message list \<Rightarrow> bool" where
  "transcript env P \<longleftrightarrow>
     (\<exists>probe reg replies. P = probe @ concat replies \<and> probe_ok env probe reg \<and> length replies = query_count env \<and>
        replies_ok env reg replies)"

lemma walk_0 [simp]: "walk env 0 = catalog_first (pr_groups (sv_prepare env))"
  by (simp add: walk_def)

lemma walk_Suc: "walk env k = StepQuery c \<Longrightarrow> walk env (Suc k) = catalog_next (pr_groups (sv_prepare env)) c"
  by (simp add: walk_def)

lemma walk_query: "k < query_count env \<Longrightarrow> \<exists>c. walk env k = StepQuery c"
  using catalog_walk_step[of "pr_groups (sv_prepare env)" k]
  by (auto simp: walk_def query_count_def step_at_def simp del: length_concat split: catalog_step.splits)

lemma walk_bound: "walk env k = StepQuery c \<Longrightarrow> k < query_count env"
proof -
  assume w: "walk env k = StepQuery c"
  then have "valid_at (pr_groups (sv_prepare env)) c" "offset_of (pr_groups (sv_prepare env)) c = min k (query_count env)"
    using catalog_walk_step[of "pr_groups (sv_prepare env)" k] by (auto simp: walk_def query_count_def step_at_def simp del: length_concat)
  with valid_at_concat[of "pr_groups (sv_prepare env)" c] show ?thesis by (auto simp: query_count_def min_def simp del: length_concat split: if_splits)
qed

lemma walk_complete: "walk env (query_count env) = StepComplete"
  using walk_bound[of env "query_count env"] by (cases "walk env (query_count env)") auto

section \<open>The messages accepted\<close>

lemma replies_snoc:
  "replies_ok env reg (replies @ [ms]) \<longleftrightarrow>
     replies_ok env reg replies \<and> (\<exists>c. walk env (length replies) = StepQuery c \<and> reply_ok env reg c ms)"
  by (auto simp: replies_ok_def nth_append less_Suc_eq)

text \<open>Where a preparation stands after the messages \<open>P\<close>.\<close>

definition stands :: "('t, 'f, 'p, 'v, 's, 'c) session_env \<Rightarrow> message list \<Rightarrow> prepare_phase \<Rightarrow> bool" where
  "stands env P p \<longleftrightarrow>
     (let behind = (\<lambda>reg step ms. \<exists>probe replies. P = probe @ concat replies @ ms \<and> probe_ok env probe reg \<and>
            replies_ok env reg replies \<and> walk env (length replies) = step)
      in case p of
        LtreeParse next \<Rightarrow> has_ltree (pr_flags (sv_prepare env)) \<and> next = walk env 0 \<and> P = []
      | LtreeParameters next \<Rightarrow> has_ltree (pr_flags (sv_prepare env)) \<and> next = walk env 0 \<and> P = [(0x31, [])]
      | LtreeResult next \<Rightarrow> has_ltree (pr_flags (sv_prepare env)) \<and> next = walk env 0 \<and>
          (\<exists>pd. P = [(0x31, []), (0x74, pd)] \<and> types_parameters pd [] = Inr ())
      | QueryParse c reg \<Rightarrow> behind reg (StepQuery c) []
      | QueryParameters c reg \<Rightarrow> behind reg (StepQuery c) [(0x31, [])]
      | QueryResult c reg \<Rightarrow> (\<exists>pd m. cursor_metadata (pr_groups (sv_prepare env)) c = Some m \<and> types_parameters pd (qm_oids m) = Inr () \<and>
          behind reg (StepQuery c) [(0x31, []), (0x74, pd)])
      | PrepareComplete \<Rightarrow> \<exists>reg. behind reg StepComplete [])"

lemma stands_resume:
  assumes "P = probe @ concat replies" and "probe_ok env probe reg" and "replies_ok env reg replies"
  shows "stands env P (prepare_resume (walk env (length replies)) reg)"
proof (cases "walk env (length replies)")
  case (StepQuery c)
  with assms show ?thesis by (auto simp: stands_def prepare_resume_def)
next
  case StepComplete
  with assms show ?thesis by (auto simp: stands_def prepare_resume_def)
qed

lemma stands_new: "stands env [] (prepare_new (pr_groups (sv_prepare env)) (pr_flags (sv_prepare env)))"
proof (cases "has_ltree (pr_flags (sv_prepare env))")
  case True
  then show ?thesis by (simp add: prepare_new_def stands_def Let_def)
next
  case False
  then show ?thesis using stands_resume[of "[]" "[]" "[]" env registry_default]
    by (simp add: prepare_new_def Let_def probe_ok_def replies_ok_def)
qed

lemma stands_step:
  assumes "stands env P p" and "prepare_step env typ data p = Inr (Some q)"
  shows "stands env (P @ [(typ, data)]) q"
proof (cases p)
  case (LtreeParse step)
  with assms show ?thesis by (auto simp: prepare_step_def stands_def Let_def bindr_Inr_iff split: if_splits)
next
  case (LtreeParameters step)
  with assms show ?thesis by (auto simp: prepare_step_def stands_def Let_def bindr_Inr_iff split: if_splits)
next
  case (LtreeResult step)
  with assms obtain oid pd where q: "q = prepare_register (walk env 0) oid" "typ = 0x54" "ltree_oid data = Inr oid"
    "P = [(0x31, []), (0x74, pd)]" "types_parameters pd [] = Inr ()" "has_ltree (pr_flags (sv_prepare env))"
    by (auto simp: prepare_step_def stands_def Let_def bindr_Inr_iff split: if_splits)
  then show ?thesis
    using stands_resume[of "P @ [(typ, data)]" "P @ [(typ, data)]" "[]" env "registry_with_ltree registry_default oid"]
    by (simp add: prepare_register_def probe_ok_def replies_ok_def)
next
  case (QueryParse c reg)
  with assms show ?thesis by (fastforce simp: prepare_step_def stands_def Let_def bindr_Inr_iff split: if_splits)
next
  case (QueryParameters c reg)
  with assms show ?thesis by (fastforce simp: prepare_step_def stands_def Let_def bindr_Inr_iff split: if_splits option.splits)
next
  case (QueryResult c reg)
  then obtain pd m probe replies where s: "cursor_metadata (pr_groups (sv_prepare env)) c = Some m" "types_parameters pd (qm_oids m) = Inr ()"
    "P = probe @ concat replies @ [(0x31, []), (0x74, pd)]" "probe_ok env probe reg" "replies_ok env reg replies"
    "walk env (length replies) = StepQuery c"
    using assms(1) by (auto simp: stands_def)
  have r: "reply_ok env reg c [(0x31, []), (0x74, pd), (typ, data)]" and q: "q = prepare_resume (catalog_next (pr_groups (sv_prepare env)) c) reg"
    using assms(2) QueryResult s(1,2) by (auto simp: prepare_step_def Let_def bindr_Inr_iff reply_ok_def split: if_splits)
  have "replies_ok env reg (replies @ [[(0x31, []), (0x74, pd), (typ, data)]])" using s(5,6) r by (auto simp: replies_snoc)
  from stands_resume[OF _ s(4) this, of "P @ [(typ, data)]"] s(3,6) walk_Suc[OF s(6)] q show ?thesis by simp
next
  case PrepareComplete
  with assms(2) show ?thesis by (auto simp: prepare_step_def Let_def bindr_Inr_iff split: if_splits)
qed

lemma prepare_stands: "prepare_msgs env P p \<Longrightarrow> stands env P p"
  by (induction rule: prepare_msgs.induct) (auto intro: stands_new stands_step)

lemma stands_transcript: "stands env P PrepareComplete \<Longrightarrow> transcript env P"
proof -
  assume "stands env P PrepareComplete"
  then obtain reg probe replies where s: "P = probe @ concat replies" "probe_ok env probe reg" "replies_ok env reg replies"
    "walk env (length replies) = StepComplete"
    by (auto simp: stands_def)
  have "\<not> length replies < query_count env" using walk_query s(4) by (metis catalog_step.distinct(1))
  moreover have "length replies \<le> query_count env"
  proof (cases "length replies")
    case (Suc n)
    then obtain c where "walk env n = StepQuery c" using s(3) by (auto simp: replies_ok_def)
    from walk_bound[OF this] Suc show ?thesis by simp
  qed simp
  ultimately have "length replies = query_count env" by simp
  with s(1-3) show ?thesis unfolding transcript_def by blast
qed

text \<open>Conversely every transcript is accepted message by message.\<close>

lemma reply_accepted:
  assumes "prepare_msgs env P (QueryParse c reg)" and "reply_ok env reg c ms"
  shows "prepare_msgs env (P @ ms) (prepare_resume (catalog_next (pr_groups (sv_prepare env)) c) reg)"
proof -
  obtain m pd ty data where m: "cursor_metadata (pr_groups (sv_prepare env)) c = Some m" "ms = [(0x31, []), (0x74, pd), (ty, data)]"
    "types_parameters pd (qm_oids m) = Inr ()"
    "ty = 0x54 \<and> list_validate (sv_types env) (cu_group c) (cu_query c) data reg = Inr () \<or> ty = 0x6E \<and> data = [] \<and> qm_kind m \<noteq> KindRows"
    using assms(2) by (auto simp: reply_ok_def)
  have "prepare_msgs env (P @ [(0x31, [])]) (QueryParameters c reg)"
    by (rule prepare_msgs.more[OF assms(1)]) (simp add: prepare_step_def Let_def payload_empty_def)
  then have "prepare_msgs env ((P @ [(0x31, [])]) @ [(0x74, pd)]) (QueryResult c reg)"
    by (rule prepare_msgs.more) (use m in \<open>simp add: prepare_step_def Let_def\<close>)
  then have "prepare_msgs env (((P @ [(0x31, [])]) @ [(0x74, pd)]) @ [(ty, data)]) (prepare_resume (catalog_next (pr_groups (sv_prepare env)) c) reg)"
    by (rule prepare_msgs.more) (use m(1,4) in \<open>auto simp: prepare_step_def Let_def\<close>)
  then show ?thesis using m(2) by simp
qed

lemma probe_accepted:
  assumes "probe_ok env probe reg"
  shows "prepare_msgs env probe (prepare_resume (walk env 0) reg)"
proof (cases "has_ltree (pr_flags (sv_prepare env))")
  case True
  then obtain pd od oid where p: "probe = [(0x31, []), (0x74, pd), (0x54, od)]" "types_parameters pd [] = Inr ()" "ltree_oid od = Inr oid"
    "reg = registry_with_ltree registry_default oid" using assms by (auto simp: probe_ok_def)
  have "prepare_msgs env [] (LtreeParse (walk env 0))" using prepare_msgs.none[of env] True by (simp add: prepare_new_def Let_def)
  then have "prepare_msgs env ([] @ [(0x31, [])]) (LtreeParameters (walk env 0))"
    by (rule prepare_msgs.more) (simp add: prepare_step_def Let_def payload_empty_def)
  then have "prepare_msgs env (([] @ [(0x31, [])]) @ [(0x74, pd)]) (LtreeResult (walk env 0))"
    by (rule prepare_msgs.more) (simp add: prepare_step_def Let_def p)
  then have "prepare_msgs env ((([] @ [(0x31, [])]) @ [(0x74, pd)]) @ [(0x54, od)]) (prepare_register (walk env 0) oid)"
    by (rule prepare_msgs.more) (simp add: prepare_step_def Let_def p)
  then show ?thesis by (simp add: p prepare_register_def)
next
  case False
  with assms prepare_msgs.none[of env] show ?thesis by (simp add: prepare_new_def Let_def probe_ok_def)
qed

lemma transcript_accepted:
  assumes "transcript env P"
  shows "prepare_msgs env P PrepareComplete"
proof -
  obtain probe reg replies where t: "P = probe @ concat replies" "probe_ok env probe reg" "length replies = query_count env" "replies_ok env reg replies"
    using assms by (auto simp: transcript_def)
  have "prepare_msgs env (probe @ concat (take k replies)) (prepare_resume (walk env k) reg)" if "k \<le> length replies" for k
    using that
  proof (induction k)
    case 0
    then show ?case using probe_accepted[OF t(2)] by simp
  next
    case (Suc k)
    then have "k < length replies" by simp
    then obtain c where c: "walk env k = StepQuery c" "reply_ok env reg c (replies ! k)" using t(4) unfolding replies_ok_def by blast
    have "prepare_msgs env (probe @ concat (take k replies)) (QueryParse c reg)"
      using Suc c(1) by (simp add: prepare_resume_def)
    from reply_accepted[OF this c(2)] Suc.prems walk_Suc[OF c(1)] show ?case
      by (simp add: take_Suc_conv_app_nth)
  qed
  from this[of "length replies"] t walk_complete[of env] show ?thesis by (simp add: prepare_resume_def)
qed

lemma prepare_transcript: "prepare_msgs env P PrepareComplete \<longleftrightarrow> transcript env P"
  using prepare_stands stands_transcript transcript_accepted by blast

end
