(* ===== verification/Pg_Session_Run.thy ===== *)
theory Pg_Session_Run
  imports Pg_Session_Spec
begin

text \<open>
  Runs of a connection's handshake: the messages the server sends, the ends of turns and what other connections do
  to the shared pool and key derivation, in any order, and the invariant that ties the phase of the connection to
  the messages received.
\<close>

section \<open>Runs\<close>

text \<open>The key whose derivation is polled by a message: that of the first server message it brings.\<close>

definition begun :: "('t, 'f, 'p, 'v, 's, 'c) session_env \<Rightarrow> 'c answers \<Rightarrow> byte \<Rightarrow> bytes \<Rightarrow> session_phase \<Rightarrow> scram_state option" where
  "begun env ans typ data phase =
     (case (phase, auth_decode data) of
        (SaslPhase st, Inr (AuthSaslContinue first)) \<Rightarrow>
          if typ \<noteq> 0x52 then None
          else (case scram_begin (sv_compress env) (sv_base64 env) (an_full ans) st (sv_password env) first of
                  Inr st \<Rightarrow> Some st
                | Inl _ \<Rightarrow> None)
      | _ \<Rightarrow> None)"

text \<open>The shared key derivation is in a state its own operations lead to, and the ticket of this connection is for
  its password and the key of its exchange.\<close>

definition kdf_serves :: "('t, 'f, 'p, 'v, 's, 'c) session_env \<Rightarrow> 'v runtime \<Rightarrow> scram_state \<Rightarrow> bool" where
  "kdf_serves env rt st \<longleftrightarrow>
     (case scram_deriving st of
        None \<Rightarrow> True
      | Some d \<Rightarrow> length (kk_first (dv_key d)) = 32 \<longrightarrow>
          (\<exists>pwd keyof. runtime_ok (sv_compress env) pwd (sv_waiters env) keyof rt \<and>
             keyof (sv_slot env) = dv_key d \<and> pwd (dv_key d) = sv_password env))"

definition entropy_ok :: "'c answers \<Rightarrow> bool" where
  "entropy_ok ans \<longleftrightarrow> (case an_entropy ans of Inl _ \<Rightarrow> True | Inr raw \<Rightarrow> length raw = 18)"

inductive session_run ::
    "('t, 'f, 'p, 'v, 's, 'c) session_env \<Rightarrow> message list \<Rightarrow> ('t, 'w, 'f, 'p, 'v) session \<Rightarrow> bool" for env where
  started: "session_run env [] (connect env ans s)"
| received: "session_run env tr s \<Longrightarrow> entropy_ok ans \<Longrightarrow> pred_option (kdf_serves env (ss_kdf s)) (begun env ans typ data (ss_phase s)) \<Longrightarrow>
    response env ans typ data s = Some s' \<Longrightarrow> session_run env (tr @ [(typ, data)]) s'"
| flushed: "session_run env tr s \<Longrightarrow> (\<And>st. ss_phase s = SaslPhase st \<Longrightarrow> kdf_serves env (ss_kdf s) st) \<Longrightarrow>
    flush env ans s = Some s' \<Longrightarrow> session_run env tr s'"
| others: "session_run env tr s \<Longrightarrow> session_run env tr (s\<lparr>ss_pool := p, ss_kdf := rt\<rparr>)"

section \<open>What the server has shown\<close>

text \<open>Notices, parameters and key data are received in passing.\<close>

definition core :: "message list \<Rightarrow> message list" where
  "core tr = filter (\<lambda>(typ, _). typ \<noteq> 0x4E \<and> typ \<noteq> 0x53 \<and> typ \<noteq> 0x4B) tr"

definition ready_message :: message where
  "ready_message = (0x5A, [0x49])"

text \<open>The messages of an exchange that the client of nonce \<open>client\<close> goes along with, up to a state.\<close>

definition sasl_offer :: "bytes \<Rightarrow> bool" where
  "sasl_offer d \<longleftrightarrow> (\<exists>offered. auth_decode d = Inr (AuthSasl offered) \<and> mechanisms_pick offered = Inr mech_name)"

definition sasl_first ::
    "('t, 'f, 'p, 'v, 's, 'c) session_env \<Rightarrow> bytes \<Rightarrow> bytes \<Rightarrow> deriving \<Rightarrow> bytes \<Rightarrow> bool" where
  "sasl_first env client d dv sig \<longleftrightarrow>
     (\<exists>nonce salt ds n exts. first_accepted (sv_base64 env) client nonce salt ds n exts \<and>
        auth_decode d = Inr (AuthSaslContinue (first_text nonce salt n exts)) \<and>
        dv = first_deriving (sv_compress env) (sv_password env) nonce salt ds n exts \<and>
        sig = server_signature (sv_compress env) (sv_password env) client (concat ds) n (first_text nonce salt n exts) nonce)"

definition sasl_final :: "('t, 'f, 'p, 'v, 's, 'c) session_env \<Rightarrow> bytes \<Rightarrow> bytes \<Rightarrow> bool" where
  "sasl_final env d sig \<longleftrightarrow>
     (\<exists>fin v. auth_decode d = Inr (AuthSaslFinal fin) \<and> parse_server_final fin = Inr (FinalVerifier v) \<and>
        b6_decode (sv_base64 env) 33 v = Inr sig)"

definition sasl_at :: "('t, 'f, 'p, 'v, 's, 'c) session_env \<Rightarrow> message list \<Rightarrow> scram_state \<Rightarrow> bool" where
  "sasl_at env A st \<longleftrightarrow>
     (case st of
        AwaitServerFirst client \<Rightarrow> length client = 24 \<and> (\<exists>d1. A = [(0x52, d1)] \<and> sasl_offer d1)
      | Deriving dv \<Rightarrow> (\<exists>client d1 d2 sig. length client = 24 \<and> A = [(0x52, d1), (0x52, d2)] \<and> sasl_offer d1 \<and>
          sasl_first env client d2 dv sig)
      | AwaitServerFinal sig \<Rightarrow> (\<exists>client d1 d2 dv. length client = 24 \<and> A = [(0x52, d1), (0x52, d2)] \<and> sasl_offer d1 \<and>
          sasl_first env client d2 dv sig)
      | Complete \<Rightarrow> (\<exists>client d1 d2 d3 dv sig. length client = 24 \<and> A = [(0x52, d1), (0x52, d2), (0x52, d3)] \<and>
          sasl_offer d1 \<and> sasl_first env client d2 dv sig \<and> sasl_final env d3 sig))"

text \<open>An authentication: none asked for, or a complete exchange whose last proof is the server's.\<close>

definition authenticated :: "('t, 'f, 'p, 'v, 's, 'c) session_env \<Rightarrow> message list \<Rightarrow> bool" where
  "authenticated env A \<longleftrightarrow>
     (\<exists>d. A = [(0x52, d)] \<and> auth_decode d = Inr AuthOk) \<or>
     (\<exists>B d. A = B @ [(0x52, d)] \<and> sasl_at env B Complete \<and> auth_decode d = Inr AuthOk)"

definition session_inv :: "('t, 'f, 'p, 'v, 's, 'c) session_env \<Rightarrow> message list \<Rightarrow> session_phase \<Rightarrow> bool" where
  "session_inv env C phase \<longleftrightarrow>
     (case phase of
        StartupSent \<Rightarrow> C = []
      | SaslPhase st \<Rightarrow> sasl_at env C st
      | AwaitingReady \<Rightarrow> authenticated env C
      | Preparing p \<Rightarrow> (\<exists>A P. C = A @ [ready_message] @ P \<and> authenticated env A \<and> prepare_msgs env P p)
      | SessionReady \<Rightarrow> (\<exists>A P. C = A @ [ready_message] @ P @ [ready_message] \<and> authenticated env A \<and> transcript env P)
      | SessionFailed \<Rightarrow> True
      | _ \<Rightarrow> False)"

section \<open>Steps keep the invariant\<close>

lemma core_append [simp]: "core (tr @ [(typ, data)]) = core tr @ core [(typ, data)]" and core_Nil [simp]: "core [] = []"
  by (simp_all add: core_def)

lemma core_kept: "typ \<noteq> 0x4E \<Longrightarrow> typ \<noteq> 0x53 \<Longrightarrow> typ \<noteq> 0x4B \<Longrightarrow> core [(typ, data)] = [(typ, data)]"
  by (simp add: core_def)

lemma failed_inv: "session_inv env C (ss_phase (session_fail env s e))" "session_inv env C (ss_phase (fail_server env s c))"
  by (simp_all add: session_fail_def fail_server_def finish_failure_def session_inv_def Let_def)

lemma turn_end_inv:
  assumes "\<And>s'. r = (s', None) \<Longrightarrow> session_inv env C (ss_phase s')"
  shows "session_inv env C (ss_phase (turn_end env r))"
  using assms by (cases r; cases "snd r") (auto simp: turn_end_def failed_inv)

lemma enqueue_kept: "enqueue ans frame s = (s', None) \<Longrightarrow> ss_phase s' = ss_phase s \<and> ss_kdf s' = ss_kdf s \<and> ss_pool s' = ss_pool s"
  by (auto simp: enqueue_def split: option.splits)

lemma connect_inv: "session_inv env [] (ss_phase (connect env ans s))"
  by (auto simp: connect_def Let_def failed_inv enqueue_def session_inv_def[of _ _ StartupSent] split: sum.split prod.split option.split)

lemma mechanisms_pick_Inr: "mechanisms_pick offered = Inr m \<Longrightarrow> m = mech_name"
  by (simp add: mechanisms_pick_def split: mechanisms.splits)

lemma encode_nonce_length: "length (b6_encode B raw) \<le> 24 \<Longrightarrow> length (encode_nonce B raw) = 24"
  by (simp add: encode_nonce_def copy_at_def)

lemma start_sasl_inv:
  assumes "start_sasl env ans offered s = (s', None)" and "entropy_ok ans"
    and b: "\<And>raw. length raw = 18 \<Longrightarrow> length (b6_encode (sv_base64 env) raw) \<le> 24"
    and d: "auth_decode data = Inr (AuthSasl offered)"
  shows "session_inv env [(0x52, data)] (ss_phase s')"
proof -
  obtain mode raw where m: "mechanisms_pick offered = Inr mode" "an_entropy ans = Inr raw"
    and s: "ss_phase s' = SaslPhase (AwaitServerFirst (encode_nonce (sv_base64 env) raw))"
    using assms(1) by (auto simp: start_sasl_def Let_def split: sum.splits option.splits prod.splits)
  have "length raw = 18" using assms(2) m by (simp add: entropy_ok_def)
  with m(1) mechanisms_pick_Inr[OF m(1)] d s encode_nonce_length[OF b] show ?thesis
    by (auto simp: session_inv_def sasl_at_def sasl_offer_def)
qed

lemma andthen_Inr: "andthen f g s = Inr (s', b) \<longleftrightarrow> (\<exists>s1 a. f s = Inr (s1, a) \<and> g a s1 = Inr (s', b))"
  by (auto simp: andthen_def bindr_Inr_iff)

lemma build_frame_final:
  "build_frame env ans (wr_sasl_final S write) = Inr (frame, a) \<Longrightarrow> \<exists>s s'. write s = Inr (s', a)"
  by (auto simp: build_frame_def wr_sasl_final_def wr_patch_def andthen_Inr bindr_Inr_iff map_err_Inr_iff split: if_splits option.splits)

lemma write_final_signature:
  assumes W: "words_ok cf" and n: "length client = 24" and a: "first_accepted B client nonce salt ds n exts"
    and w: "write_final cf B S (first_deriving cf pw nonce salt ds n exts) (scram_keys cf (salted_password cf pw (concat ds) n)) s = Inr (s', Some sig)"
  shows "sig = server_signature cf pw client (concat ds) n (first_text nonce salt n exts) nonce"
proof -
  have t: "take 24 nonce = client" using a n by (simp add: first_accepted_def)
  have b: "rt_bytes (dv_server_first (first_deriving cf pw nonce salt ds n exts)) = first_text nonce salt n exts"
    by (simp add: first_deriving_def)
  have "sig = hmac_auth_message cf (ks_server (scram_keys cf (salted_password cf pw (concat ds) n))) client (first_text nonce salt n exts) nonce"
    using w by (auto simp: write_final_def deriving_nonce b t Let_def andthen_Inr)
  then show ?thesis by (simp add: server_signature_def hmac_auth_message_ref[OF W] auth_message_def)
qed

lemma drive_scram_inv:
  assumes W: "words_ok (sv_compress env)" and L: "waiters_laws (sv_waiters env)"
    and d: "drive_scram env ans st s = (s', None)" and p: "ss_phase s = SaslPhase st" and i: "sasl_at env C st"
    and k: "kdf_serves env (ss_kdf s) st"
  shows "session_inv env C (ss_phase s')"
proof (cases "scram_deriving st")
  case None
  with d p i show ?thesis by (auto simp: drive_scram_def session_inv_def)
next
  case (Some dv)
  then have st: "st = Deriving dv" by (cases st) (simp_all add: scram_deriving_def)
  with i obtain client d1 d2 nonce salt ds n exts where c: "length client = 24" "C = [(0x52, d1), (0x52, d2)]" "sasl_offer d1"
    and a: "first_accepted (sv_base64 env) client nonce salt ds n exts" "auth_decode d2 = Inr (AuthSaslContinue (first_text nonce salt n exts))"
    and dv: "dv = first_deriving (sv_compress env) (sv_password env) nonce salt ds n exts"
    by (auto simp: sasl_at_def sasl_first_def)
  have l: "length (kk_first (dv_key dv)) = 32" by (simp add: dv first_deriving_def length_hmac_ref[OF W])
  with k Some obtain pwd keyof where r: "runtime_ok (sv_compress env) pwd (sv_waiters env) keyof (ss_kdf s)"
    "keyof (sv_slot env) = dv_key dv" "pwd (dv_key dv) = sv_password env"
    by (auto simp: kdf_serves_def)
  obtain rt woken result where poll: "ticket_poll (sv_compress env) (sv_waiters env) (ss_kdf s) (sv_slot env) (dv_key dv) (sv_password env) = (rt, woken, result)"
    by (metis prod_cases3)
  from poll_ok[OF W L r(1), of "sv_slot env" rt woken result] r(2,3) l poll
  have "result = Pending \<or> result = Keys (scram_keys (sv_compress env) (salted_password (sv_compress env) (sv_password env) (concat ds) n))"
    by (simp add: salted_password_def dv first_deriving_def)
  then show ?thesis
  proof
    assume "result = Pending"
    with d Some poll have "s' = s\<lparr>ss_kdf := rt\<rparr>" by (simp add: drive_scram_def)
    with p i show ?thesis by (simp add: session_inv_def)
  next
    assume ks: "result = Keys (scram_keys (sv_compress env) (salted_password (sv_compress env) (sv_password env) (concat ds) n))"
    let ?w = "write_final (sv_compress env) (sv_base64 env) (sv_spare env) dv (scram_keys (sv_compress env) (salted_password (sv_compress env) (sv_password env) (concat ds) n))"
    from d Some poll ks obtain frame sig where f: "build_frame env ans (wr_sasl_final (sv_spare env) ?w) = Inr (frame, Some sig)"
      and e: "enqueue ans frame (s\<lparr>ss_kdf := rt, ss_phase := SaslPhase (await_final sig)\<rparr>) = (s', None)"
      by (auto simp: drive_scram_def Let_def split: sum.splits option.splits)
    from build_frame_final[OF f] obtain t t' where "?w t = Inr (t', Some sig)" by blast
    from write_final_signature[OF W c(1) a(1) this[unfolded dv]]
    have "sasl_first env client d2 dv sig" unfolding sasl_first_def using a dv by blast
    with c have "sasl_at env C (AwaitServerFinal sig)" by (auto simp: sasl_at_def)
    with enqueue_kept[OF e] show ?thesis by (simp add: session_inv_def await_final_def)
  qed
qed

lemma handle_sasl_inv:
  assumes W: "words_ok (sv_compress env)" and L: "waiters_laws (sv_waiters env)"
    and h: "handle_sasl env ans typ data st s = (s', None)" and p: "ss_phase s = SaslPhase st" and i: "sasl_at env C st"
    and k: "pred_option (kdf_serves env (ss_kdf s)) (begun env ans typ data (ss_phase s))"
  shows "typ = 0x52 \<and> session_inv env (C @ [(typ, data)]) (ss_phase s')"
proof -
  have ty: "typ = 0x52" using h by (auto simp: handle_sasl_def split: if_splits)
  then obtain req where req: "auth_decode data = Inr req" using h by (auto simp: handle_sasl_def split: sum.splits)
  show ?thesis
  proof (cases req)
    case (AuthSaslContinue bs)
    then obtain st' where b: "scram_begin (sv_compress env) (sv_base64 env) (an_full ans) st (sv_password env) bs = Inr st'"
      and d: "drive_scram env ans st' (s\<lparr>ss_phase := SaslPhase st'\<rparr>) = (s', None)"
      using h req ty by (auto simp: handle_sasl_def split: sum.splits)
    from b obtain client where st: "st = AwaitServerFirst client" by (cases st) (simp_all add: scram_begin_def)
    with i have c: "length client = 24" "\<exists>d1. C = [(0x52, d1)] \<and> sasl_offer d1" by (simp_all add: sasl_at_def)
    from begin_only[OF W b[unfolded st]] obtain nonce salt ds n exts where f: "bs = first_text nonce salt n exts"
      "first_accepted (sv_base64 env) client nonce salt ds n exts"
      "st' = Deriving (first_deriving (sv_compress env) (sv_password env) nonce salt ds n exts)" by blast
    have "sasl_first env client data (first_deriving (sv_compress env) (sv_password env) nonce salt ds n exts)
        (server_signature (sv_compress env) (sv_password env) client (concat ds) n (first_text nonce salt n exts) nonce)"
      unfolding sasl_first_def using f req AuthSaslContinue by blast
    with c f(3) have "sasl_at env (C @ [(0x52, data)]) st'" by (auto simp: sasl_at_def)
    moreover have "kdf_serves env (ss_kdf s) st'" using k p req AuthSaslContinue ty b by (simp add: begun_def)
    ultimately show ?thesis using drive_scram_inv[OF W L d, of "C @ [(0x52, data)]"] ty by simp
  next
    case (AuthSaslFinal fin)
    then obtain st' where v: "verify_final (sv_base64 env) st fin = Inr st'" and s': "s' = s\<lparr>ss_phase := SaslPhase st'\<rparr>"
      using h req ty by (auto simp: handle_sasl_def split: sum.splits)
    from v obtain sig where st: "st = AwaitServerFinal sig" by (cases st) (simp_all add: verify_final_def)
    from v[unfolded st] obtain w where w: "parse_server_final fin = Inr (FinalVerifier w)" "b6_decode (sv_base64 env) 33 w = Inr sig" "st' = Complete"
      by (cases "parse_server_final fin"; cases "projr (parse_server_final fin)")
        (auto simp: verify_final_def bindr_Inr_iff map_err_Inr_iff split: if_splits)
    with i st req AuthSaslFinal ty have "sasl_at env (C @ [(0x52, data)]) Complete" by (auto simp: sasl_at_def sasl_final_def)
    with s' w ty show ?thesis by (simp add: session_inv_def)
  next
    case AuthOk
    with h req ty have "st = Complete" "s' = s\<lparr>ss_phase := AwaitingReady\<rparr>"
      by (auto simp: handle_sasl_def scram_finish_def split: sum.splits if_splits)
    with i req AuthOk ty show ?thesis by (auto simp: session_inv_def authenticated_def)
  qed (use h req ty in \<open>auto simp: handle_sasl_def\<close>)
qed


lemma startup_inv:
  assumes u: "startup env ans typ data s = (s', None)" and p: "ss_phase s = StartupSent \<or> ss_phase s = AwaitingReady"
    and i: "session_inv env (core tr) (ss_phase s)" and e: "entropy_ok ans" and n: "typ \<noteq> 0x4E"
    and b: "\<And>raw. length raw = 18 \<Longrightarrow> length (b6_encode (sv_base64 env) raw) \<le> 24"
  shows "session_inv env (core (tr @ [(typ, data)])) (ss_phase s')"
proof -
  consider "typ = 0x52" | "typ = 0x53 \<or> typ = 0x4B" | "typ = 0x5A"
    using u by (fastforce simp: startup_def split: if_splits)
  then show ?thesis
  proof cases
    case 1
    with u p have ph: "ss_phase s = StartupSent" by (auto simp: startup_def)
    with i have C: "core tr = []" by (simp add: session_inv_def)
    from 1 u ph obtain req where req: "auth_decode data = Inr req" by (auto simp: startup_def split: sum.splits)
    show ?thesis
    proof (cases req)
      case AuthOk
      with u 1 ph req have "s' = s\<lparr>ss_phase := AwaitingReady\<rparr>" by (simp add: startup_def)
      with 1 req AuthOk C show ?thesis by (simp add: core_kept session_inv_def authenticated_def)
    next
      case (AuthSasl offered)
      with u 1 ph req have "start_sasl env ans offered s = (s', None)" by (simp add: startup_def)
      from start_sasl_inv[OF this e b] req AuthSasl 1 C show ?thesis by (simp add: core_kept)
    qed (use u 1 ph req in \<open>simp_all add: startup_def\<close>)
  next
    case 2
    with u have "ss_phase s = AwaitingReady \<and> ss_phase s' = AwaitingReady" by (auto simp: startup_def split: if_splits sum.splits)
    with 2 i show ?thesis by (auto simp: core_def)
  next
    case 3
    with u have ph: "ss_phase s = AwaitingReady" by (auto simp: startup_def split: if_splits)
    have "payload_ready_status data = Inr TxIdle \<and> ss_phase s' = Preparing (prepare_new (pr_groups (sv_prepare env)) (pr_flags (sv_prepare env)))"
      using u 3 ph by (auto simp: startup_def split: sum.splits tx_status.splits prod.splits option.splits)
    moreover from this have "data = [0x49]" by (auto simp: payload_ready_status_def split: if_splits)
    moreover have "authenticated env (core tr)" using i ph by (simp add: session_inv_def)
    ultimately show ?thesis using 3 by (auto simp: core_kept session_inv_def ready_message_def intro: prepare_msgs.none)
  qed
qed

lemma session_prepare_inv:
  assumes u: "session_prepare env ans typ data prep s = (s', None)" and p: "ss_phase s = Preparing prep"
    and i: "session_inv env (core tr) (ss_phase s)" and n: "typ \<noteq> 0x4E"
  shows "session_inv env (core (tr @ [(typ, data)])) (ss_phase s')"
proof (cases "typ = 0x53")
  case True
  with u have "s' = s" by (auto simp: session_prepare_def split: sum.splits)
  with True i show ?thesis by (simp add: core_def)
next
  case False
  from i p obtain A P where c: "core tr = A @ [ready_message] @ P" "authenticated env A" "prepare_msgs env P prep"
    by (auto simp: session_inv_def)
  from u False obtain r where r: "prepare_step env typ data prep = Inr r" by (auto simp: session_prepare_def split: sum.splits)
  then have "typ \<noteq> 0x4B" by (auto simp: prepare_step_def Let_def split: prepare_phase.splits)
  with False n have k: "core (tr @ [(typ, data)]) = core tr @ [(typ, data)]" by (simp add: core_kept)
  show ?thesis
  proof (cases r)
    case None
    with r have d: "prep = PrepareComplete \<and> typ = 0x5A \<and> payload_ready_status data = Inr TxIdle"
      by (auto simp: prepare_step_def Let_def bindr_Inr_iff split: prepare_phase.splits if_splits option.splits)
    then have "(typ, data) = ready_message" by (auto simp: payload_ready_status_def ready_message_def split: if_splits)
    moreover have "transcript env P" using c(3) d by (simp add: prepare_transcript)
    moreover have "ss_phase s' = SessionReady" using u False r None
      by (auto simp: session_prepare_def split: option.splits if_splits sum.splits)
    ultimately show ?thesis using c(1,2) k by (auto simp: session_inv_def)
  next
    case (Some q)
    with u False r have "ss_phase s' = Preparing q" by (auto simp: session_prepare_def)
    moreover have "prepare_msgs env (P @ [(typ, data)]) q" using prepare_msgs.more[OF c(3)] r Some by simp
    ultimately show ?thesis using c(1,2) k by (auto simp: session_inv_def)
  qed
qed

lemma response_inv:
  assumes W: "words_ok (sv_compress env)" and L: "waiters_laws (sv_waiters env)"
    and b: "\<And>raw. length raw = 18 \<Longrightarrow> length (b6_encode (sv_base64 env) raw) \<le> 24"
    and u: "response env ans typ data s = Some s'" and i: "session_inv env (core tr) (ss_phase s)" and e: "entropy_ok ans"
    and k: "pred_option (kdf_serves env (ss_kdf s)) (begun env ans typ data (ss_phase s))"
  shows "session_inv env (core (tr @ [(typ, data)])) (ss_phase s')"
proof -
  consider (err) "typ = 0x45" | (info) "typ = 0x4E" | (other) "typ \<noteq> 0x45" "typ \<noteq> 0x4E" by blast
  then show ?thesis
  proof cases
    case err
    with u i have "ss_phase s' = SessionFailed \<or> ss_phase s' = NeedsStartup \<and> ss_phase s = NeedsStartup"
      by (auto simp: response_def handshake_error_def session_fail_def fail_server_def finish_failure_def Let_def
          split: sum.splits session_phase.splits option.splits)
    with i show ?thesis by (auto simp: session_inv_def)
  next
    case info
    with u i show ?thesis by (auto simp: response_def core_def failed_inv split: sum.splits)
  next
    case other
    show ?thesis
    proof (cases "ss_phase s")
      case StartupSent
      with u other have s': "s' = turn_end env (startup env ans typ data s)" by (simp add: response_def)
      show ?thesis unfolding s' by (rule turn_end_inv) (rule startup_inv[OF _ _ i e other(2) b], simp_all add: StartupSent)
    next
      case AwaitingReady
      with u other have s': "s' = turn_end env (startup env ans typ data s)" by (simp add: response_def)
      show ?thesis unfolding s' by (rule turn_end_inv) (rule startup_inv[OF _ _ i e other(2) b], simp_all add: AwaitingReady)
    next
      case (SaslPhase st)
      with u other have s': "s' = turn_end env (handle_sasl env ans typ data st s)" by (simp add: response_def)
      from i SaslPhase have a: "sasl_at env (core tr) st" by (simp add: session_inv_def)
      show ?thesis unfolding s'
      proof (rule turn_end_inv)
        fix t assume "handle_sasl env ans typ data st s = (t, None)"
        from handle_sasl_inv[OF W L this SaslPhase a k]
        show "session_inv env (core (tr @ [(typ, data)])) (ss_phase t)" by (auto simp: core_kept)
      qed
    next
      case (Preparing prep)
      with u other have s': "s' = turn_end env (session_prepare env ans typ data prep s)" by (simp add: response_def)
      show ?thesis unfolding s' by (rule turn_end_inv) (rule session_prepare_inv[OF _ Preparing i other(2)])
    qed (use u other i in \<open>auto simp: response_def session_inv_def\<close>)
  qed
qed

lemma flush_inv:
  assumes W: "words_ok (sv_compress env)" and L: "waiters_laws (sv_waiters env)"
    and u: "flush env ans s = Some s'" and i: "session_inv env C (ss_phase s)"
    and k: "\<And>st. ss_phase s = SaslPhase st \<Longrightarrow> kdf_serves env (ss_kdf s) st"
  shows "session_inv env C (ss_phase s')"
proof (cases "ss_phase s")
  case (SaslPhase st)
  with u have s': "s' = turn_end env (drive_scram env ans st s)" by (simp add: flush_def)
  from i SaslPhase have a: "sasl_at env C st" by (simp add: session_inv_def)
  show ?thesis unfolding s' by (rule turn_end_inv) (rule drive_scram_inv[OF W L _ SaslPhase a k[OF SaslPhase]])
qed (use u i in \<open>auto simp: flush_def\<close>)

lemma session_run_inv:
  assumes "session_run env tr s" and W: "words_ok (sv_compress env)" and L: "waiters_laws (sv_waiters env)"
    and b: "\<And>raw. length raw = 18 \<Longrightarrow> length (b6_encode (sv_base64 env) raw) \<le> 24"
  shows "session_inv env (core tr) (ss_phase s)"
  using assms(1)
proof induction
  case (started ans s)
  show ?case by (simp add: connect_inv)
next
  case (received tr s ans ty data s')
  from response_inv[OF W L b received(4,5,2,3)] show ?case by simp
next
  case (flushed tr s ans s')
  from flush_inv[OF W L flushed(3,4,2)] show ?case by simp
next
  case (others tr s p rt)
  then show ?case by simp
qed

section \<open>A server that conforms\<close>

fun responses ::
    "('t, 'f, 'p, 'v, 's, 'c) session_env \<Rightarrow> 'c answers \<Rightarrow> message list \<Rightarrow> ('t, 'w, 'f, 'p, 'v) session \<Rightarrow> ('t, 'w, 'f, 'p, 'v) session option" where
  "responses env ans [] s = Some s"
| "responses env ans ((typ, data) # ms) s = Option.bind (response env ans typ data s) (responses env ans ms)"

lemma responses_append: "responses env ans (xs @ ys) s = Option.bind (responses env ans xs s) (responses env ans ys)"
  by (induction xs arbitrary: s) (auto split: bind_splits)

lemma prepare_message:
  "prepare_step env typ data p = Inr (Some q) \<Longrightarrow> typ \<noteq> 0x45 \<and> typ \<noteq> 0x4E \<and> typ \<noteq> 0x53"
  by (auto simp: prepare_step_def Let_def split: prepare_phase.splits)

lemma responses_prepare:
  assumes "prepare_msgs env P p" and "ss_phase s = Preparing (prepare_new (pr_groups (sv_prepare env)) (pr_flags (sv_prepare env)))"
  shows "responses env ans P s = Some (s\<lparr>ss_phase := Preparing p\<rparr>)"
  using assms(1)
proof induction
  case none
  with assms(2) show ?case by simp
next
  case (more P p ty data q)
  from prepare_message[OF more(2)] more(2)
  have "response env ans ty data (s\<lparr>ss_phase := Preparing p\<rparr>) = Some (s\<lparr>ss_phase := Preparing q\<rparr>)"
    by (simp add: response_def session_prepare_def turn_end_def)
  with more(3) show ?case by (simp add: responses_append)
qed

lemma idle_status [simp]: "payload_ready_status [0x49] = Inr TxIdle"
  by (simp add: payload_ready_status_def)

lemma response_begin:
  assumes "ss_phase s = AwaitingReady" and "catalog_try_new (sv_types env) (pr_groups (sv_prepare env)) = Inr ()"
    and "an_load ans (pr_wire (sv_prepare env)) = None" and "an_egress ans (pr_wire (sv_prepare env)) = None"
  shows "response env ans 0x5A [0x49] s = Some (s\<lparr>ss_phase := Preparing (prepare_new (pr_groups (sv_prepare env)) (pr_flags (sv_prepare env))),
    ss_sent := ss_sent s @ [pr_wire (sv_prepare env)]\<rparr>)"
  using assms by (simp add: response_def startup_def turn_end_def enqueue_def)

lemma response_complete:
  assumes "ss_phase s = Preparing PrepareComplete" and "an_depth ans = Some 0"
    and "ready_try_ready (sv_links env) (sv_index env) (ss_pool s) (sv_conn env) = Inr p"
  shows "response env ans 0x5A [0x49] s = Some (s\<lparr>ss_pool := p, ss_phase := SessionReady\<rparr>)"
  using assms by (simp add: response_def session_prepare_def turn_end_def prepare_step_def)

text \<open>The slot of the connection is bound to it and still handshaking.\<close>

definition handshaking :: "('t, 'f, 'p, 'v, 's, 'c) session_env \<Rightarrow> ('t, 'w, 'f, 'p) ready_pool \<Rightarrow> bool" where
  "handshaking env p \<longleftrightarrow>
     (\<exists>s b. get (pl_slots p) (sv_index env (sv_conn env)) = Some s \<and> phase_get (sl_phase s) = PhHandshaking b \<and> bd_token b = sv_conn env)"

lemma handshaking_ready: "handshaking env p \<Longrightarrow> \<exists>q. ready_try_ready (sv_links env) (sv_index env) p (sv_conn env) = Inr q"
  by (auto simp: handshaking_def ready_try_ready_def slot_try_ready_def Let_def)

end
