(* ===== verification/Pg_Session_Claims.thy ===== *)
theory Pg_Session_Claims
  imports Pg_Session_Run Pg_Prepare_Claims Pg_Pool_Claims Scram_Claims
begin

text \<open>
  The properties of a connection's handshake, over every run and for every server that conforms.
\<close>

text \<open>C39: In every run of a handshake, whatever the server sends, however messages, ends of turns and the work of
  other connections interleave, the connection joins the pool only after the server authenticated, without a
  challenge or by the signature over the exchange that the password yields, was ready, sent exactly the replies to
  the statements of the query set, each description matching its query, and was ready again.\<close>

theorem ready_only_after_handshake:
  assumes "session_run env tr s" and "ss_phase s = SessionReady"
    and "words_ok (sv_compress env)" and "waiters_laws (sv_waiters env)"
    and "\<And>raw. length raw = 18 \<Longrightarrow> length (b6_encode (sv_base64 env) raw) \<le> 24"
  shows "\<exists>A P. core tr = A @ [ready_message] @ P @ [ready_message] \<and> authenticated env A \<and> transcript env P"
  using session_run_inv[OF assms(1,3,4,5)] assms(2) by (simp add: session_inv_def)

text \<open>C40: Once authenticated, a connection whose slot is still its own, whose set matches its types and whose
  requests are accepted by the runtime is never stuck: the messages of any server that prepares the set as asked
  lead through the handshake into the pool, with the preparation sent once.\<close>

theorem handshake_completes:
  assumes "ss_phase s = AwaitingReady" and "catalog_try_new (sv_types env) (pr_groups (sv_prepare env)) = Inr ()"
    and "an_load ans (pr_wire (sv_prepare env)) = None" and "an_egress ans (pr_wire (sv_prepare env)) = None"
    and "an_depth ans = Some 0"
    and "transcript env P" and "handshaking env (ss_pool s)"
  shows "\<exists>p. ready_try_ready (sv_links env) (sv_index env) (ss_pool s) (sv_conn env) = Inr p \<and>
    responses env ans ([ready_message] @ P @ [ready_message]) s =
      Some (s\<lparr>ss_phase := SessionReady, ss_pool := p, ss_sent := ss_sent s @ [pr_wire (sv_prepare env)]\<rparr>)"
proof -
  obtain p where p: "ready_try_ready (sv_links env) (sv_index env) (ss_pool s) (sv_conn env) = Inr p"
    using handshaking_ready[OF assms(7)] by blast
  let ?s = "s\<lparr>ss_phase := Preparing (prepare_new (pr_groups (sv_prepare env)) (pr_flags (sv_prepare env))),
    ss_sent := ss_sent s @ [pr_wire (sv_prepare env)]\<rparr>"
  have "responses env ans P ?s = Some (?s\<lparr>ss_phase := Preparing PrepareComplete\<rparr>)"
    using responses_prepare[of env P PrepareComplete ?s ans] assms(6) by (simp add: prepare_transcript)
  moreover have "response env ans 0x5A [0x49] (?s\<lparr>ss_phase := Preparing PrepareComplete\<rparr>) =
      Some (s\<lparr>ss_phase := SessionReady, ss_pool := p, ss_sent := ss_sent s @ [pr_wire (sv_prepare env)]\<rparr>)"
    using response_complete[of "?s\<lparr>ss_phase := Preparing PrepareComplete\<rparr>" ans env p] assms(5) p by simp
  ultimately have "responses env ans (ready_message # P @ [ready_message]) s =
      Some (s\<lparr>ss_phase := SessionReady, ss_pool := p, ss_sent := ss_sent s @ [pr_wire (sv_prepare env)]\<rparr>)"
    using response_begin[OF assms(1-4)] by (simp add: ready_message_def responses_append)
  with p show ?thesis by simp
qed

section \<open>A handshake\<close>

text \<open>One query, prepared over a connection that the server admits without a challenge.\<close>

definition demo_groups :: query_groups where
  "demo_groups = [[], [demo_meta]]"

definition demo_env ::
    "(nat, unit, list_links, nat list_waiters, nat \<times> bytes, unit) session_env" where
  "demo_env = \<lparr>sv_links = demo_links, sv_index = id, sv_conn = 0, sv_slot = 0, sv_compress = demo_compress,
     sv_base64 = demo_base64, sv_waiters = list_waiters 1, sv_spare = list_spare, sv_fresh = (1000, []),
     sv_user = [117], sv_database = [100], sv_schema = None, sv_password = [1],
     sv_prepare = \<lparr>pr_wire = set_text demo_groups, pr_statements = set_statements demo_groups, pr_groups = demo_groups,
       pr_flags = prepare_dynamic demo_groups\<rparr>,
     sv_types = demo_set, sv_cause = (\<lambda>_. ()), sv_permanent = (\<lambda>_. False)\<rparr>"

definition demo_answers :: "unit answers" where
  "demo_answers = \<lparr>an_buffer = True, an_load = (\<lambda>_. None), an_egress = (\<lambda>_. None), an_entropy = Inl PgRandom, an_full = None, an_retain = None, an_depth = Some 0\<rparr>"

definition demo_replies :: "message list" where
  "demo_replies = [(0x31, []), (0x74, be16 (length demo_oids) @ concat (map be32 demo_oids)), (0x54, description_bytes demo_description)]"

definition demo_session :: "session_phase \<Rightarrow> (nat, unit, unit, list_links, nat list_waiters) session" where
  "demo_session phase = \<lparr>ss_phase = phase, ss_pool = demo_bound, ss_kdf = \<lparr>rt_waiters = ([], []), rt_state = coordinator_default\<rparr>, ss_sent = []\<rparr>"

lemma demo_matched: "catalog_try_new demo_set demo_groups = Inr ()"
  by (simp add: catalog_try_new_def demo_set_def demo_groups_def query_matches_def demo_meta_def)

lemma demo_transcript: "transcript demo_env demo_replies"
proof -
  have "catalog_first demo_groups = StepQuery \<lparr>cu_group = 1, cu_query = 0\<rparr>" by code_simp
  moreover have "cursor_metadata demo_groups \<lparr>cu_group = 1, cu_query = 0\<rparr> = Some demo_meta"
    by (simp add: demo_groups_def cursor_metadata_def get_def)
  moreover have "types_parameters (be16 (length demo_oids) @ concat (map be32 demo_oids)) demo_oids = Inr ()"
    by (subst types_parameters_exact) (simp_all add: demo_oids_def)
  moreover have "list_validate demo_set 1 0 (description_bytes demo_description) registry_default = Inr ()"
    using demo_described by (simp add: demo_set_def)
  ultimately have "replies_ok demo_env registry_default [demo_replies]"
    by (auto simp: replies_ok_def reply_ok_def demo_env_def demo_replies_def demo_meta_def demo_query_def)
  moreover have "probe_ok demo_env [] registry_default" 
    by (simp add: probe_ok_def demo_env_def demo_groups_def prepare_dynamic_def has_ltree_def demo_meta_def demo_query_def demo_row_type_def
        scalar_dynamic_def)
  ultimately show ?thesis unfolding transcript_def
    by (intro exI[of _ "[]"] exI[of _ registry_default] exI[of _ "[demo_replies]"]) (simp add: query_count_def demo_env_def demo_groups_def)
qed

theorem handshake_completes_witness:
  "responses demo_env demo_answers ([ready_message] @ demo_replies @ [ready_message]) (demo_session AwaitingReady) =
     Some ((demo_session SessionReady)\<lparr>ss_pool := demo_ready, ss_sent := [set_text demo_groups]\<rparr>)"
proof -
  have "handshaking demo_env (ss_pool (demo_session AwaitingReady))"
    by (simp add: handshaking_def demo_env_def demo_session_def demo_bound_def get_def phase_get_def demo_slot_def slot_new_def phase_new_def)
  from handshake_completes[OF _ _ _ _ _ demo_transcript this, of demo_answers]
  obtain p where "ready_try_ready demo_links id demo_bound 0 = Inr p"
    "responses demo_env demo_answers ([ready_message] @ demo_replies @ [ready_message]) (demo_session AwaitingReady) =
      Some ((demo_session SessionReady)\<lparr>ss_pool := p, ss_sent := [set_text demo_groups]\<rparr>)"
    using demo_matched by (auto simp: demo_env_def demo_answers_def demo_session_def)
  with demo_prepared show ?thesis by simp
qed

lemma demo_connect: "\<exists>sent. connect demo_env demo_answers (demo_session NeedsStartup) = (demo_session StartupSent)\<lparr>ss_sent := sent\<rparr>"
proof -
  let ?body = "startup_body (startup_params [117] [100] (ascii ''cartel-pg'') None default_timeout)"
  have n: "length ?body \<le> 200"
    by (simp add: startup_body_def startup_params_def cstr_def ascii_def decimal.simps default_timeout_def)
  have "writes list_spare (wr_startup list_spare [117] [100] (ascii ''cartel-pg'') None default_timeout) (be32 (length ?body + 4) @ ?body) ()"
    by (rule writes_startup[OF list_spare_laws]) (use n in simp)
  from writes_room[OF this, of "(1000, [])"] n
  obtain t where "wr_startup list_spare [117] [100] (ascii ''cartel-pg'') None default_timeout (1000, []) = Inr (t, ())"
    by (auto simp: list_spare_def)
  then show ?thesis
    by (auto simp: connect_def Let_def build_frame_def enqueue_def demo_env_def demo_answers_def demo_session_def list_spare_def)
qed

lemma run_responses:
  "session_run env tr s \<Longrightarrow> entropy_ok ans \<Longrightarrow> 0x52 \<notin> fst ` set ms \<Longrightarrow> responses env ans ms s = Some s' \<Longrightarrow> session_run env (tr @ ms) s'"
proof (induction ms arbitrary: tr s)
  case (Cons m ms)
  obtain ty data where m: "m = (ty, data)" by (cases m)
  with Cons.prems(4) obtain s1 where 1: "response env ans ty data s = Some s1" "responses env ans ms s1 = Some s'"
    by (auto simp: bind_eq_Some_conv)
  have "begun env ans ty data (ss_phase s) = None"
    using Cons.prems(3) m by (auto simp: begun_def split: session_phase.split sum.split auth_request.split)
  then have "session_run env (tr @ [(ty, data)]) s1" using session_run.received[OF Cons.prems(1,2) _ 1(1)] by simp
  from Cons.IH[OF this Cons.prems(2) _ 1(2)] Cons.prems(3) m show ?case by simp
qed simp

lemma demo_session_run:
  "\<exists>s :: (nat, unit, unit, list_links, nat list_waiters) session. session_run demo_env ([(0x52, [0, 0, 0, 0])] @ [ready_message] @ demo_replies @ [ready_message]) s \<and> ss_phase s = SessionReady"
proof -
  obtain sent where c: "connect demo_env demo_answers (demo_session NeedsStartup) = (demo_session StartupSent)\<lparr>ss_sent := sent\<rparr>"
    using demo_connect by blast
  have e: "entropy_ok demo_answers" by (simp add: entropy_ok_def demo_answers_def)
  have r0: "session_run demo_env [] ((demo_session StartupSent)\<lparr>ss_sent := sent\<rparr>)"
    using session_run.started[of demo_env demo_answers "demo_session NeedsStartup"] by (simp add: c)
  have "auth_decode [0, 0, 0, 0] = Inr AuthOk" by code_simp
  then have "response demo_env demo_answers 0x52 [0, 0, 0, 0] ((demo_session StartupSent)\<lparr>ss_sent := sent\<rparr>) =
      Some ((demo_session AwaitingReady)\<lparr>ss_sent := sent\<rparr>)"
    by (simp add: response_def startup_def turn_end_def demo_session_def)
  from session_run.received[OF r0 e _ this]
  have r1: "session_run demo_env [(0x52, [0, 0, 0, 0])] ((demo_session AwaitingReady)\<lparr>ss_sent := sent\<rparr>)"
    by (simp add: begun_def demo_session_def)
  have "response demo_env demo_answers 0x5A [0x49] ((demo_session AwaitingReady)\<lparr>ss_sent := sent\<rparr>) =
      Some ((demo_session (Preparing (prepare_new demo_groups (prepare_dynamic demo_groups))))\<lparr>ss_sent := sent @ [set_text demo_groups]\<rparr>)"
    (is "_ = Some ?p")
    using demo_matched by (subst response_begin) (simp_all add: demo_session_def demo_env_def demo_answers_def)
  moreover have "responses demo_env demo_answers demo_replies ?p = Some (?p\<lparr>ss_phase := Preparing PrepareComplete\<rparr>)"
    by (rule responses_prepare) (use demo_transcript prepare_transcript in \<open>auto simp: demo_session_def demo_env_def\<close>)
  moreover have "response demo_env demo_answers 0x5A [0x49] (?p\<lparr>ss_phase := Preparing PrepareComplete\<rparr>) =
      Some (?p\<lparr>ss_phase := SessionReady, ss_pool := demo_ready\<rparr>)"
    by (subst response_complete[where p = demo_ready]) (simp_all add: demo_session_def demo_env_def demo_answers_def demo_prepared)
  ultimately have "responses demo_env demo_answers ([ready_message] @ demo_replies @ [ready_message]) ((demo_session AwaitingReady)\<lparr>ss_sent := sent\<rparr>) =
      Some (?p\<lparr>ss_phase := SessionReady, ss_pool := demo_ready\<rparr>)"
    by (simp add: ready_message_def responses_append)
  from run_responses[OF r1 e _ this]
  have "session_run demo_env ([(0x52, [0, 0, 0, 0])] @ [ready_message] @ demo_replies @ [ready_message]) (?p\<lparr>ss_phase := SessionReady, ss_pool := demo_ready\<rparr>)"
    by (simp add: ready_message_def demo_replies_def)
  moreover have "ss_phase (?p\<lparr>ss_phase := SessionReady, ss_pool := demo_ready\<rparr>) = SessionReady" by simp
  ultimately show ?thesis by blast
qed

theorem ready_only_after_handshake_witness:
  "\<exists>A P. core ([(0x52, [0, 0, 0, 0])] @ [ready_message] @ demo_replies @ [ready_message]) = A @ [ready_message] @ P @ [ready_message] \<and>
     authenticated demo_env A \<and> transcript demo_env P"
proof -
  obtain s :: "(nat, unit, unit, list_links, nat list_waiters) session" where s: "session_run demo_env ([(0x52, [0, 0, 0, 0])] @ [ready_message] @ demo_replies @ [ready_message]) s" "ss_phase s = SessionReady"
    using demo_session_run by blast
  show ?thesis
    by (rule ready_only_after_handshake[OF s]) (simp_all add: demo_env_def demo_words_ok list_waiters_laws demo_base64_def)
qed

end
