(* ===== verification/Spec2Isabelle.thy ===== *)
theory Spec2Isabelle
  imports Redis_Claims Scram_Claims Pg_Claims Pg_Value_Claims Pg_Prepare_Claims Pg_Pool_Claims Pg_Reply_Claims Pg_Session_Claims
begin

text \<open>
  A verification of the protocol cores of the clients in this repository: the RESP parser and request encoder of
  the Redis client (\<open>src/redis\<close>), and the wire protocol, value codecs, statement preparation, connection pool and
  connection handshake of the PostgreSQL client (\<open>src/pg\<close>), with what both take from \<open>src/core\<close>.

  The parts and how they interact.  The Redis client writes requests with one encoder that measures before it
  writes, and reads replies with a scanner that may stop and resume at any byte; the scanner builds a tape of
  nodes in a pool shared by all connections, a gate limits how many parse at once, and readers walk the tape.  The
  PostgreSQL client cuts its input into messages, authenticates with SCRAM-SHA-256 where key derivations are shared
  by connections and advance a bounded number of rounds per turn, prepares every statement of its query set and
  checks the server's descriptions against the row types, and then joins a pool from which requests and
  transactions pick connections.  Rows are validated once and re-read without checks; so are diagnostics.

  Theories and sources.
    \<^item> \<open>Prelude\<close>, \<open>Digits\<close>: machine integers, results and lists shared by all; \<open>core/src/lib.rs\<close>.
    \<^item> \<open>Resp_Limit\<close>, \<open>Resp_Line\<close>, \<open>Resp_Number\<close>, \<open>Resp_Pool\<close>, \<open>Resp_Gate\<close>, \<open>Resp_State\<close>, \<open>Resp_Tape\<close>, \<open>Resp_Read\<close>:
      \<open>redis/src/protocol/parser/\<close> with \<open>limit.rs\<close>, \<open>number.rs\<close>, \<open>mod.rs\<close>, \<open>state.rs\<close>, \<open>storage/\<close> and \<open>frame/\<close>.
      \<open>Resp_Source\<close>, \<open>Resp_Wire\<close>, \<open>Resp_Safe\<close>, \<open>Resp_Resume\<close> hold the specification and the proofs: encodings of
      replies are scanned in any pieces to their preorder (C1) and read back (C2), arbitrary input never breaks the
      shared pool (C3), a resumed scan finds what a scan of the whole input finds (C4), and the gate counts its
      holders (C5).  \<open>Fifo\<close> is the contract of the queue that the gate waits in.
    \<^item> \<open>Req_Encode\<close>, \<open>Req_Frame\<close>, \<open>Req_Calls\<close>: \<open>redis/src/request/\<close>.  The locale \<open>exact_frame\<close> states the contract of
      a pair of passes, one that measures and one that writes; it is interpreted for plain commands, sequences and
      script calls (C6 to C9).
    \<^item> \<open>Pg_Wire\<close>, \<open>Pg_Encode\<close>, \<open>Pg_Frame\<close>: \<open>pg/src/protocol/\<close> with \<open>wire.rs\<close>, \<open>messages.rs\<close>, \<open>encode/\<close>, \<open>frame/\<close>:
      messages are written whole with their lengths and cut again from any stream (C16 to C20).
    \<^item> \<open>Scram_Parser\<close>, \<open>Scram_Accept\<close>, \<open>Scram_Hash\<close>, \<open>Scram_Kdf\<close>, \<open>Scram_Jobs\<close>, \<open>Scram\<close>: \<open>pg/src/protocol/scram/\<close>: the
      messages accepted, the streams of hashes against RFC 5802, the jobs of the key derivation with their bound on
      polls, the coordinator of shared jobs, and mutual authentication (C10 to C15, and C21 below over the wire).
    \<^item> \<open>Pg_Text\<close>, \<open>Pg_Row\<close>, \<open>Pg_Row_Spec\<close>, \<open>Pg_Results\<close>, \<open>Pg_Bind\<close>, \<open>Pg_Bind_Spec\<close>, \<open>Sql_Parts\<close>, \<open>Pg_Desc\<close>,
      \<open>Pg_Desc_Spec\<close>: \<open>pg/src/protocol/value/\<close>, \<open>pg/src/schema/\<close>, \<open>pg/src/api/results/\<close>, \<open>core/src/sql/\<close>: rows,
      parameters and descriptions, what each accepts and how they fit together (C22 to C30).  The values that a server
      sends for a described column include nulls and arrays of every shape; C28 says which of them the fields take.
    \<^item> \<open>Pg_Prepare\<close>, \<open>Pg_Prepare_Spec\<close>: \<open>pg/src/schema/prepare/\<close> and \<open>groups/\<close>: the wire that prepares a set and the
      walk of its catalog (C31 to C33).
    \<^item> \<open>Pg_Slot\<close>, \<open>Pg_Pool\<close>, \<open>Pg_Pool_Index\<close>, \<open>Pg_Pool_Inv\<close>, \<open>Pg_Pool_Select\<close>, \<open>Pg_Pool_Run\<close>: \<open>pg/src/port/pool/\<close> and
      \<open>pg/src/protocol/runtime/\<close> with \<open>ready/\<close> and \<open>tx/\<close>: one connection's phases, the pool's ring, lists and counters,
      its invariant over every run, selection and transactions (C34 to C37).
    \<^item> \<open>Pg_Diag\<close>, \<open>Pg_Diag_Spec\<close>: \<open>pg/src/reply/\<close>: diagnostics, parsed with checks and re-read without (C38).
    \<^item> \<open>Pg_Payload\<close>, \<open>Pg_Session\<close>, \<open>Pg_Session_Spec\<close>, \<open>Pg_Session_Run\<close>: \<open>pg/src/protocol/logic/\<close> with \<open>payloads.rs\<close>,
      \<open>turn.rs\<close>, \<open>state.rs\<close>, \<open>failure.rs\<close>: the turns of a connection until it joins the pool, composed of the parts
      above; no interleaving of messages, turns and other connections joins it early (C39), and a server that does as
      asked brings it there (C40).
    The properties are in the theories named \<open>_Claims\<close>, each with a witness at a concrete input where it has
    hypotheses.

  How the code is modelled.  Bytes are \<open>8 word\<close>; lengths and counters are natural numbers with the width written
  out where the code narrows, wraps, saturates or checks; the counters of the pool and the replayed numbers that
  the code changes without checks are modelled with their wrap-around.  Fallible code returns a sum with the errors
  of the source.  Reads that the source makes without bounds checks and the memory it leaves uninitialized are
  options whose \<open>None\<close> is what must not happen.  Shared structures are explicit states.  A loop that consumes its
  input is a recursion proved to end.  The loops that the code leaves by what it finds, those of the scanner, of the
  searches through the ring and the lists, and of the search for a transaction, are partial functions into an option
  where \<open>None\<close> is not returning; no fuel is used, and the properties of these components state that they return.

  Parameters.  The crates \<open>o3\<close>, \<open>dope\<close>, \<open>sha2\<close> and \<open>base64\<close> are not in the repository.  Their operations are
  arguments of the definitions: the block function of SHA-256 (\<open>compress\<close>, of which \<open>words_ok\<close> asks the number of
  words), the codec of base64 (\<open>base64_ops\<close>), spare buffers (\<open>spare_ops\<close>), indexed queues (\<open>fifo\<close>, \<open>waiters\<close>), linked lists with
  their bitmap (\<open>links_ops\<close>), allocation and decode input.  What the code relies on is a named hypothesis
  (\<open>spare_laws\<close>, \<open>waiters_laws\<close>, \<open>links_laws\<close>, \<open>fifo_laws\<close>, \<open>source_ok\<close>), and an instance on lists satisfies each.
  Of the server it is assumed that the identifiers it assigns to an extension's types lie behind those of its own
  (\<open>registry_assigned\<close>).  What the
  runtime answers during a turn of the handshake, whether a frame is queued, entropy, room for a diagnostic, is the
  record \<open>answers\<close>, arbitrary in every step.

  Not modelled.  The phases of a PostgreSQL connection after it joined the pool route messages to the reply slots of
  \<open>o3\<close> and \<open>dope\<close>, whose types are outside the repository; so do the logic and the scheduling of the Redis client,
  the futures of both interfaces, notifications, deadlines and the request queues of \<open>core\<close>.  The SQLite client is a
  binding to the C library.  The query languages are combinators of types that the compiler resolves, the code
  generator is a procedural macro over syntax trees of a third-party crate, and configuration is builders.
  Waking a waiting task, recording a fatal signal and memory accounting are left out of the operations that do them;
  what they return to those operations is kept.
\<close>

section \<open>SCRAM over the wire\<close>

text \<open>C21: After it accepted a server's first message, the client's final message goes out as one password
  message that a frame codec takes whole: it repeats the nonce and carries the base64 text of a proof that
  a server with the stored key of the keys used accepts, and the client keeps the signature it expects.\<close>

theorem final_message_framed:
  assumes "words_ok cf" and "spare_laws S" and "length client = 24" and "first_accepted B client nonce salt ds n exts"
    and "scram_begin cf B None (AwaitServerFirst client) pw (first_text nonce salt n exts) = Inr (Deriving d)"
    and "ks = scram_keys cf salted" and "prf = final_proof cf nonce (first_text nonce salt n exts) ks"
    and "body = ascii ''c=biws,r='' @ nonce @ ascii '',p='' @ copy_at 0 (b6_encode B prf) (replicate 44 61)"
    and "length body + 5 \<le> sp_room S s" and "length body + 4 < limit" and "limit \<le> i32_max"
  shows "\<exists>s'. wr_sasl_final S (write_final cf B S d ks) s =
      Inr (s', Some (hmac_ref cf (ks_server ks) (auth_message client (first_text nonce salt n exts) nonce))) \<and>
    sp_content S s' = sp_content S s @ message_text fe_password body \<and>
    codec_parse limit grow (message_text fe_password body @ rest) = Inr (Item (Message fe_password body) (length body + 5)) \<and>
    server_accepts cf (ks_stored ks) (auth_message client (first_text nonce salt n exts) nonce) prf"
proof -
  have tk: "take 24 nonce = client" using assms(3,4) by (simp add: first_accepted_def)
  have d: "d = first_deriving cf pw nonce salt ds n exts"
    using assms(5) begin_accepts[OF assms(1,4), of pw] by simp
  have n: "length body + 4 \<le> i32_max" using assms(10,11) by linarith
  have lim: "limit \<le> u32_max" using assms(11) by linarith
  note w = writes_sasl_final[OF assms(2) writes_final[OF assms(1-3) tk, of B pw salt ds n exts ks, folded assms(7), folded assms(8)] n]
  obtain s' where "wr_sasl_final S (write_final cf B S d ks) s =
      Inr (s', Some (hmac_ref cf (ks_server ks) (auth_message client (first_text nonce salt n exts) nonce)))"
    "sp_content S s' = sp_content S s @ message_text fe_password body"
    using writes_room[OF w, of s] assms(9) unfolding d by auto
  with parse_message[OF assms(10) lim] final_proof_accepted[OF assms(1,3) tk, of salted "first_text nonce salt n exts"]
  show ?thesis unfolding assms(6,7) by blast
qed

theorem final_message_framed_witness:
  "\<exists>s' d sig. scram_begin demo_compress demo_base64 None (AwaitServerFirst demo_nonce) [1] demo_first = Inr (Deriving d) \<and>
     wr_sasl_final list_spare (write_final demo_compress demo_base64 list_spare d (scram_keys demo_compress [9])) (500, []) =
       Inr (s', Some sig)"
proof -
  let ?n = "demo_nonce @ [66]"
  let ?p = "final_proof demo_compress ?n (first_text ?n [65, 65, 65, 65] 4096 []) (scram_keys demo_compress [9])"
  let ?b = "ascii ''c=biws,r='' @ ?n @ ascii '',p='' @ copy_at 0 (b6_encode demo_base64 ?p) (replicate 44 61)"
  have n: "length demo_nonce = 24" by (simp add: demo_nonce_def)
  note b = begin_accepts[OF demo_words_ok demo_accepted, of "[1]"]
  have "length ?p = 32"
    by (simp add: final_proof_def hmac_auth_message_ref[OF demo_words_ok] length_hmac_ref[OF demo_words_ok] scram_keys_def)
  then have "length ?b \<le> 100" using n by (simp add: demo_base64_def ascii_def)
  then have "length ?b + 5 \<le> sp_room list_spare (500, [])" "length ?b + 4 < 1000" "1000 \<le> i32_max"
    by (simp_all add: list_spare_def)
  from final_message_framed[OF demo_words_ok list_spare_laws n demo_accepted b refl refl refl this] b
  show ?thesis unfolding demo_first_def by blast
qed

end
